(* ===== verification/Prelude.thy ===== *)
theory Prelude
  imports Main "HOL-Library.Word"
begin

text \<open>
  Shared vocabulary of the development.

  \<^item> Machine integers: \<open>u8\<close>, \<open>u32\<close> and \<open>u64\<close> are the C types \<open>uint8_t\<close>, \<open>uint32_t\<close> (also
    \<open>uid_t\<close>, \<open>gid_t\<close> and \<open>mode_t\<close>) and \<open>uint64_t\<close> (also \<open>size_t\<close> on a 64-bit system).
  \<^item> Bytes: a C \<open>char\<close> is an HOL \<open>char\<close>, so text and raw file contents are \<open>string\<close>;
    \<open>byte_of_char\<close> and \<open>char_of_byte\<close> convert between \<open>char\<close> and \<open>uint8_t\<close>.
  \<^item> Errors: every call of \<open>die()\<close> or \<open>dieErrno()\<close> ends the program. It is a value of
    \<open>nb_error\<close>; an operation that may die returns \<open>nb_error + 'a\<close>, and \<open>bindE\<close> runs the
    next step unless the program has already died.
\<close>

section \<open>Machine integers and bytes\<close>

type_synonym u8 = "8 word"
type_synonym u32 = "32 word"
type_synonym u64 = "64 word"

abbreviation NUL :: char where
  "NUL \<equiv> CHR 0x00"

definition byte_of_char :: "char \<Rightarrow> u8" where
  "byte_of_char c = word_of_nat (of_char c)"

definition char_of_byte :: "u8 \<Rightarrow> char" where
  "char_of_byte w = char_of (unat w)"

lemma of_char_lt_256: "(of_char c :: nat) < 256"
  by (cases c) (auto simp: of_char_def split: bool.splits)

lemma char_of_byte_of_char [simp]: "char_of_byte (byte_of_char c) = c"
  using of_char_lt_256 [of c]
  by (simp add: char_of_byte_def byte_of_char_def unat_of_nat)

lemma byte_of_char_of_byte [simp]: "byte_of_char (char_of_byte w) = w"
proof -
  have "unat w < 256" using unsigned_less [of w, where ?'a = nat] by simp
  then show ?thesis by (simp add: char_of_byte_def byte_of_char_def)
qed

lemma byte_of_char_inject [simp]: "byte_of_char c = byte_of_char d \<longleftrightarrow> c = d"
  by (metis char_of_byte_of_char)

lemma char_of_byte_inject [simp]: "char_of_byte c = char_of_byte d \<longleftrightarrow> c = d"
  by (metis byte_of_char_of_byte)

lemma byte_of_char_comp [simp]: "byte_of_char \<circ> char_of_byte = id" "char_of_byte \<circ> byte_of_char = id"
  by (simp_all add: fun_eq_iff)

lemma map_byte_of_char_of_byte [simp]: "map byte_of_char (map char_of_byte ws) = ws"
  by (induction ws) auto

lemma map_char_of_byte_of_char [simp]: "map char_of_byte (map byte_of_char cs) = cs"
  by (induction cs) auto

text \<open>The largest value of \<open>size_t\<close> and of \<open>uint64_t\<close>.\<close>

definition SIZE_MAX :: nat where
  "SIZE_MAX = 2 ^ 64 - 1"

lemma unat_u64_le: "unat (w :: u64) \<le> SIZE_MAX"
  using unsigned_less [of w, where ?'a = nat] by (simp add: SIZE_MAX_def)

lemma unat_word_of_nat_u64 [simp]: "n \<le> SIZE_MAX \<Longrightarrow> unat (word_of_nat n :: u64) = n"
  by (simp add: SIZE_MAX_def unat_of_nat)

section \<open>Errors\<close>

text \<open>
  One constructor for each message that a modelled function passes to \<open>die()\<close> or
  \<open>dieErrno()\<close>, with the values the message prints. \<open>Endless_recursion\<close> stands for a recursion
  that exhausts the stack and \<open>Null_pointer\<close> for an access through \<open>NULL\<close>; the theories that use
  them prove that or when they never occur.
\<close>

datatype nb_error =
    Overflow_size
  | Overflow_uint64
  | Allocate_zero_bytes
  | Out_of_memory nat
  | Unsupported_endianness
  | Metadata_too_short nat nat string
  | Size_out_of_range string
  | Time_out_of_range string
  | Backup_id_out_of_range string
  | Invalid_path_state_type string
  | Filename_length_zero string
  | Filename_null_bytes string
  | Invalid_filename string string
  | Trailing_bytes string
  | Config_null_bytes
  | Config_invalid_policy nat string
  | Config_pattern_without_policy nat string
  | Config_dot_elements nat string
  | Config_redefinition nat bool nat string
  | Config_invalid_path nat string
  | Regex_error string nat string string
  | Ambiguous_rules string
  | File_access_failed string
  | Symlink_changed string
  | File_changed string
  | End_of_file string
  | Slot_overflow
  | Path_not_in_repository string
  | Path_not_existing_then string
  | Path_not_directory_then string
  | Buffer_overrun
  | Repository_file_missing string string
  | Repository_end_of_file string string
  | Repository_locked
  | Lock_failed string
  | Directory_failed string
  | Remove_failed string
  | Write_failed string
  | Not_a_regular_file string
  | Not_a_number string
  | Negative_size string
  | Size_too_large string
  | Die string
  | Null_pointer
  | Endless_recursion

type_synonym 'a result = "nb_error + 'a"

definition bindE :: "'e + 'a \<Rightarrow> ('a \<Rightarrow> 'e + 'b) \<Rightarrow> 'e + 'b" where
  "bindE r f = (case r of Inl e \<Rightarrow> Inl e | Inr x \<Rightarrow> f x)"

lemma bindE_simps [simp]:
  "bindE (Inl e) f = Inl e"
  "bindE (Inr x) f = f x"
  by (simp_all add: bindE_def)

lemma bindE_eq_Inr: "bindE r f = Inr y \<longleftrightarrow> (\<exists>x. r = Inr x \<and> f x = Inr y)"
  by (cases r) auto

lemma bindE_eq_Inl: "bindE r f = Inl e \<longleftrightarrow> r = Inl e \<or> (\<exists>x. r = Inr x \<and> f x = Inl e)"
  by (cases r) auto

lemma bindE_assoc: "bindE (bindE r f) g = bindE r (\<lambda>x. bindE (f x) g)"
  by (cases r) auto

lemma bindE_cong [fundef_cong]:
  "r = r' \<Longrightarrow> (\<And>x. r' = Inr x \<Longrightarrow> f x = g x) \<Longrightarrow> bindE r f = bindE r' g"
  by (cases r') auto

text \<open>A loop over a list whose body may die.\<close>

fun foldE :: "('x \<Rightarrow> 's \<Rightarrow> 'e + 's) \<Rightarrow> 'x list \<Rightarrow> 's \<Rightarrow> 'e + 's" where
  "foldE f [] s = Inr s"
| "foldE f (x # xs) s = bindE (f x s) (foldE f xs)"

lemma foldE_append: "foldE f (xs @ ys) s = bindE (foldE f xs s) (foldE f ys)"
proof (induction xs arbitrary: s)
  case (Cons x xs)
  then show ?case by (cases "f x s") auto
qed simp

lemma foldE_invariant:
  assumes "foldE f xs s = Inr t" and "P s"
    and "\<And>x s t. x \<in> set xs \<Longrightarrow> P s \<Longrightarrow> f x s = Inr t \<Longrightarrow> P t"
  shows "P t"
  using assms by (induction xs arbitrary: s) (auto simp: bindE_eq_Inr)

text \<open>
  The result of an operation that never fails with an error of \<open>E\<close> and, when it returns, returns
  something with \<open>P\<close>.
\<close>

definition never :: "nb_error set \<Rightarrow> ('a \<Rightarrow> bool) \<Rightarrow> 'a result \<Rightarrow> bool" where
  "never E P r = (case r of Inl e \<Rightarrow> e \<notin> E | Inr x \<Rightarrow> P x)"

lemma never_simps [simp]: "never E P (Inl e) \<longleftrightarrow> e \<notin> E" "never E P (Inr x) \<longleftrightarrow> P x"
  by (simp_all add: never_def)

lemma never_bind:
  "never E Q r \<Longrightarrow> (\<And>x. r = Inr x \<Longrightarrow> Q x \<Longrightarrow> never E P (f x)) \<Longrightarrow> never E P (bindE r f)"
  by (cases r) simp_all

lemma never_mono: "never E Q r \<Longrightarrow> (\<And>x. r = Inr x \<Longrightarrow> Q x \<Longrightarrow> P x) \<Longrightarrow> never E P r"
  by (cases r) simp_all

lemma neverD: "never E P r \<Longrightarrow> (\<forall>e \<in> E. r \<noteq> Inl e) \<and> (\<forall>x. r = Inr x \<longrightarrow> P x)"
  by (cases r) auto

section \<open>Lists\<close>

lemma takeWhile_neq_append [simp]:
  "c \<notin> set xs \<Longrightarrow> takeWhile (\<lambda>x. x \<noteq> c) (xs @ c # ys) = xs"
  by (induction xs) auto

lemma dropWhile_neq_append [simp]:
  "c \<notin> set xs \<Longrightarrow> dropWhile (\<lambda>x. x \<noteq> c) (xs @ c # ys) = c # ys"
  by (induction xs) auto

lemma takeWhile_all: "c \<notin> set xs \<Longrightarrow> takeWhile (\<lambda>x. x \<noteq> c) xs = xs"
  by (induction xs) auto

lemma dropWhile_all: "c \<notin> set xs \<Longrightarrow> dropWhile (\<lambda>x. x \<noteq> c) xs = []"
  by (induction xs) auto

end
