(* ===== verification/Safe_Math.thy ===== *)
theory Safe_Math
  imports Prelude
begin

text \<open>
  Checked arithmetic: \<open>src/safe-math.c\<close>. The functions work on 64-bit words with the guards the
  code has. The lemmas show that they die exactly where the mathematical result does not fit,
  and otherwise return it. \<open>size_add\<close> and \<open>size_mul\<close> are the same operations read as natural
  numbers; the other theories use these where a \<open>size_t\<close> counts elements of a list.
\<close>

section \<open>The code's functions\<close>

definition sSizeAdd :: "u64 \<Rightarrow> u64 \<Rightarrow> u64 result" where
  "sSizeAdd a b = (if a > - 1 - b then Inl Overflow_size else Inr (a + b))"

definition sSizeMul :: "u64 \<Rightarrow> u64 \<Rightarrow> u64 result" where
  "sSizeMul a b = (if b \<noteq> 0 \<and> a > (- 1) div b then Inl Overflow_size else Inr (a * b))"

definition sUint64Add :: "u64 \<Rightarrow> u64 \<Rightarrow> u64 result" where
  "sUint64Add a b = (if a > - 1 - b then Inl Overflow_uint64 else Inr (a + b))"

definition sUint64Mul :: "u64 \<Rightarrow> u64 \<Rightarrow> u64 result" where
  "sUint64Mul a b = (if b \<noteq> 0 \<and> a > (- 1) div b then Inl Overflow_uint64 else Inr (a * b))"

definition sUint64GetDifference :: "u64 \<Rightarrow> u64 \<Rightarrow> u64" where
  "sUint64GetDifference a b = (if a < b then b - a else a - b)"

section \<open>The same operations on natural numbers\<close>

definition size_add :: "nat \<Rightarrow> nat \<Rightarrow> nat result" where
  "size_add a b = (if a + b \<le> SIZE_MAX then Inr (a + b) else Inl Overflow_size)"

definition size_mul :: "nat \<Rightarrow> nat \<Rightarrow> nat result" where
  "size_mul a b = (if a * b \<le> SIZE_MAX then Inr (a * b) else Inl Overflow_size)"

lemma size_add_Inr [simp]: "size_add a b = Inr c \<longleftrightarrow> c = a + b \<and> a + b \<le> SIZE_MAX"
  by (auto simp: size_add_def)

lemma size_mul_Inr [simp]: "size_mul a b = Inr c \<longleftrightarrow> c = a * b \<and> a * b \<le> SIZE_MAX"
  by (auto simp: size_mul_def)

lemma unat_max_u64: "unat (- 1 :: u64) = SIZE_MAX"
  by (simp add: SIZE_MAX_def unsigned_minus_1_eq_mask mask_eq_exp_minus_1)

lemma add_guard: "(a > - 1 - b) \<longleftrightarrow> unat a + unat b > SIZE_MAX" for a b :: u64
proof -
  have "unat (- 1 - b) = SIZE_MAX - unat b"
    by (metis unat_max_u64 unat_sub word_order.extremum)
  then show ?thesis
    using unat_u64_le [of b] by (simp add: word_less_nat_alt) linarith
qed

lemma mul_guard: "(b \<noteq> 0 \<and> a > (- 1) div b) \<longleftrightarrow> unat a * unat b > SIZE_MAX" for a b :: u64
proof (cases "b = 0")
  case False
  then have pos: "0 < unat b" by (simp add: unat_gt_0)
  have "unat ((- 1) div b) = SIZE_MAX div unat b"
    by (simp add: unat_div unat_max_u64)
  moreover have "SIZE_MAX div unat b < unat a \<longleftrightarrow> SIZE_MAX < unat a * unat b"
    using pos by (rule div_less_iff_less_mult)
  ultimately show ?thesis using False by (simp only: word_less_nat_alt) simp
qed simp

lemma unat_add_u64: "unat a + unat b \<le> SIZE_MAX \<Longrightarrow> unat (a + b) = unat a + unat b" for a b :: u64
  by (simp add: SIZE_MAX_def unat_word_ariths)

lemma unat_mul_u64: "unat a * unat b \<le> SIZE_MAX \<Longrightarrow> unat (a * b) = unat a * unat b" for a b :: u64
  by (simp add: SIZE_MAX_def unat_word_ariths)

lemma sSizeAdd_refines: "map_sum id unat (sSizeAdd a b) = size_add (unat a) (unat b)"
  by (simp add: sSizeAdd_def size_add_def add_guard unat_add_u64)

lemma sSizeMul_refines: "map_sum id unat (sSizeMul a b) = size_mul (unat a) (unat b)"
  using mul_guard [of b a] by (auto simp: sSizeMul_def size_mul_def unat_mul_u64)

lemma sUint64Add_Inr:
  "sUint64Add a b = Inr c \<longleftrightarrow> unat a + unat b \<le> SIZE_MAX \<and> c = a + b"
  by (auto simp: sUint64Add_def add_guard)

text \<open>
  All checked operations of \<open>safe-math.c\<close> agree with unbounded arithmetic: a sum or product
  is returned exactly when it fits into 64 bits, with its exact value, and the program dies
  otherwise; the difference of two values is their distance.
\<close>

theorem safe_math_exact:
  "map_sum id unat (sSizeAdd a b) = size_add (unat a) (unat b) \<and>
   map_sum id unat (sSizeMul a b) = size_mul (unat a) (unat b) \<and>
   map_sum id unat (sUint64Add a b) =
     (if unat a + unat b < 2 ^ 64 then Inr (unat a + unat b) else Inl Overflow_uint64) \<and>
   map_sum id unat (sUint64Mul a b) =
     (if unat a * unat b < 2 ^ 64 then Inr (unat a * unat b) else Inl Overflow_uint64) \<and>
   int (unat (sUint64GetDifference a b)) = \<bar>int (unat a) - int (unat b)\<bar>"
proof (intro conjI)
  show "map_sum id unat (sUint64Add a b) =
     (if unat a + unat b < 2 ^ 64 then Inr (unat a + unat b) else Inl Overflow_uint64)"
    using add_guard [of b a] unat_add_u64 [of a b]
    by (auto simp: sUint64Add_def SIZE_MAX_def)
  show "map_sum id unat (sUint64Mul a b) =
     (if unat a * unat b < 2 ^ 64 then Inr (unat a * unat b) else Inl Overflow_uint64)"
    using mul_guard [of b a] unat_mul_u64 [of a b]
    by (auto simp: sUint64Mul_def SIZE_MAX_def)
  show "int (unat (sUint64GetDifference a b)) = \<bar>int (unat a) - int (unat b)\<bar>"
  proof (cases "a < b")
    case True
    then have "unat (b - a) = unat b - unat a" and "unat a \<le> unat b" and "uint a < uint b"
      by (simp_all add: unat_sub order_less_imp_le word_less_def flip: word_le_nat_alt)
    with True show ?thesis unfolding sUint64GetDifference_def by auto
  next
    case False
    then have "unat (a - b) = unat a - unat b" and "unat b \<le> unat a" and "uint b \<le> uint a"
      by (simp_all add: unat_sub not_less word_le_def flip: word_le_nat_alt)
    with False show ?thesis unfolding sUint64GetDifference_def by auto
  qed
qed (rule sSizeAdd_refines sSizeMul_refines)+

end
