(* ===== verification/Allocator.thy ===== *)
theory Allocator
  imports Safe_Math
begin

text \<open>
  Allocators: \<open>src/allocator.c\<close>. An allocation is modelled by the number of bytes the caller may
  use. Whether the C library or a region still has memory is the parameter \<open>avail\<close>: for
  \<open>malloc()\<close> it says that a non-null pointer is returned, for the two region allocators that the
  region does not end the program itself.
\<close>

datatype allocator =
    ALT_always_failing
  | ALT_malloc
  | ALT_region
  | ALT_single_growable_buffer

type_synonym memory = "allocator \<Rightarrow> nat \<Rightarrow> bool"

definition allocate :: "memory \<Rightarrow> allocator \<Rightarrow> nat \<Rightarrow> nat result" where
  "allocate avail a bytes =
     (if bytes = 0 then Inl Allocate_zero_bytes
      else
        let data = (case a of
            ALT_always_failing \<Rightarrow> None
          | ALT_malloc \<Rightarrow> if avail a bytes then Some bytes else None
          | ALT_region \<Rightarrow> if avail a bytes then Some bytes else None
          | ALT_single_growable_buffer \<Rightarrow> if avail a bytes then Some bytes else None)
        in case data of None \<Rightarrow> Inl (Out_of_memory bytes) | Some usable \<Rightarrow> Inr usable)"

lemma allocate_Inr [simp]:
  "allocate avail a bytes = Inr n \<longleftrightarrow>
     n = bytes \<and> 0 < bytes \<and> a \<noteq> ALT_always_failing \<and> avail a bytes"
  by (auto simp: allocate_def split: allocator.splits)

end
