(* ===== verification/Str.thy ===== *)
theory Str
  imports Allocator
begin

text \<open>
  String slices: \<open>src/str.c\<close>. A \<open>StringView\<close> is a pointer into memory, a length and a flag that
  tells whether the byte behind the slice is a terminating NUL. The model keeps the memory from
  the pointer on as a list, so an access behind the end of a slice is visible, and writes every
  loop of the file as a recursion over the same index. The second half of the theory gives each
  function a specification over plain strings and proves that the code implements it; the other
  theories work with the specifications.
\<close>

section \<open>The code's data and functions\<close>

record string_view =
  content :: string
  len :: nat
  is_terminated :: bool

definition strlen :: "string \<Rightarrow> nat" where
  "strlen mem = length (takeWhile (\<lambda>c. c \<noteq> NUL) mem)"

definition str :: "string \<Rightarrow> string_view" where
  "str mem = \<lparr>content = mem, len = strlen mem, is_terminated = True\<rparr>"

definition strUnterminated :: "string \<Rightarrow> nat \<Rightarrow> string_view" where
  "strUnterminated mem n = \<lparr>content = mem, len = n, is_terminated = False\<rparr>"

definition strCopyRaw :: "memory \<Rightarrow> string_view \<Rightarrow> allocator \<Rightarrow> string result" where
  "strCopyRaw avail s a =
     bindE (size_add (len s) 1) (\<lambda>size.
     bindE (allocate avail a size) (\<lambda>_.
       Inr (take (len s) (content s) @ [NUL])))"

definition strGetContent :: "memory \<Rightarrow> string_view \<Rightarrow> allocator \<Rightarrow> string result" where
  "strGetContent avail s a = (if is_terminated s then Inr (content s) else strCopyRaw avail s a)"

definition strSet :: "string_view \<Rightarrow> string_view \<Rightarrow> string_view" where
  "strSet target v = v"

definition strCopy :: "memory \<Rightarrow> string_view \<Rightarrow> allocator \<Rightarrow> string_view result" where
  "strCopy avail s a =
     bindE (strCopyRaw avail s a) (\<lambda>raw.
       Inr \<lparr>content = raw, len = len s, is_terminated = True\<rparr>)"

text \<open>The loop of \<open>strStripTrailingSlashes()\<close>, over \<open>new_length\<close>.\<close>

fun stripLoop :: "string \<Rightarrow> nat \<Rightarrow> nat" where
  "stripLoop c 0 = 0"
| "stripLoop c (Suc n) = (if c ! n = CHR ''/'' then stripLoop c n else Suc n)"

definition strStripTrailingSlashes :: "string_view \<Rightarrow> string_view" where
  "strStripTrailingSlashes s =
     (let new_length = stripLoop (content s) (len s)
      in \<lparr>content = content s, len = new_length,
          is_terminated = (new_length = len s \<and> is_terminated s)\<rparr>)"

text \<open>The two loops of \<open>strSplitPath()\<close>, over \<open>last_slash\<close>.\<close>

fun findLastSlash :: "string \<Rightarrow> nat \<Rightarrow> nat" where
  "findLastSlash c 0 = 0"
| "findLastSlash c (Suc n) = (if c ! n \<noteq> CHR ''/'' then findLastSlash c n else Suc n)"

fun skipSlashRun :: "string \<Rightarrow> nat \<Rightarrow> nat" where
  "skipSlashRun c (Suc (Suc n)) = (if c ! n = CHR ''/'' then skipSlashRun c (Suc n) else Suc (Suc n))"
| "skipSlashRun c n = n"

definition strSplitPath :: "string_view \<Rightarrow> string_view \<times> string_view" where
  "strSplitPath path =
     (let last_slash = skipSlashRun (content path) (findLastSlash (content path) (len path))
      in (\<lparr>content = content path,
           len = (if last_slash > 0 then last_slash - 1 else 0),
           is_terminated = False\<rparr>,
          \<lparr>content = drop last_slash (content path),
           len = len path - last_slash,
           is_terminated = is_terminated path\<rparr>))"

definition strIsEmpty :: "string_view \<Rightarrow> bool" where
  "strIsEmpty s \<longleftrightarrow> len s = 0"

definition memcmp_eq :: "string \<Rightarrow> string \<Rightarrow> nat \<Rightarrow> bool" where
  "memcmp_eq a b n \<longleftrightarrow> take n a = take n b"

definition strIsEqual :: "string_view \<Rightarrow> string_view \<Rightarrow> bool" where
  "strIsEqual a b \<longleftrightarrow> len a = len b \<and> memcmp_eq (content a) (content b) (len a)"

definition strIsWhitespaceOnly :: "string_view \<Rightarrow> bool" where
  "strIsWhitespaceOnly s \<longleftrightarrow>
     list_all (\<lambda>index. \<not> (content s ! index \<noteq> CHR '' '' \<and> content s ! index \<noteq> CHR 0x09)) [0..<len s]"

definition strIsDotElement :: "string_view \<Rightarrow> bool" where
  "strIsDotElement s \<longleftrightarrow>
     (len s = 1 \<and> content s ! 0 = CHR ''.'') \<or>
     (len s = 2 \<and> content s ! 0 = CHR ''.'' \<and> content s ! 1 = CHR ''.'')"

lemma findLastSlash_le: "findLastSlash c n \<le> n"
  by (induction n) auto

lemma skipSlashRun_le: "skipSlashRun c n \<le> n"
  by (induction c n rule: skipSlashRun.induct) auto

lemma strSplitPath_head_shorter:
  "0 < len (fst (strSplitPath path)) \<Longrightarrow> len (fst (strSplitPath path)) < len path"
  using skipSlashRun_le [of "content path" "findLastSlash (content path) (len path)"]
    findLastSlash_le [of "content path" "len path"]
  by (auto simp: strSplitPath_def Let_def split: if_splits)

function strPathContainsDotElements :: "string_view \<Rightarrow> bool" where
  "strPathContainsDotElements path =
     (let split = strSplitPath path
      in strIsDotElement (snd split) \<or>
         (if len (fst split) > 0 then strPathContainsDotElements (fst split) else False))"
  by pat_completeness auto
termination
  by (relation "measure len") (auto dest: strSplitPath_head_shorter)

declare strPathContainsDotElements.simps [simp del]

definition strIsParentPath :: "string_view \<Rightarrow> string_view \<Rightarrow> bool" where
  "strIsParentPath parent path \<longleftrightarrow>
     len parent < len (strStripTrailingSlashes path) \<and>
     content path ! len parent = CHR ''/'' \<and>
     memcmp_eq (content path) (content parent) (len parent)"

definition strAppendPath ::
  "memory \<Rightarrow> string_view \<Rightarrow> string_view \<Rightarrow> allocator \<Rightarrow> string_view result" where
  "strAppendPath avail path filename a =
     bindE (size_add (len path) 1) (\<lambda>l1.
     bindE (size_add l1 (len filename)) (\<lambda>new_path_length.
     bindE (size_add new_path_length 1) (\<lambda>size.
     bindE (allocate avail a size) (\<lambda>_.
       Inr \<lparr>content = take (len path) (content path) @ ''/'' @
                       take (len filename) (content filename) @ [NUL],
            len = new_path_length,
            is_terminated = True\<rparr>))))"

section \<open>What a slice denotes\<close>

text \<open>
  \<open>view\<close> is the string a slice stands for. A well-formed slice lies inside its memory, and if it
  claims to be terminated, a NUL follows it.
\<close>

definition view :: "string_view \<Rightarrow> string" where
  "view s = take (len s) (content s)"

definition sv_wf :: "string_view \<Rightarrow> bool" where
  "sv_wf s \<longleftrightarrow> len s \<le> length (content s) \<and>
     (is_terminated s \<longrightarrow> len s < length (content s) \<and> content s ! len s = NUL)"

lemma view_simps [simp]:
  "view \<lparr>content = c, len = n, is_terminated = t\<rparr> = take n c"
  by (simp add: view_def)

lemma length_view [simp]: "sv_wf s \<Longrightarrow> length (view s) = len s"
  by (simp add: view_def sv_wf_def)

lemma view_nth: "sv_wf s \<Longrightarrow> i < len s \<Longrightarrow> content s ! i = view s ! i"
  by (simp add: view_def)

section \<open>Specifications over strings\<close>

definition strip_slashes :: "string \<Rightarrow> string" where
  "strip_slashes s = rev (dropWhile (\<lambda>c. c = CHR ''/'') (rev s))"

definition upto_last_slash :: "string \<Rightarrow> string" where
  "upto_last_slash p = rev (dropWhile (\<lambda>c. c \<noteq> CHR ''/'') (rev p))"

definition split_path :: "string \<Rightarrow> string \<times> string" where
  "split_path p =
     (if upto_last_slash p = [] then ([], p)
      else let head = strip_slashes (upto_last_slash p)
           in (head, drop (Suc (length head)) p))"

definition is_dot_element :: "string \<Rightarrow> bool" where
  "is_dot_element s \<longleftrightarrow> s = ''.'' \<or> s = ''..''"

definition is_whitespace_only :: "string \<Rightarrow> bool" where
  "is_whitespace_only s \<longleftrightarrow> set s \<subseteq> {CHR '' '', CHR 0x09}"

definition is_parent_path :: "string \<Rightarrow> string \<Rightarrow> bool" where
  "is_parent_path parent path \<longleftrightarrow>
     length parent < length (strip_slashes path) \<and>
     take (Suc (length parent)) path = parent @ ''/''"

definition append_path :: "string \<Rightarrow> string \<Rightarrow> string" where
  "append_path path filename = path @ ''/'' @ filename"

lemma strip_slashes_Nil [simp]: "strip_slashes [] = []"
  by (simp add: strip_slashes_def)

lemma strip_slashes_snoc [simp]:
  "strip_slashes (s @ [c]) = (if c = CHR ''/'' then strip_slashes s else s @ [c])"
  by (simp add: strip_slashes_def)

lemma upto_last_slash_Nil [simp]: "upto_last_slash [] = []"
  by (simp add: upto_last_slash_def)

lemma upto_last_slash_snoc [simp]:
  "upto_last_slash (s @ [c]) = (if c = CHR ''/'' then s @ [c] else upto_last_slash s)"
  by (simp add: upto_last_slash_def)

lemma strip_slashes_decomp: "\<exists>n. s = strip_slashes s @ replicate n CHR ''/''"
proof (induction s rule: rev_induct)
  case (snoc c s)
  then obtain n where n: "s = strip_slashes s @ replicate n CHR ''/''" by blast
  show ?case
  proof (cases "c = CHR ''/''")
    case True
    have "s @ ''/'' = strip_slashes s @ replicate (Suc n) CHR ''/''"
      by (subst n) (simp add: replicate_append_same)
    with True show ?thesis by (metis strip_slashes_snoc)
  next
    case False
    then have "s @ [c] = strip_slashes (s @ [c]) @ replicate 0 CHR ''/''" by simp
    then show ?thesis by blast
  qed
qed simp

lemma strip_slashes_last: "strip_slashes s \<noteq> [] \<Longrightarrow> last (strip_slashes s) \<noteq> CHR ''/''"
  by (induction s rule: rev_induct) auto

lemma strip_slashes_le: "length (strip_slashes s) \<le> length s"
  by (induction s rule: rev_induct) auto

lemma strip_slashes_id: "s = [] \<or> last s \<noteq> CHR ''/'' \<Longrightarrow> strip_slashes s = s"
  by (induction s rule: rev_induct) auto

lemma strip_slashes_idem [simp]: "strip_slashes (strip_slashes s) = strip_slashes s"
  by (metis strip_slashes_id strip_slashes_last)

lemma upto_last_slash_empty: "upto_last_slash p = [] \<longleftrightarrow> CHR ''/'' \<notin> set p"
  by (induction p rule: rev_induct) auto

lemma upto_last_slash_decomp:
  "\<exists>name. p = upto_last_slash p @ name \<and> CHR ''/'' \<notin> set name"
proof (induction p rule: rev_induct)
  case (snoc c p)
  then obtain name where name: "p = upto_last_slash p @ name" "CHR ''/'' \<notin> set name" by blast
  show ?case
  proof (cases "c = CHR ''/''")
    case True
    then have "p @ [c] = upto_last_slash (p @ [c]) @ []" by simp
    then show ?thesis by (metis list.set(1) empty_iff)
  next
    case False
    then have "p @ [c] = upto_last_slash (p @ [c]) @ (name @ [c])"
      using name(1) by simp
    with False name(2) show ?thesis by (metis Un_iff empty_iff insert_iff list.set set_append)
  qed
qed simp

lemma upto_last_slash_last: "upto_last_slash p \<noteq> [] \<Longrightarrow> last (upto_last_slash p) = CHR ''/''"
  by (induction p rule: rev_induct) auto

section \<open>The loops compute the specifications\<close>

lemma take_Suc_snoc: "n < length c \<Longrightarrow> take (Suc n) c = take n c @ [c ! n]"
  by (rule take_Suc_conv_app_nth)

lemma stripLoop_spec: "n \<le> length c \<Longrightarrow> stripLoop c n = length (strip_slashes (take n c))"
  by (induction n) (auto simp: take_Suc_snoc)

lemma take_stripLoop: "n \<le> length c \<Longrightarrow> take (stripLoop c n) c = strip_slashes (take n c)"
  by (induction n) (auto simp: take_Suc_snoc)

lemma findLastSlash_spec:
  "n \<le> length c \<Longrightarrow> findLastSlash c n = length (upto_last_slash (take n c))"
  by (induction n) (auto simp: take_Suc_snoc)

lemma take_findLastSlash:
  "n \<le> length c \<Longrightarrow> take (findLastSlash c n) c = upto_last_slash (take n c)"
  by (induction n) (auto simp: take_Suc_snoc)

lemma skipSlashRun_spec:
  "\<lbrakk>n \<le> length c; 0 < n; c ! (n - 1) = CHR ''/''\<rbrakk> \<Longrightarrow>
   skipSlashRun c n = Suc (length (strip_slashes (take n c)))"
proof (induction c n rule: skipSlashRun.induct)
  case (1 c n)
  show ?case
  proof (cases "c ! n = CHR ''/''")
    case True
    have "take (Suc (Suc n)) c = (take n c @ [c ! n]) @ [c ! Suc n]"
      using 1 by (simp add: take_Suc_snoc)
    then have "strip_slashes (take (Suc (Suc n)) c) = strip_slashes (take n c)"
      using True 1 by (simp only: strip_slashes_snoc) simp
    with True 1 show ?thesis by (simp add: take_Suc_snoc)
  next
    case False
    have "take (Suc (Suc n)) c = (take n c @ [c ! n]) @ [c ! Suc n]"
      using 1 by (simp add: take_Suc_snoc)
    then have "strip_slashes (take (Suc (Suc n)) c) = take n c @ [c ! n]"
      using False 1 by (simp only: strip_slashes_snoc) simp
    with False 1 show ?thesis by simp
  qed
qed (auto simp: strip_slashes_def in_set_conv_nth)

lemma findLastSlash_at_slash:
  "0 < findLastSlash c n \<Longrightarrow> c ! (findLastSlash c n - 1) = CHR ''/''"
  by (induction n) (auto split: if_splits)

section \<open>Every function implements its specification\<close>

lemma view_strStripTrailingSlashes:
  "sv_wf s \<Longrightarrow> view (strStripTrailingSlashes s) = strip_slashes (view s)"
  by (simp add: view_def strStripTrailingSlashes_def sv_wf_def Let_def take_stripLoop)

lemma len_strStripTrailingSlashes:
  "sv_wf s \<Longrightarrow> len (strStripTrailingSlashes s) = length (strip_slashes (view s))"
  by (simp add: view_def strStripTrailingSlashes_def sv_wf_def Let_def stripLoop_spec)

lemma strStripTrailingSlashes_wf: "sv_wf s \<Longrightarrow> sv_wf (strStripTrailingSlashes s)"
  using strip_slashes_le [of "view s"] len_strStripTrailingSlashes [of s]
  by (auto simp: sv_wf_def strStripTrailingSlashes_def Let_def view_def)

lemma last_slash_spec:
  assumes "sv_wf p"
  shows "skipSlashRun (content p) (findLastSlash (content p) (len p)) =
    (if upto_last_slash (view p) = [] then 0
     else Suc (length (strip_slashes (upto_last_slash (view p)))))"
proof (cases "findLastSlash (content p) (len p)")
  case 0
  with assms show ?thesis
    by (simp add: sv_wf_def view_def findLastSlash_spec)
next
  case (Suc n)
  let ?n = "findLastSlash (content p) (len p)"
  have n: "?n \<le> length (content p)" "0 < ?n"
    using assms findLastSlash_le [of "content p" "len p"] Suc by (auto simp: sv_wf_def)
  have "upto_last_slash (view p) \<noteq> []"
    using assms Suc by (auto simp: sv_wf_def view_def findLastSlash_spec)
  moreover have "skipSlashRun (content p) ?n = Suc (length (strip_slashes (take ?n (content p))))"
    using n findLastSlash_at_slash by (intro skipSlashRun_spec) auto
  moreover have "take ?n (content p) = upto_last_slash (view p)"
    using assms by (simp add: sv_wf_def view_def take_findLastSlash)
  ultimately show ?thesis by simp
qed

lemma strip_upto_prefix:
  "take (length (strip_slashes (upto_last_slash p))) p = strip_slashes (upto_last_slash p)"
proof -
  obtain name where p: "p = upto_last_slash p @ name" using upto_last_slash_decomp by blast
  obtain n where "upto_last_slash p = strip_slashes (upto_last_slash p) @ replicate n CHR ''/''"
    using strip_slashes_decomp by blast
  with p show ?thesis by (metis append_assoc append_eq_conv_conj)
qed

lemma view_strSplitPath:
  assumes "sv_wf p"
  shows "view (fst (strSplitPath p)) = fst (split_path (view p))"
    and "view (snd (strSplitPath p)) = snd (split_path (view p))"
proof -
  let ?h = "strip_slashes (upto_last_slash (view p))"
  have le: "length ?h \<le> len p"
    using assms strip_upto_prefix [of "view p"] by (metis length_view length_take min.cobounded1)
  have "take (length ?h) (content p) = take (length ?h) (view p)"
    using le by (simp add: view_def min_def)
  then have pre: "take (length ?h) (content p) = ?h" by (simp add: strip_upto_prefix)
  show "view (fst (strSplitPath p)) = fst (split_path (view p))"
    using pre by (simp add: view_def [of "fst _"] strSplitPath_def last_slash_spec [OF assms]
        split_path_def Let_def)
  have "take (len p - n) (drop n (content p)) = drop n (view p)" for n
    by (simp add: view_def drop_take)
  then show "view (snd (strSplitPath p)) = snd (split_path (view p))"
    by (simp add: view_def [of "snd _"] strSplitPath_def last_slash_spec [OF assms]
        split_path_def Let_def)
qed

lemma strSplitPath_wf:
  assumes "sv_wf p"
  shows "sv_wf (fst (strSplitPath p))" and "sv_wf (snd (strSplitPath p))"
  using assms skipSlashRun_le [of "content p" "findLastSlash (content p) (len p)"]
    findLastSlash_le [of "content p" "len p"]
  by (auto simp: sv_wf_def strSplitPath_def Let_def)

lemma strIsEqual_view: "sv_wf a \<Longrightarrow> sv_wf b \<Longrightarrow> strIsEqual a b \<longleftrightarrow> view a = view b"
  by (metis length_view memcmp_eq_def strIsEqual_def view_def)

lemma strIsEmpty_view: "sv_wf s \<Longrightarrow> strIsEmpty s \<longleftrightarrow> view s = []"
  by (metis length_0_conv length_view strIsEmpty_def)

lemma strIsWhitespaceOnly_view: "sv_wf s \<Longrightarrow> strIsWhitespaceOnly s \<longleftrightarrow> is_whitespace_only (view s)"
proof -
  assume wf: "sv_wf s"
  have "strIsWhitespaceOnly s \<longleftrightarrow>
      (\<forall>i < len s. view s ! i = CHR '' '' \<or> view s ! i = CHR 0x09)"
    using view_nth [OF wf] by (auto simp: strIsWhitespaceOnly_def list_all_iff)
  also have "\<dots> \<longleftrightarrow> is_whitespace_only (view s)"
    using wf by (auto simp: is_whitespace_only_def subset_iff in_set_conv_nth)
  finally show ?thesis .
qed

lemma strIsDotElement_view: "sv_wf s \<Longrightarrow> strIsDotElement s \<longleftrightarrow> is_dot_element (view s)"
proof -
  assume wf: "sv_wf s"
  have one: "view s = [c] \<longleftrightarrow> len s = 1 \<and> content s ! 0 = c" for c
    using wf view_nth [OF wf, of 0] length_view [OF wf]
    by (cases "view s") auto
  have two: "view s = [c, d] \<longleftrightarrow> len s = 2 \<and> content s ! 0 = c \<and> content s ! 1 = d" for c d
    using wf view_nth [OF wf, of 0] view_nth [OF wf, of 1] length_view [OF wf]
    by (cases "view s" rule: remdups_adj.cases) auto
  show ?thesis by (simp only: strIsDotElement_def is_dot_element_def one two)
qed

lemma strip_slashes_append:
  "strip_slashes (a @ b) = (if strip_slashes b = [] then strip_slashes a else a @ strip_slashes b)"
  by (induction b rule: rev_induct) (auto simp flip: append_assoc)

lemma strip_slashes_empty: "strip_slashes s = [] \<longleftrightarrow> (\<forall>c \<in> set s. c = CHR ''/'')"
  by (induction s rule: rev_induct) auto

lemma strip_slashes_Cons:
  "strip_slashes (c # s) =
     (if strip_slashes s = [] then (if c = CHR ''/'' then [] else [c]) else c # strip_slashes s)"
  using strip_slashes_append [of "[c]" s] by (simp add: strip_slashes_def)

lemma is_parent_path_iff:
  "is_parent_path parent path \<longleftrightarrow>
     (\<exists>rest. path = parent @ ''/'' @ rest \<and> (\<exists>c \<in> set rest. c \<noteq> CHR ''/''))"
proof
  assume "is_parent_path parent path"
  then have len: "length parent < length (strip_slashes path)"
    and "take (Suc (length parent)) path = parent @ ''/''"
    by (auto simp: is_parent_path_def)
  then have path: "path = parent @ ''/'' @ drop (Suc (length parent)) path"
    by (metis append.assoc append_take_drop_id)
  moreover have "strip_slashes (drop (Suc (length parent)) path) \<noteq> []"
  proof
    assume "strip_slashes (drop (Suc (length parent)) path) = []"
    then have "strip_slashes path = strip_slashes parent"
      by (subst path) (simp add: strip_slashes_append strip_slashes_Cons)
    with len show False using strip_slashes_le [of parent] by simp
  qed
  ultimately show "\<exists>rest. path = parent @ ''/'' @ rest \<and> (\<exists>c \<in> set rest. c \<noteq> CHR ''/'')"
    by (auto simp: strip_slashes_empty)
next
  assume "\<exists>rest. path = parent @ ''/'' @ rest \<and> (\<exists>c \<in> set rest. c \<noteq> CHR ''/'')"
  then obtain rest where path: "path = parent @ ''/'' @ rest" and "strip_slashes rest \<noteq> []"
    by (auto simp: strip_slashes_empty)
  then have "strip_slashes path = parent @ ''/'' @ strip_slashes rest"
    by (simp add: strip_slashes_append strip_slashes_Cons)
  with path show "is_parent_path parent path" by (simp add: is_parent_path_def)
qed

lemma strIsParentPath_view:
  assumes "sv_wf parent" and "sv_wf path"
  shows "strIsParentPath parent path \<longleftrightarrow> is_parent_path (view parent) (view path)"
proof (cases "len parent < len (strStripTrailingSlashes path)")
  case True
  have "len (strStripTrailingSlashes path) \<le> len path"
    using len_strStripTrailingSlashes [OF assms(2)] strip_slashes_le [of "view path"] assms(2)
    by simp
  with True have lt: "len parent < len path" by simp
  have "take (Suc (len parent)) (view path) = take (len parent) (view path) @ [content path ! len parent]"
    using lt assms by (simp add: take_Suc_snoc view_nth)
  moreover have "take (len parent) (view path) = take (len parent) (content path)"
    using lt by (simp add: view_def min_def)
  moreover have "memcmp_eq (content path) (content parent) (len parent) \<longleftrightarrow>
      take (len parent) (content path) = view parent"
    by (simp add: memcmp_eq_def view_def)
  ultimately show ?thesis using True assms
    by (auto simp: strIsParentPath_def is_parent_path_def len_strStripTrailingSlashes)
next
  case False
  with assms show ?thesis
    by (simp add: strIsParentPath_def is_parent_path_def len_strStripTrailingSlashes)
qed

lemma upto_last_slash_append:
  "CHR ''/'' \<notin> set f \<Longrightarrow> upto_last_slash (p @ f) = upto_last_slash p"
  by (induction f rule: rev_induct) (auto simp flip: append_assoc)

lemma split_path_append:
  assumes "CHR ''/'' \<notin> set f"
  shows "split_path (p @ ''/'' @ f) = (strip_slashes p, drop (Suc (length (strip_slashes p))) (p @ ''/'' @ f))"
proof -
  have "upto_last_slash (p @ ''/'' @ f) = p @ ''/''"
    using upto_last_slash_append [OF assms, of "p @ ''/''"] by simp
  then show ?thesis by (simp add: split_path_def Let_def)
qed

lemma split_append_path:
  assumes "CHR ''/'' \<notin> set f" and "p = [] \<or> last p \<noteq> CHR ''/''"
  shows "split_path (append_path p f) = (p, f)"
  using split_path_append [OF assms(1), of p] strip_slashes_id [OF assms(2)]
  by (simp add: append_path_def)

text \<open>
  The parts of a split path: the head ends before the first slash of the last run of slashes, and
  the tail is what follows that slash.
\<close>

lemma split_path_parts:
  assumes "CHR ''/'' \<in> set p"
  shows "p = fst (split_path p) @ ''/'' @ snd (split_path p)"
    and "fst (split_path p) = [] \<or> last (fst (split_path p)) \<noteq> CHR ''/''"
    and "\<exists>n name. snd (split_path p) = replicate n CHR ''/'' @ name \<and> CHR ''/'' \<notin> set name"
proof -
  let ?u = "upto_last_slash p"
  from assms have u: "?u \<noteq> []" by (simp add: upto_last_slash_empty)
  obtain name where p: "p = ?u @ name" and name: "CHR ''/'' \<notin> set name"
    using upto_last_slash_decomp by blast
  obtain n where n: "?u = strip_slashes ?u @ replicate n CHR ''/''"
    using strip_slashes_decomp by blast
  have "n \<noteq> 0"
  proof
    assume "n = 0"
    with n u strip_slashes_last [of ?u] upto_last_slash_last [of p] show False by simp
  qed
  then obtain m where "n = Suc m" by (cases n) auto
  with p n have p': "p = strip_slashes ?u @ ''/'' @ (replicate m CHR ''/'' @ name)"
    by (metis append.assoc append_Cons append_Nil replicate_Suc)
  have split: "split_path p = (strip_slashes ?u, drop (Suc (length (strip_slashes ?u))) p)"
    using u by (simp add: split_path_def Let_def)
  have "drop (Suc (length (strip_slashes ?u))) p = replicate m CHR ''/'' @ name"
    by (subst p') simp
  with split p' name strip_slashes_last [of ?u]
  show "p = fst (split_path p) @ ''/'' @ snd (split_path p)"
    and "fst (split_path p) = [] \<or> last (fst (split_path p)) \<noteq> CHR ''/''"
    and "\<exists>n name. snd (split_path p) = replicate n CHR ''/'' @ name \<and> CHR ''/'' \<notin> set name"
    by auto
qed

lemma split_path_no_slash: "CHR ''/'' \<notin> set p \<Longrightarrow> split_path p = ([], p)"
  by (simp add: split_path_def upto_last_slash_empty)

lemma split_path_head_shorter: "p \<noteq> [] \<Longrightarrow> length (fst (split_path p)) < length p"
proof (cases "CHR ''/'' \<in> set p")
  case True
  then have "length p = length (fst (split_path p)) + 1 + length (snd (split_path p))"
    using arg_cong [OF split_path_parts(1), of p length] by simp
  then show ?thesis by simp
qed (simp add: split_path_no_slash)

section \<open>The elements of a path\<close>

text \<open>The tails that repeated splitting produces, first element first.\<close>

function path_elements :: "string \<Rightarrow> string list" where
  "path_elements p =
     (if fst (split_path p) = [] then [snd (split_path p)]
      else path_elements (fst (split_path p)) @ [snd (split_path p)])"
  by pat_completeness auto
termination
proof (relation "measure length")
  fix p :: string
  assume "fst (split_path p) \<noteq> []"
  moreover from this have "p \<noteq> []" by (auto simp: split_path_def)
  ultimately show "(fst (split_path p), p) \<in> measure length"
    by (simp add: split_path_head_shorter)
qed simp

declare path_elements.simps [simp del]

definition has_dot_elements :: "string \<Rightarrow> bool" where
  "has_dot_elements p \<longleftrightarrow> list_ex is_dot_element (path_elements p)"

lemma has_dot_elements_rec:
  "has_dot_elements p \<longleftrightarrow>
     is_dot_element (snd (split_path p)) \<or>
     (fst (split_path p) \<noteq> [] \<and> has_dot_elements (fst (split_path p)))"
  by (subst has_dot_elements_def, subst path_elements.simps) (auto simp: has_dot_elements_def)

lemma strPathContainsDotElements_view:
  "sv_wf s \<Longrightarrow> strPathContainsDotElements s \<longleftrightarrow> has_dot_elements (view s)"
proof (induction s rule: strPathContainsDotElements.induct)
  case (1 s)
  have wf: "sv_wf (fst (strSplitPath s))" "sv_wf (snd (strSplitPath s))"
    using strSplitPath_wf [OF "1.prems"] .
  have head: "0 < len (fst (strSplitPath s)) \<longleftrightarrow> fst (split_path (view s)) \<noteq> []"
    unfolding view_strSplitPath(1) [OF "1.prems", symmetric]
    by (simp flip: length_view [OF wf(1)])
  have IH: "strPathContainsDotElements (fst (strSplitPath s)) \<longleftrightarrow>
      has_dot_elements (fst (split_path (view s)))" if "0 < len (fst (strSplitPath s))"
    using "1.IH" [OF refl that wf(1)] view_strSplitPath(1) [OF "1.prems"] by simp
  show ?case
    using IH head
    by (subst strPathContainsDotElements.simps, subst has_dot_elements_rec)
      (simp add: Let_def strIsDotElement_view [OF wf(2)] view_strSplitPath(2) [OF "1.prems"])
qed

text \<open>The absolute path with the given elements.\<close>

definition join_path :: "string list \<Rightarrow> string" where
  "join_path es = concat (map (\<lambda>e. CHR ''/'' # e) es)"

lemma join_path_snoc: "join_path (es @ [e]) = append_path (join_path es) e"
  by (simp add: join_path_def append_path_def)

lemma join_path_last:
  "\<forall>e \<in> set es. e \<noteq> [] \<and> CHR ''/'' \<notin> set e \<Longrightarrow> join_path es = [] \<or> last (join_path es) \<noteq> CHR ''/''"
proof (induction es rule: rev_induct)
  case (snoc e es)
  then have "last e \<noteq> CHR ''/''" by (metis in_set_conv_decomp last_in_set)
  with snoc.prems show ?case by (simp add: join_path_def)
qed (simp add: join_path_def)

lemma join_path_empty: "join_path es = [] \<longleftrightarrow> es = []"
  by (cases es) (auto simp: join_path_def)

lemma path_elements_join:
  "es \<noteq> [] \<Longrightarrow> \<forall>e \<in> set es. e \<noteq> [] \<and> CHR ''/'' \<notin> set e \<Longrightarrow> path_elements (join_path es) = es"
proof (induction es rule: rev_induct)
  case (snoc e es)
  then have "split_path (join_path (es @ [e])) = (join_path es, e)"
    using join_path_last [of es] by (simp add: join_path_snoc split_append_path)
  with snoc show ?case by (subst path_elements.simps) (auto simp: join_path_empty)
qed simp

text \<open>
  Where a dot element is found in any path: behind the start of the path or behind a slash that does not
  follow another slash, and in front of the end or of a slash.
\<close>

definition single_slash :: "string \<Rightarrow> bool" where
  "single_slash a \<longleftrightarrow> a = [] \<or> (last a = CHR ''/'' \<and> (butlast a = [] \<or> last (butlast a) \<noteq> CHR ''/''))"

definition dot_between :: "string \<Rightarrow> string \<Rightarrow> string \<Rightarrow> bool" where
  "dot_between a e b \<longleftrightarrow> is_dot_element e \<and> single_slash a \<and> (b = [] \<or> hd b = CHR ''/'')"

lemma dot_element_props: "is_dot_element e \<Longrightarrow> e \<noteq> [] \<and> last e \<noteq> CHR ''/'' \<and> CHR ''/'' \<notin> set e"
  by (auto simp: is_dot_element_def)

lemma dot_between_split:
  assumes p: "p = head @ ''/'' @ replicate n CHR ''/'' @ name" "CHR ''/'' \<notin> set name"
    and head: "head = [] \<or> last head \<noteq> CHR ''/''" and dot: "p = a @ e @ b" "dot_between a e b"
  shows "n = 0 \<and> e = name \<or> (\<exists>b'. head = a @ e @ b' \<and> dot_between a e b')"
proof -
  have e: "e \<noteq> []" "last e \<noteq> CHR ''/''" "CHR ''/'' \<notin> set e"
    using dot(2) dot_element_props by (auto simp: dot_between_def)
  show ?thesis
  proof (cases "b = []")
    case True
    have "a \<noteq> []"
    proof
      assume "a = []"
      then have "p = e" using dot(1) True by simp
      then show False using p(1) e(3) by auto
    qed
    then obtain a' where a: "a = a' @ ''/''" "a' = [] \<or> last a' \<noteq> CHR ''/''"
      using dot(2) by (cases a rule: rev_cases) (auto simp: dot_between_def single_slash_def)
    have "(a' @ ''/'') @ e = (head @ ''/'' @ replicate n CHR ''/'') @ name" using p(1) dot(1) a(1) True by simp
    moreover have "rev (a' @ ''/'') \<noteq> []" by simp
    ultimately have eq: "rev e @ CHR ''/'' # rev a' = rev name @ replicate n CHR ''/'' @ CHR ''/'' # rev head"
      by (metis append.assoc append_Cons append_Nil rev.simps rev_append rev_replicate)
    have tw: "takeWhile (\<lambda>c. c \<noteq> CHR ''/'') (rev e @ CHR ''/'' # rev a') = rev e"
      using e(3) by (subst takeWhile_append2) auto
    have "takeWhile (\<lambda>c. c \<noteq> CHR ''/'') (rev name @ replicate n CHR ''/'' @ CHR ''/'' # rev head) = rev name"
      using p(2) by (subst takeWhile_append2) (auto, cases n, auto)
    then have "rev e = rev name" using tw eq by simp
    then have name: "e = name" by simp
    then have "CHR ''/'' # rev a' = replicate n CHR ''/'' @ CHR ''/'' # rev head" using eq by simp
    then have "n = 0"
      using a(2) by (cases n; cases a' rule: rev_cases) (auto simp: replicate_app_Cons_same)
    with name show ?thesis by blast
  next
    case False
    then obtain b1 where b: "b = CHR ''/'' # b1" using dot(2) by (cases b) (auto simp: dot_between_def)
    let ?k = "length (a @ e)"
    have "?k \<le> length head"
    proof (rule ccontr)
      assume k: "\<not> ?k \<le> length head"
      have at: "p ! (?k - 1) \<noteq> CHR ''/''" "p ! ?k = CHR ''/''" "?k < length p"
        using e(1,2) by (cases e rule: rev_cases; simp add: dot(1) b nth_append)+
      consider "?k - 1 \<le> length head + n" | "length head + n < ?k - 1" by linarith
      then show False
      proof cases
        case 1
        have "p = head @ replicate (Suc n) CHR ''/'' @ name" using p(1) by simp
        then have "p ! i = CHR ''/''" if "length head \<le> i" "i \<le> length head + n" for i
        proof -
          have "i - length head < Suc n" using that by linarith
          then show ?thesis using that(1) \<open>p = head @ replicate (Suc n) CHR ''/'' @ name\<close>
            by (simp add: nth_append del: replicate_Suc)
        qed
        moreover have "length head \<le> ?k - 1" using k by linarith
        ultimately show False using at(1) 1 by blast
      next
        case 2
        then have "length (head @ replicate (Suc n) CHR ''/'') \<le> ?k" by simp
        then obtain j where j: "?k = length (head @ replicate (Suc n) CHR ''/'') + j" using le_Suc_ex by blast
        have whole: "p = (head @ replicate (Suc n) CHR ''/'') @ name" using p(1) by simp
        have "j < length name" using at(3) unfolding j by (subst (asm) whole) simp
        moreover have "name ! j = CHR ''/''" using at(2) unfolding j by (subst (asm) whole) (simp only: nth_append_length_plus)
        ultimately show False using p(2) nth_mem by metis
      qed
    qed
    moreover have "(a @ e) @ b = head @ ''/'' @ replicate n CHR ''/'' @ name" using p(1) dot(1) by simp
    ultimately obtain b' where b': "head = (a @ e) @ b'" "b' @ ''/'' @ replicate n CHR ''/'' @ name = b"
      by (metis append_eq_append_conv_if append_eq_conv_conj append_take_drop_id)
    then have "dot_between a e b'" using dot(2) b by (cases b') (auto simp: dot_between_def)
    with b'(1) show ?thesis by simp
  qed
qed

lemma has_dot_elements_iff: "has_dot_elements p \<longleftrightarrow> (\<exists>a e b. p = a @ e @ b \<and> dot_between a e b)"
proof (induction p rule: path_elements.induct)
  case (1 p)
  let ?head = "fst (split_path p)" and ?tail = "snd (split_path p)"
  show ?case
  proof (cases "CHR ''/'' \<in> set p")
    case False
    then have split: "?head = []" "?tail = p" by (simp_all add: split_path_no_slash)
    have "p = e \<and> a = [] \<and> b = []" if "p = a @ e @ b" "dot_between a e b" for a e b
    proof -
      have "CHR ''/'' \<notin> set a" "CHR ''/'' \<notin> set b" using False that(1) by auto
      moreover have "a = [] \<or> CHR ''/'' \<in> set a"
        using that(2) by (cases a rule: rev_cases) (auto simp: dot_between_def single_slash_def)
      moreover have "b = [] \<or> CHR ''/'' \<in> set b" using that(2) by (cases b) (auto simp: dot_between_def)
      ultimately have "a = []" "b = []" by blast+
      then show ?thesis using that(1) by simp
    qed
    moreover have "dot_between [] p []" if "is_dot_element p" using that by (simp add: dot_between_def single_slash_def)
    moreover have "is_dot_element e" if "dot_between a e b" for a e b using that by (simp add: dot_between_def)
    ultimately show ?thesis
      by (subst has_dot_elements_rec) (simp only: split, metis append.right_neutral append_Nil)
  next
    case True
    obtain n name where tail: "?tail = replicate n CHR ''/'' @ name" "CHR ''/'' \<notin> set name"
      using split_path_parts(3) [OF True] by blast
    note parts = split_path_parts(1,2) [OF True]
    have p: "p = ?head @ ''/'' @ replicate n CHR ''/'' @ name" using parts(1) tail(1) by simp
    show ?thesis
    proof
      assume "has_dot_elements p"
      then consider "is_dot_element ?tail" | "?head \<noteq> []" "has_dot_elements ?head"
        by (subst (asm) has_dot_elements_rec) blast
      then show "\<exists>a e b. p = a @ e @ b \<and> dot_between a e b"
      proof cases
        case 1
        then have "dot_between (?head @ ''/'') ?tail []" using parts(2) by (auto simp: dot_between_def single_slash_def)
        moreover have "p = (?head @ ''/'') @ ?tail @ []" using parts(1) by simp
        ultimately show ?thesis by blast
      next
        case 2
        then obtain a e b where h: "?head = a @ e @ b" "dot_between a e b" using "1.IH" by blast
        then have "dot_between a e (b @ ''/'' @ ?tail)" by (cases b) (auto simp: dot_between_def)
        moreover have "p = a @ e @ (b @ ''/'' @ ?tail)" using parts(1) h(1) by simp
        ultimately show ?thesis by blast
      qed
    next
      assume "\<exists>a e b. p = a @ e @ b \<and> dot_between a e b"
      then obtain a e b where d: "p = a @ e @ b" "dot_between a e b" by blast
      have "is_dot_element e" using d(2) by (simp add: dot_between_def)
      from dot_between_split [OF p tail(2) parts(2) d] show "has_dot_elements p"
      proof (elim disjE conjE exE)
        assume "n = 0" "e = name"
        then have "is_dot_element ?tail" using tail(1) \<open>is_dot_element e\<close> by simp
        then show ?thesis by (subst has_dot_elements_rec) simp
      next
        fix b' assume h: "?head = a @ e @ b'" "dot_between a e b'"
        then have "?head \<noteq> []" using dot_element_props [OF \<open>is_dot_element e\<close>] by auto
        moreover from this have "has_dot_elements ?head" using "1.IH" h by blast
        ultimately show ?thesis by (subst has_dot_elements_rec) simp
      qed
    qed
  qed
qed

section \<open>Copies and joined paths\<close>

lemma strCopyRaw_Inr:
  "strCopyRaw avail s a = Inr raw \<longleftrightarrow>
     len s < SIZE_MAX \<and> a \<noteq> ALT_always_failing \<and> avail a (Suc (len s)) \<and> raw = view s @ [NUL]"
  by (auto simp: strCopyRaw_def bindE_eq_Inr view_def)

lemma strAppendPath_Inr:
  "strAppendPath avail p f a = Inr r \<longleftrightarrow>
     len p + len f + 2 \<le> SIZE_MAX \<and> a \<noteq> ALT_always_failing \<and> avail a (len p + len f + 2) \<and>
     r = \<lparr>content = append_path (view p) (view f) @ [NUL], len = len p + len f + 1,
          is_terminated = True\<rparr>"
proof -
  have "len p + 1 + len f + 1 = len p + len f + 2" by simp
  then show ?thesis
    by (auto simp: strAppendPath_def bindE_eq_Inr view_def append_path_def)
qed

section \<open>Properties\<close>

lemma strSplitPath_independent:
  assumes "sv_wf p" and "strSplitPath p = (head, tail)"
  shows "strSplitPath (p\<lparr>content := view p @ junk, is_terminated := False\<rparr>) =
    (head\<lparr>content := view p @ junk\<rparr>,
     tail\<lparr>content := drop (len p - len tail) (view p @ junk), is_terminated := False\<rparr>)"
proof -
  let ?q = "p\<lparr>content := view p @ junk, is_terminated := False\<rparr>"
  have len: "length (view p) = len p" using assms(1) by simp
  then have q: "sv_wf ?q" "view ?q = view p" by (simp_all add: sv_wf_def view_def [of ?q])
  define m where "m = skipSlashRun (content p) (findLastSlash (content p) (len p))"
  have same: "skipSlashRun (content ?q) (findLastSlash (content ?q) (len ?q)) = m"
    unfolding m_def last_slash_spec [OF assms(1)] last_slash_spec [OF q(1)] q(2) ..
  have "m \<le> len p"
    unfolding m_def using skipSlashRun_le findLastSlash_le by (meson le_trans)
  have ht: "head = \<lparr>content = content p, len = (if m > 0 then m - 1 else 0), is_terminated = False\<rparr>"
    "tail = \<lparr>content = drop m (content p), len = len p - m, is_terminated = is_terminated p\<rparr>"
    using assms(2) by (auto simp: strSplitPath_def Let_def m_def)
  have "strSplitPath ?q = (\<lparr>content = view p @ junk, len = (if m > 0 then m - 1 else 0), is_terminated = False\<rparr>,
      \<lparr>content = drop m (view p @ junk), len = len p - m, is_terminated = False\<rparr>)"
    unfolding strSplitPath_def same Let_def by simp
  then show ?thesis using \<open>m \<le> len p\<close> by (simp add: ht)
qed

lemma split_path_trailing:
  assumes "c = [] \<or> last c \<noteq> CHR ''/''"
  shows "split_path (c @ replicate (Suc n) CHR ''/'') = (c, replicate n CHR ''/'')"
proof -
  let ?p = "c @ replicate (Suc n) CHR ''/''"
  have "?p = (c @ replicate n CHR ''/'') @ ''/''" by (simp add: replicate_append_same)
  then have "upto_last_slash ?p = ?p" by (metis upto_last_slash_snoc)
  moreover have "strip_slashes (replicate (Suc n) CHR ''/'') = []" by (simp add: strip_slashes_empty del: replicate_Suc)
  then have "strip_slashes ?p = c" using strip_slashes_id [OF assms] by (simp only: strip_slashes_append if_True simp_thms)
  ultimately show ?thesis by (simp add: split_path_def)
qed

text \<open>
  C20: \<open>strSplitPath()\<close> does not depend on what the memory holds behind the slice it is given, and returns
  well-formed slices of the same memory. If the path contains a slash, then joining head and tail with one
  slash gives the path back, the head does not end with a slash, and the tail is the rest of a run of
  slashes followed by the last name, which is empty if the path ends with a slash; otherwise
  the head is empty and the tail is the whole path. In particular the head of a path that ends with a slash
  lacks this slash, and its tail is empty only if no other slash precedes it.
\<close>

theorem strSplitPath_correct:
  assumes "sv_wf p" and "strSplitPath p = (head, tail)"
  shows "sv_wf head \<and> sv_wf tail \<and>
    (if CHR ''/'' \<in> set (view p)
     then view p = view head @ ''/'' @ view tail \<and>
          (view head = [] \<or> last (view head) \<noteq> CHR ''/'') \<and>
          (\<exists>n name. view tail = replicate n CHR ''/'' @ name \<and> CHR ''/'' \<notin> set name)
     else view head = [] \<and> view tail = view p) \<and>
    (\<forall>junk. strSplitPath (p\<lparr>content := view p @ junk, is_terminated := False\<rparr>) =
       (head\<lparr>content := view p @ junk\<rparr>,
        tail\<lparr>content := drop (len p - len tail) (view p @ junk), is_terminated := False\<rparr>)) \<and>
    (\<forall>n c. view p = c @ replicate (Suc n) CHR ''/'' \<and> (c = [] \<or> last c \<noteq> CHR ''/'') \<longrightarrow>
       view head = c \<and> view tail = replicate n CHR ''/'')"
proof -
  have "view head = fst (split_path (view p))" and "view tail = snd (split_path (view p))"
    using view_strSplitPath [OF assms(1)] assms(2) by simp_all
  moreover have "sv_wf head" and "sv_wf tail"
    using strSplitPath_wf [OF assms(1)] assms(2) by simp_all
  moreover have "if CHR ''/'' \<in> set (view p)
     then view p = view head @ ''/'' @ view tail \<and>
          (view head = [] \<or> last (view head) \<noteq> CHR ''/'') \<and>
          (\<exists>n name. view tail = replicate n CHR ''/'' @ name \<and> CHR ''/'' \<notin> set name)
     else view head = [] \<and> view tail = view p"
    unfolding calculation(1,2) using split_path_parts [of "view p"] by (auto simp: split_path_no_slash)
  moreover have "view head = c \<and> view tail = replicate n CHR ''/''"
    if "view p = c @ replicate (Suc n) CHR ''/''" "c = [] \<or> last c \<noteq> CHR ''/''" for n c
    unfolding calculation(1,2) that(1) split_path_trailing [OF that(2)] by simp
  ultimately show ?thesis using strSplitPath_independent [OF assms] by blast
qed

theorem strSplitPath_correct_witness:
  "let p = str (''/home/foo///bar'' @ [NUL]); (head, tail) = strSplitPath p
   in view p = view head @ ''/'' @ view tail \<and> view head = ''/home/foo'' \<and> view tail = ''//bar''"
proof -
  define p where "p = str (''/home/foo///bar'' @ [NUL])"
  have wf: "sv_wf p" unfolding p_def by code_simp
  have "CHR ''/'' \<in> set (view p)" and "view (fst (strSplitPath p)) = ''/home/foo''"
    and "view (snd (strSplitPath p)) = ''//bar''"
    unfolding p_def by code_simp+
  with strSplitPath_correct [OF wf prod.collapse [symmetric]]
  show ?thesis unfolding p_def [symmetric] by (simp add: case_prod_beta Let_def)
qed

text \<open>
  \<open>strIsParentPath(parent, path)\<close> holds exactly if \<open>path\<close> is \<open>parent\<close>, a slash, and something
  that is more than slashes; the check never reads behind the end of \<open>path\<close>.
\<close>

theorem strIsParentPath_correct:
  assumes "sv_wf parent" and "sv_wf path"
  shows "strIsParentPath parent path \<longleftrightarrow>
    (\<exists>rest. view path = view parent @ ''/'' @ rest \<and> (\<exists>c \<in> set rest. c \<noteq> CHR ''/''))"
  using strIsParentPath_view [OF assms] is_parent_path_iff [of "view parent" "view path"] by simp

theorem strIsParentPath_correct_witness:
  "strIsParentPath (str (''/etc'' @ [NUL])) (str (''/etc/portage'' @ [NUL])) \<and>
   \<not> strIsParentPath (str (''/etc'' @ [NUL])) (str (''/etc//'' @ [NUL]))"
proof -
  have wf: "sv_wf (str (''/etc'' @ [NUL]))" "sv_wf (str (''/etc/portage'' @ [NUL]))"
    "sv_wf (str (''/etc//'' @ [NUL]))"
    by code_simp+
  have v: "view (str (''/etc'' @ [NUL])) = ''/etc''"
    "view (str (''/etc/portage'' @ [NUL])) = ''/etc/portage''"
    "view (str (''/etc//'' @ [NUL])) = ''/etc//''"
    by code_simp+
  show ?thesis
    unfolding strIsParentPath_correct [OF wf(1,2)] strIsParentPath_correct [OF wf(1,3)] v by simp
qed



text \<open>
  C22: \<open>strPathContainsDotElements()\<close> ends, and for every path it tells whether \<open>.\<close> or \<open>..\<close> stands in it
  behind the start of the path or behind a single slash, and in front of a slash or the end: a dot element
  behind several slashes, as in \<open>/home/foo//.\<close>, does not count. On an absolute path whose elements are not
  empty it therefore tells whether one of the elements is \<open>.\<close> or \<open>..\<close>.
\<close>

theorem strPathContainsDotElements_correct:
  assumes "sv_wf path"
  shows "(strPathContainsDotElements path \<longleftrightarrow>
      (\<exists>a e b. view path = a @ e @ b \<and> (e = ''.'' \<or> e = ''..'') \<and>
        (a = [] \<or> (last a = CHR ''/'' \<and> (butlast a = [] \<or> last (butlast a) \<noteq> CHR ''/''))) \<and>
        (b = [] \<or> hd b = CHR ''/''))) \<and>
    (\<forall>es. view path = join_path es \<and> es \<noteq> [] \<and> (\<forall>e \<in> set es. e \<noteq> [] \<and> CHR ''/'' \<notin> set e) \<longrightarrow>
      strPathContainsDotElements path = (\<exists>e \<in> set es. e = ''.'' \<or> e = ''..''))"
proof (intro conjI allI impI)
  show "strPathContainsDotElements path \<longleftrightarrow>
      (\<exists>a e b. view path = a @ e @ b \<and> (e = ''.'' \<or> e = ''..'') \<and>
        (a = [] \<or> (last a = CHR ''/'' \<and> (butlast a = [] \<or> last (butlast a) \<noteq> CHR ''/''))) \<and>
        (b = [] \<or> hd b = CHR ''/''))"
    unfolding strPathContainsDotElements_view [OF assms] has_dot_elements_iff
    by (simp only: dot_between_def single_slash_def is_dot_element_def)
  fix es assume es: "view path = join_path es \<and> es \<noteq> [] \<and> (\<forall>e \<in> set es. e \<noteq> [] \<and> CHR ''/'' \<notin> set e)"
  then have "path_elements (view path) = es" using path_elements_join [of es] by simp
  then show "strPathContainsDotElements path = (\<exists>e \<in> set es. e = ''.'' \<or> e = ''..'')"
    by (simp add: strPathContainsDotElements_view [OF assms] has_dot_elements_def list_ex_iff is_dot_element_def)
qed

theorem strPathContainsDotElements_correct_witness:
  "strPathContainsDotElements (str (''/a/../b'' @ [NUL])) \<and> strPathContainsDotElements (str (''a/.//b'' @ [NUL])) \<and>
   \<not> strPathContainsDotElements (str (''//.'' @ [NUL]))"
proof -
  have wf: "sv_wf (str (''/a/../b'' @ [NUL]))" "sv_wf (str (''a/.//b'' @ [NUL]))" "sv_wf (str (''//.'' @ [NUL]))"
    and v: "view (str (''/a/../b'' @ [NUL])) = join_path [''a'', ''..'', ''b'']"
      "view (str (''a/.//b'' @ [NUL])) = ''a/'' @ ''.'' @ ''//b''" "view (str (''//.'' @ [NUL])) = ''//.''"
    by code_simp+
  note R = strPathContainsDotElements_correct [OF wf(1)] strPathContainsDotElements_correct [OF wf(2)]
    strPathContainsDotElements_correct [OF wf(3)]
  have 1: "strPathContainsDotElements (str (''/a/../b'' @ [NUL]))"
    using conjunct2 [OF R(1)] v(1) by (auto dest!: spec [of _ "[''a'', ''..'', ''b'']"])
  have "(''.'' :: string) = ''.'' \<or> (''.'' :: string) = ''..''" "last ''a/'' = CHR ''/''" "last (butlast ''a/'') \<noteq> CHR ''/''" "hd ''//b'' = CHR ''/''" by simp_all
  then have 2: "strPathContainsDotElements (str (''a/.//b'' @ [NUL]))" using conjunct1 [OF R(2)] v(2) by blast
  have no: "\<not> (\<exists>a e b. ''//.'' = a @ e @ b \<and> (e = ''.'' \<or> e = ''..'') \<and>
        (a = [] \<or> (last a = CHR ''/'' \<and> (butlast a = [] \<or> last (butlast a) \<noteq> CHR ''/''))) \<and>
        (b = [] \<or> hd b = CHR ''/''))"
    by (auto simp: Cons_eq_append_conv)
  have 3: "\<not> strPathContainsDotElements (str (''//.'' @ [NUL]))" using conjunct1 [OF R(3)] no unfolding v(3) by blast
  from 1 2 3 show ?thesis by blast
qed

end
