(* ===== verification/String_Table.thy ===== *)
theory String_Table
  imports Str "HOL-Library.Multiset"
begin

text \<open>
  The string table: \<open>src/string-table.c\<close>. The array of bucket chains is a list of lists, a chain in
  the order of its \<open>next\<close> pointers. SipHash is third-party code: the hash of a key under a secret
  key is the parameter \<open>siphash\<close>, and no property below depends on what it computes. Memory is the
  parameter \<open>avail\<close> of the theory \<open>Allocator\<close>.

  The locale \<open>string_map\<close> is the interface that the clients of the table (the garbage collector and
  the integrity check) rely on: a partial map from strings that grows by keys that are not yet
  present. The last section shows that the table provides it.
\<close>

section \<open>The code's data and functions\<close>

record 'v bucket =
  bkt_hash :: u64
  bkt_key :: string
  bkt_data :: 'v

record 'v string_table =
  buckets :: "'v bucket list list"
  capacity :: nat
  associations :: nat
  secret_key :: "u8 list"

type_synonym siphash_fun = "string \<Rightarrow> u8 list \<Rightarrow> u64"

definition pointer_size :: nat where
  "pointer_size = 8"

definition sizeof_Bucket :: nat where
  "sizeof_Bucket = 48"

definition sizeof_StringTable :: nat where
  "sizeof_StringTable = 48"

text \<open>The position of a bucket in an array of \<open>cap\<close> chains.\<close>

definition bucket_id :: "nat \<Rightarrow> u64 \<Rightarrow> nat" where
  "bucket_id cap h = unat h mod cap"

text \<open>The inner loop of \<open>doubleTableCapacity()\<close>: moves the buckets of one chain.\<close>

fun moveChain :: "nat \<Rightarrow> 'v bucket list \<Rightarrow> 'v bucket list list \<Rightarrow> 'v bucket list list" where
  "moveChain new_cap [] new_buckets = new_buckets"
| "moveChain new_cap (b # bs) new_buckets =
     (let i = bucket_id new_cap (bkt_hash b)
      in moveChain new_cap bs (new_buckets[i := b # new_buckets ! i]))"

text \<open>Its outer loop: goes through all chains of the old array.\<close>

fun moveAll :: "nat \<Rightarrow> 'v bucket list list \<Rightarrow> 'v bucket list list \<Rightarrow> 'v bucket list list" where
  "moveAll new_cap [] new_buckets = new_buckets"
| "moveAll new_cap (bs # bss) new_buckets =
     moveAll new_cap bss (moveChain new_cap bs new_buckets)"

definition doubleTableCapacity :: "memory \<Rightarrow> 'v string_table \<Rightarrow> 'v string_table result" where
  "doubleTableCapacity avail table =
     bindE (size_mul (capacity table) 2) (\<lambda>new_capacity.
     bindE (size_mul new_capacity pointer_size) (\<lambda>new_array_size.
     bindE (allocate avail ALT_malloc new_array_size) (\<lambda>_.
       Inr (table\<lparr>
         buckets := moveAll new_capacity (buckets table) (replicate new_capacity []),
         capacity := new_capacity\<rparr>))))"

text \<open>What \<open>strTableNew()\<close> writes into the table; the argument holds the results of \<open>sRand()\<close>.\<close>

definition emptyTable :: "nat list \<Rightarrow> 'v string_table" where
  "emptyTable rands =
     \<lparr>buckets = replicate 32 [], capacity = 32, associations = 0,
      secret_key = map (\<lambda>r. word_of_nat (r mod 255)) (take 16 rands)\<rparr>"

definition strTableNew :: "memory \<Rightarrow> nat list \<Rightarrow> 'v string_table result" where
  "strTableNew avail rands =
     bindE (allocate avail ALT_region sizeof_StringTable) (\<lambda>_.
       let table = emptyTable rands
       in bindE (size_mul (capacity table) pointer_size) (\<lambda>array_size.
          bindE (allocate avail ALT_malloc array_size) (\<lambda>_. Inr table)))"

definition strTableMap ::
  "memory \<Rightarrow> siphash_fun \<Rightarrow> string \<Rightarrow> 'v \<Rightarrow> 'v string_table \<Rightarrow> 'v string_table result" where
  "strTableMap avail siphash key data table =
     bindE (if associations table = capacity table then doubleTableCapacity avail table else Inr table)
       (\<lambda>table.
       bindE (allocate avail ALT_region sizeof_Bucket) (\<lambda>_.
         let h = siphash key (secret_key table);
             b = \<lparr>bkt_hash = h, bkt_key = key, bkt_data = data\<rparr>;
             i = bucket_id (capacity table) h
         in Inr (table\<lparr>buckets := (buckets table)[i := b # buckets table ! i],
                       associations := associations table + 1\<rparr>)))"

text \<open>The loop of \<open>strTableGet()\<close> over one chain.\<close>

fun chainGet :: "'v bucket list \<Rightarrow> string \<Rightarrow> 'v option" where
  "chainGet [] key = None"
| "chainGet (b # bs) key = (if key = bkt_key b then Some (bkt_data b) else chainGet bs key)"

definition strTableGet :: "siphash_fun \<Rightarrow> 'v string_table \<Rightarrow> string \<Rightarrow> 'v option" where
  "strTableGet siphash table key =
     (let h = siphash key (secret_key table)
      in chainGet (buckets table ! bucket_id (capacity table) h) key)"

definition strTableCountMappings :: "'v string_table \<Rightarrow> nat" where
  "strTableCountMappings table = associations table"

section \<open>The interface\<close>

locale string_map =
  fixes new_map :: "'t"
    and add :: "string \<Rightarrow> 'v \<Rightarrow> 't \<Rightarrow> 't result"
    and get :: "'t \<Rightarrow> string \<Rightarrow> 'v option"
    and entries :: "'t \<Rightarrow> nat"
    and invar :: "'t \<Rightarrow> bool"
  assumes new_invar: "invar new_map"
    and new_get: "get new_map k = None"
    and add_invar: "invar t \<Longrightarrow> get t k = None \<Longrightarrow> add k v t = Inr t' \<Longrightarrow> invar t'"
    and add_get: "invar t \<Longrightarrow> get t k = None \<Longrightarrow> add k v t = Inr t' \<Longrightarrow> get t' = (get t)(k \<mapsto> v)"
    and entries_card: "invar t \<Longrightarrow> entries t = card (dom (get t)) \<and> finite (dom (get t))"
begin

text \<open>What every client does: map the keys of a list that are not mapped yet.\<close>

definition add_missing :: "'v \<Rightarrow> string list \<Rightarrow> 't \<Rightarrow> 't result" where
  "add_missing v = foldE (\<lambda>k t. if get t k = None then add k v t else Inr t)"

lemma add_missing_step:
  assumes "invar t" and "(if get t k = None then add k v t else Inr t) = Inr t'"
  shows "invar t' \<and> get t' = (if get t k = None then (get t)(k \<mapsto> v) else get t)"
proof (cases "get t k = None")
  case True
  with assms(2) have "add k v t = Inr t'" by simp
  then show ?thesis using True add_invar [OF assms(1) True] add_get [OF assms(1) True] by simp
next
  case False
  with assms show ?thesis by (simp only: if_False) simp
qed

lemma add_missing_spec:
  assumes "invar t" and "add_missing v ks t = Inr t'"
  shows "invar t' \<and> get t' = (\<lambda>k. if k \<in> set ks \<and> get t k = None then Some v else get t k)"
  using assms
proof (induction ks arbitrary: t)
  case (Cons k ks)
  from Cons.prems(2)
  have "bindE (if get t k = None then add k v t else Inr t) (add_missing v ks) = Inr t'"
    by (simp add: add_missing_def)
  then obtain u where u: "(if get t k = None then add k v t else Inr t) = Inr u"
    and rest: "add_missing v ks u = Inr t'"
    by (auto simp only: bindE_eq_Inr)
  note step = add_missing_step [OF Cons.prems(1) u]
  then have "invar t' \<and> get t' = (\<lambda>x. if x \<in> set ks \<and> get u x = None then Some v else get u x)"
    using Cons.IH [OF _ rest] by blast
  moreover have "get u = (if get t k = None then (get t)(k \<mapsto> v) else get t)" using step by blast
  ultimately show ?case by (intro conjI ext) (auto split: if_splits)
qed (simp add: add_missing_def)

lemma add_missing_dom:
  assumes "invar t" and "add_missing v ks t = Inr t'"
  shows "dom (get t') = dom (get t) \<union> set ks"
  using add_missing_spec [OF assms] by (auto simp: dom_def split: if_splits)

lemma add_all_spec:
  assumes "invar t" and "foldE (\<lambda>(k, v). add k v) kvs t = Inr t'"
    and "distinct (map fst kvs)" and "dom (get t) \<inter> fst ` set kvs = {}"
  shows "invar t' \<and> get t' = get t ++ map_of kvs"
  using assms
proof (induction kvs arbitrary: t)
  case (Cons kv kvs)
  obtain k v where kv: "kv = (k, v)" by (cases kv)
  from Cons.prems(2) obtain u where u: "add k v t = Inr u"
    and rest: "foldE (\<lambda>(k, v). add k v) kvs u = Inr t'"
    by (auto simp: kv bindE_eq_Inr)
  have new: "get t k = None" using Cons.prems(4) by (auto simp: kv dom_def)
  note step = add_invar [OF Cons.prems(1) new u] add_get [OF Cons.prems(1) new u]
  have notin: "k \<notin> fst ` set kvs" using Cons.prems(3) by (simp add: kv)
  then have disj: "dom (get u) \<inter> fst ` set kvs = {}"
    using Cons.prems(4) by (auto simp: step(2) kv)
  have "distinct (map fst kvs)" using Cons.prems(3) by simp
  from Cons.IH [OF step(1) rest this disj]
  have "invar t' \<and> get t' = (get t)(k \<mapsto> v) ++ map_of kvs" by (simp only: step(2))
  moreover have "(get t)(k \<mapsto> v) ++ map_of kvs = get t ++ map_of (kv # kvs)"
    using notin map_of_eq_None_iff [of kvs k]
    by (simp add: kv map_add_def fun_eq_iff split: option.split)
  ultimately show ?case by (simp only:)
qed simp

lemma entries_le:
  assumes "invar t" and "dom (get t) \<subseteq> set ks"
  shows "entries t \<le> length ks"
  using entries_card [OF assms(1)] card_mono [OF finite_set assms(2)] card_length [of ks] by simp

end

section \<open>The table is a string map\<close>

definition all_buckets :: "'v string_table \<Rightarrow> 'v bucket list" where
  "all_buckets t = concat (buckets t)"

definition bucket_ok :: "siphash_fun \<Rightarrow> 'v string_table \<Rightarrow> nat \<Rightarrow> 'v bucket \<Rightarrow> bool" where
  "bucket_ok siphash t i b \<longleftrightarrow>
     bkt_hash b = siphash (bkt_key b) (secret_key t) \<and> bucket_id (capacity t) (bkt_hash b) = i"

definition table_ok :: "siphash_fun \<Rightarrow> 'v string_table \<Rightarrow> bool" where
  "table_ok siphash t \<longleftrightarrow>
     0 < capacity t \<and> length (buckets t) = capacity t \<and>
     (\<forall>i < capacity t. \<forall>b \<in> set (buckets t ! i). bucket_ok siphash t i b) \<and>
     associations t = length (all_buckets t) \<and> distinct (map bkt_key (all_buckets t))"

lemma bucket_id_less: "0 < cap \<Longrightarrow> bucket_id cap h < cap"
  by (simp add: bucket_id_def)

lemma mset_concat_insert:
  "i < length xss \<Longrightarrow> mset (concat (xss[i := x # xss ! i])) = add_mset x (mset (concat xss))"
  by (induction xss arbitrary: i) (auto split: nat.splits)

definition in_place :: "nat \<Rightarrow> 'v bucket list list \<Rightarrow> bool" where
  "in_place cap bss \<longleftrightarrow>
     length bss = cap \<and> (\<forall>i < cap. \<forall>b \<in> set (bss ! i). bucket_id cap (bkt_hash b) = i)"

lemma in_place_insert:
  assumes "in_place cap bss" and "0 < cap" and "i = bucket_id cap (bkt_hash b)"
  shows "in_place cap (bss[i := b # bss ! i])"
  unfolding in_place_def
proof (intro conjI allI impI ballI)
  fix j c
  assume j: "j < cap" and "c \<in> set (bss[i := b # bss ! i] ! j)"
  moreover have "i < length bss" using assms by (simp add: in_place_def bucket_id_less)
  ultimately have "c \<in> set (bss ! j) \<or> c = b \<and> j = i"
    using assms(1) by (auto simp: in_place_def nth_list_update split: if_splits)
  then show "bucket_id cap (bkt_hash c) = j" using assms(1,3) j by (auto simp: in_place_def)
qed (use assms(1) in \<open>simp add: in_place_def\<close>)

lemma mset_insert:
  "in_place cap bss \<Longrightarrow> 0 < cap \<Longrightarrow> i = bucket_id cap h \<Longrightarrow>
   mset (concat (bss[i := b # bss ! i])) = add_mset b (mset (concat bss))"
  by (simp add: mset_concat_insert in_place_def bucket_id_less)

lemma moveChain_spec:
  "in_place cap nb \<Longrightarrow> 0 < cap \<Longrightarrow>
   in_place cap (moveChain cap bs nb) \<and>
   mset (concat (moveChain cap bs nb)) = mset bs + mset (concat nb)"
proof (induction bs arbitrary: nb)
  case (Cons b bs)
  let ?i = "bucket_id cap (bkt_hash b)"
  have "in_place cap (nb[?i := b # nb ! ?i])"
    using Cons.prems by (intro in_place_insert) auto
  moreover have "mset (concat (nb[?i := b # nb ! ?i])) = add_mset b (mset (concat nb))"
    using Cons.prems by (rule mset_insert) simp
  ultimately show ?case using Cons.IH Cons.prems(2) by (simp add: Let_def)
qed simp

lemma moveAll_spec:
  "in_place cap nb \<Longrightarrow> 0 < cap \<Longrightarrow>
   in_place cap (moveAll cap bss nb) \<and>
   mset (concat (moveAll cap bss nb)) = mset (concat bss) + mset (concat nb)"
proof (induction bss arbitrary: nb)
  case (Cons bs bss)
  then show ?case using moveChain_spec [OF Cons.prems, of bs] by simp
qed simp

lemma all_buckets_chain:
  assumes "table_ok siphash t" and "b \<in> set (all_buckets t)"
  obtains i where "i < capacity t" and "b \<in> set (buckets t ! i)" and "bucket_ok siphash t i b"
proof -
  from assms obtain i where "i < capacity t" "b \<in> set (buckets t ! i)"
    by (auto simp: table_ok_def all_buckets_def in_set_conv_nth [of _ "buckets t"])
  moreover from this assms(1) have "bucket_ok siphash t i b" by (simp add: table_ok_def)
  ultimately show thesis by (rule that)
qed

lemma bucket_hash_ok:
  "table_ok siphash t \<Longrightarrow> b \<in> set (all_buckets t) \<Longrightarrow>
   bkt_hash b = siphash (bkt_key b) (secret_key t)"
  by (erule all_buckets_chain) (auto simp: bucket_ok_def)

lemma doubleTableCapacity_ok:
  assumes "table_ok siphash t" and "doubleTableCapacity avail t = Inr t'"
  shows "table_ok siphash t' \<and> capacity t' = 2 * capacity t \<and> associations t' = associations t \<and>
    secret_key t' = secret_key t \<and> mset (all_buckets t') = mset (all_buckets t)"
proof -
  let ?cap = "2 * capacity t"
  have cap: "0 < ?cap" using assms(1) by (simp add: table_ok_def)
  from assms(2) have t': "t' = t\<lparr>buckets := moveAll ?cap (buckets t) (replicate ?cap []),
      capacity := ?cap\<rparr>"
    by (auto simp: doubleTableCapacity_def bindE_eq_Inr mult.commute)
  have "in_place ?cap (replicate ?cap [])" by (simp add: in_place_def)
  from moveAll_spec [OF this cap, of "buckets t"]
  have place: "in_place ?cap (buckets t')" and mset: "mset (all_buckets t') = mset (all_buckets t)"
    by (simp_all add: t' all_buckets_def)
  then have sets: "set (all_buckets t') = set (all_buckets t)" by (metis set_mset_mset)
  have "bucket_ok siphash t' i b" if "i < ?cap" and "b \<in> set (buckets t' ! i)" for i b
  proof -
    from that place have "b \<in> set (all_buckets t')"
      by (force simp: in_place_def all_buckets_def)
    then have "bkt_hash b = siphash (bkt_key b) (secret_key t)"
      using sets bucket_hash_ok [OF assms(1)] by simp
    moreover have "bucket_id ?cap (bkt_hash b) = i" using place that by (simp add: in_place_def)
    moreover have "secret_key t' = secret_key t" and "capacity t' = ?cap" by (simp_all add: t')
    ultimately show ?thesis by (metis bucket_ok_def)
  qed
  moreover have "length (all_buckets t') = length (all_buckets t)"
    using mset by (rule mset_eq_length)
  moreover have "mset (map bkt_key (all_buckets t')) = mset (map bkt_key (all_buckets t))"
    using mset by simp
  then have "distinct (map bkt_key (all_buckets t'))"
    using assms(1) mset_eq_imp_distinct_iff unfolding table_ok_def by blast
  moreover have "length (buckets t') = ?cap" using place by (simp add: in_place_def)
  moreover have "capacity t' = ?cap" "associations t' = associations t" "secret_key t' = secret_key t"
    by (simp_all add: t')
  moreover have "associations t = length (all_buckets t)" using assms(1) by (simp add: table_ok_def)
  ultimately show ?thesis using cap mset unfolding table_ok_def by simp
qed

lemma chainGet_iff:
  "distinct (map bkt_key bs) \<Longrightarrow>
   chainGet bs k = Some v \<longleftrightarrow> (\<exists>b \<in> set bs. bkt_key b = k \<and> bkt_data b = v)"
  by (induction bs) (auto simp: image_iff)

lemma chainGet_None: "chainGet bs k = None \<longleftrightarrow> k \<notin> bkt_key ` set bs"
  by (induction bs) auto

lemma distinct_concat_nth:
  "distinct (map f (concat xss)) \<Longrightarrow> i < length xss \<Longrightarrow> distinct (map f (xss ! i))"
  by (induction xss arbitrary: i) (auto simp: nth_Cons split: nat.splits)

lemma bucket_in_own_chain:
  assumes "table_ok siphash t" and "b \<in> set (all_buckets t)"
  shows "b \<in> set (buckets t ! bucket_id (capacity t) (siphash (bkt_key b) (secret_key t)))"
proof -
  from assms obtain i where i: "b \<in> set (buckets t ! i)" "bucket_ok siphash t i b"
    by (rule all_buckets_chain)
  from i(2) have "bucket_id (capacity t) (siphash (bkt_key b) (secret_key t)) = i"
    by (metis bucket_ok_def)
  with i(1) show ?thesis by simp
qed

lemma strTableGet_iff:
  assumes "table_ok siphash t"
  shows "strTableGet siphash t k = Some v \<longleftrightarrow>
    (\<exists>b \<in> set (all_buckets t). bkt_key b = k \<and> bkt_data b = v)"
proof -
  let ?i = "bucket_id (capacity t) (siphash k (secret_key t))"
  have i: "?i < length (buckets t)" using assms by (simp add: table_ok_def bucket_id_less)
  then have "distinct (map bkt_key (buckets t ! ?i))"
    using assms by (intro distinct_concat_nth) (auto simp: table_ok_def all_buckets_def)
  then have "strTableGet siphash t k = Some v \<longleftrightarrow>
      (\<exists>b \<in> set (buckets t ! ?i). bkt_key b = k \<and> bkt_data b = v)"
    by (simp add: strTableGet_def chainGet_iff)
  also have "\<dots> \<longleftrightarrow> (\<exists>b \<in> set (all_buckets t). bkt_key b = k \<and> bkt_data b = v)"
    using bucket_in_own_chain [OF assms] i by (force simp: all_buckets_def)
  finally show ?thesis .
qed

lemma strTableGet_None:
  assumes "table_ok siphash t"
  shows "strTableGet siphash t k = None \<longleftrightarrow> k \<notin> bkt_key ` set (all_buckets t)"
  using strTableGet_iff [OF assms, of k] by (auto simp flip: not_Some_eq)

lemma dom_strTableGet: "table_ok siphash t \<Longrightarrow> dom (strTableGet siphash t) = bkt_key ` set (all_buckets t)"
  using strTableGet_None [of siphash t] by (auto simp: dom_def simp flip: not_None_eq)

lemma insert_bucket_ok:
  assumes ok: "table_ok siphash t" and new: "k \<notin> bkt_key ` set (all_buckets t)"
    and b: "b = \<lparr>bkt_hash = siphash k (secret_key t), bkt_key = k, bkt_data = v\<rparr>"
    and i: "i = bucket_id (capacity t) (siphash k (secret_key t))"
    and t': "t' = t\<lparr>buckets := (buckets t)[i := b # buckets t ! i],
                    associations := associations t + 1\<rparr>"
  shows "table_ok siphash t' \<and> mset (all_buckets t') = add_mset b (mset (all_buckets t))"
proof -
  have i_less: "i < length (buckets t)" using ok by (simp add: i table_ok_def bucket_id_less)
  then have mset: "mset (all_buckets t') = add_mset b (mset (all_buckets t))"
    by (simp add: t' all_buckets_def mset_concat_insert)
  moreover have "mset (map bkt_key (all_buckets t')) = mset (map bkt_key (b # all_buckets t))"
    using mset by simp
  then have "distinct (map bkt_key (all_buckets t'))"
    using ok new b by (metis distinct.simps(2) list.simps(9) mset_eq_imp_distinct_iff set_map
        simps(2) table_ok_def bucket.select_convs(2))
  moreover have "length (all_buckets t') = Suc (length (all_buckets t))"
    using mset by (metis length_Cons mset.simps(2) mset_eq_length)
  moreover have "bucket_ok siphash t' j c" if "j < capacity t" "c \<in> set (buckets t' ! j)" for j c
  proof -
    have "c \<in> set (buckets t ! j) \<or> c = b \<and> j = i"
      using that i_less by (auto simp: t' nth_list_update split: if_splits)
    moreover have "bucket_ok siphash t j c" if "c \<in> set (buckets t ! j)"
      using that \<open>j < capacity t\<close> ok by (simp add: table_ok_def)
    moreover have "bucket_ok siphash t i b" by (simp add: bucket_ok_def b i)
    ultimately show ?thesis by (auto simp: t' bucket_ok_def)
  qed
  ultimately show ?thesis using ok by (auto simp: table_ok_def t')
qed

lemma strTableMap_ok:
  assumes ok: "table_ok siphash t" and new: "strTableGet siphash t k = None"
    and map: "strTableMap avail siphash k v t = Inr t'"
  shows "table_ok siphash t' \<and> strTableGet siphash t' = (strTableGet siphash t)(k \<mapsto> v)"
proof -
  obtain u where u: "(if associations t = capacity t then doubleTableCapacity avail t else Inr t) = Inr u"
    and t': "t' = u\<lparr>buckets := (buckets u)
      [bucket_id (capacity u) (siphash k (secret_key u)) :=
         \<lparr>bkt_hash = siphash k (secret_key u), bkt_key = k, bkt_data = v\<rparr> #
         buckets u ! bucket_id (capacity u) (siphash k (secret_key u))],
      associations := associations u + 1\<rparr>"
    using map by (auto simp: strTableMap_def bindE_eq_Inr Let_def)
  have u_ok: "table_ok siphash u" and u_set: "set (all_buckets u) = set (all_buckets t)"
    using u ok doubleTableCapacity_ok [OF ok] by (auto split: if_splits dest: mset_eq_setD)
  have "k \<notin> bkt_key ` set (all_buckets u)"
    using new strTableGet_None [OF ok] u_set by simp
  from insert_bucket_ok [OF u_ok this refl refl t']
  have t'_ok: "table_ok siphash t'" and t'_set: "set (all_buckets t') =
      insert \<lparr>bkt_hash = siphash k (secret_key u), bkt_key = k, bkt_data = v\<rparr> (set (all_buckets t))"
    using u_set by (auto simp flip: set_mset_mset)
  have "strTableGet siphash t' k' = Some w \<longleftrightarrow> ((strTableGet siphash t)(k \<mapsto> v)) k' = Some w" for k' w
    using strTableGet_iff [OF t'_ok] strTableGet_iff [OF ok] strTableGet_None [OF ok] new
    by (auto simp: t'_set)
  then have "strTableGet siphash t' = (strTableGet siphash t)(k \<mapsto> v)"
    by (intro ext) (metis not_Some_eq)
  with t'_ok show ?thesis by blast
qed

lemma emptyTable_ok: "table_ok siphash (emptyTable rands) \<and> strTableGet siphash (emptyTable rands) k = None"
  by (simp add: table_ok_def emptyTable_def all_buckets_def strTableGet_def bucket_id_less)

lemma associations_card:
  assumes "table_ok siphash t"
  shows "associations t = card (dom (strTableGet siphash t))"
proof -
  have "distinct (map bkt_key (all_buckets t))" and "associations t = length (all_buckets t)"
    using assms by (simp_all add: table_ok_def)
  then show ?thesis
    using dom_strTableGet [OF assms] by (metis distinct_card length_map set_map)
qed

interpretation st: string_map
  "emptyTable rands" "strTableMap avail siphash" "strTableGet siphash" strTableCountMappings
  "table_ok siphash"
  for rands avail siphash
proof unfold_locales
  fix t :: "'a string_table"
  assume "table_ok siphash t"
  then show "strTableCountMappings t = card (dom (strTableGet siphash t)) \<and>
      finite (dom (strTableGet siphash t))"
    by (simp add: strTableCountMappings_def associations_card dom_strTableGet)
qed (auto simp: emptyTable_ok dest: strTableMap_ok)

section \<open>Properties\<close>

lemma strTableMap_succeeds:
  assumes "0 < capacity t"
  shows "(\<exists>t'. strTableMap avail siphash k v t = Inr t') \<longleftrightarrow>
     (associations t \<noteq> capacity t \<or> capacity t * 16 \<le> SIZE_MAX \<and> avail ALT_malloc (capacity t * 16)) \<and>
     avail ALT_region sizeof_Bucket"
proof (cases "associations t = capacity t")
  case True
  have "(\<exists>u. doubleTableCapacity avail t = Inr u) \<longleftrightarrow>
      capacity t * 16 \<le> SIZE_MAX \<and> avail ALT_malloc (capacity t * 16)"
    using assms by (auto simp: doubleTableCapacity_def bindE_eq_Inr pointer_size_def mult.commute)
  with True show ?thesis by (auto simp: strTableMap_def bindE_eq_Inr Let_def sizeof_Bucket_def)
next
  case False
  then show ?thesis by (auto simp: strTableMap_def bindE_eq_Inr Let_def sizeof_Bucket_def)
qed

lemma strTableMap_load:
  assumes "table_ok siphash t" and "strTableMap avail siphash k v t = Inr t'"
    and "associations t \<le> capacity t"
  shows "associations t' \<le> capacity t'"
proof (cases "associations t = capacity t")
  case True
  with assms(2) obtain u where u: "doubleTableCapacity avail t = Inr u"
    and "associations t' = associations u + 1" "capacity t' = capacity u"
    by (auto simp: strTableMap_def bindE_eq_Inr Let_def)
  with doubleTableCapacity_ok [OF assms(1) u] True assms(1) show ?thesis by (simp add: table_ok_def)
next
  case False
  with assms(2,3) show ?thesis by (auto simp: strTableMap_def bindE_eq_Inr Let_def)
qed

text \<open>
  C19: mapping a key that is not present dies only if there is no memory for its bucket, or if the
  table is full and the doubled array does not fit into \<open>size_t\<close> or cannot be allocated; otherwise the table stays well formed, the new key and only it is added to the
  mapping, the count grows by one, and there are never more mappings than chains. This holds for
  every hash function and across the moves of all buckets when the table grows.
\<close>

theorem strTableMap_refines_update:
  assumes "table_ok siphash t" and "strTableGet siphash t k = None"
  shows "((\<exists>t'. strTableMap avail siphash k v t = Inr t') \<longleftrightarrow>
      (associations t \<noteq> capacity t \<or> capacity t * 16 \<le> SIZE_MAX \<and> avail ALT_malloc (capacity t * 16)) \<and>
      avail ALT_region sizeof_Bucket) \<and>
    (\<forall>t'. strTableMap avail siphash k v t = Inr t' \<longrightarrow>
      table_ok siphash t' \<and>
      strTableGet siphash t' = (strTableGet siphash t)(k \<mapsto> v) \<and>
      strTableCountMappings t' = strTableCountMappings t + 1 \<and>
      (associations t \<le> capacity t \<longrightarrow> associations t' \<le> capacity t'))"
proof (intro conjI allI impI)
  fix t'
  assume map: "strTableMap avail siphash k v t = Inr t'"
  show "table_ok siphash t'" by (rule st.add_invar [OF assms map])
  show get: "strTableGet siphash t' = (strTableGet siphash t)(k \<mapsto> v)" by (rule st.add_get [OF assms map])
  have "dom (strTableGet siphash t') = insert k (dom (strTableGet siphash t))"
    unfolding get by simp
  moreover have "k \<notin> dom (strTableGet siphash t)" using assms(2) by auto
  ultimately show "strTableCountMappings t' = strTableCountMappings t + 1"
    using st.entries_card [OF assms(1)] st.entries_card [OF \<open>table_ok siphash t'\<close>] by simp
  show "associations t' \<le> capacity t'" if "associations t \<le> capacity t"
    using strTableMap_load [OF assms(1) map that] .
qed (rule strTableMap_succeeds, use assms(1) in \<open>simp add: table_ok_def\<close>)

theorem strTableMap_refines_update_witness:
  "\<exists>t'. strTableMap (\<lambda>_ _. True) (\<lambda>_ _. 7) ''foo'' (1 :: nat) (emptyTable []) = Inr t' \<and>
     strTableGet (\<lambda>_ _. 7) t' ''foo'' = Some 1 \<and> strTableGet (\<lambda>_ _. 7) t' ''bar'' = None"
proof -
  let ?t = "emptyTable [] :: nat string_table"
  have t: "table_ok (\<lambda>_ _. 7) ?t" "strTableGet (\<lambda>_ _. 7) ?t ''foo'' = None"
    using emptyTable_ok by blast+
  have "associations ?t \<noteq> capacity ?t" by (simp add: emptyTable_def)
  with strTableMap_refines_update [OF t, of "\<lambda>_ _. True" 1] show ?thesis
    using st.new_get [where siphash = "\<lambda>_ _. 7" and k = "''bar''"] by fastforce
qed

text \<open>
  A table filled with distinct keys answers every lookup like the list of its associations:
  each key gets its own data, other keys get nothing, and the count is the number of keys. The
  array of 32 chains grows on the way, so this covers any number of doublings.
\<close>

theorem strTable_lookup_after_inserts:
  fixes t :: "'v string_table"
  assumes "foldE (\<lambda>(k, v). strTableMap avail siphash k v) kvs (emptyTable rands) = Inr t"
    and "distinct (map fst kvs)"
  shows "strTableGet siphash t = map_of kvs \<and> strTableCountMappings t = length kvs"
proof -
  let ?new = "emptyTable rands :: 'v string_table"
  have new: "strTableGet siphash ?new = Map.empty" by (auto simp: st.new_get)
  then have "dom (strTableGet siphash ?new) \<inter> fst ` set kvs = {}" by simp
  from st.add_all_spec [OF st.new_invar assms this]
  have ok: "table_ok siphash t" and get: "strTableGet siphash t = map_of kvs"
    by (simp_all add: new)
  have "card (dom (map_of kvs)) = length kvs"
    using assms(2) by (metis distinct_card dom_map_of_conv_image_fst length_map set_map)
  with st.entries_card [OF ok] get show ?thesis by simp
qed

theorem strTable_lookup_after_inserts_witness:
  "\<exists>t. foldE (\<lambda>(k, v). strTableMap (\<lambda>_ _. True) (\<lambda>s _. word_of_nat (length s)) k v)
      [(''a'', 1 :: nat), (''b'', 2), (''cc'', 3)] (emptyTable []) = Inr t \<and>
    strTableGet (\<lambda>s _. word_of_nat (length s)) t ''b'' = Some 2"
proof -
  have "\<exists>t. foldE (\<lambda>(k, v). strTableMap (\<lambda>_ _. True) (\<lambda>s _. word_of_nat (length s)) k v)
      [(''a'', 1 :: nat), (''b'', 2), (''cc'', 3)] (emptyTable []) = Inr t"
    by (simp add: strTableMap_def emptyTable_def allocate_def sizeof_Bucket_def Let_def)
  then obtain t where t: "foldE (\<lambda>(k, v). strTableMap (\<lambda>_ _. True) (\<lambda>s _. word_of_nat (length s)) k v)
      [(''a'', 1 :: nat), (''b'', 2), (''cc'', 3)] (emptyTable []) = Inr t"
    by blast
  with strTable_lookup_after_inserts [OF t] show ?thesis by simp
qed

end
