(* ===== verification/Metadata_Types.thy ===== *)
theory Metadata_Types
  imports Str Safe_Math
begin

unbundle bit_operations_syntax

text \<open>
  The data of a repository's metadata: the types of \<open>src/metadata.h\<close>, \<open>src/repository.h\<close>,
  \<open>src/file-hash.h\<close> and \<open>src/backup-policies.h\<close>.

  A path history is the list of its points, newest first, and a list of sibling nodes is a list in
  the order of the \<open>next\<close> pointers. History points share \<open>Backup\<close> structures through a pointer that is
  either the address of \<open>current_backup\<close> or of an element of \<open>backup_history\<close>: it is a \<open>backup_ref\<close>,
  so every update of a reference count goes through the metadata record, as in the code. Paths and
  symlink targets are the contents of their \<open>StringView\<close>s. The path table contains the nodes that
  were read from the metadata file; since a node is identified by its path, the table is the list
  of the mapped paths.
\<close>

section \<open>Backup policies\<close>

text \<open>
  The policy of a node is one byte in the metadata file and the code stores it in the enum without
  a check, so a seventh constructor holds every other byte.
\<close>

datatype backup_policy =
    BPOL_none
  | BPOL_copy
  | BPOL_mirror
  | BPOL_track
  | BPOL_ignore
  | BPOL_summarize
  | BPOL_other u8

definition policy_of_byte :: "u8 \<Rightarrow> backup_policy" where
  "policy_of_byte b =
     (if b = 0 then BPOL_none else if b = 1 then BPOL_copy else if b = 2 then BPOL_mirror
      else if b = 3 then BPOL_track else if b = 4 then BPOL_ignore
      else if b = 5 then BPOL_summarize else BPOL_other b)"

primrec byte_of_policy :: "backup_policy \<Rightarrow> u8" where
  "byte_of_policy BPOL_none = 0"
| "byte_of_policy BPOL_copy = 1"
| "byte_of_policy BPOL_mirror = 2"
| "byte_of_policy BPOL_track = 3"
| "byte_of_policy BPOL_ignore = 4"
| "byte_of_policy BPOL_summarize = 5"
| "byte_of_policy (BPOL_other b) = b"

lemma byte_of_policy_of_byte [simp]: "byte_of_policy (policy_of_byte b) = b"
  by (simp add: policy_of_byte_def)

text \<open>The representation of a policy is canonical when it comes from a byte.\<close>

definition policy_ok :: "backup_policy \<Rightarrow> bool" where
  "policy_ok p \<longleftrightarrow> policy_of_byte (byte_of_policy p) = p"

lemma policy_ok_of_byte [simp]: "policy_ok (policy_of_byte b)"
  by (simp add: policy_ok_def)

lemma policy_ok_simps [simp]:
  "policy_ok BPOL_none" "policy_ok BPOL_copy" "policy_ok BPOL_mirror" "policy_ok BPOL_track"
  "policy_ok BPOL_ignore" "policy_ok BPOL_summarize"
  by (simp_all add: policy_ok_def policy_of_byte_def)

section \<open>States, histories and nodes\<close>

definition FILE_HASH_SIZE :: nat where
  "FILE_HASH_SIZE = 20"

text \<open>
  \<open>hash\<close> holds the defined bytes of the C array: none for an empty file, the whole file when it has
  at most \<open>FILE_HASH_SIZE\<close> bytes, a hash of \<open>FILE_HASH_SIZE\<close> bytes otherwise. \<open>slot\<close> is defined in the
  last case only; where the code leaves it undefined it is 0 here.
\<close>

record file_info =
  permission_bits :: u32
  modification_time :: u64
  file_size :: u64
  file_hash :: "u8 list"
  slot :: u8

record directory_info =
  dir_permission_bits :: u32
  dir_modification_time :: u64

datatype path_state =
    PST_non_existing
  | PST_regular_file u32 u32 file_info
  | PST_symlink u32 u32 string
  | PST_directory u32 u32 directory_info

datatype backup_ref =
    Current
  | Hist nat

record path_history =
  point_backup :: backup_ref
  state :: path_state

type_synonym hint = u32

datatype path_node =
  PathNode (node_path: string) (node_hint: hint) (node_policy: backup_policy)
    (node_history: "path_history list") (node_subnodes: "path_node list")

record backup =
  backup_id :: u64
  completion_time :: u64
  ref_count :: u64

record metadata =
  current_backup :: backup
  backup_history :: "backup list"
  config_history :: "path_history list"
  total_path_count :: u64
  path_table :: "string list"
  paths :: "path_node list"

definition metadataNew :: metadata where
  "metadataNew =
     \<lparr>current_backup = \<lparr>backup_id = 0, completion_time = 0, ref_count = 0\<rparr>,
      backup_history = [], config_history = [], total_path_count = 0, path_table = [],
      paths = []\<rparr>"

definition path_state_type :: "path_state \<Rightarrow> u8" where
  "path_state_type s =
     (case s of PST_non_existing \<Rightarrow> 0 | PST_regular_file _ _ _ \<Rightarrow> 1
      | PST_symlink _ _ _ \<Rightarrow> 2 | PST_directory _ _ _ \<Rightarrow> 3)"

section \<open>Hints\<close>

definition BH_none :: hint where "BH_none = 0"
definition BH_unchanged :: hint where "BH_unchanged = 1"
definition BH_added :: hint where "BH_added = 2"
definition BH_removed :: hint where "BH_removed = 3"
definition BH_not_part_of_repository :: hint where "BH_not_part_of_repository = 4"
definition BH_regular_to_symlink :: hint where "BH_regular_to_symlink = 5"
definition BH_regular_to_directory :: hint where "BH_regular_to_directory = 6"
definition BH_symlink_to_regular :: hint where "BH_symlink_to_regular = 7"
definition BH_symlink_to_directory :: hint where "BH_symlink_to_directory = 8"
definition BH_directory_to_regular :: hint where "BH_directory_to_regular = 9"
definition BH_directory_to_symlink :: hint where "BH_directory_to_symlink = 10"
definition BH_other_to_regular :: hint where "BH_other_to_regular = 11"
definition BH_other_to_symlink :: hint where "BH_other_to_symlink = 12"
definition BH_other_to_directory :: hint where "BH_other_to_directory = 13"
definition BH_owner_changed :: hint where "BH_owner_changed = 16"
definition BH_permissions_changed :: hint where "BH_permissions_changed = 32"
definition BH_timestamp_changed :: hint where "BH_timestamp_changed = 64"
definition BH_content_changed :: hint where "BH_content_changed = 128"
definition BH_fresh_hash :: hint where "BH_fresh_hash = 256"
definition BH_policy_changed :: hint where "BH_policy_changed = 512"
definition BH_loses_history :: hint where "BH_loses_history = 1024"

lemmas BH_defs =
  BH_none_def BH_unchanged_def BH_added_def BH_removed_def BH_not_part_of_repository_def
  BH_regular_to_symlink_def BH_regular_to_directory_def BH_symlink_to_regular_def
  BH_symlink_to_directory_def BH_directory_to_regular_def BH_directory_to_symlink_def
  BH_other_to_regular_def BH_other_to_symlink_def BH_other_to_directory_def
  BH_owner_changed_def BH_permissions_changed_def BH_timestamp_changed_def
  BH_content_changed_def BH_fresh_hash_def BH_policy_changed_def BH_loses_history_def

definition backupHintSet :: "hint \<Rightarrow> hint \<Rightarrow> hint" where
  "backupHintSet var h =
     (if h \<le> BH_unchanged then h
      else if h \<le> BH_other_to_directory then (var AND NOT 0x1FF) OR h
      else if h \<le> BH_fresh_hash then (var AND NOT 0xF) OR h
      else var OR h)"

definition backupHintNoPol :: "hint \<Rightarrow> hint" where
  "backupHintNoPol val = val AND 0x1FF"

text \<open>The test \<open>hint & flag\<close> of the code.\<close>

definition hint_has :: "hint \<Rightarrow> hint \<Rightarrow> bool" where
  "hint_has h flag \<longleftrightarrow> h AND flag \<noteq> 0"

lemma word_le_1 [simp]: "(h :: 'a::len word) \<le> 1 \<longleftrightarrow> h = 0 \<or> h = 1"
  by (metis One_nat_def le_Suc_eq le_zero_eq unat_0 unat_1 word_le_nat_alt word_unat_eq_iff word_zero_le)

lemma mask_combine:
  fixes v :: "'a::len word"
  shows "((v AND NOT m) OR h) AND m = h AND m"
  by (rule bit_eqI) (auto simp: bit_simps)

lemma or_eq_0_iff: "v OR w = (0 :: 'a::len word) \<longleftrightarrow> v = 0 \<and> w = 0"
  by (auto simp: bit_eq_iff bit_simps)

lemma backupHintNoPol_set_base:
  "BH_unchanged < h \<Longrightarrow> h \<le> BH_other_to_directory \<Longrightarrow> backupHintNoPol (backupHintSet v h) = h AND 0x1FF"
  by (simp only: backupHintNoPol_def backupHintSet_def not_le [symmetric] if_True if_False mask_combine)

lemma backupHintNoPol_set [simp]:
  "backupHintNoPol (backupHintSet v BH_none) = BH_none"
  "backupHintNoPol (backupHintSet v BH_unchanged) = BH_unchanged"
  "backupHintNoPol (backupHintSet v BH_added) = BH_added"
  "backupHintNoPol (backupHintSet v BH_removed) = BH_removed"
  "backupHintNoPol (backupHintSet v BH_not_part_of_repository) = BH_not_part_of_repository"
  "backupHintNoPol (backupHintSet v BH_regular_to_symlink) = BH_regular_to_symlink"
  "backupHintNoPol (backupHintSet v BH_regular_to_directory) = BH_regular_to_directory"
  "backupHintNoPol (backupHintSet v BH_symlink_to_regular) = BH_symlink_to_regular"
  "backupHintNoPol (backupHintSet v BH_symlink_to_directory) = BH_symlink_to_directory"
  "backupHintNoPol (backupHintSet v BH_directory_to_regular) = BH_directory_to_regular"
  "backupHintNoPol (backupHintSet v BH_directory_to_symlink) = BH_directory_to_symlink"
proof -
  show "backupHintNoPol (backupHintSet v BH_none) = BH_none"
    "backupHintNoPol (backupHintSet v BH_unchanged) = BH_unchanged"
    by (simp_all add: backupHintNoPol_def backupHintSet_def BH_defs)
qed (subst backupHintNoPol_set_base; simp add: BH_defs)+

lemma backupHintNoPol_policy_flags [simp]:
  "backupHintNoPol (backupHintSet v BH_policy_changed) = backupHintNoPol v"
  "backupHintNoPol (backupHintSet v BH_loses_history) = backupHintNoPol v"
  by (simp_all add: backupHintNoPol_def backupHintSet_def BH_defs bit.conj_disj_distrib2)

text \<open>The change flags of a path: combinable bits below the policy bits.\<close>

abbreviation change_flag :: "hint \<Rightarrow> bool" where
  "change_flag f \<equiv> f = BH_owner_changed \<or> f = BH_permissions_changed \<or> f = BH_timestamp_changed \<or>
     f = BH_content_changed \<or> f = BH_fresh_hash"

lemma backupHintSet_flag:
  "change_flag f \<Longrightarrow> backupHintSet v f = (v AND NOT 0xF) OR f"
  by (auto simp: backupHintSet_def BH_defs)

lemma flag_not_base:
  assumes "change_flag f"
  shows "((v AND NOT 0xF) OR f) AND 0xF = (0 :: hint)"
proof -
  have "f AND 0xF = 0" using assms by (auto simp: BH_defs)
  then show ?thesis by (simp only: mask_combine)
qed

lemma base_of_NoPol: "backupHintNoPol v AND 0xF = v AND 0xF"
  by (simp add: backupHintNoPol_def and.assoc)

lemma base_set_flag:
  "change_flag f \<Longrightarrow> backupHintNoPol (backupHintSet v f) AND 0xF = 0"
  by (simp only: base_of_NoPol backupHintSet_flag flag_not_base)

lemma NoPol_set_flag_ne_0:
  assumes "change_flag f"
  shows "backupHintNoPol (backupHintSet v f) \<noteq> BH_none"
proof -
  have "f AND 0x1FF = f" "f \<noteq> 0" using assms by (auto simp: BH_defs)
  then have "((v AND NOT 0xF) OR f) AND 0x1FF \<noteq> 0"
    by (simp only: bit.conj_disj_distrib2 or_eq_0_iff) simp
  then show ?thesis unfolding backupHintNoPol_def backupHintSet_flag [OF assms] BH_none_def .
qed

lemma NoPol_set_flag_not_part:
  assumes "change_flag f"
  shows "backupHintNoPol (backupHintSet v f) \<noteq> BH_not_part_of_repository"
  using base_set_flag [OF assms, of v] by (auto simp: BH_defs)

lemma hint_has_set_flag:
  assumes "change_flag f"
  shows "hint_has (backupHintSet v f) f"
proof -
  have "((v AND NOT 0xF) OR f) AND f = f"
    by (rule bit_eqI) (auto simp: bit_simps)
  then show ?thesis using assms
    by (auto simp: hint_has_def backupHintSet_flag BH_defs)
qed

text \<open>
  The encoding the comments of the enum promise: a base value and a change flag never occur
  together.
\<close>

definition hint_ok :: "hint \<Rightarrow> bool" where
  "hint_ok h \<longleftrightarrow> (h AND 0xF = 0 \<or> h AND 0x1F0 = 0)"

definition all_hints :: "hint list" where
  "all_hints =
     [BH_none, BH_unchanged, BH_added, BH_removed, BH_not_part_of_repository,
      BH_regular_to_symlink, BH_regular_to_directory, BH_symlink_to_regular,
      BH_symlink_to_directory, BH_directory_to_regular, BH_directory_to_symlink,
      BH_other_to_regular, BH_other_to_symlink, BH_other_to_directory, BH_owner_changed,
      BH_permissions_changed, BH_timestamp_changed, BH_content_changed, BH_fresh_hash,
      BH_policy_changed, BH_loses_history]"

lemma hint_ok_set:
  assumes "h \<in> set all_hints" and "hint_ok v"
  shows "hint_ok (backupHintSet v h)"
proof -
  consider "h \<le> BH_unchanged" | "BH_unchanged < h" "h \<le> BH_other_to_directory" "h AND 0x1F0 = 0"
    | "change_flag h" | "BH_fresh_hash < h" "h AND 0x1FF = 0"
    using assms(1) unfolding all_hints_def by (auto simp: BH_defs)
  then show ?thesis
  proof cases
    case 1
    then have "h = 0 \<or> h = 1" by (simp add: BH_unchanged_def)
    then show ?thesis by (auto simp: hint_ok_def backupHintSet_def BH_defs)
  next
    case 2
    have "((v AND NOT 0x1FF) OR h) AND 0x1F0 = (((v AND NOT 0x1FF) OR h) AND 0x1FF) AND 0x1F0"
      by (simp add: and.assoc)
    also have "\<dots> = (h AND 0x1FF) AND 0x1F0" by (simp only: mask_combine)
    also have "\<dots> = 0" using 2(3) by (simp add: and.assoc)
    finally show ?thesis using 2 by (simp add: hint_ok_def backupHintSet_def not_le)
  next
    case 3
    then show ?thesis using flag_not_base [OF 3, of v] unfolding hint_ok_def backupHintSet_flag [OF 3] by blast
  next
    case 4
    have "h AND 0xF = (h AND 0x1FF) AND 0xF" "h AND 0x1F0 = (h AND 0x1FF) AND 0x1F0"
      by (simp_all add: and.assoc)
    with 4(2) have "h AND 0xF = 0" "h AND 0x1F0 = 0" by simp_all
    moreover have "\<not> h \<le> BH_unchanged" "\<not> h \<le> BH_other_to_directory" "\<not> h \<le> BH_fresh_hash"
      using 4(1) order.strict_trans [of 13 256 h] order.strict_trans [of 1 256 h]
      by (auto simp: BH_defs not_le)
    ultimately show ?thesis using assms(2)
      by (simp add: hint_ok_def backupHintSet_def bit.conj_disj_distrib2)
  qed
qed

text \<open>
  C23: \<open>backupHintSet()\<close> keeps the values of the enum apart. Whatever bits were set before, setting a
  base value leaves exactly that value when the policy bits are masked out; setting a change flag
  clears the base value and leaves the flag set; setting one of the two policy bits changes nothing
  below them; and no sequence of calls mixes a base value with a change flag.
\<close>

theorem backupHintSet_exclusive:
  "(\<forall>h \<in> set all_hints. (BH_unchanged < h \<and> h \<le> BH_other_to_directory \<longrightarrow>
        backupHintNoPol (backupHintSet v h) = h) \<and>
      (change_flag h \<longrightarrow> hint_has (backupHintSet v h) h \<and>
        backupHintNoPol (backupHintSet v h) AND 0xF = 0) \<and>
      (BH_fresh_hash < h \<longrightarrow> backupHintNoPol (backupHintSet v h) = backupHintNoPol v)) \<and>
    (\<forall>hs. set hs \<subseteq> set all_hints \<longrightarrow> hint_ok (foldl backupHintSet BH_none hs))"
proof (intro conjI ballI allI impI)
  fix h assume h: "h \<in> set all_hints"
  show "backupHintNoPol (backupHintSet v h) = h"
    if "BH_unchanged < h \<and> h \<le> BH_other_to_directory"
  proof -
    have "h AND 0x1FF = h" using that h unfolding all_hints_def by (auto simp: BH_defs)
    then show ?thesis using that backupHintNoPol_set_base [of h v] by simp
  qed
  show "hint_has (backupHintSet v h) h" "backupHintNoPol (backupHintSet v h) AND 0xF = 0"
    if "change_flag h"
    using hint_has_set_flag [OF that] base_set_flag [OF that] by auto
  show "backupHintNoPol (backupHintSet v h) = backupHintNoPol v" if "BH_fresh_hash < h"
  proof -
    have "h = BH_policy_changed \<or> h = BH_loses_history"
      using that h unfolding all_hints_def by (auto simp: BH_defs)
    then show ?thesis by auto
  qed
next
  fix hs :: "hint list" assume "set hs \<subseteq> set all_hints"
  moreover have "hint_ok v \<Longrightarrow> set hs \<subseteq> set all_hints \<Longrightarrow> hint_ok (foldl backupHintSet v hs)" for v
    by (induction hs arbitrary: v) (simp_all add: hint_ok_set)
  moreover have "hint_ok BH_none" by (simp add: hint_ok_def BH_defs)
  ultimately show "hint_ok (foldl backupHintSet BH_none hs)" by blast
qed

theorem backupHintSet_exclusive_witness:
  "backupHintNoPol (backupHintSet 0x2F0 BH_removed) = BH_removed \<and>
   hint_ok (foldl backupHintSet BH_none [BH_added, BH_owner_changed])"
proof
  note C = backupHintSet_exclusive [of "0x2F0"]
  have "BH_removed \<in> set all_hints" "BH_unchanged < BH_removed \<and> BH_removed \<le> BH_other_to_directory"
    by (simp_all add: all_hints_def BH_defs)
  with conjunct1 [OF C] show "backupHintNoPol (backupHintSet 0x2F0 BH_removed) = BH_removed" by blast
  have "set [BH_added, BH_owner_changed] \<subseteq> set all_hints" by (simp add: all_hints_def)
  with conjunct2 [OF C] show "hint_ok (foldl backupHintSet BH_none [BH_added, BH_owner_changed])"
    by blast
qed

end
