(* ===== verification/Metadata_IO.thy ===== *)
theory Metadata_IO
  imports Metadata_Types
begin

text \<open>
  Reading and writing the metadata file: \<open>src/metadata.c\<close>. A reader takes the data of the file
  and a position in it, and returns what it read with the next position; it dies when the data
  is too short. A writer returns the bytes it passes to \<open>repoWriterWrite()\<close>. The byte order of the
  host is a parameter: \<open>memcpy()\<close> between an integer and bytes depends on it, and
  \<open>convertEndian32()\<close> and \<open>convertEndian64()\<close> make the file the same on every supported host.
\<close>

section \<open>Byte order\<close>

datatype host = Little_endian | Big_endian | Mixed_endian

text \<open>The bytes of an integer, least significant byte first, and back.\<close>

definition le_bytes :: "nat \<Rightarrow> 'a::len word \<Rightarrow> u8 list" where
  "le_bytes n w = map (\<lambda>i. ucast (drop_bit (8 * i) w)) [0..<n]"

fun le_word :: "u8 list \<Rightarrow> 'a::len word" where
  "le_word [] = 0"
| "le_word (b # bs) = ucast b OR push_bit 8 (le_word bs)"

text \<open>A mixed-endian host swaps the two bytes of each 16-bit unit of the big-endian order.\<close>

fun swap_pairs :: "'a list \<Rightarrow> 'a list" where
  "swap_pairs (a # b # xs) = b # a # swap_pairs xs"
| "swap_pairs xs = xs"

text \<open>The memory of an integer whose little-endian bytes are the argument, and back.\<close>

primrec mem_order :: "host \<Rightarrow> u8 list \<Rightarrow> u8 list" where
  "mem_order Little_endian bs = bs"
| "mem_order Big_endian bs = rev bs"
| "mem_order Mixed_endian bs = swap_pairs (rev bs)"

primrec of_mem_order :: "host \<Rightarrow> u8 list \<Rightarrow> u8 list" where
  "of_mem_order Little_endian bs = bs"
| "of_mem_order Big_endian bs = rev bs"
| "of_mem_order Mixed_endian bs = rev (swap_pairs bs)"

definition endian_test :: "host \<Rightarrow> u8 list" where
  "endian_test E = mem_order E (le_bytes 4 (1 :: u32))"

definition convertEndian32 :: "host \<Rightarrow> u32 \<Rightarrow> u32 result" where
  "convertEndian32 E value =
     (if endian_test E ! 0 = 1 then Inr value
      else if endian_test E ! 3 = 1 then
        (let value = ((push_bit 8 value) AND 0xFF00FF00) OR ((drop_bit 8 value) AND 0xFF00FF)
         in Inr ((push_bit 16 value) OR (drop_bit 16 value)))
      else Inl Unsupported_endianness)"

definition convertEndian64 :: "host \<Rightarrow> u64 \<Rightarrow> u64 result" where
  "convertEndian64 E value =
     (if endian_test E ! 0 = 1 then Inr value
      else if endian_test E ! 3 = 1 then
        (let value = ((push_bit 8 value) AND 0xFF00FF00FF00FF00) OR
               ((drop_bit 8 value) AND 0x00FF00FF00FF00FF);
             value = ((push_bit 16 value) AND 0xFFFF0000FFFF0000) OR
               ((drop_bit 16 value) AND 0x0000FFFF0000FFFF)
         in Inr ((push_bit 32 value) OR (drop_bit 32 value)))
      else Inl Unsupported_endianness)"

section \<open>Reading integers\<close>

text \<open>The bytes between two positions, for \<open>memcpy()\<close>.\<close>

definition substr :: "string \<Rightarrow> nat \<Rightarrow> nat \<Rightarrow> string" where
  "substr data pos n = take n (drop pos data)"

definition assertBytesLeft :: "nat \<Rightarrow> nat \<Rightarrow> string \<Rightarrow> string \<Rightarrow> unit result" where
  "assertBytesLeft reader_position bytes data metadata_path =
     bindE (size_add reader_position bytes) (\<lambda>e.
       if e > length data
       then Inl (Metadata_too_short bytes (length data - reader_position) metadata_path)
       else Inr ())"

definition read8 :: "string \<Rightarrow> string \<Rightarrow> nat \<Rightarrow> (u8 \<times> nat) result" where
  "read8 metadata_path data pos =
     bindE (assertBytesLeft pos 1 data metadata_path) (\<lambda>_.
       Inr (byte_of_char (data ! pos), pos + 1))"

definition read32 :: "host \<Rightarrow> string \<Rightarrow> string \<Rightarrow> nat \<Rightarrow> (u32 \<times> nat) result" where
  "read32 E metadata_path data pos =
     bindE (assertBytesLeft pos 4 data metadata_path) (\<lambda>_.
     bindE (convertEndian32 E (le_word (of_mem_order E (map byte_of_char (substr data pos 4)))))
       (\<lambda>value. Inr (value, pos + 4)))"

definition read64 :: "host \<Rightarrow> string \<Rightarrow> string \<Rightarrow> nat \<Rightarrow> (u64 \<times> nat) result" where
  "read64 E metadata_path data pos =
     bindE (assertBytesLeft pos 8 data metadata_path) (\<lambda>_.
     bindE (convertEndian64 E (le_word (of_mem_order E (map byte_of_char (substr data pos 8)))))
       (\<lambda>value. Inr (value, pos + 8)))"

text \<open>On a 64-bit system the two range checks below never fail.\<close>

definition sizeof_time_t :: nat where
  "sizeof_time_t = 8"

definition readSize :: "host \<Rightarrow> string \<Rightarrow> string \<Rightarrow> nat \<Rightarrow> (nat \<times> nat) result" where
  "readSize E metadata_path data pos =
     bindE (read64 E metadata_path data pos) (\<lambda>(size, pos).
       if unat size > SIZE_MAX then Inl (Size_out_of_range metadata_path)
       else Inr (unat size, pos))"

definition readTime :: "host \<Rightarrow> string \<Rightarrow> string \<Rightarrow> nat \<Rightarrow> (u64 \<times> nat) result" where
  "readTime E metadata_path data pos =
     bindE (read64 E metadata_path data pos) (\<lambda>(time, pos).
       if sizeof_time_t = 4 \<and> (sint time < - (2 ^ 31) \<or> sint time > 2 ^ 31 - 1)
       then Inl (Time_out_of_range metadata_path)
       else Inr (time, pos))"

definition readBytes :: "string \<Rightarrow> string \<Rightarrow> nat \<Rightarrow> nat \<Rightarrow> (u8 list \<times> nat) result" where
  "readBytes metadata_path data n pos =
     bindE (assertBytesLeft pos n data metadata_path) (\<lambda>_.
       Inr (map byte_of_char (substr data pos n), pos + n))"

section \<open>Writing integers\<close>

definition write8 :: "u8 \<Rightarrow> string" where
  "write8 value = [char_of_byte value]"

definition write32 :: "host \<Rightarrow> u32 \<Rightarrow> string result" where
  "write32 E value =
     bindE (convertEndian32 E value) (\<lambda>converted_value.
       Inr (map char_of_byte (mem_order E (le_bytes 4 converted_value))))"

definition write64 :: "host \<Rightarrow> u64 \<Rightarrow> string result" where
  "write64 E value =
     bindE (convertEndian64 E value) (\<lambda>converted_value.
       Inr (map char_of_byte (mem_order E (le_bytes 8 converted_value))))"

text \<open>Runs a writer for each element of a list, one after the other.\<close>

definition writeEach :: "('x \<Rightarrow> string result) \<Rightarrow> 'x list \<Rightarrow> string result" where
  "writeEach w xs = foldE (\<lambda>x out. bindE (w x) (\<lambda>bytes. Inr (out @ bytes))) xs []"

definition andThen :: "string result \<Rightarrow> string result \<Rightarrow> string result" where
  "andThen w v = bindE w (\<lambda>a. bindE v (\<lambda>b. Inr (a @ b)))"

text \<open>The loops that count the elements of a list with \<open>sSizeAdd()\<close>.\<close>

definition countElements :: "'x list \<Rightarrow> nat result" where
  "countElements xs = foldE (\<lambda>_ n. size_add n 1) xs 0"

section \<open>Byte order is undone\<close>

lemma length_le_bytes [simp]: "length (le_bytes n w) = n"
  by (simp add: le_bytes_def)

lemma bit_le_word:
  "bit (le_word bs :: 'a::len word) n \<longleftrightarrow>
     n < LENGTH('a) \<and> n div 8 < length bs \<and> bit (bs ! (n div 8)) (n mod 8)"
proof (induction bs arbitrary: n)
  case (Cons b bs)
  show ?case
  proof (cases "n < 8")
    case True
    then show ?thesis by (auto simp: bit_simps)
  next
    case False
    then obtain m where "n = m + 8" by (metis add.commute le_Suc_ex not_less)
    moreover have "(m + 8) div 8 = Suc (m div 8)" "(m + 8) mod 8 = m mod 8" by simp_all
    ultimately show ?thesis
      by (auto simp: bit_simps Cons.IH dest: bit_imp_le_length)
  qed
qed simp

lemma le_word_le_bytes:
  assumes "LENGTH('a) = 8 * n"
  shows "le_word (le_bytes n w) = (w :: 'a::len word)"
proof (rule bit_word_eqI)
  fix k assume "k < LENGTH('a)"
  then have "k div 8 < n" using assms by (simp add: less_mult_imp_div_less mult.commute)
  then show "bit (le_word (le_bytes n w) :: 'a word) k = bit w k"
    using \<open>k < LENGTH('a)\<close> by (simp add: bit_le_word le_bytes_def bit_simps)
qed

lemma le_bytes_le_word:
  assumes "length bs = n" and "8 * n \<le> LENGTH('a::len)"
  shows "le_bytes n (le_word bs :: 'a word) = bs"
proof (rule nth_equalityI)
  fix i assume "i < length (le_bytes n (le_word bs :: 'a word))"
  then have i: "i < n" by simp
  show "le_bytes n (le_word bs :: 'a word) ! i = bs ! i"
  proof (rule bit_word_eqI)
    fix k assume "k < LENGTH(8)"
    then show "bit (le_bytes n (le_word bs :: 'a word) ! i) k = bit (bs ! i) k"
      using i assms by (simp add: le_bytes_def bit_simps bit_le_word)
  qed
qed (simp add: assms)

lemma length_swap_pairs [simp]: "length (swap_pairs xs) = length xs"
  by (induction xs rule: swap_pairs.induct) auto

lemma swap_pairs_swap_pairs [simp]: "swap_pairs (swap_pairs xs) = xs"
  by (induction xs rule: swap_pairs.induct) auto

lemma of_mem_order_mem_order [simp]: "of_mem_order E (mem_order E bs) = bs"
  by (cases E) auto

lemma length_of_mem_order [simp]: "length (of_mem_order E bs) = length bs"
  by (cases E) auto

lemma upt_4: "[0..<4] = [0, 1, 2, 3]" and upt_8: "[0..<8] = [0, 1, 2, 3, 4, 5, 6, 7]"
  by (simp_all add: upt_rec)

lemma endian_tests:
  "endian_test Little_endian ! 0 = 1"
  "endian_test Big_endian ! 0 \<noteq> 1" "endian_test Big_endian ! 3 = 1"
  "endian_test Mixed_endian ! 0 \<noteq> 1" "endian_test Mixed_endian ! 3 \<noteq> 1"
  by (simp_all add: endian_test_def le_bytes_def upt_4)

definition bswap32 :: "u32 \<Rightarrow> u32" where
  "bswap32 w =
     (let w = ((push_bit 8 w) AND 0xFF00FF00) OR ((drop_bit 8 w) AND 0xFF00FF)
      in (push_bit 16 w) OR (drop_bit 16 w))"

definition bswap64 :: "u64 \<Rightarrow> u64" where
  "bswap64 w =
     (let w = ((push_bit 8 w) AND 0xFF00FF00FF00FF00) OR ((drop_bit 8 w) AND 0x00FF00FF00FF00FF);
          w = ((push_bit 16 w) AND 0xFFFF0000FFFF0000) OR ((drop_bit 16 w) AND 0x0000FFFF0000FFFF)
      in (push_bit 32 w) OR (drop_bit 32 w))"

lemma convertEndian_simps:
  "convertEndian32 Little_endian v = Inr v"
  "convertEndian32 Big_endian v = Inr (bswap32 v)"
  "convertEndian32 Mixed_endian v = Inl Unsupported_endianness"
  "convertEndian64 Little_endian w = Inr w"
  "convertEndian64 Big_endian w = Inr (bswap64 w)"
  "convertEndian64 Mixed_endian w = Inl Unsupported_endianness"
  by (simp_all add: convertEndian32_def convertEndian64_def bswap32_def bswap64_def endian_tests)

lemma less_8E:
  assumes "(n :: nat) < 8"
    and "n = 0 \<Longrightarrow> P" "n = 1 \<Longrightarrow> P" "n = 2 \<Longrightarrow> P" "n = 3 \<Longrightarrow> P"
    and "n = 4 \<Longrightarrow> P" "n = 5 \<Longrightarrow> P" "n = 6 \<Longrightarrow> P" "n = 7 \<Longrightarrow> P"
  shows P
  using assms by linarith

lemmas bit_shift_simps =
  bit_or_iff bit_and_iff bit_push_bit_iff bit_drop_bit_eq bit_unsigned_iff

lemma word8_eqI:
  fixes v w :: u8
  assumes "bit v 0 = bit w 0" "bit v 1 = bit w 1" "bit v 2 = bit w 2" "bit v 3 = bit w 3"
    and "bit v 4 = bit w 4" "bit v 5 = bit w 5" "bit v 6 = bit w 6" "bit v 7 = bit w 7"
  shows "v = w"
proof (rule bit_word_eqI)
  fix n assume "n < LENGTH(8)"
  then have "n < 8" by simp
  then show "bit v n = bit w n" by (rule less_8E) (use assms in simp_all)
qed

lemma le_bytes_bswap32: "le_bytes 4 (bswap32 w) = rev (le_bytes 4 w)"
proof -
  have "ucast (drop_bit (8 * i) (bswap32 w)) = (ucast (drop_bit (8 * (3 - i)) w) :: u8)"
    if "i = 0 \<or> i = 1 \<or> i = 2 \<or> i = 3" for i
    by (rule word8_eqI; use that in \<open>elim disjE\<close>;
        simp add: bswap32_def Let_def bit_shift_simps)
  from this [of 0] this [of 1] this [of 2] this [of 3] show ?thesis
    by (simp add: le_bytes_def upt_4)
qed

text \<open>The three stages of the 64-bit swap exchange bytes, pairs of bytes, and halves.\<close>

definition byte_at :: "nat \<Rightarrow> u64 \<Rightarrow> u8" where
  "byte_at i w = ucast (drop_bit (8 * i) w)"

definition stage8 :: "u64 \<Rightarrow> u64" where
  "stage8 w = ((push_bit 8 w) AND 0xFF00FF00FF00FF00) OR ((drop_bit 8 w) AND 0x00FF00FF00FF00FF)"

definition stage16 :: "u64 \<Rightarrow> u64" where
  "stage16 w = ((push_bit 16 w) AND 0xFFFF0000FFFF0000) OR ((drop_bit 16 w) AND 0x0000FFFF0000FFFF)"

definition stage32 :: "u64 \<Rightarrow> u64" where
  "stage32 w = (push_bit 32 w) OR (drop_bit 32 w)"

lemma byte_at_stages:
  "i < 8 \<Longrightarrow> byte_at i (stage8 w) = byte_at (if even i then i + 1 else i - 1) w"
  "i < 8 \<Longrightarrow> byte_at i (stage16 w) = byte_at (if even (i div 2) then i + 2 else i - 2) w"
  "i < 8 \<Longrightarrow> byte_at i (stage32 w) = byte_at (if i < 4 then i + 4 else i - 4) w"
  by (erule less_8E; rule word8_eqI;
      simp add: byte_at_def stage8_def stage16_def stage32_def bit_shift_simps)+

lemma byte_at_bswap64:
  assumes "i < 8"
  shows "byte_at i (bswap64 w) = byte_at (7 - i) w"
proof -
  have "bswap64 w = stage32 (stage16 (stage8 w))"
    by (simp only: bswap64_def stage8_def stage16_def stage32_def Let_def)
  with assms show ?thesis by (elim less_8E) (simp_all add: byte_at_stages, simp_all add: numeral_2_eq_2 numeral_3_eq_3)
qed

lemma le_bytes_bswap64: "le_bytes 8 (bswap64 w) = rev (le_bytes 8 w)"
proof -
  have "le_bytes 8 v = map (\<lambda>i. byte_at i v) [0, 1, 2, 3, 4, 5, 6, 7]" for v
    by (simp add: le_bytes_def byte_at_def upt_8)
  then show ?thesis by (simp add: byte_at_bswap64)
qed

section \<open>Reading the metadata\<close>

definition readFileInfo :: "host \<Rightarrow> string \<Rightarrow> string \<Rightarrow> nat \<Rightarrow> (file_info \<times> nat) result" where
  "readFileInfo E mpath data pos =
     bindE (read32 E mpath data pos) (\<lambda>(permission_bits, pos).
     bindE (readTime E mpath data pos) (\<lambda>(modification_time, pos).
     bindE (read64 E mpath data pos) (\<lambda>(size, pos).
     bindE
       (if unat size > FILE_HASH_SIZE then
          bindE (readBytes mpath data FILE_HASH_SIZE pos) (\<lambda>(hash, pos).
          bindE (read8 mpath data pos) (\<lambda>(slot, pos). Inr ((hash, slot), pos)))
        else if size > 0 then
          bindE (readBytes mpath data (unat size) pos) (\<lambda>(hash, pos). Inr ((hash, 0), pos))
        else Inr (([], 0), pos))
       (\<lambda>((hash, slot), pos).
         Inr (\<lparr>permission_bits = permission_bits, modification_time = modification_time,
                file_size = size, file_hash = hash, slot = slot\<rparr>, pos)))))"

definition readSymlinkTarget :: "host \<Rightarrow> string \<Rightarrow> string \<Rightarrow> nat \<Rightarrow> (string \<times> nat) result" where
  "readSymlinkTarget E mpath data pos =
     bindE (readSize E mpath data pos) (\<lambda>(target_length, pos).
     bindE (size_add target_length 1) (\<lambda>_.
     bindE (readBytes mpath data target_length pos) (\<lambda>(buffer, pos).
       Inr (view (str (map char_of_byte buffer @ [NUL])), pos))))"

definition readDirectoryInfo ::
  "host \<Rightarrow> string \<Rightarrow> string \<Rightarrow> nat \<Rightarrow> (directory_info \<times> nat) result" where
  "readDirectoryInfo E mpath data pos =
     bindE (read32 E mpath data pos) (\<lambda>(permission_bits, pos).
     bindE (readTime E mpath data pos) (\<lambda>(modification_time, pos).
       Inr (\<lparr>dir_permission_bits = permission_bits, dir_modification_time = modification_time\<rparr>,
            pos)))"

definition readPathState :: "host \<Rightarrow> string \<Rightarrow> string \<Rightarrow> nat \<Rightarrow> (path_state \<times> nat) result" where
  "readPathState E mpath data pos =
     bindE (read8 mpath data pos) (\<lambda>(ty, pos).
     bindE
       (if ty \<noteq> 0 then
          bindE (read32 E mpath data pos) (\<lambda>(uid, pos).
          bindE (read32 E mpath data pos) (\<lambda>(gid, pos). Inr ((uid, gid), pos)))
        else Inr ((0, 0), pos))
       (\<lambda>((uid, gid), pos).
         if ty = 1 then
           bindE (readFileInfo E mpath data pos) (\<lambda>(info, pos).
             Inr (PST_regular_file uid gid info, pos))
         else if ty = 2 then
           bindE (readSymlinkTarget E mpath data pos) (\<lambda>(target, pos).
             Inr (PST_symlink uid gid target, pos))
         else if ty = 3 then
           bindE (readDirectoryInfo E mpath data pos) (\<lambda>(info, pos).
             Inr (PST_directory uid gid info, pos))
         else if ty \<noteq> 0 then Inl (Invalid_path_state_type mpath)
         else Inr (PST_non_existing, pos)))"

text \<open>\<open>point->backup->ref_count = sSizeAdd(point->backup->ref_count, 1)\<close>.\<close>

definition increment_ref :: "backup \<Rightarrow> backup result" where
  "increment_ref b = bindE (sSizeAdd (ref_count b) 1) (\<lambda>n. Inr (b\<lparr>ref_count := n\<rparr>))"

definition readPathHistory ::
  "host \<Rightarrow> string \<Rightarrow> string \<Rightarrow> nat \<Rightarrow> metadata \<Rightarrow> (path_history \<times> nat \<times> metadata) result" where
  "readPathHistory E mpath data pos md =
     bindE (readSize E mpath data pos) (\<lambda>(ident, pos).
       if ident \<ge> length (backup_history md) then Inl (Backup_id_out_of_range mpath)
       else
         bindE (increment_ref (backup_history md ! ident)) (\<lambda>b.
         bindE (readPathState E mpath data pos) (\<lambda>(st, pos).
           Inr (\<lparr>point_backup = Hist ident, state = st\<rparr>, pos,
                md\<lparr>backup_history := (backup_history md)[ident := b]\<rparr>))))"

text \<open>The loop over the remaining points of a history.\<close>

fun readPoints ::
  "host \<Rightarrow> string \<Rightarrow> string \<Rightarrow> nat \<Rightarrow> nat \<Rightarrow> metadata \<Rightarrow>
   (path_history list \<times> nat \<times> metadata) result" where
  "readPoints E mpath data 0 pos md = Inr ([], pos, md)"
| "readPoints E mpath data (Suc n) pos md =
     bindE (readPathHistory E mpath data pos md) (\<lambda>(point, pos, md).
     bindE (readPoints E mpath data n pos md) (\<lambda>(rest, pos, md).
       Inr (point # rest, pos, md)))"

definition readFullPathHistory ::
  "host \<Rightarrow> string \<Rightarrow> string \<Rightarrow> nat \<Rightarrow> metadata \<Rightarrow>
   (path_history list \<times> nat \<times> metadata) result" where
  "readFullPathHistory E mpath data pos md =
     bindE (readSize E mpath data pos) (\<lambda>(history_length, pos).
       if history_length = 0 then Inr ([], pos, md)
       else
         bindE (readPathHistory E mpath data pos md) (\<lambda>(first_point, pos, md).
         bindE (readPoints E mpath data (history_length - 1) pos md) (\<lambda>(rest, pos, md).
           Inr (first_point # rest, pos, md))))"

text \<open>The name of a node: its length, the three checks, and the full path.\<close>

definition readNodePath ::
  "host \<Rightarrow> string \<Rightarrow> string \<Rightarrow> string \<Rightarrow> nat \<Rightarrow> (string \<times> nat) result" where
  "readNodePath E mpath data parent_path pos =
     bindE (readSize E mpath data pos) (\<lambda>(name_length, pos).
       if name_length = 0 then Inl (Filename_length_zero mpath)
       else
         bindE (assertBytesLeft pos name_length data mpath) (\<lambda>_.
           let name = substr data pos name_length in
           if NUL \<in> set name then Inl (Filename_null_bytes mpath)
           else if CHR ''/'' \<in> set name \<or> is_dot_element name
           then Inl (Invalid_filename name mpath)
           else Inr (append_path parent_path name, pos + name_length)))"

text \<open>
  The values of a node that precede its subnodes: path, policy and history. The path is mapped in
  the path table.
\<close>

definition readNodeHead ::
  "host \<Rightarrow> string \<Rightarrow> string \<Rightarrow> string \<Rightarrow> nat \<Rightarrow> metadata \<Rightarrow>
   (string \<times> backup_policy \<times> path_history list \<times> nat \<times> metadata) result" where
  "readNodeHead E mpath data parent_path pos md =
     bindE (readNodePath E mpath data parent_path pos) (\<lambda>(path, pos).
       let md = md\<lparr>path_table := path # path_table md\<rparr> in
       bindE (read8 mpath data pos) (\<lambda>(policy, pos).
       bindE (readFullPathHistory E mpath data pos md) (\<lambda>(history, pos, md).
         Inr (path, policy_of_byte policy, history, pos, md))))"

text \<open>
  The loop of \<open>readPathSubnodes()\<close>: \<open>n\<close> nodes are left to read and \<open>tree\<close> is the list of the nodes
  read so far. It calls \<open>readPathSubnodes()\<close> for the subnodes of each node: their count and the same
  loop with an empty list.
\<close>

function readNodes ::
  "host \<Rightarrow> string \<Rightarrow> string \<Rightarrow> string \<Rightarrow> nat \<Rightarrow> nat \<Rightarrow> path_node list \<Rightarrow> metadata \<Rightarrow>
   (path_node list \<times> nat \<times> metadata) result" where
  "readNodes E mpath data parent_path 0 pos tree md = Inr (tree, pos, md)"
| "readNodes E mpath data parent_path (Suc n) pos tree md =
     bindE (readNodeHead E mpath data parent_path pos md) (\<lambda>(path, policy, history, pos, md).
     bindE (readSize E mpath data pos) (\<lambda>(node_count, pos).
     bindE (readNodes E mpath data path node_count pos [] md) (\<lambda>(subnodes, pos, md).
       readNodes E mpath data parent_path n pos
         (PathNode path BH_none policy history subnodes # tree) md)))"
  by pat_completeness auto

text \<open>Every reader that returns has moved forward, and not behind the end of the content.\<close>

definition advances :: "string \<Rightarrow> nat \<Rightarrow> nat \<Rightarrow> bool" where
  "advances data pos pos' \<longleftrightarrow> pos < pos' \<and> pos' \<le> length data"

lemma assertBytesLeft_Inr:
  "assertBytesLeft pos n data mpath = Inr u \<longleftrightarrow> pos + n \<le> length data \<and> pos + n \<le> SIZE_MAX"
  by (auto simp: assertBytesLeft_def bindE_eq_Inr size_add_Inr)

lemma read8_advances: "read8 mpath data pos = Inr (v, pos') \<Longrightarrow> advances data pos pos'"
  by (auto simp: read8_def bindE_eq_Inr assertBytesLeft_Inr advances_def)

lemma read32_advances: "read32 E mpath data pos = Inr (v, pos') \<Longrightarrow> advances data pos pos'"
  by (auto simp: read32_def bindE_eq_Inr assertBytesLeft_Inr advances_def)

lemma read64_advances: "read64 E mpath data pos = Inr (v, pos') \<Longrightarrow> advances data pos pos'"
  by (auto simp: read64_def bindE_eq_Inr assertBytesLeft_Inr advances_def)

lemma readSize_advances: "readSize E mpath data pos = Inr (v, pos') \<Longrightarrow> advances data pos pos'"
  by (auto simp: readSize_def bindE_eq_Inr split: if_splits dest: read64_advances)

lemma readTime_advances: "readTime E mpath data pos = Inr (v, pos') \<Longrightarrow> advances data pos pos'"
  by (auto simp: readTime_def bindE_eq_Inr split: if_splits dest: read64_advances)

lemma readBytes_advances:
  "readBytes mpath data n pos = Inr (v, pos') \<Longrightarrow> pos \<le> pos' \<and> pos' \<le> length data"
  by (auto simp: readBytes_def bindE_eq_Inr assertBytesLeft_Inr)

lemma advances_trans:
  "advances data p q \<Longrightarrow> advances data q r \<Longrightarrow> advances data p r"
  "advances data p q \<Longrightarrow> q \<le> r \<and> r \<le> length data \<Longrightarrow> advances data p r"
  "p \<le> q \<and> q \<le> length data \<Longrightarrow> advances data q r \<Longrightarrow> advances data p r"
  by (auto simp: advances_def)

lemmas reader_advances =
  read8_advances read32_advances read64_advances readSize_advances readTime_advances

lemma readFileInfo_advances:
  assumes "readFileInfo E mpath data pos = Inr (v, pos')"
  shows "advances data pos pos'"
proof -
  from assms obtain q1 q2 q3 v1 v2 v3 where
    "read32 E mpath data pos = Inr (v1, q1)" "readTime E mpath data q1 = Inr (v2, q2)"
    "read64 E mpath data q2 = Inr (v3, q3)" and q: "q3 = pos' \<or> (q3 \<le> pos' \<and> pos' \<le> length data)"
    by (fastforce simp: readFileInfo_def bindE_eq_Inr split: if_splits prod.splits
        dest: readBytes_advances read8_advances simp: advances_def)
  then have "advances data pos q3" by (blast intro: advances_trans(1) reader_advances)
  with q show ?thesis by (auto intro: advances_trans(2))
qed

lemma readSymlinkTarget_advances:
  "readSymlinkTarget E mpath data pos = Inr (v, pos') \<Longrightarrow> advances data pos pos'"
  by (auto simp: readSymlinkTarget_def bindE_eq_Inr
      intro: advances_trans(2) dest: reader_advances readBytes_advances)

lemma readDirectoryInfo_advances:
  "readDirectoryInfo E mpath data pos = Inr (v, pos') \<Longrightarrow> advances data pos pos'"
  by (auto simp: readDirectoryInfo_def bindE_eq_Inr
      intro: advances_trans(1) dest: reader_advances)

lemma readPathState_advances:
  assumes "readPathState E mpath data pos = Inr (v, pos')"
  shows "advances data pos pos'"
proof -
  from assms obtain ty q where ty: "read8 mpath data pos = Inr (ty, q)"
    and rest: "bindE
       (if ty \<noteq> 0 then
          bindE (read32 E mpath data q) (\<lambda>(uid, pos).
          bindE (read32 E mpath data pos) (\<lambda>(gid, pos). Inr ((uid, gid), pos)))
        else Inr ((0, 0), q))
       (\<lambda>((uid, gid), pos).
         if ty = 1 then
           bindE (readFileInfo E mpath data pos) (\<lambda>(info, pos).
             Inr (PST_regular_file uid gid info, pos))
         else if ty = 2 then
           bindE (readSymlinkTarget E mpath data pos) (\<lambda>(target, pos).
             Inr (PST_symlink uid gid target, pos))
         else if ty = 3 then
           bindE (readDirectoryInfo E mpath data pos) (\<lambda>(info, pos).
             Inr (PST_directory uid gid info, pos))
         else if ty \<noteq> 0 then Inl (Invalid_path_state_type mpath)
         else Inr (PST_non_existing, pos)) = Inr (v, pos')"
    by (auto simp: readPathState_def bindE_eq_Inr)
  have q: "advances data pos q" by (rule read8_advances [OF ty])
  from rest obtain uid gid r where
    r: "(if ty \<noteq> 0 then
          bindE (read32 E mpath data q) (\<lambda>(uid, pos).
          bindE (read32 E mpath data pos) (\<lambda>(gid, pos). Inr ((uid, gid), pos)))
        else Inr ((0, 0), q)) = Inr ((uid, gid), r)"
    and last: "r = pos' \<or> advances data r pos'"
    by (auto simp: bindE_eq_Inr split: if_splits
        dest: readFileInfo_advances readSymlinkTarget_advances readDirectoryInfo_advances)
  from r have "q = r \<or> advances data q r"
    by (auto simp: bindE_eq_Inr split: if_splits intro: advances_trans(1) dest: reader_advances)
  with q last show ?thesis by (blast intro: advances_trans(1))
qed

lemma readPathHistory_advances:
  "readPathHistory E mpath data pos md = Inr (v, pos', md') \<Longrightarrow> advances data pos pos'"
  by (auto simp: readPathHistory_def bindE_eq_Inr split: if_splits
      intro: advances_trans(1) dest: reader_advances readPathState_advances)

lemma readPoints_advances:
  "readPoints E mpath data n pos md = Inr (v, pos', md') \<Longrightarrow> pos \<le> length data \<Longrightarrow>
   pos \<le> pos' \<and> pos' \<le> length data"
proof (induction n arbitrary: pos md v)
  case (Suc n)
  from Suc.prems obtain point q md1 rest where
    "readPathHistory E mpath data pos md = Inr (point, q, md1)"
    and rest: "readPoints E mpath data n q md1 = Inr (rest, pos', md')"
    by (auto simp: bindE_eq_Inr)
  then have "pos < q" "q \<le> length data" by (auto dest!: readPathHistory_advances simp: advances_def)
  with Suc.IH [OF rest] show ?case by simp
qed simp

lemma readFullPathHistory_advances:
  assumes "readFullPathHistory E mpath data pos md = Inr (v, pos', md')"
  shows "advances data pos pos'"
proof -
  from assms obtain n q where "readSize E mpath data pos = Inr (n, q)"
    and "q = pos' \<or> (\<exists>p r md1 rest. readPathHistory E mpath data q md = Inr (p, r, md1) \<and>
      readPoints E mpath data (n - 1) r md1 = Inr (rest, pos', md'))"
    by (auto simp: readFullPathHistory_def bindE_eq_Inr split: if_splits)
  then show ?thesis
    by (auto dest!: readSize_advances readPathHistory_advances readPoints_advances
        simp: advances_def)
qed

lemma readNodePath_advances:
  "readNodePath E mpath data parent pos = Inr (v, pos') \<Longrightarrow> advances data pos pos'"
  by (auto simp: readNodePath_def bindE_eq_Inr Let_def assertBytesLeft_Inr advances_def
      split: if_splits dest!: readSize_advances)

lemma readNodeHead_advances:
  "readNodeHead E mpath data parent pos md = Inr (p, pol, h, pos', md') \<Longrightarrow> advances data pos pos'"
  by (auto simp: readNodeHead_def bindE_eq_Inr Let_def
      dest!: readNodePath_advances read8_advances readFullPathHistory_advances
      simp: advances_def)

lemma readNodes_dom_advances:
  "readNodes_dom (E, mpath, data, parent, n, pos, tree, md) \<Longrightarrow>
   readNodes E mpath data parent n pos tree md = Inr (v, pos', md') \<Longrightarrow> pos \<le> length data \<Longrightarrow>
   pos \<le> pos' \<and> pos' \<le> length data"
proof (induction E mpath data parent n pos tree md arbitrary: v pos' md' rule: readNodes.pinduct)
  case (2 E mpath data parent n pos tree md)
  from "2.prems" obtain p pol h q md1 c r subs s md2 where
    head: "readNodeHead E mpath data parent pos md = Inr (p, pol, h, q, md1)"
    and count: "readSize E mpath data q = Inr (c, r)"
    and subs: "readNodes E mpath data p c r [] md1 = Inr (subs, s, md2)"
    and rest: "readNodes E mpath data parent n s (PathNode p BH_none pol h subs # tree) md2 =
      Inr (v, pos', md')"
    by (auto simp: readNodes.psimps(2) [OF "2.hyps"] bindE_eq_Inr)
  have r: "pos < r \<and> r \<le> length data"
    using readNodeHead_advances [OF head] readSize_advances [OF count] by (simp add: advances_def)
  have s: "r \<le> s \<and> s \<le> length data"
    using r "2.IH"(1) [OF head refl refl refl refl count refl subs] by simp
  with r "2.IH"(2) [OF head refl refl refl refl count refl subs refl refl rest] show ?case by simp
qed (simp_all add: readNodes.psimps)

termination readNodes
proof (relation "measures [\<lambda>(E, mpath, data, parent, n, pos, tree, md). length data - pos,
    \<lambda>(E, mpath, data, parent, n, pos, tree, md). n]", goal_cases)
  case 1
  then show ?case by simp
next
  case (2 E mpath data parent n pos tree md)
  then show ?case
    by (auto dest!: readNodeHead_advances readSize_advances simp: advances_def)
next
  case (3 E mpath data parent n pos tree md)
  then show ?case
    by (auto dest!: readNodeHead_advances readSize_advances readNodes_dom_advances
        simp: advances_def)
qed

definition readPathSubnodes ::
  "host \<Rightarrow> string \<Rightarrow> string \<Rightarrow> string \<Rightarrow> nat \<Rightarrow> metadata \<Rightarrow>
   (path_node list \<times> nat \<times> metadata) result" where
  "readPathSubnodes E mpath data parent_path pos md =
     bindE (readSize E mpath data pos) (\<lambda>(node_count, pos).
       readNodes E mpath data parent_path node_count pos [] md)"

text \<open>The loop of \<open>metadataLoad()\<close> that fills the array of backups, from the index \<open>ident\<close> on.\<close>

fun readBackups ::
  "host \<Rightarrow> string \<Rightarrow> string \<Rightarrow> nat \<Rightarrow> nat \<Rightarrow> nat \<Rightarrow> (backup list \<times> nat) result" where
  "readBackups E mpath data ident 0 pos = Inr ([], pos)"
| "readBackups E mpath data ident (Suc n) pos =
     bindE (readTime E mpath data pos) (\<lambda>(time, pos).
     bindE (readBackups E mpath data (Suc ident) n pos) (\<lambda>(rest, pos).
       Inr (\<lparr>backup_id = word_of_nat ident, completion_time = time, ref_count = 0\<rparr> # rest, pos)))"

definition sizeof_Backup :: nat where
  "sizeof_Backup = 24"

text \<open>The argument \<open>data\<close> is the content of the file, which \<open>sGetFilesContent()\<close> returns.\<close>

definition metadataLoad :: "host \<Rightarrow> string \<Rightarrow> string \<Rightarrow> metadata result" where
  "metadataLoad E path data =
     bindE (readSize E path data 0) (\<lambda>(backup_history_length, pos).
     bindE (if backup_history_length = 0 then Inr 0
            else size_mul sizeof_Backup backup_history_length) (\<lambda>_.
     bindE (readBackups E path data 0 backup_history_length pos) (\<lambda>(backups, pos).
     bindE (readFullPathHistory E path data pos (metadataNew\<lparr>backup_history := backups\<rparr>))
       (\<lambda>(config, pos, md).
     bindE (readSize E path data pos) (\<lambda>(count, pos).
     bindE (readPathSubnodes E path data [] pos
         (md\<lparr>config_history := config, total_path_count := word_of_nat count\<rparr>))
       (\<lambda>(nodes, pos, md).
       if pos \<noteq> length data then Inl (Trailing_bytes path)
       else Inr (md\<lparr>paths := nodes\<rparr>)))))))"

section \<open>Writing the metadata\<close>

definition backup_of :: "metadata \<Rightarrow> backup_ref \<Rightarrow> backup" where
  "backup_of md r = (case r of Current \<Rightarrow> current_backup md | Hist i \<Rightarrow> backup_history md ! i)"

definition writeFileInfo :: "host \<Rightarrow> file_info \<Rightarrow> string result" where
  "writeFileInfo E info =
     andThen (write32 E (permission_bits info)) (
     andThen (write64 E (modification_time info)) (
     andThen (write64 E (file_size info)) (
       if unat (file_size info) > FILE_HASH_SIZE then
         andThen (Inr (map char_of_byte (take FILE_HASH_SIZE (file_hash info))))
           (Inr (write8 (slot info)))
       else if file_size info > 0 then
         Inr (map char_of_byte (take (unat (file_size info)) (file_hash info)))
       else Inr [])))"

definition writePathState :: "host \<Rightarrow> path_state \<Rightarrow> string result" where
  "writePathState E st =
     andThen (Inr (write8 (path_state_type st)))
       (case st of
          PST_non_existing \<Rightarrow> Inr []
        | PST_regular_file uid gid info \<Rightarrow>
            andThen (write32 E uid) (andThen (write32 E gid) (writeFileInfo E info))
        | PST_symlink uid gid target \<Rightarrow>
            andThen (write32 E uid) (andThen (write32 E gid)
              (andThen (write64 E (word_of_nat (length target))) (Inr target)))
        | PST_directory uid gid info \<Rightarrow>
            andThen (write32 E uid) (andThen (write32 E gid)
              (andThen (write32 E (dir_permission_bits info))
                (write64 E (dir_modification_time info)))))"

definition writePoint :: "host \<Rightarrow> metadata \<Rightarrow> path_history \<Rightarrow> string result" where
  "writePoint E md point =
     andThen (write64 E (backup_id (backup_of md (point_backup point))))
       (writePathState E (state point))"

definition writePathHistoryList :: "host \<Rightarrow> metadata \<Rightarrow> path_history list \<Rightarrow> string result" where
  "writePathHistoryList E md points =
     bindE (countElements points) (\<lambda>history_length.
     andThen (write64 E (word_of_nat history_length)) (writeEach (writePoint E md) points))"

text \<open>The nodes that \<open>writePathList()\<close> counts and writes.\<close>

definition is_part_of_repository :: "path_node \<Rightarrow> bool" where
  "is_part_of_repository n \<longleftrightarrow> backupHintNoPol (node_hint n) \<noteq> BH_not_part_of_repository"

text \<open>\<open>writePathList()\<close> counts the nodes; \<open>writeNodes\<close> is its second loop.\<close>

function (sequential) writePathList :: "host \<Rightarrow> metadata \<Rightarrow> path_node list \<Rightarrow> string result"
  and writeNodes :: "host \<Rightarrow> metadata \<Rightarrow> path_node list \<Rightarrow> string result" where
  "writePathList E md nodes =
     bindE (countElements (filter is_part_of_repository nodes)) (\<lambda>list_length.
     andThen (write64 E (word_of_nat list_length)) (writeNodes E md nodes))"
| "writeNodes E md [] = Inr []"
| "writeNodes E md (PathNode path h policy history subnodes # nodes) =
     andThen
       (if is_part_of_repository (PathNode path h policy history subnodes) then
          (let name = snd (split_path path) in
           andThen (write64 E (word_of_nat (length name)))
           (andThen (Inr name)
           (andThen (Inr (write8 (byte_of_policy policy)))
           (andThen (writePathHistoryList E md history) (writePathList E md subnodes)))))
        else Inr [])
       (writeNodes E md nodes)"
  by pat_completeness auto
termination
  by (relation "measure (\<lambda>x. case x of Inl (E, md, nodes) \<Rightarrow> 2 * size_list size nodes + 1
      | Inr (E, md, nodes) \<Rightarrow> 2 * size_list size nodes)") auto

text \<open>The loop that numbers the referenced backups, starting with the given identifier.\<close>

fun updateIds :: "backup list \<Rightarrow> nat \<Rightarrow> (backup list \<times> nat) result" where
  "updateIds [] id_counter = Inr ([], id_counter)"
| "updateIds (b # bs) id_counter =
     (if ref_count b > 0 then
        bindE (size_add id_counter 1) (\<lambda>next.
        bindE (updateIds bs next) (\<lambda>(rest, n).
          Inr (b\<lparr>backup_id := word_of_nat id_counter\<rparr> # rest, n)))
      else
        bindE (updateIds bs id_counter) (\<lambda>(rest, n). Inr (b # rest, n)))"

text \<open>Returns the bytes that are written and the metadata with its new identifiers.\<close>

definition metadataWrite :: "host \<Rightarrow> metadata \<Rightarrow> (string \<times> metadata) result" where
  "metadataWrite E md =
     bindE (updateIds (backup_history md) (if ref_count (current_backup md) > 0 then 1 else 0))
       (\<lambda>(history, id_counter).
       let md = md\<lparr>backup_history := history\<rparr> in
       bindE
         (andThen (write64 E (word_of_nat id_counter))
         (andThen
            (if ref_count (current_backup md) > 0
             then write64 E (completion_time (current_backup md)) else Inr [])
         (andThen
            (writeEach
              (\<lambda>b. if ref_count b > 0 then write64 E (completion_time b) else Inr [])
              (backup_history md))
         (andThen (writePathHistoryList E md (config_history md))
         (andThen (write64 E (total_path_count md)) (writePathList E md (paths md)))))))
         (\<lambda>bytes. Inr (bytes, md)))"

end
