(* ===== verification/Metadata_Roundtrip.thy ===== *)
theory Metadata_Roundtrip
  imports Metadata_IO
begin

text \<open>
  What is written is read back. The locale \<open>codec\<close> is the contract between a writer and a reader of
  \<open>src/metadata.c\<close>: wherever the written bytes are stored in a file, the reader returns the value and
  moves behind them. It is interpreted for integers, file and directory infos and path states, for
  every pair of supported hosts. On top of it come the histories, which also count references, the
  node lists, and the whole file.
\<close>

section \<open>Stored bytes\<close>

definition stored :: "string \<Rightarrow> nat \<Rightarrow> string \<Rightarrow> bool" where
  "stored data pos bytes \<longleftrightarrow>
     length data \<le> SIZE_MAX \<and> pos + length bytes \<le> length data \<and>
     substr data pos (length bytes) = bytes"

definition supported :: "host \<Rightarrow> bool" where
  "supported E \<longleftrightarrow> E \<noteq> Mixed_endian"

lemma stored_append:
  "stored data pos (a @ b) \<longleftrightarrow> stored data pos a \<and> stored data (pos + length a) b"
proof -
  have "substr data pos (length a + length b) = substr data pos (length a) @ substr data (pos + length a) (length b)"
    by (simp add: substr_def take_add add.commute)
  then show ?thesis by (auto simp: stored_def substr_def)
qed

lemma stored_Nil: "stored data pos [] \<longleftrightarrow> length data \<le> SIZE_MAX \<and> pos \<le> length data"
  by (simp add: stored_def substr_def)

lemma stored_self: "length data \<le> SIZE_MAX \<Longrightarrow> stored data 0 data"
  by (simp add: stored_def substr_def)

lemma stored_nth: "stored data pos [c] \<Longrightarrow> data ! pos = c"
  by (cases "drop pos data") (auto simp: stored_def substr_def nth_via_drop)

lemma stored_substr: "stored data pos bytes \<Longrightarrow> substr data pos (length bytes) = bytes"
  by (simp add: stored_def)

lemma stored_bounds:
  "stored data pos bytes \<Longrightarrow> pos + length bytes \<le> length data \<and> pos + length bytes \<le> SIZE_MAX"
  by (simp add: stored_def)

lemma assertBytesLeft_stored:
  "stored data pos bytes \<Longrightarrow> n = length bytes \<Longrightarrow> assertBytesLeft pos n data mpath = Inr ()"
  by (auto simp: assertBytesLeft_Inr dest: stored_bounds)

lemma andThen_Inr:
  "andThen w v = Inr bytes \<longleftrightarrow> (\<exists>a b. w = Inr a \<and> v = Inr b \<and> bytes = a @ b)"
  by (auto simp: andThen_def bindE_eq_Inr)

section \<open>The contract of a writer and a reader\<close>

locale codec =
  fixes enc :: "'a \<Rightarrow> string result"
    and dec :: "string \<Rightarrow> nat \<Rightarrow> ('a \<times> nat) result"
    and ok :: "'a \<Rightarrow> bool"
  assumes dec_stored:
    "ok x \<Longrightarrow> enc x = Inr bytes \<Longrightarrow> stored data pos bytes \<Longrightarrow>
     dec data pos = Inr (x, pos + length bytes)"
begin

text \<open>No encoding of a value is a proper prefix of another one.\<close>

lemma prefix_free:
  assumes "ok x" "ok y" "enc x = Inr a" "enc y = Inr (a @ b)" "length (a @ b) \<le> SIZE_MAX"
  shows "x = y \<and> b = []"
proof -
  have ab: "stored (a @ b) 0 (a @ b)" using assms(5) by (rule stored_self)
  then have "stored (a @ b) 0 a" by (simp add: stored_append)
  from dec_stored [OF assms(1,3) this] dec_stored [OF assms(2,4) ab] show ?thesis by simp
qed

lemma dec_all:
  "ok x \<Longrightarrow> enc x = Inr bytes \<Longrightarrow> length bytes \<le> SIZE_MAX \<Longrightarrow> dec bytes 0 = Inr (x, length bytes)"
  using dec_stored [OF _ _ stored_self] by simp

lemma dec_then:
  assumes "ok x" "enc x = Inr a" "stored data pos (a @ b)"
  shows "bindE (dec data pos) f = f (x, pos + length a) \<and> stored data (pos + length a) b"
  using assms dec_stored [of x a data pos] by (simp add: stored_append)

end

section \<open>Integers\<close>

lemma write32_ok: "supported E \<Longrightarrow> write32 E v = Inr (map char_of_byte (le_bytes 4 v))"
  by (cases E)
    (simp_all add: write32_def supported_def convertEndian_simps le_bytes_bswap32)

lemma write64_ok: "supported E \<Longrightarrow> write64 E v = Inr (map char_of_byte (le_bytes 8 v))"
  by (cases E)
    (simp_all add: write64_def supported_def convertEndian_simps le_bytes_bswap64)

lemma convertEndian32_loaded:
  assumes "supported E" and "length bs = 4"
  shows "convertEndian32 E (le_word (of_mem_order E bs)) = Inr (le_word bs)"
proof (cases E)
  case Big_endian
  have "le_bytes 4 (bswap32 (le_word (rev bs))) = bs"
    using assms(2) by (simp add: le_bytes_bswap32 le_bytes_le_word)
  then have "bswap32 (le_word (rev bs)) = le_word bs"
    using le_word_le_bytes [of 4 "bswap32 (le_word (rev bs))"] by simp
  with Big_endian show ?thesis by (simp add: convertEndian_simps)
qed (use assms in \<open>simp_all add: convertEndian_simps supported_def\<close>)

lemma convertEndian64_loaded:
  assumes "supported E" and "length bs = 8"
  shows "convertEndian64 E (le_word (of_mem_order E bs)) = Inr (le_word bs)"
proof (cases E)
  case Big_endian
  have "le_bytes 8 (bswap64 (le_word (rev bs))) = bs"
    using assms(2) by (simp add: le_bytes_bswap64 le_bytes_le_word)
  then have "bswap64 (le_word (rev bs)) = le_word bs"
    using le_word_le_bytes [of 8 "bswap64 (le_word (rev bs))"] by simp
  with Big_endian show ?thesis by (simp add: convertEndian_simps)
qed (use assms in \<open>simp_all add: convertEndian_simps supported_def\<close>)

interpretation c32: codec "write32 E" "read32 E' mpath" "\<lambda>_. supported E \<and> supported E'"
  for E E' mpath
proof
  fix x bytes data pos
  assume E: "supported E \<and> supported E'" and w: "write32 E x = Inr bytes"
    and st: "stored data pos bytes"
  from w E have bytes: "bytes = map char_of_byte (le_bytes 4 x)" by (simp add: write32_ok)
  have "map byte_of_char (substr data pos 4) = le_bytes 4 x"
    using stored_substr [OF st] by (simp add: bytes)
  then show "read32 E' mpath data pos = Inr (x, pos + length bytes)"
    using E assertBytesLeft_stored [OF st, of 4]
    by (simp add: read32_def bytes convertEndian32_loaded le_word_le_bytes)
qed

interpretation c64: codec "write64 E" "read64 E' mpath" "\<lambda>_. supported E \<and> supported E'"
  for E E' mpath
proof
  fix x bytes data pos
  assume E: "supported E \<and> supported E'" and w: "write64 E x = Inr bytes"
    and st: "stored data pos bytes"
  from w E have bytes: "bytes = map char_of_byte (le_bytes 8 x)" by (simp add: write64_ok)
  have "map byte_of_char (substr data pos 8) = le_bytes 8 x"
    using stored_substr [OF st] by (simp add: bytes)
  then show "read64 E' mpath data pos = Inr (x, pos + length bytes)"
    using E assertBytesLeft_stored [OF st, of 8]
    by (simp add: read64_def bytes convertEndian64_loaded le_word_le_bytes)
qed

interpretation ctime: codec "write64 E" "readTime E' mpath" "\<lambda>_. supported E \<and> supported E'"
  for E E' mpath
proof
  fix x bytes data pos
  assume "supported E \<and> supported E'" "write64 E x = Inr bytes" "stored data pos bytes"
  from c64.dec_stored [OF this] show "readTime E' mpath data pos = Inr (x, pos + length bytes)"
    by (simp add: readTime_def sizeof_time_t_def)
qed

interpretation csize: codec "\<lambda>n. write64 E (word_of_nat n)" "readSize E' mpath"
  "\<lambda>n. supported E \<and> supported E' \<and> n \<le> SIZE_MAX"
  for E E' mpath
proof
  fix n bytes data pos
  assume n: "supported E \<and> supported E' \<and> n \<le> SIZE_MAX"
    and "write64 E (word_of_nat n) = Inr bytes" "stored data pos bytes"
  then have "read64 E' mpath data pos = Inr (word_of_nat n, pos + length bytes)"
    by (intro c64.dec_stored [where E = E]) auto
  with n show "readSize E' mpath data pos = Inr (n, pos + length bytes)"
    by (simp add: readSize_def)
qed

interpretation c8: codec "\<lambda>v. Inr (write8 v)" "read8 mpath" "\<lambda>_. True"
  for mpath
proof
  fix x bytes data pos
  assume "Inr (write8 x) = (Inr bytes :: string result)" and st: "stored data pos bytes"
  then have bytes: "bytes = [char_of_byte x]" by (simp add: write8_def)
  show "read8 mpath data pos = Inr (x, pos + length bytes)"
    using assertBytesLeft_stored [OF st, of 1] stored_nth st by (simp add: read8_def bytes)
qed

section \<open>Path states\<close>

text \<open>
  The invariant of a file's information: as many hash bytes as the code defines. The slot is
  defined for large files only.
\<close>

definition file_info_ok :: "file_info \<Rightarrow> bool" where
  "file_info_ok info \<longleftrightarrow>
     length (file_hash info) = min FILE_HASH_SIZE (unat (file_size info)) \<and>
     (unat (file_size info) \<le> FILE_HASH_SIZE \<longrightarrow> slot info = 0)"

definition path_state_ok :: "path_state \<Rightarrow> bool" where
  "path_state_ok st \<longleftrightarrow>
     (case st of
        PST_regular_file _ _ info \<Rightarrow> file_info_ok info
      | PST_symlink _ _ target \<Rightarrow> NUL \<notin> set target \<and> length target < SIZE_MAX
      | _ \<Rightarrow> True)"

lemma readBytes_stored:
  "stored data pos (map char_of_byte bs) \<Longrightarrow> n = length bs \<Longrightarrow>
   readBytes mpath data n pos = Inr (bs, pos + n)"
  using stored_substr [of data pos "map char_of_byte bs"]
  by (simp add: readBytes_def assertBytesLeft_stored)

interpretation cfile: codec "writeFileInfo E" "readFileInfo E' mpath"
  "\<lambda>info. (supported E \<and> supported E') \<and> file_info_ok info"
  for E E' mpath
proof
  fix info bytes data pos
  assume ok: "(supported E \<and> supported E') \<and> file_info_ok info"
    and w: "writeFileInfo E info = Inr bytes" and st: "stored data pos bytes"
  note E = conjunct1 [OF ok]
  let ?size = "file_size info" and ?hash = "file_hash info"
  from w obtain b1 b2 b3 b4 where
    b: "write32 E (permission_bits info) = Inr b1" "write64 E (modification_time info) = Inr b2"
      "write64 E ?size = Inr b3"
    and bytes: "bytes = b1 @ b2 @ b3 @ b4"
    and b4: "(if unat ?size > FILE_HASH_SIZE then
         andThen (Inr (map char_of_byte (take FILE_HASH_SIZE ?hash))) (Inr (write8 (slot info)))
       else if ?size > 0 then Inr (map char_of_byte (take (unat ?size) ?hash))
       else Inr []) = Inr b4"
    by (auto simp only: writeFileInfo_def andThen_Inr)
  note s1 = c32.dec_then [OF E b(1) st [unfolded bytes], of mpath]
  note s2 = ctime.dec_then [OF E b(2) conjunct2 [OF s1], of mpath]
  note s3 = c64.dec_then [OF E b(3) conjunct2 [OF s2], of mpath]
  note steps = conjunct1 [OF s1] conjunct1 [OF s2] conjunct1 [OF s3]
  let ?pos = "pos + length b1 + length b2 + length b3"
  have st4: "stored data ?pos b4" using s3 by blast
  consider (big) "unat ?size > FILE_HASH_SIZE" | (small) "unat ?size \<le> FILE_HASH_SIZE" "?size > 0"
    | (empty) "?size = 0"
    by (auto simp: word_gt_0 not_le intro: leI)
  then show "readFileInfo E' mpath data pos = Inr (info, pos + length bytes)"
  proof cases
    case big
    then have len: "length ?hash = FILE_HASH_SIZE" using ok by (simp add: file_info_ok_def)
    then have b4': "b4 = map char_of_byte ?hash @ write8 (slot info)"
      using b4 big by (simp add: andThen_Inr)
    note st4' = st4 [unfolded b4' stored_append]
    have "readBytes mpath data FILE_HASH_SIZE ?pos = Inr (?hash, ?pos + FILE_HASH_SIZE)"
      using st4' by (intro readBytes_stored) (simp_all add: len)
    moreover have "read8 mpath data (?pos + FILE_HASH_SIZE) = Inr (slot info, ?pos + FILE_HASH_SIZE + 1)"
      using c8.dec_stored [OF _ _ conjunct2 [OF st4'], of "slot info"] by (simp add: len write8_def)
    ultimately show ?thesis using big
      by (simp add: readFileInfo_def steps bytes b4' len write8_def)
  next
    case small
    then have len: "length ?hash = unat ?size" using ok by (simp add: file_info_ok_def)
    then have b4': "b4 = map char_of_byte ?hash" using b4 small by (simp add: not_less)
    have "readBytes mpath data (unat ?size) ?pos = Inr (?hash, ?pos + unat ?size)"
      using st4 by (intro readBytes_stored) (simp_all add: len b4')
    moreover have "slot info = 0" using ok small by (simp add: file_info_ok_def)
    ultimately show ?thesis using small
      by (simp add: readFileInfo_def steps bytes b4' len not_less)
  next
    case empty
    then have "?hash = []" "slot info = 0" "b4 = []"
      using ok b4 by (simp_all add: file_info_ok_def)
    with empty show ?thesis by (simp add: readFileInfo_def steps bytes)
  qed
qed

definition writeDirectoryInfo :: "host \<Rightarrow> directory_info \<Rightarrow> string result" where
  "writeDirectoryInfo E info =
     andThen (write32 E (dir_permission_bits info)) (write64 E (dir_modification_time info))"

interpretation cdir: codec "writeDirectoryInfo E" "readDirectoryInfo E' mpath"
  "\<lambda>_. supported E \<and> supported E'"
  for E E' mpath
proof
  fix info bytes data pos
  assume E: "supported E \<and> supported E'"
    and w: "writeDirectoryInfo E info = Inr bytes" and st: "stored data pos bytes"
  from w obtain b1 b2 where
    b: "write32 E (dir_permission_bits info) = Inr b1" "write64 E (dir_modification_time info) = Inr b2"
    and bytes: "bytes = b1 @ b2"
    by (auto simp: writeDirectoryInfo_def andThen_Inr)
  note s1 = c32.dec_then [OF E b(1) st [unfolded bytes], of mpath]
  from ctime.dec_stored [OF E b(2) conjunct2 [OF s1], of mpath]
  show "readDirectoryInfo E' mpath data pos = Inr (info, pos + length bytes)"
    by (simp add: readDirectoryInfo_def bytes conjunct1 [OF s1])
qed

definition writeSymlinkTarget :: "host \<Rightarrow> string \<Rightarrow> string result" where
  "writeSymlinkTarget E target = andThen (write64 E (word_of_nat (length target))) (Inr target)"

lemma view_str_buffer: "NUL \<notin> set s \<Longrightarrow> view (str (s @ [NUL])) = s"
  by (simp add: str_def strlen_def)

interpretation clink: codec "writeSymlinkTarget E" "readSymlinkTarget E' mpath"
  "\<lambda>target. (supported E \<and> supported E') \<and> NUL \<notin> set target \<and> length target < SIZE_MAX"
  for E E' mpath
proof
  fix target bytes data pos
  assume ok: "(supported E \<and> supported E') \<and> NUL \<notin> set target \<and> length target < SIZE_MAX"
    and w: "writeSymlinkTarget E target = Inr bytes" and st: "stored data pos bytes"
  from w obtain b1 where b: "write64 E (word_of_nat (length target)) = Inr b1"
    and bytes: "bytes = b1 @ target"
    by (auto simp: writeSymlinkTarget_def andThen_Inr)
  have len: "(supported E \<and> supported E') \<and> length target \<le> SIZE_MAX" using ok by simp
  note s1 = csize.dec_then [OF len [simplified conj_assoc] b st [unfolded bytes], of mpath]
  have "readBytes mpath data (length target) (pos + length b1) =
      Inr (map byte_of_char target, pos + length b1 + length target)"
    using conjunct2 [OF s1] by (intro readBytes_stored) simp_all
  then show "readSymlinkTarget E' mpath data pos = Inr (target, pos + length bytes)"
    using ok by (simp add: readSymlinkTarget_def conjunct1 [OF s1] bytes view_str_buffer size_add_def)
qed

interpretation cstate: codec "writePathState E" "readPathState E' mpath"
  "\<lambda>st. (supported E \<and> supported E') \<and> path_state_ok st"
  for E E' mpath
proof
  fix st bytes data pos
  assume ok: "(supported E \<and> supported E') \<and> path_state_ok st"
    and w: "writePathState E st = Inr bytes" and sd: "stored data pos bytes"
  note E = conjunct1 [OF ok]
  have ok': "path_state_ok st" using ok by blast
  obtain rest where bytes: "bytes = write8 (path_state_type st) @ rest"
    using w by (auto simp: writePathState_def andThen_Inr)
  have l8: "length (write8 v) = 1" for v by (simp add: write8_def)
  note s1 = c8.dec_then [OF TrueI refl sd [unfolded bytes], of mpath, unfolded l8]
  note hd = conjunct1 [OF s1] and sr = conjunct2 [OF s1]
  show "readPathState E' mpath data pos = Inr (st, pos + length bytes)"
  proof (cases st)
    case PST_non_existing
    with w bytes have "rest = []" by (auto simp: writePathState_def andThen_Inr)
    moreover have ty: "path_state_type st = 0" by (simp add: PST_non_existing path_state_type_def)
    ultimately show ?thesis
      by (simp add: readPathState_def hd [unfolded ty] bytes l8 PST_non_existing)
  next
    case (PST_regular_file uid gid info)
    with w bytes obtain b1 b2 b3 where
      b: "write32 E uid = Inr b1" "write32 E gid = Inr b2" "writeFileInfo E info = Inr b3"
      and rest: "rest = b1 @ b2 @ b3"
      by (auto simp: writePathState_def andThen_Inr)
    note s2 = c32.dec_then [OF E b(1) sr [unfolded rest], of mpath]
    note s3 = c32.dec_then [OF E b(2) conjunct2 [OF s2], of mpath]
    have info: "(supported E \<and> supported E') \<and> file_info_ok info"
      using E ok' PST_regular_file by (simp add: path_state_ok_def)
    note s4 = cfile.dec_stored [OF info b(3) conjunct2 [OF s3], of mpath]
    have ty: "path_state_type st = 1" by (simp add: PST_regular_file path_state_type_def)
    show ?thesis
      by (simp add: readPathState_def hd [unfolded ty] conjunct1 [OF s2] conjunct1 [OF s3] s4
          bytes rest l8 PST_regular_file del: One_nat_def)
  next
    case (PST_symlink uid gid target)
    with w bytes obtain b1 b2 b3 where
      b: "write32 E uid = Inr b1" "write32 E gid = Inr b2" "writeSymlinkTarget E target = Inr b3"
      and rest: "rest = b1 @ b2 @ b3"
      by (auto simp: writePathState_def writeSymlinkTarget_def andThen_Inr)
    note s2 = c32.dec_then [OF E b(1) sr [unfolded rest], of mpath]
    note s3 = c32.dec_then [OF E b(2) conjunct2 [OF s2], of mpath]
    have target: "(supported E \<and> supported E') \<and> NUL \<notin> set target \<and> length target < SIZE_MAX"
      using E ok' PST_symlink by (simp add: path_state_ok_def)
    note s4 = clink.dec_stored [OF target b(3) conjunct2 [OF s3], of mpath]
    have ty: "path_state_type st = 2" by (simp add: PST_symlink path_state_type_def)
    show ?thesis
      by (simp add: readPathState_def hd [unfolded ty] conjunct1 [OF s2] conjunct1 [OF s3] s4
          bytes rest l8 PST_symlink del: One_nat_def)
  next
    case (PST_directory uid gid info)
    with w bytes obtain b1 b2 b3 where
      b: "write32 E uid = Inr b1" "write32 E gid = Inr b2" "writeDirectoryInfo E info = Inr b3"
      and rest: "rest = b1 @ b2 @ b3"
      by (auto simp: writePathState_def writeDirectoryInfo_def andThen_Inr)
    note s2 = c32.dec_then [OF E b(1) sr [unfolded rest], of mpath]
    note s3 = c32.dec_then [OF E b(2) conjunct2 [OF s2], of mpath]
    note s4 = cdir.dec_stored [OF E b(3) conjunct2 [OF s3], of mpath]
    have ty: "path_state_type st = 3" by (simp add: PST_directory path_state_type_def)
    show ?thesis
      by (simp add: readPathState_def hd [unfolded ty] conjunct1 [OF s2] conjunct1 [OF s3] s4
          bytes rest l8 PST_directory del: One_nat_def)
  qed
qed

section \<open>Histories\<close>

text \<open>The state of the backups after points with the given identifiers were read.\<close>

definition add_ref :: "nat \<Rightarrow> backup list \<Rightarrow> backup list" where
  "add_ref i bs = bs[i := (bs ! i)\<lparr>ref_count := ref_count (bs ! i) + 1\<rparr>]"

definition add_refs :: "nat list \<Rightarrow> backup list \<Rightarrow> backup list" where
  "add_refs ids bs = foldl (\<lambda>bs i. add_ref i bs) bs ids"

lemma add_refs_simps [simp]:
  "add_refs [] bs = bs"
  "add_refs (i # ids) bs = add_refs ids (add_ref i bs)"
  "add_refs (ids @ ids') bs = add_refs ids' (add_refs ids bs)"
  by (simp_all add: add_refs_def)

lemma length_add_ref [simp]: "length (add_ref i bs) = length bs"
  by (simp add: add_ref_def)

lemma length_add_refs [simp]: "length (add_refs ids bs) = length bs"
  by (induction ids arbitrary: bs) auto

definition refs_below :: "backup list \<Rightarrow> nat \<Rightarrow> bool" where
  "refs_below bs n \<longleftrightarrow> (\<forall>b \<in> set bs. unat (ref_count b) \<le> n)"

lemma refs_below_mono: "refs_below bs m \<Longrightarrow> m \<le> n \<Longrightarrow> refs_below bs n"
  by (auto simp: refs_below_def intro: order_trans)

lemma refs_below_add_ref:
  assumes "refs_below bs m" "m < n" "n \<le> SIZE_MAX" "i < length bs"
  shows "refs_below (add_ref i bs) n"
proof -
  have "unat (ref_count (bs ! i)) \<le> m" using assms by (auto simp: refs_below_def)
  then have "unat (ref_count (bs ! i) + 1) \<le> n"
    using assms unat_add_u64 [of "ref_count (bs ! i)" 1] by simp
  then show ?thesis
    using assms unfolding refs_below_def add_ref_def
    by (auto dest!: set_update_subset_insert [THEN subsetD] intro: order_trans)
qed

definition point_id :: "metadata \<Rightarrow> path_history \<Rightarrow> nat" where
  "point_id md p = unat (backup_id (backup_of md (point_backup p)))"

definition loaded_point :: "metadata \<Rightarrow> path_history \<Rightarrow> path_history" where
  "loaded_point md p = \<lparr>point_backup = Hist (point_id md p), state = state p\<rparr>"

definition point_ok :: "metadata \<Rightarrow> nat \<Rightarrow> path_history \<Rightarrow> bool" where
  "point_ok md n p \<longleftrightarrow> path_state_ok (state p) \<and> point_id md p < n"

lemma increment_ref_Inr:
  "unat (ref_count b) < SIZE_MAX \<Longrightarrow> increment_ref b = Inr (b\<lparr>ref_count := ref_count b + 1\<rparr>)"
  using add_guard [of 1 "ref_count b"] by (simp add: increment_ref_def sSizeAdd_def)

lemma length_write64: "write64 E v = Inr b \<Longrightarrow> length b = 8"
  by (cases E) (auto simp: write64_def convertEndian_simps)

lemma readPathHistory_stored:
  assumes E: "supported E \<and> supported E'"
    and p: "point_ok md (length (backup_history rd)) p"
    and w: "writePoint E md p = Inr bytes" and st: "stored data pos bytes"
    and refs: "refs_below (backup_history rd) pos"
  shows "readPathHistory E' mpath data pos rd =
      Inr (loaded_point md p, pos + length bytes,
        rd\<lparr>backup_history := add_ref (point_id md p) (backup_history rd)\<rparr>) \<and>
    pos < pos + length bytes \<and>
    refs_below (add_ref (point_id md p) (backup_history rd)) (pos + length bytes)"
proof -
  let ?i = "point_id md p"
  from w obtain b1 b2 where
    b: "write64 E (backup_id (backup_of md (point_backup p))) = Inr b1"
      "writePathState E (state p) = Inr b2" and bytes: "bytes = b1 @ b2"
    by (auto simp: writePoint_def andThen_Inr)
  have id_eq: "backup_id (backup_of md (point_backup p)) = word_of_nat ?i" by (simp add: point_id_def)
  have i: "supported E \<and> supported E' \<and> ?i \<le> SIZE_MAX"
    using E by (simp add: point_id_def unat_u64_le)
  note s1 = csize.dec_then [OF i b(1) [unfolded id_eq] st [unfolded bytes], of mpath]
  have state: "(supported E \<and> supported E') \<and> path_state_ok (state p)"
    using E p by (simp add: point_ok_def)
  note s2 = cstate.dec_stored [OF state b(2) conjunct2 [OF s1], of mpath]
  have len: "length b1 = 8" by (rule length_write64 [OF b(1)])
  have i': "?i < length (backup_history rd)" using p by (simp add: point_ok_def)
  have "unat (ref_count (backup_history rd ! ?i)) \<le> pos"
    using refs i' by (simp add: refs_below_def)
  moreover have bound: "pos + length bytes \<le> SIZE_MAX" using stored_bounds [OF st] by simp
  ultimately have inc: "increment_ref (backup_history rd ! ?i) =
      Inr ((backup_history rd ! ?i)\<lparr>ref_count := ref_count (backup_history rd ! ?i) + 1\<rparr>)"
    by (intro increment_ref_Inr) (simp add: bytes len)
  have "readPathHistory E' mpath data pos rd =
      Inr (loaded_point md p, pos + length bytes,
        rd\<lparr>backup_history := add_ref ?i (backup_history rd)\<rparr>)"
    using i' by (simp add: readPathHistory_def conjunct1 [OF s1] inc s2 not_le bytes
        loaded_point_def add_ref_def)
  moreover have "refs_below (add_ref ?i (backup_history rd)) (pos + length bytes)"
    by (rule refs_below_add_ref [OF refs _ bound i']) (simp add: bytes len)
  ultimately show ?thesis by (simp add: bytes len)
qed

lemma writeEach_acc:
  "foldE (\<lambda>x out. bindE (w x) (\<lambda>bytes. Inr (out @ bytes))) xs acc = andThen (Inr acc) (writeEach w xs)"
proof (induction xs arbitrary: acc)
  case Nil
  then show ?case by (simp add: writeEach_def andThen_def)
next
  case (Cons x xs)
  show ?case
  proof (cases "w x")
    case (Inr b)
    show ?thesis
      using Cons.IH [of "acc @ b"] Cons.IH [of b] Inr
      by (cases "writeEach w xs") (simp_all add: writeEach_def andThen_def)
  qed (simp add: writeEach_def andThen_def)
qed

lemma writeEach_simps [simp]:
  "writeEach w [] = Inr []"
  "writeEach w (x # xs) = andThen (w x) (writeEach w xs)"
proof -
  show "writeEach w (x # xs) = andThen (w x) (writeEach w xs)"
    by (cases "w x") (simp_all add: writeEach_def [of w "x # xs"] writeEach_acc [of w xs] andThen_def)
qed (simp add: writeEach_def)

lemma readPoints_stored:
  assumes E: "supported E \<and> supported E'"
  shows "\<lbrakk>list_all (point_ok md (length (backup_history rd))) ps;
     writeEach (writePoint E md) ps = Inr bytes; stored data pos bytes;
     refs_below (backup_history rd) pos\<rbrakk> \<Longrightarrow>
   readPoints E' mpath data (length ps) pos rd =
      Inr (map (loaded_point md) ps, pos + length bytes,
        rd\<lparr>backup_history := add_refs (map (point_id md) ps) (backup_history rd)\<rparr>) \<and>
   refs_below (add_refs (map (point_id md) ps) (backup_history rd)) (pos + length bytes)"
proof (induction ps arbitrary: pos rd bytes)
  case (Cons p ps)
  from Cons.prems(2) obtain b1 b2 where b: "writePoint E md p = Inr b1"
    "writeEach (writePoint E md) ps = Inr b2" and bytes: "bytes = b1 @ b2"
    by (auto simp: andThen_Inr)
  have st: "stored data pos b1" "stored data (pos + length b1) b2"
    using Cons.prems(3) by (simp_all add: bytes stored_append)
  have p: "point_ok md (length (backup_history rd)) p" using Cons.prems(1) by simp
  let ?rd = "rd\<lparr>backup_history := add_ref (point_id md p) (backup_history rd)\<rparr>"
  note s1 = readPathHistory_stored [OF E p b(1) st(1) Cons.prems(4), of mpath]
  have rest: "list_all (point_ok md (length (backup_history ?rd))) ps" using Cons.prems(1) by simp
  have "refs_below (backup_history ?rd) (pos + length b1)" using s1 by simp
  from Cons.IH [OF rest b(2) st(2) this] show ?case
    by (simp add: conjunct1 [OF s1] bytes add.assoc)
qed (simp add: add_refs_def)

lemma countElements_Inr: "countElements xs = Inr n \<Longrightarrow> n = length xs \<and> length xs \<le> SIZE_MAX"
proof -
  have "foldE (\<lambda>_ n. size_add n 1) xs k = Inr n \<Longrightarrow> k \<le> SIZE_MAX \<Longrightarrow>
      n = k + length xs \<and> k + length xs \<le> SIZE_MAX" for k
    by (induction xs arbitrary: k) (simp, fastforce simp: bindE_eq_Inr)
  from this [of 0] show "countElements xs = Inr n \<Longrightarrow> n = length xs \<and> length xs \<le> SIZE_MAX"
    by (simp add: countElements_def)
qed

lemma readFullPathHistory_stored:
  assumes E: "supported E \<and> supported E'"
    and ps: "list_all (point_ok md (length (backup_history rd))) ps"
    and w: "writePathHistoryList E md ps = Inr bytes" and st: "stored data pos bytes"
    and refs: "refs_below (backup_history rd) pos"
  shows "readFullPathHistory E' mpath data pos rd =
      Inr (map (loaded_point md) ps, pos + length bytes,
        rd\<lparr>backup_history := add_refs (map (point_id md) ps) (backup_history rd)\<rparr>) \<and>
    refs_below (add_refs (map (point_id md) ps) (backup_history rd)) (pos + length bytes)"
proof -
  from w obtain n b1 b2 where n: "countElements ps = Inr n"
    and b: "write64 E (word_of_nat n) = Inr b1" "writeEach (writePoint E md) ps = Inr b2"
    and bytes: "bytes = b1 @ b2"
    by (auto simp: writePathHistoryList_def bindE_eq_Inr andThen_Inr)
  from countElements_Inr [OF n] have n': "supported E \<and> supported E' \<and> n \<le> SIZE_MAX"
    and len: "n = length ps" using E by simp_all
  note s1 = csize.dec_then [OF n' b(1) st [unfolded bytes], of mpath]
  have "refs_below (backup_history rd) (pos + length b1)" using refs by (rule refs_below_mono) simp
  note s2 = readPoints_stored [OF E ps b(2) conjunct2 [OF s1] this, of mpath]
  have "readFullPathHistory E' mpath data pos rd =
      readPoints E' mpath data (length ps) (pos + length b1) rd"
    by (cases ps) (simp_all add: readFullPathHistory_def conjunct1 [OF s1] len)
  with s2 show ?thesis by (simp add: bytes add.assoc)
qed

section \<open>Node lists\<close>

definition name_ok :: "string \<Rightarrow> bool" where
  "name_ok name \<longleftrightarrow>
     name \<noteq> [] \<and> NUL \<notin> set name \<and> CHR ''/'' \<notin> set name \<and> \<not> is_dot_element name"

definition path_ok :: "string \<Rightarrow> string \<Rightarrow> bool" where
  "path_ok parent p \<longleftrightarrow>
     p = append_path parent (snd (split_path p)) \<and> name_ok (snd (split_path p))"

fun nodes_ok :: "(path_history \<Rightarrow> bool) \<Rightarrow> string \<Rightarrow> path_node list \<Rightarrow> bool" where
  "nodes_ok Q parent [] \<longleftrightarrow> True"
| "nodes_ok Q parent (PathNode p h pol hist subs # ns) \<longleftrightarrow>
     (is_part_of_repository (PathNode p h pol hist subs) \<longrightarrow>
        path_ok parent p \<and> policy_ok pol \<and> list_all Q hist \<and> nodes_ok Q p subs) \<and>
     nodes_ok Q parent ns"

text \<open>What the file holds of a node list, in the order of the bytes.\<close>

fun written_points :: "path_node list \<Rightarrow> path_history list" where
  "written_points [] = []"
| "written_points (PathNode p h pol hist subs # ns) =
     (if is_part_of_repository (PathNode p h pol hist subs) then hist @ written_points subs else []) @
     written_points ns"

fun written_paths :: "path_node list \<Rightarrow> string list" where
  "written_paths [] = []"
| "written_paths (PathNode p h pol hist subs # ns) =
     (if is_part_of_repository (PathNode p h pol hist subs) then p # written_paths subs else []) @
     written_paths ns"

text \<open>
  The node list that is read back: nodes that are not part of the repository are gone, hints are
  reset, and every list of siblings is reversed, since the reader prepends each node.
\<close>

fun loaded_nodes :: "(path_history \<Rightarrow> path_history) \<Rightarrow> path_node list \<Rightarrow> path_node list" where
  "loaded_nodes f [] = []"
| "loaded_nodes f (PathNode p h pol hist subs # ns) =
     loaded_nodes f ns @
     (if is_part_of_repository (PathNode p h pol hist subs)
      then [PathNode p BH_none pol (map f hist) (loaded_nodes f subs)] else [])"

text \<open>The metadata after the points and paths were read.\<close>

definition visited :: "nat list \<Rightarrow> string list \<Rightarrow> metadata \<Rightarrow> metadata" where
  "visited ids ps rd =
     rd\<lparr>backup_history := add_refs ids (backup_history rd), path_table := rev ps @ path_table rd\<rparr>"

lemma visited_simps [simp]:
  "visited [] [] rd = rd"
  "length (backup_history (visited ids ps rd)) = length (backup_history rd)"
  "backup_history (visited ids ps rd) = add_refs ids (backup_history rd)"
  "visited ids' ps' (visited ids ps rd) = visited (ids @ ids') (ps @ ps') rd"
  by (simp_all add: visited_def)

lemma readNodePath_stored:
  assumes E: "supported E \<and> supported E'" and p: "path_ok parent p"
    and w: "andThen (write64 E (word_of_nat (length (snd (split_path p)))))
      (Inr (snd (split_path p))) = Inr bytes"
    and st: "stored data pos bytes"
  shows "readNodePath E' mpath data parent pos = Inr (p, pos + length bytes)"
proof -
  let ?name = "snd (split_path p)"
  from w obtain b where b: "write64 E (word_of_nat (length ?name)) = Inr b"
    and bytes: "bytes = b @ ?name"
    by (auto simp: andThen_Inr)
  have "length ?name \<le> SIZE_MAX" using stored_bounds [OF st] by (simp add: bytes)
  then have len: "supported E \<and> supported E' \<and> length ?name \<le> SIZE_MAX" using E by simp
  note s1 = csize.dec_then [OF len b st [unfolded bytes], of mpath]
  have "assertBytesLeft (pos + length b) (length ?name) data mpath = Inr ()"
    by (rule assertBytesLeft_stored [OF conjunct2 [OF s1]]) simp
  moreover have "substr data (pos + length b) (length ?name) = ?name"
    by (rule stored_substr [OF conjunct2 [OF s1]])
  moreover have "append_path parent ?name = p" using p by (metis path_ok_def)
  ultimately show ?thesis
    using p by (simp add: readNodePath_def conjunct1 [OF s1] path_ok_def name_ok_def bytes)
qed

lemma readNodeHead_stored:
  assumes E: "supported E \<and> supported E'" and p: "path_ok parent p" and pol: "policy_ok pol"
    and hist: "list_all (point_ok md (length (backup_history rd))) hist"
    and w: "andThen (write64 E (word_of_nat (length (snd (split_path p)))))
      (Inr (snd (split_path p))) = Inr b1" "writePathHistoryList E md hist = Inr b2"
    and st: "stored data pos (b1 @ write8 (byte_of_policy pol) @ b2)"
    and refs: "refs_below (backup_history rd) pos"
  shows "readNodeHead E' mpath data parent pos rd =
      Inr (p, pol, map (loaded_point md) hist, pos + length (b1 @ write8 (byte_of_policy pol) @ b2),
        visited (map (point_id md) hist) [p] rd) \<and>
    refs_below (add_refs (map (point_id md) hist) (backup_history rd))
      (pos + length (b1 @ write8 (byte_of_policy pol) @ b2))"
proof -
  have st': "stored data pos b1" "stored data (pos + length b1) (write8 (byte_of_policy pol) @ b2)"
    using st by (simp_all add: stored_append)
  note s1 = readNodePath_stored [OF E p w(1) st'(1), of mpath]
  note s2 = c8.dec_then [OF TrueI refl st'(2), of mpath]
  let ?rd = "rd\<lparr>path_table := p # path_table rd\<rparr>"
  have "refs_below (backup_history ?rd) (pos + length b1 + length (write8 (byte_of_policy pol)))"
    using refs by (simp add: refs_below_mono)
  from readFullPathHistory_stored [OF E _ w(2) conjunct2 [OF s2] this, of mpath] hist
  have s3: "readFullPathHistory E' mpath data (pos + length b1 + length (write8 (byte_of_policy pol))) ?rd =
      Inr (map (loaded_point md) hist,
        pos + length b1 + length (write8 (byte_of_policy pol)) + length b2,
        ?rd\<lparr>backup_history := add_refs (map (point_id md) hist) (backup_history rd)\<rparr>)"
    and "refs_below (add_refs (map (point_id md) hist) (backup_history rd))
      (pos + length b1 + length (write8 (byte_of_policy pol)) + length b2)"
    by simp_all
  then show ?thesis
    using pol by (simp add: readNodeHead_def s1 conjunct1 [OF s2] s3 policy_ok_def visited_def add.assoc)
qed

lemma writePathList_Inr:
  assumes "writePathList E md ns = Inr bytes"
  obtains b1 b2 where
    "write64 E (word_of_nat (length (filter is_part_of_repository ns))) = Inr b1"
    and "writeNodes E md ns = Inr b2" and "bytes = b1 @ b2"
    and "length (filter is_part_of_repository ns) \<le> SIZE_MAX"
  using assms that by (auto simp: bindE_eq_Inr andThen_Inr dest!: countElements_Inr)

lemma readNodes_stored:
  assumes E: "supported E \<and> supported E'"
  shows "\<lbrakk>nodes_ok (point_ok md (length (backup_history rd))) parent ns; writeNodes E md ns = Inr bytes;
     stored data pos bytes; refs_below (backup_history rd) pos\<rbrakk> \<Longrightarrow>
   readNodes E' mpath data parent (length (filter is_part_of_repository ns)) pos tree rd =
      Inr (loaded_nodes (loaded_point md) ns @ tree, pos + length bytes,
        visited (map (point_id md) (written_points ns)) (written_paths ns) rd) \<and>
   refs_below (add_refs (map (point_id md) (written_points ns)) (backup_history rd))
      (pos + length bytes)"
proof (induction ns arbitrary: parent pos tree rd bytes rule: written_paths.induct)
  case (2 p h pol hist subs ns)
  let ?n = "PathNode p h pol hist subs"
  from "2.prems"(2) obtain b1 b2 where
    b1: "(if is_part_of_repository ?n then
          (let name = snd (split_path p) in
           andThen (write64 E (word_of_nat (length name)))
           (andThen (Inr name)
           (andThen (Inr (write8 (byte_of_policy pol)))
           (andThen (writePathHistoryList E md hist) (writePathList E md subs)))))
        else Inr []) = Inr b1"
    and b2: "writeNodes E md ns = Inr b2" and bytes: "bytes = b1 @ b2"
    by (auto simp only: writeNodes.simps andThen_Inr)
  have st: "stored data pos b1" "stored data (pos + length b1) b2"
    using "2.prems"(3) by (simp_all add: bytes stored_append)
  have ns: "nodes_ok (point_ok md (length (backup_history rd))) parent ns" using "2.prems"(1) by simp
  show ?case
  proof (cases "is_part_of_repository ?n")
    case False
    with b1 have "b1 = []" by simp
    then have "stored data pos b2" using st by simp
    from "2.IH"(2) [OF ns b2 this "2.prems"(4)] False \<open>b1 = []\<close> show ?thesis by (simp add: bytes)
  next
    case True
    from True b1 obtain a1 a2 a3 where
      a: "andThen (write64 E (word_of_nat (length (snd (split_path p)))))
        (Inr (snd (split_path p))) = Inr a1"
        "writePathHistoryList E md hist = Inr a2" "writePathList E md subs = Inr a3"
      and b1': "b1 = (a1 @ write8 (byte_of_policy pol) @ a2) @ a3"
      by (auto simp: andThen_Inr Let_def)
    let ?head = "a1 @ write8 (byte_of_policy pol) @ a2"
    obtain c1 c2 where c: "write64 E (word_of_nat (length (filter is_part_of_repository subs))) = Inr c1"
        "writeNodes E md subs = Inr c2" and a3: "a3 = c1 @ c2"
      and count: "length (filter is_part_of_repository subs) \<le> SIZE_MAX"
      using writePathList_Inr [OF a(3)] by blast
    have st': "stored data pos ?head" "stored data (pos + length ?head) (c1 @ c2)"
      using st(1) unfolding b1' a3 stored_append by blast+
    have ok: "path_ok parent p" "policy_ok pol" "list_all (point_ok md (length (backup_history rd))) hist"
      "nodes_ok (point_ok md (length (backup_history rd))) p subs"
      using "2.prems"(1) True by simp_all
    note s1 = readNodeHead_stored [OF E ok(1-3) a(1,2) st'(1) "2.prems"(4), of mpath]
    let ?rd = "visited (map (point_id md) hist) [p] rd"
    have n: "supported E \<and> supported E' \<and> length (filter is_part_of_repository subs) \<le> SIZE_MAX"
      using E count by blast
    note s2 = csize.dec_then [OF n c(1) st'(2), of mpath]
    have refs: "refs_below (backup_history ?rd) (pos + length ?head + length c1)"
      using s1 by (auto elim: refs_below_mono)
    have "nodes_ok (point_ok md (length (backup_history ?rd))) p subs" using ok(4) by simp
    note s3 = "2.IH"(1) [OF True this c(2) conjunct2 [OF s2] refs, of Nil]
    let ?rd2 = "visited (map (point_id md) (written_points subs)) (written_paths subs) ?rd"
    let ?pos2 = "pos + length ?head + length c1 + length c2"
    have pos2: "pos + length b1 = ?pos2" by (simp add: b1' a3)
    have refs2: "refs_below (backup_history ?rd2) ?pos2" using s3 by simp
    have ns2: "nodes_ok (point_ok md (length (backup_history ?rd2))) parent ns" using ns by simp
    note s4 = "2.IH"(2) [OF ns2 b2 st(2) [unfolded pos2] refs2,
        of "PathNode p BH_none pol (map (loaded_point md) hist) (loaded_nodes (loaded_point md) subs) # tree"]
    have "pos + length bytes = ?pos2 + length b2" by (simp add: bytes b1' a3)
    with True s4 show ?thesis
      by (simp only: filter.simps if_True list.size add_Suc_right add_0_right readNodes.simps
          conjunct1 [OF s1] bindE_simps prod.case conjunct1 [OF s2] conjunct1 [OF s3] append_Nil2)
        simp
  qed
qed simp

lemma readPathSubnodes_stored:
  assumes E: "supported E \<and> supported E'"
    and ns: "nodes_ok (point_ok md (length (backup_history rd))) parent ns" and w: "writePathList E md ns = Inr bytes"
    and st: "stored data pos bytes" and refs: "refs_below (backup_history rd) pos"
  shows "readPathSubnodes E' mpath data parent pos rd =
      Inr (loaded_nodes (loaded_point md) ns, pos + length bytes,
        visited (map (point_id md) (written_points ns)) (written_paths ns) rd)"
proof -
  obtain b1 b2 where b: "write64 E (word_of_nat (length (filter is_part_of_repository ns))) = Inr b1"
      "writeNodes E md ns = Inr b2" and bytes: "bytes = b1 @ b2"
    and count: "length (filter is_part_of_repository ns) \<le> SIZE_MAX"
    using writePathList_Inr [OF w] by blast
  have n: "supported E \<and> supported E' \<and> length (filter is_part_of_repository ns) \<le> SIZE_MAX"
    using E count by blast
  note s1 = csize.dec_then [OF n b(1) st [unfolded bytes], of mpath]
  have "refs_below (backup_history rd) (pos + length b1)" using refs by (rule refs_below_mono) simp
  from readNodes_stored [OF E ns b(2) conjunct2 [OF s1] this, of mpath Nil]
  show ?thesis by (simp add: readPathSubnodes_def conjunct1 [OF s1] bytes add.assoc)
qed

lemma nodes_ok_points:
  "nodes_ok Q parent ns \<longleftrightarrow> nodes_ok (\<lambda>_. True) parent ns \<and> list_all Q (written_points ns)"
  by (induction ns arbitrary: parent rule: written_points.induct) (auto simp: list_all_iff)

lemma loaded_nodes_cong:
  "(\<And>p. p \<in> set (written_points ns) \<Longrightarrow> f p = g p) \<Longrightarrow> loaded_nodes f ns = loaded_nodes g ns"
  by (induction ns rule: written_points.induct) auto

section \<open>The backups\<close>

definition is_referenced :: "backup \<Rightarrow> bool" where
  "is_referenced b \<longleftrightarrow> ref_count b > 0"

text \<open>The referenced backups, in the order in which they are written.\<close>

definition kept_backups :: "metadata \<Rightarrow> backup list" where
  "kept_backups md = filter is_referenced (current_backup md # backup_history md)"

text \<open>The position of a backup in the file.\<close>

definition new_index :: "metadata \<Rightarrow> backup_ref \<Rightarrow> nat" where
  "new_index md r =
     (case r of Current \<Rightarrow> 0
      | Hist i \<Rightarrow> length (filter is_referenced (current_backup md # take i (backup_history md))))"

definition fresh_backups :: "nat \<Rightarrow> backup list \<Rightarrow> backup list" where
  "fresh_backups k bs =
     map (\<lambda>(i, b). \<lparr>backup_id = word_of_nat i, completion_time = completion_time b, ref_count = 0\<rparr>)
       (enumerate k bs)"

lemma fresh_backups_simps [simp]:
  "fresh_backups k [] = []"
  "fresh_backups k (b # bs) =
     \<lparr>backup_id = word_of_nat k, completion_time = completion_time b, ref_count = 0\<rparr> #
     fresh_backups (Suc k) bs"
  "length (fresh_backups k bs) = length bs"
  by (simp_all add: fresh_backups_def)

lemma fresh_backups_nth:
  "i < length bs \<Longrightarrow> fresh_backups k bs ! i =
     \<lparr>backup_id = word_of_nat (k + i), completion_time = completion_time (bs ! i), ref_count = 0\<rparr>"
  by (simp add: fresh_backups_def nth_enumerate_eq)

lemma refs_below_fresh: "refs_below (fresh_backups k bs) n"
  by (auto simp: refs_below_def fresh_backups_def)

lemma readBackups_stored:
  assumes E: "supported E \<and> supported E'"
  shows "\<lbrakk>writeEach (\<lambda>b. write64 E (completion_time b)) bs = Inr bytes; stored data pos bytes\<rbrakk> \<Longrightarrow>
    readBackups E' mpath data k (length bs) pos = Inr (fresh_backups k bs, pos + length bytes)"
proof (induction bs arbitrary: k pos bytes)
  case (Cons b bs)
  from Cons.prems(1) obtain b1 b2 where b: "write64 E (completion_time b) = Inr b1"
    "writeEach (\<lambda>b. write64 E (completion_time b)) bs = Inr b2" and bytes: "bytes = b1 @ b2"
    by (auto simp: andThen_Inr)
  note s1 = ctime.dec_then [OF E b(1) Cons.prems(2) [unfolded bytes], of mpath]
  from Cons.IH [OF b(2) conjunct2 [OF s1]] show ?case
    by (simp add: conjunct1 [OF s1] bytes)
qed simp

lemma updateIds_spec:
  "updateIds bs k = Inr (bs', n) \<Longrightarrow>
   n = k + length (filter is_referenced bs) \<and> length bs' = length bs \<and> (k \<le> SIZE_MAX \<longrightarrow> n \<le> SIZE_MAX) \<and>
   (\<forall>i < length bs. completion_time (bs' ! i) = completion_time (bs ! i) \<and>
      ref_count (bs' ! i) = ref_count (bs ! i) \<and>
      (is_referenced (bs ! i) \<longrightarrow>
        backup_id (bs' ! i) = word_of_nat (k + length (filter is_referenced (take i bs)))))"
proof (induction bs arbitrary: k bs' n)
  case (Cons b bs)
  obtain rest where rest: "updateIds bs (if is_referenced b then Suc k else k) = Inr (rest, n)"
    and bs': "bs' = (if is_referenced b then b\<lparr>backup_id := word_of_nat k\<rparr> else b) # rest"
    and "is_referenced b \<Longrightarrow> Suc k \<le> SIZE_MAX"
    using Cons.prems by (auto simp: bindE_eq_Inr is_referenced_def split: if_splits)
  with Cons.IH [OF rest] show ?case
    by (auto simp: bs' nth_Cons is_referenced_def split: nat.splits if_splits)
qed simp

lemma writeEach_if:
  "writeEach (\<lambda>b. if P b then w b else Inr []) bs = writeEach w (filter P bs)"
proof (induction bs)
  case (Cons b bs)
  then show ?case by (cases "writeEach w (filter P bs)") (auto simp: andThen_def)
qed simp

lemma writeEach_map_cong:
  "length xs = length ys \<Longrightarrow> (\<And>i. i < length xs \<Longrightarrow> w (xs ! i) = v (ys ! i)) \<Longrightarrow>
   writeEach w xs = writeEach v ys"
proof (induction xs ys rule: list_induct2)
  case (Cons x xs y ys)
  have "w x = v y" using Cons.prems [of 0] by simp
  moreover have "writeEach w xs = writeEach v ys"
    using Cons.prems [of "Suc i" for i] by (intro Cons.IH) fastforce
  ultimately show ?case by simp
qed simp

text \<open>Where the elements of a filtered list come from.\<close>

lemma filter_index:
  assumes "j < length xs" "P (xs ! j)"
  shows "length (filter P (take j xs)) < length (filter P xs)"
    and "filter P xs ! length (filter P (take j xs)) = xs ! j"
proof -
  have "xs = take j xs @ xs ! j # drop (Suc j) xs" using assms(1) by (rule id_take_nth_drop)
  then have "filter P xs = filter P (take j xs) @ xs ! j # filter P (drop (Suc j) xs)"
    using assms(2) by (metis filter.simps(2) filter_append)
  then show "length (filter P (take j xs)) < length (filter P xs)"
    and "filter P xs ! length (filter P (take j xs)) = xs ! j"
    by simp_all
qed

lemma filter_index_mono:
  assumes "j < k" "k \<le> length xs" "P (xs ! j)"
  shows "length (filter P (take j xs)) < length (filter P (take k xs))"
  using filter_index(1) [of j "take k xs" P] assms by (simp add: min_def)

lemma filter_index_surj:
  "i < length (filter P xs) \<Longrightarrow> \<exists>j < length xs. P (xs ! j) \<and> length (filter P (take j xs)) = i"
proof (induction xs arbitrary: i)
  case (Cons x xs)
  show ?case
  proof (cases "P x")
    case True
    show ?thesis
    proof (cases i)
      case 0
      then show ?thesis using True by (intro exI [of _ 0]) simp
    next
      case (Suc i')
      then obtain j where "j < length xs" "P (xs ! j)" "length (filter P (take j xs)) = i'"
        using Cons True by auto
      then show ?thesis using True Suc by (intro exI [of _ "Suc j"]) simp
    qed
  next
    case False
    then obtain j where "j < length xs" "P (xs ! j)" "length (filter P (take j xs)) = i"
      using Cons by auto
    then show ?thesis using False by (intro exI [of _ "Suc j"]) simp
  qed
qed simp

definition all_refs :: "metadata \<Rightarrow> backup_ref list" where
  "all_refs md = Current # map Hist [0..<length (backup_history md)]"

definition all_points :: "metadata \<Rightarrow> path_history list" where
  "all_points md = config_history md @ written_points (paths md)"

text \<open>The reference count of each backup is the number of points that refer to it.\<close>

definition refs_exact :: "metadata \<Rightarrow> bool" where
  "refs_exact md \<longleftrightarrow>
     (\<forall>r \<in> set (all_refs md).
        unat (ref_count (backup_of md r)) = count_list (map point_backup (all_points md)) r) \<and>
     set (map point_backup (all_points md)) \<subseteq> set (all_refs md)"

definition metadata_ok :: "metadata \<Rightarrow> bool" where
  "metadata_ok md \<longleftrightarrow>
     backup_id (current_backup md) = 0 \<and> refs_exact md \<and>
     list_all (\<lambda>p. path_state_ok (state p)) (all_points md) \<and>
     nodes_ok (\<lambda>_. True) [] (paths md)"

definition relocate :: "metadata \<Rightarrow> path_history \<Rightarrow> path_history" where
  "relocate md p = \<lparr>point_backup = Hist (new_index md (point_backup p)), state = state p\<rparr>"

text \<open>What remains of the metadata after it was written and loaded.\<close>

definition normalise :: "metadata \<Rightarrow> metadata" where
  "normalise md =
     \<lparr>current_backup = \<lparr>backup_id = 0, completion_time = 0, ref_count = 0\<rparr>,
      backup_history =
        map (\<lambda>(i, b). b\<lparr>backup_id := word_of_nat i\<rparr>) (enumerate 0 (kept_backups md)),
      config_history = map (relocate md) (config_history md),
      total_path_count = total_path_count md,
      path_table = rev (written_paths (paths md)),
      paths = loaded_nodes (relocate md) (paths md)\<rparr>"

definition ref_pos :: "backup_ref \<Rightarrow> nat" where
  "ref_pos r = (case r of Current \<Rightarrow> 0 | Hist i \<Rightarrow> Suc i)"

lemma ref_pos_facts:
  "r \<in> set (all_refs md) \<Longrightarrow> ref_pos r < length (current_backup md # backup_history md) \<and>
     (current_backup md # backup_history md) ! ref_pos r = backup_of md r"
  "j < length (current_backup md # backup_history md) \<Longrightarrow> \<exists>r \<in> set (all_refs md). ref_pos r = j"
  "new_index md r = length (filter is_referenced (take (ref_pos r) (current_backup md # backup_history md)))"
  "ref_pos r = ref_pos s \<longleftrightarrow> r = s"
  by (auto simp: ref_pos_def all_refs_def backup_of_def new_index_def less_Suc_eq_0_disj
      split: backup_ref.splits)

lemma new_index_kept:
  assumes "r \<in> set (all_refs md)" "is_referenced (backup_of md r)"
  shows "new_index md r < length (kept_backups md) \<and> kept_backups md ! new_index md r = backup_of md r"
  using filter_index [of "ref_pos r" "current_backup md # backup_history md" is_referenced]
    ref_pos_facts(1) [OF assms(1)] assms(2)
  unfolding kept_backups_def ref_pos_facts(3) by metis

lemma new_index_inj:
  assumes "r \<in> set (all_refs md)" "is_referenced (backup_of md r)"
    and "s \<in> set (all_refs md)" "is_referenced (backup_of md s)"
    and "new_index md r = new_index md s"
  shows "r = s"
proof -
  have "\<not> ref_pos r < ref_pos s" "\<not> ref_pos s < ref_pos r"
    using filter_index_mono [of _ _ "current_backup md # backup_history md" is_referenced]
      ref_pos_facts(1) [OF assms(1)] ref_pos_facts(1) [OF assms(3)] assms(2,4,5)
    unfolding ref_pos_facts(3) by (metis less_imp_le less_irrefl)+
  then show ?thesis using ref_pos_facts(4) by force
qed

lemma new_index_surj:
  assumes "i < length (kept_backups md)"
  obtains r where "r \<in> set (all_refs md)" "is_referenced (backup_of md r)" "new_index md r = i"
proof -
  let ?bs = "current_backup md # backup_history md"
  obtain j where j: "j < length ?bs" "is_referenced (?bs ! j)"
    "length (filter is_referenced (take j ?bs)) = i"
    using filter_index_surj assms unfolding kept_backups_def by blast
  obtain r where r: "r \<in> set (all_refs md)" "ref_pos r = j" using ref_pos_facts(2) [OF j(1)] by blast
  from that [OF r(1)] show ?thesis
    using ref_pos_facts(1) [OF r(1)] j r(2) unfolding ref_pos_facts(3) by metis
qed

lemma count_list_map_inj:
  "(\<And>y. y \<in> set xs \<Longrightarrow> f y = f x \<Longrightarrow> y = x) \<Longrightarrow> count_list (map f xs) (f x) = count_list xs x"
  by (induction xs) auto

lemma points_referenced:
  assumes "refs_exact md" "r \<in> set (map point_backup (all_points md))"
  shows "r \<in> set (all_refs md) \<and> is_referenced (backup_of md r)"
proof -
  have r: "r \<in> set (all_refs md)" using assms unfolding refs_exact_def by blast
  then have "unat (ref_count (backup_of md r)) = count_list (map point_backup (all_points md)) r"
    using assms(1) unfolding refs_exact_def by blast
  moreover have "count_list (map point_backup (all_points md)) r \<noteq> 0"
    using assms(2) by (simp only: count_list_0_iff) simp
  ultimately show ?thesis using r by (auto simp: is_referenced_def word_gt_0)
qed

lemma add_refs_nth:
  "\<forall>i \<in> set ids. i < length bs \<Longrightarrow> k < length bs \<Longrightarrow>
   add_refs ids bs ! k = (bs ! k)\<lparr>ref_count := ref_count (bs ! k) + word_of_nat (count_list ids k)\<rparr>"
proof (induction ids arbitrary: bs)
  case (Cons i ids)
  then show ?case by (auto simp: add_ref_def nth_list_update algebra_simps)
qed simp

text \<open>Counting the references again gives the old counts.\<close>

lemma recount_references:
  assumes "refs_exact md"
  shows "add_refs (map (\<lambda>p. new_index md (point_backup p)) (all_points md))
      (fresh_backups 0 (kept_backups md)) =
    map (\<lambda>(i, b). b\<lparr>backup_id := word_of_nat i\<rparr>) (enumerate 0 (kept_backups md))"
    (is "add_refs ?ids ?fresh = _")
proof (rule nth_equalityI)
  show "length (add_refs ?ids ?fresh) =
      length (map (\<lambda>(i, b). b\<lparr>backup_id := word_of_nat i\<rparr>) (enumerate 0 (kept_backups md)))"
    by simp
next
  fix i assume "i < length (add_refs ?ids ?fresh)"
  then have i: "i < length (kept_backups md)" by simp
  let ?refs = "map point_backup (all_points md)"
  obtain r where r: "r \<in> set (all_refs md)" "is_referenced (backup_of md r)" "new_index md r = i"
    using new_index_surj [OF i] .
  have "count_list (map (new_index md) ?refs) (new_index md r) = count_list ?refs r"
    using points_referenced [OF assms] new_index_inj r by (intro count_list_map_inj) metis
  also have "\<dots> = unat (ref_count (backup_of md r))"
    using assms r(1) by (simp add: refs_exact_def)
  finally have count: "count_list ?ids i = unat (ref_count (kept_backups md ! i))"
    using new_index_kept [OF r(1,2)] r(3) by (simp add: comp_def)
  have "\<forall>i \<in> set ?ids. i < length ?fresh"
    using points_referenced [OF assms] new_index_kept by fastforce
  from add_refs_nth [OF this, of i] i
  show "add_refs ?ids ?fresh ! i =
      map (\<lambda>(i, b). b\<lparr>backup_id := word_of_nat i\<rparr>) (enumerate 0 (kept_backups md)) ! i"
    by (simp add: fresh_backups_nth nth_enumerate_eq count)
qed

section \<open>The whole file\<close>

text \<open>The parts of a written file, and the identifiers that the points refer to.\<close>

lemma metadataWrite_parts:
  assumes "metadataWrite E md = Inr (bytes, md')"
  obtains history b1 b2 b3 b4 b5 where
    "updateIds (backup_history md) (if is_referenced (current_backup md) then 1 else 0) =
      Inr (history, length (kept_backups md))"
    and "md' = md\<lparr>backup_history := history\<rparr>"
    and "write64 E (word_of_nat (length (kept_backups md))) = Inr b1"
    and "writeEach (\<lambda>b. write64 E (completion_time b)) (kept_backups md) = Inr b2"
    and "writePathHistoryList E md' (config_history md) = Inr b3"
    and "write64 E (total_path_count md) = Inr b4"
    and "writePathList E md' (paths md) = Inr b5"
    and "bytes = b1 @ b2 @ b3 @ b4 @ b5"
proof -
  let ?w = "\<lambda>b. write64 E (completion_time b)"
  obtain history n where
    ids: "updateIds (backup_history md) (if is_referenced (current_backup md) then 1 else 0) = Inr (history, n)"
    and rest: "bindE (andThen (write64 E (word_of_nat n))
      (andThen (if is_referenced (current_backup md) then ?w (current_backup md) else Inr [])
      (andThen (writeEach (\<lambda>b. if is_referenced b then ?w b else Inr []) history)
      (andThen (writePathHistoryList E (md\<lparr>backup_history := history\<rparr>) (config_history md))
      (andThen (write64 E (total_path_count md))
        (writePathList E (md\<lparr>backup_history := history\<rparr>) (paths md)))))))
      (\<lambda>bytes. Inr (bytes, md\<lparr>backup_history := history\<rparr>)) = Inr (bytes, md')"
    using assms
    by (cases "updateIds (backup_history md) (if is_referenced (current_backup md) then 1 else 0)")
      (auto simp: metadataWrite_def is_referenced_def Let_def simp del: writePathList.simps cong: if_cong)
  then have md': "md' = md\<lparr>backup_history := history\<rparr>" by (auto simp only: bindE_eq_Inr)
  from rest obtain b1 c1 c2 b3 b4 b5 where
    b: "write64 E (word_of_nat n) = Inr b1" "writePathHistoryList E md' (config_history md) = Inr b3"
      "write64 E (total_path_count md) = Inr b4" "writePathList E md' (paths md) = Inr b5"
    and c1: "(if is_referenced (current_backup md) then ?w (current_backup md) else Inr []) = Inr c1"
    and c2: "writeEach (\<lambda>b. if is_referenced b then ?w b else Inr []) history = Inr c2"
    and bytes: "bytes = b1 @ (c1 @ c2) @ b3 @ b4 @ b5"
    unfolding md' by (auto simp only: bindE_eq_Inr andThen_Inr append_assoc)
  from updateIds_spec [OF ids] have n: "n = length (kept_backups md)"
    and hist: "length history = length (backup_history md)"
      "\<And>i. i < length history \<Longrightarrow> completion_time (history ! i) = completion_time (backup_history md ! i) \<and>
        ref_count (history ! i) = ref_count (backup_history md ! i)"
    by (auto simp: kept_backups_def)
  have "writeEach ?w (filter is_referenced (backup_history md)) = Inr c2"
    using c2 writeEach_map_cong [OF hist(1), of "\<lambda>b. if is_referenced b then ?w b else Inr []"
      "\<lambda>b. if is_referenced b then ?w b else Inr []"] hist(2)
    by (simp add: is_referenced_def flip: writeEach_if)
  then have "writeEach ?w (kept_backups md) = Inr (c1 @ c2)"
    using c1 by (auto simp: kept_backups_def andThen_Inr split: if_splits)
  with that ids md' b bytes n show ?thesis by blast
qed

lemma point_id_written:
  assumes ids: "updateIds (backup_history md) (if is_referenced (current_backup md) then 1 else 0) =
      Inr (history, length (kept_backups md))"
    and zero: "backup_id (current_backup md) = 0"
    and exact: "refs_exact md" and p: "p \<in> set (all_points md)"
    and size: "length (kept_backups md) \<le> SIZE_MAX"
  shows "point_id (md\<lparr>backup_history := history\<rparr>) p = new_index md (point_backup p) \<and>
    new_index md (point_backup p) < length (kept_backups md)"
proof -
  let ?r = "point_backup p"
  have r: "?r \<in> set (all_refs md)" "is_referenced (backup_of md ?r)"
    using points_referenced [OF exact, of ?r] p by auto
  note less = new_index_kept [OF r, THEN conjunct1]
  have "backup_id (backup_of (md\<lparr>backup_history := history\<rparr>) ?r) = word_of_nat (new_index md ?r)"
  proof (cases ?r)
    case Current
    then show ?thesis by (simp add: backup_of_def new_index_def zero)
  next
    case (Hist i)
    then have "i < length (backup_history md)" "is_referenced (backup_history md ! i)"
      using r by (auto simp: all_refs_def backup_of_def)
    then show ?thesis using updateIds_spec [OF ids]
      by (simp add: Hist backup_of_def new_index_def)
  qed
  with less size show ?thesis by (simp add: point_id_def)
qed

lemma length_writeEach_times:
  "writeEach (\<lambda>b. write64 E (completion_time b)) bs = Inr bytes \<Longrightarrow> length bytes = 8 * length bs"
  by (induction bs arbitrary: bytes) (auto simp: andThen_Inr dest: length_write64)

lemma nodes_points_ok:
  assumes "nodes_ok (\<lambda>_. True) parent ns" "\<And>p. p \<in> set (written_points ns) \<Longrightarrow> Q p"
  shows "nodes_ok Q parent ns"
  using assms by (subst nodes_ok_points) (simp add: list_all_iff)

lemma metadataLoad_written:
  assumes E: "supported E \<and> supported E'" and ok: "metadata_ok md"
    and w: "metadataWrite E md = Inr (bytes, md')" and size: "3 * length bytes \<le> SIZE_MAX"
  shows "metadataLoad E' mpath bytes = Inr (normalise md)"
proof -
  from w obtain history b1 b2 b3 b4 b5 where
    ids: "updateIds (backup_history md) (if is_referenced (current_backup md) then 1 else 0) =
      Inr (history, length (kept_backups md))"
    and md': "md' = md\<lparr>backup_history := history\<rparr>"
    and b: "write64 E (word_of_nat (length (kept_backups md))) = Inr b1"
      "writeEach (\<lambda>b. write64 E (completion_time b)) (kept_backups md) = Inr b2"
      "writePathHistoryList E md' (config_history md) = Inr b3"
      "write64 E (total_path_count md) = Inr b4"
      "writePathList E md' (paths md) = Inr b5"
    and bytes: "bytes = b1 @ b2 @ b3 @ b4 @ b5"
    by (rule metadataWrite_parts)
  have ex: "refs_exact md" and zero: "backup_id (current_backup md) = 0"
    and states: "list_all (\<lambda>p. path_state_ok (state p)) (all_points md)"
    and nodes: "nodes_ok (\<lambda>_. True) [] (paths md)"
    using ok by (simp_all add: metadata_ok_def)
  let ?n = "length (kept_backups md)"
  have len: "length b1 = 8" "length b2 = 8 * ?n"
    using length_write64 [OF b(1)] length_writeEach_times [OF b(2)] by simp_all
  then have n: "24 * ?n \<le> SIZE_MAX" and n': "?n \<le> SIZE_MAX" using size by (simp_all add: bytes)
  have pid: "point_id md' p = new_index md (point_backup p)"
    "new_index md (point_backup p) < ?n" if "p \<in> set (all_points md)" for p
    using point_id_written [OF ids zero ex that n'] md' by simp_all
  have point: "point_ok md' ?n p" "loaded_point md' p = relocate md p" if "p \<in> set (all_points md)" for p
    using states pid [OF that] that
    by (auto simp: point_ok_def loaded_point_def relocate_def list_all_iff)
  have bytes_size: "length bytes \<le> SIZE_MAX" using size by simp
  have st: "stored bytes 0 (b1 @ b2 @ b3 @ b4 @ b5)"
    using stored_self [OF bytes_size] by (simp only: bytes)
  have n'': "supported E \<and> supported E' \<and> ?n \<le> SIZE_MAX" using E n' by blast
  note s1 = csize.dec_then [OF n'' b(1) st, of mpath, simplified add_0]
  have st2: "stored bytes (length b1) b2" "stored bytes (length b1 + length b2) (b3 @ b4 @ b5)"
    using conjunct2 [OF s1] unfolding stored_append by blast+
  note s2 = readBackups_stored [OF E b(2) st2(1), of mpath 0]
  let ?fresh = "fresh_backups 0 (kept_backups md)"
  let ?rd = "metadataNew\<lparr>backup_history := ?fresh\<rparr>"
  have cfg: "list_all (point_ok md' (length (backup_history ?rd))) (config_history md)"
    using point by (simp add: all_points_def list_all_iff)
  have st3: "stored bytes (length b1 + length b2) b3"
      "stored bytes (length b1 + length b2 + length b3) (b4 @ b5)"
    using st2(2) unfolding stored_append by blast+
  have "refs_below (backup_history ?rd) (length b1 + length b2)" by (simp add: refs_below_fresh)
  note s3 = readFullPathHistory_stored [OF E cfg b(3) st3(1) this, of mpath]
  have total: "supported E \<and> supported E' \<and> unat (total_path_count md) \<le> SIZE_MAX"
    using E unat_u64_le by blast
  have b4: "write64 E (word_of_nat (unat (total_path_count md))) = Inr b4" using b(4) by simp
  note s4 = csize.dec_then [OF total b4 st3(2), of mpath]
  let ?bs = "add_refs (map (point_id md') (config_history md)) ?fresh"
  let ?rd2 = "metadataNew\<lparr>backup_history := ?bs,
    config_history := map (loaded_point md') (config_history md),
    total_path_count := word_of_nat (unat (total_path_count md))\<rparr>"
  have ns: "nodes_ok (point_ok md' (length (backup_history ?rd2))) [] (paths md)"
  proof (rule nodes_points_ok [OF nodes])
    fix p assume "p \<in> set (written_points (paths md))"
    then have "p \<in> set (all_points md)" by (simp add: all_points_def)
    from point(1) [OF this] show "point_ok md' (length (backup_history ?rd2)) p" by simp
  qed
  have "refs_below (backup_history ?rd2) (length b1 + length b2 + length b3 + length b4)"
    using s3 by (auto elim: refs_below_mono)
  note s5 = readPathSubnodes_stored [OF E ns b(5) conjunct2 [OF s4] this, of mpath]
  have pids: "map (point_id md') (config_history md) @ map (point_id md') (written_points (paths md)) =
      map (\<lambda>p. new_index md (point_backup p)) (all_points md)"
    using pid(1) by (simp add: all_points_def)
  have alloc: "(if ?n = 0 then Inr 0 else size_mul sizeof_Backup ?n) = (Inr (24 * ?n) :: nat result)"
    using n by (simp add: size_mul_def sizeof_Backup_def)
  have "length b1 + length b2 + length b3 + length b4 + length b5 = length bytes"
    by (simp add: bytes)
  then have "metadataLoad E' mpath bytes =
      Inr ((visited (map (point_id md') (written_points (paths md))) (written_paths (paths md)) ?rd2)
        \<lparr>paths := loaded_nodes (loaded_point md') (paths md)\<rparr>)"
    unfolding metadataLoad_def conjunct1 [OF s1] prod.case alloc bindE_simps s2 conjunct1 [OF s3]
      conjunct1 [OF s4]
    using s5 by simp
  moreover have "add_refs (map (point_id md') (written_points (paths md))) ?bs =
      map (\<lambda>(i, b). b\<lparr>backup_id := word_of_nat i\<rparr>) (enumerate 0 (kept_backups md))"
    using recount_references [OF ex] pids by (simp flip: add_refs_simps(3))
  moreover have "map (loaded_point md') (config_history md) = map (relocate md) (config_history md)"
    using point(2) by (simp add: all_points_def)
  moreover have "loaded_nodes (loaded_point md') (paths md) = loaded_nodes (relocate md) (paths md)"
    using point(2) by (intro loaded_nodes_cong) (simp add: all_points_def)
  ultimately show ?thesis
    by (simp only: normalise_def visited_def) (simp add: metadataNew_def)
qed

text \<open>
  C10: what is written is read back, on any supported host. When the metadata satisfies its
  invariant (every reference count is the number of points that refer to the backup, states and
  names are representable), then loading the bytes that \<open>metadataWrite()\<close> wrote, on a host of either
  byte order, gives the metadata in normal form: unreferenced backups and nodes that are not part of
  the repository are gone, backups are renumbered without changing times and reference counts,
  every point refers to the same backup as before, hints are reset, and each list of siblings is
  reversed.
\<close>

theorem metadata_roundtrip:
  assumes "supported E" and "supported E'" and "metadata_ok md"
    and "metadataWrite E md = Inr (bytes, md')" and "3 * length bytes \<le> SIZE_MAX"
  shows "metadataLoad E' mpath bytes = Inr (normalise md) \<and>
    (\<forall>p \<in> set (all_points md). \<exists>i. point_backup (relocate md p) = Hist i \<and>
       i < length (backup_history (normalise md)) \<and>
       completion_time (backup_history (normalise md) ! i) =
         completion_time (backup_of md (point_backup p)) \<and>
       ref_count (backup_history (normalise md) ! i) = ref_count (backup_of md (point_backup p)))"
proof (intro conjI ballI)
  fix p assume p: "p \<in> set (all_points md)"
  have "refs_exact md" using assms(3) by (simp add: metadata_ok_def)
  from points_referenced [OF this, of "point_backup p"] p
  have "new_index md (point_backup p) < length (kept_backups md) \<and>
      kept_backups md ! new_index md (point_backup p) = backup_of md (point_backup p)"
    by (intro new_index_kept) auto
  then show "\<exists>i. point_backup (relocate md p) = Hist i \<and>
      i < length (backup_history (normalise md)) \<and>
      completion_time (backup_history (normalise md) ! i) =
        completion_time (backup_of md (point_backup p)) \<and>
      ref_count (backup_history (normalise md) ! i) = ref_count (backup_of md (point_backup p))"
    by (simp add: relocate_def normalise_def nth_enumerate_eq)
qed (use metadataLoad_written assms in blast)

definition example_metadata :: metadata where
  "example_metadata =
     \<lparr>current_backup = \<lparr>backup_id = 0, completion_time = 77, ref_count = 1\<rparr>,
      backup_history = [\<lparr>backup_id = 0, completion_time = 5, ref_count = 0\<rparr>,
        \<lparr>backup_id = 1, completion_time = 9, ref_count = 1\<rparr>],
      config_history = [], total_path_count = 2, path_table = [],
      paths = [PathNode ''/etc'' BH_added BPOL_track
        [\<lparr>point_backup = Current, state = PST_directory 0 0 \<lparr>dir_permission_bits = 5, dir_modification_time = 3\<rparr>\<rparr>]
        [PathNode ''/etc/a'' BH_unchanged BPOL_copy
          [\<lparr>point_backup = Hist 1, state = PST_symlink 1 2 ''b''\<rparr>] [],
         PathNode ''/etc/x'' BH_not_part_of_repository BPOL_copy [] []]]\<rparr>"

theorem metadata_roundtrip_witness:
  "\<exists>bytes md'. metadataWrite Little_endian example_metadata = Inr (bytes, md') \<and>
     metadataLoad Big_endian ''metadata'' bytes = Inr (normalise example_metadata)"
proof -
  have hints: "is_part_of_repository (PathNode p BH_added pol hist subs)"
    "is_part_of_repository (PathNode p BH_unchanged pol hist subs)"
    "\<not> is_part_of_repository (PathNode p BH_not_part_of_repository pol hist subs)" for p pol hist subs
    by (simp_all add: is_part_of_repository_def backupHintNoPol_def BH_defs)
  have ok: "metadata_ok example_metadata"
    by (simp add: metadata_ok_def example_metadata_def refs_exact_def all_refs_def all_points_def
        backup_of_def hints path_state_ok_def SIZE_MAX_def) (code_simp)
  have split: "split_path ''/etc'' = ([], ''etc'')" "split_path ''/etc/a'' = (''/etc'', ''a'')"
    by code_simp+
  have little: "supported Little_endian" by (simp add: supported_def)
  have "case metadataWrite Little_endian example_metadata of Inl _ \<Rightarrow> False
    | Inr (bytes, md') \<Rightarrow> length bytes < 1000"
    by (simp add: metadataWrite_def example_metadata_def write64_ok [OF little] write32_ok [OF little]
        writePathHistoryList_def countElements_def writePoint_def writePathState_def write8_def
        andThen_def size_add_def SIZE_MAX_def hints split Let_def)
  then obtain bytes md' where w: "metadataWrite Little_endian example_metadata = Inr (bytes, md')"
    and "length bytes < 1000" by (auto split: sum.splits)
  then have "3 * length bytes \<le> SIZE_MAX" by (simp add: SIZE_MAX_def)
  from metadata_roundtrip [OF _ _ ok w this, of Big_endian "''metadata''"] w show ?thesis
    by (auto simp: supported_def)
qed

end
