(* ===== verification/Metadata_Load.thy ===== *)
theory Metadata_Load
  imports Metadata_Roundtrip "HOL-Library.Multiset"
begin

text \<open>
  What \<open>metadataLoad()\<close> guarantees for any file: the byte order of the host does not matter, a file
  that was cut off or extended is rejected, and whatever is loaded satisfies the invariant of the
  metadata. The last fact makes the round trip applicable to every repository the program opens.
\<close>

section \<open>The file is the same on every host\<close>

lemma read32_host: "supported E \<Longrightarrow> read32 E = read32 Little_endian"
proof (intro ext)
  fix mpath data pos assume E: "supported E"
  have L: "supported Little_endian" by (simp add: supported_def)
  show "read32 E mpath data pos = read32 Little_endian mpath data pos"
  proof (cases "assertBytesLeft pos 4 data mpath")
    case (Inr u)
    then have "length (map byte_of_char (substr data pos 4)) = 4"
      by (auto simp: assertBytesLeft_Inr substr_def)
    with convertEndian32_loaded [OF E this] convertEndian32_loaded [OF L this] Inr
    show ?thesis by (simp add: read32_def)
  qed (simp add: read32_def)
qed

lemma read64_host: "supported E \<Longrightarrow> read64 E = read64 Little_endian"
proof (intro ext)
  fix mpath data pos assume E: "supported E"
  have L: "supported Little_endian" by (simp add: supported_def)
  show "read64 E mpath data pos = read64 Little_endian mpath data pos"
  proof (cases "assertBytesLeft pos 8 data mpath")
    case (Inr u)
    then have "length (map byte_of_char (substr data pos 8)) = 8"
      by (auto simp: assertBytesLeft_Inr substr_def)
    with convertEndian64_loaded [OF E this] convertEndian64_loaded [OF L this] Inr
    show ?thesis by (simp add: read64_def)
  qed (simp add: read64_def)
qed

lemma write_host:
  assumes "supported E"
  shows "write32 E = write32 Little_endian" "write64 E = write64 Little_endian"
  using assms by (simp_all add: fun_eq_iff write32_ok write64_ok supported_def)

lemma readSize_host: "supported E \<Longrightarrow> readSize E = readSize Little_endian"
  by (intro ext) (simp add: readSize_def read64_host)

lemma readTime_host: "supported E \<Longrightarrow> readTime E = readTime Little_endian"
  by (intro ext) (simp add: readTime_def read64_host)

lemma readPathState_host: "supported E \<Longrightarrow> readPathState E = readPathState Little_endian"
  by (intro ext)
    (simp add: readPathState_def readFileInfo_def readSymlinkTarget_def readDirectoryInfo_def
      read32_host read64_host readSize_host readTime_host cong: if_cong)

lemma readPathHistory_host: "supported E \<Longrightarrow> readPathHistory E = readPathHistory Little_endian"
  by (intro ext) (simp add: readPathHistory_def readPathState_host readSize_host cong: if_cong)

lemma readPoints_host: "supported E \<Longrightarrow> readPoints E = readPoints Little_endian"
proof (intro ext)
  fix mpath data n pos md assume E: "supported E"
  show "readPoints E mpath data n pos md = readPoints Little_endian mpath data n pos md"
    by (induction n arbitrary: pos md) (simp_all add: readPathHistory_host [OF E])
qed

lemma readFullPathHistory_host:
  "supported E \<Longrightarrow> readFullPathHistory E = readFullPathHistory Little_endian"
  by (intro ext)
    (simp add: readFullPathHistory_def readPathHistory_host readPoints_host readSize_host cong: if_cong)

lemma readNodeHead_host: "supported E \<Longrightarrow> readNodeHead E = readNodeHead Little_endian"
  by (intro ext)
    (simp add: readNodeHead_def readNodePath_def readFullPathHistory_host readSize_host)

lemma readNodes_host:
  "supported E \<Longrightarrow> readNodes E mpath data parent n pos tree md =
     readNodes Little_endian mpath data parent n pos tree md"
proof (induction E mpath data parent n pos tree md rule: readNodes.induct)
  case (2 E mpath data parent n pos tree md)
  then show ?case
    by (simp add: readNodeHead_host readSize_host)
      (auto intro!: bindE_cong split: prod.splits)
qed simp

lemma readBackups_host: "supported E \<Longrightarrow> readBackups E = readBackups Little_endian"
proof (intro ext)
  fix mpath data k n pos assume E: "supported E"
  show "readBackups E mpath data k n pos = readBackups Little_endian mpath data k n pos"
    by (induction n arbitrary: k pos) (simp_all add: readTime_host [OF E])
qed

lemma writePathState_host: "supported E \<Longrightarrow> writePathState E = writePathState Little_endian"
  by (intro ext)
    (simp add: writePathState_def writeFileInfo_def write_host cong: if_cong split: path_state.split)

lemma writePathHistoryList_host:
  assumes "supported E"
  shows "writePathHistoryList E = writePathHistoryList Little_endian"
proof (intro ext)
  fix md points
  have "writePoint E md = writePoint Little_endian md"
    by (intro ext) (simp add: writePoint_def write_host [OF assms] writePathState_host [OF assms])
  then show "writePathHistoryList E md points = writePathHistoryList Little_endian md points"
    by (simp add: writePathHistoryList_def write_host [OF assms])
qed

lemma writePathList_host:
  "supported E \<Longrightarrow> writePathList E md ns = writePathList Little_endian md ns"
  "supported E \<Longrightarrow> writeNodes E md ns = writeNodes Little_endian md ns"
proof (induction E md ns and E md ns rule: writePathList_writeNodes.induct)
  case (3 E md path h policy history subnodes nodes)
  then show ?case
    by (auto simp: write_host writePathHistoryList_host Let_def cong: if_cong simp del: writePathList.simps)
qed (auto simp: write_host intro!: bindE_cong)

text \<open>
  C24: the format of the metadata file does not depend on the host. A big-endian host writes the
  same bytes and reads every file with the same result, errors included, as a little-endian one;
  a host with any other byte order writes no metadata and reads none.
\<close>

theorem metadata_host_independent:
  "(supported E \<longrightarrow> metadataLoad E = metadataLoad Little_endian \<and>
      metadataWrite E = metadataWrite Little_endian) \<and>
   metadataLoad Mixed_endian path data \<in> Inl ` (UNIV :: nb_error set) \<and>
   metadataWrite Mixed_endian md \<in> Inl ` (UNIV :: nb_error set)"
proof (intro conjI impI)
  assume E: "supported E"
  show "metadataLoad E = metadataLoad Little_endian"
    by (intro ext) (simp add: metadataLoad_def readPathSubnodes_def readSize_host [OF E]
        readBackups_host [OF E] readFullPathHistory_host [OF E] readNodes_host [OF E])
  show "metadataWrite E = metadataWrite Little_endian"
    by (intro ext) (simp add: metadataWrite_def write_host [OF E] writePathHistoryList_host [OF E]
        writePathList_host [OF E] cong: if_cong del: writePathList.simps)
next
  have read: "read64 Mixed_endian path data 0 \<noteq> Inr v" for v
    by (auto simp: read64_def bindE_eq_Inr convertEndian_simps)
  have "metadataLoad Mixed_endian path data \<noteq> Inr m" for m
    using read by (auto simp: metadataLoad_def readSize_def bindE_eq_Inr)
  then show "metadataLoad Mixed_endian path data \<in> Inl ` (UNIV :: nb_error set)"
    by (cases "metadataLoad Mixed_endian path data") auto
  have "metadataWrite Mixed_endian md \<noteq> Inr m" for m
    by (auto simp: metadataWrite_def write64_def bindE_eq_Inr convertEndian_simps andThen_Inr Let_def)
  then show "metadataWrite Mixed_endian md \<in> Inl ` (UNIV :: nb_error set)"
    by (cases "metadataWrite Mixed_endian md") auto
qed

theorem metadata_host_independent_witness:
  "metadataLoad Big_endian ''m'' [] = metadataLoad Little_endian ''m'' []"
proof -
  have "supported Big_endian" by (simp add: supported_def)
  with metadata_host_independent [of Big_endian "''m''" "[]" metadataNew] show ?thesis by simp
qed

section \<open>Truncated and extended files\<close>

text \<open>A reader that succeeds does the same on a longer file.\<close>

definition extendable :: "(string \<Rightarrow> 'a result) \<Rightarrow> string \<Rightarrow> string \<Rightarrow> bool" where
  "extendable r data ext \<longleftrightarrow> (\<forall>v. r data = Inr v \<longrightarrow> r (data @ ext) = Inr v)"

lemma extendable_bind:
  assumes "extendable r data ext" "\<And>v. r data = Inr v \<Longrightarrow> extendable (f v) data ext"
  shows "extendable (\<lambda>d. bindE (r d) (\<lambda>v. f v d)) data ext"
  using assms by (auto simp: extendable_def bindE_eq_Inr)

lemma extendable_const [simp, intro!]: "extendable (\<lambda>_. c) data ext"
  by (simp add: extendable_def)

lemma extendable_if [intro]:
  "extendable r data ext \<Longrightarrow> extendable s data ext \<Longrightarrow>
   extendable (\<lambda>d. if c then r d else s d) data ext"
  by (cases c) simp_all

lemma extendable_case_prod:
  "(\<And>a b. p = (a, b) \<Longrightarrow> extendable (r a b) data ext) \<Longrightarrow>
   extendable (\<lambda>d. case p of (a, b) \<Rightarrow> r a b d) data ext"
  by (cases p) simp

lemma extendable_case_prod2:
  "(\<And>a b. p = (a, b) \<Longrightarrow> extendable (\<lambda>d. r d a b x) data ext) \<Longrightarrow>
   extendable (\<lambda>d. (case p of (a, b) \<Rightarrow> r d a b) x) data ext"
  by (cases p) simp

lemma extendable_assertBytesLeft:
  "extendable (\<lambda>d. assertBytesLeft pos n d mpath) data ext"
  by (auto simp: extendable_def assertBytesLeft_Inr)

lemma substr_extended: "pos + n \<le> length data \<Longrightarrow> substr (data @ ext) pos n = substr data pos n"
  by (simp add: substr_def)

lemma extendable_read8: "extendable (\<lambda>d. read8 mpath d pos) data ext"
  by (auto simp: extendable_def read8_def bindE_eq_Inr assertBytesLeft_Inr nth_append)

lemma extendable_read32: "extendable (\<lambda>d. read32 E mpath d pos) data ext"
  by (auto simp: extendable_def read32_def bindE_eq_Inr assertBytesLeft_Inr substr_extended)

lemma extendable_read64: "extendable (\<lambda>d. read64 E mpath d pos) data ext"
  by (auto simp: extendable_def read64_def bindE_eq_Inr assertBytesLeft_Inr substr_extended)

lemma extendable_readBytes: "extendable (\<lambda>d. readBytes mpath d n pos) data ext"
  by (auto simp: extendable_def readBytes_def bindE_eq_Inr assertBytesLeft_Inr substr_extended)

lemmas extendable_step =
  extendable_bind extendable_case_prod extendable_case_prod2 extendable_if

lemma extendable_readSize: "extendable (\<lambda>d. readSize E mpath d pos) data ext"
  unfolding readSize_def by (intro extendable_step extendable_read64 extendable_const)

lemma extendable_readTime: "extendable (\<lambda>d. readTime E mpath d pos) data ext"
  unfolding readTime_def by (intro extendable_step extendable_read64 extendable_const)

lemmas extendable_base =
  extendable_step extendable_const extendable_read8 extendable_read32 extendable_read64
  extendable_readBytes extendable_readSize extendable_readTime extendable_assertBytesLeft

lemma extendable_readPathState: "extendable (\<lambda>d. readPathState E mpath d pos) data ext"
  unfolding readPathState_def readFileInfo_def readSymlinkTarget_def readDirectoryInfo_def
  by (intro extendable_base)

lemma extendable_readPathHistory: "extendable (\<lambda>d. readPathHistory E mpath d pos md) data ext"
  unfolding readPathHistory_def by (intro extendable_base extendable_readPathState)

lemma extendable_readPoints: "extendable (\<lambda>d. readPoints E mpath d n pos md) data ext"
proof (induction n arbitrary: pos md)
  case (Suc n)
  show ?case unfolding readPoints.simps
    by (intro extendable_base extendable_readPathHistory Suc.IH)
qed simp

lemma extendable_readFullPathHistory:
  "extendable (\<lambda>d. readFullPathHistory E mpath d pos md) data ext"
  unfolding readFullPathHistory_def
  by (intro extendable_base extendable_readPathHistory extendable_readPoints)

lemma extendable_readNodePath: "extendable (\<lambda>d. readNodePath E mpath d parent pos) data ext"
  unfolding readNodePath_def
proof (intro extendable_step extendable_readSize extendable_const extendable_assertBytesLeft)
  fix v n q u
  assume "assertBytesLeft q n data mpath = Inr u"
  then have "q + n \<le> length data" by (simp add: assertBytesLeft_Inr)
  then show "extendable (\<lambda>d. let name = substr d q n in
      if NUL \<in> set name then Inl (Filename_null_bytes mpath)
      else if CHR ''/'' \<in> set name \<or> is_dot_element name then Inl (Invalid_filename name mpath)
      else Inr (append_path parent name, q + n)) data ext"
    by (simp add: extendable_def Let_def substr_extended)
qed

lemma extendable_readNodeHead: "extendable (\<lambda>d. readNodeHead E mpath d parent pos md) data ext"
  unfolding readNodeHead_def Let_def
  by (intro extendable_base extendable_readNodePath extendable_readFullPathHistory)

lemma extendable_readNodes: "extendable (\<lambda>d. readNodes E mpath d parent n pos tree md) data ext"
proof (induction E mpath data parent n pos tree md rule: readNodes.induct)
  case (2 E mpath data parent n pos tree md)
  show ?case unfolding readNodes.simps
    by (intro extendable_base extendable_readNodeHead "2.IH"; assumption?; simp)
qed simp

lemma extendable_readBackups: "extendable (\<lambda>d. readBackups E mpath d k n pos) data ext"
proof (induction n arbitrary: k pos)
  case (Suc n)
  show ?case unfolding readBackups.simps by (intro extendable_base Suc.IH)
qed simp

lemma extendable_readPathSubnodes:
  "extendable (\<lambda>d. readPathSubnodes E mpath d parent pos md) data ext"
  unfolding readPathSubnodes_def by (intro extendable_base extendable_readNodes)

text \<open>The part of \<open>metadataLoad()\<close> before its last check.\<close>

definition loadSteps :: "host \<Rightarrow> string \<Rightarrow> string \<Rightarrow> (nat \<times> metadata) result" where
  "loadSteps E path data =
     bindE (readSize E path data 0) (\<lambda>(backup_history_length, pos).
     bindE (if backup_history_length = 0 then Inr 0
            else size_mul sizeof_Backup backup_history_length) (\<lambda>_.
     bindE (readBackups E path data 0 backup_history_length pos) (\<lambda>(backups, pos).
     bindE (readFullPathHistory E path data pos (metadataNew\<lparr>backup_history := backups\<rparr>))
       (\<lambda>(config, pos, md).
     bindE (readSize E path data pos) (\<lambda>(count, pos).
     bindE (readPathSubnodes E path data [] pos
         (md\<lparr>config_history := config, total_path_count := word_of_nat count\<rparr>))
       (\<lambda>(nodes, pos, md). Inr (pos, md\<lparr>paths := nodes\<rparr>)))))))"

lemma extendable_loadSteps: "extendable (loadSteps E path) data ext"
  unfolding loadSteps_def [abs_def]
  by (intro extendable_base extendable_readBackups extendable_readFullPathHistory
      extendable_readPathSubnodes)

lemma metadataLoad_steps:
  "metadataLoad E path data =
     bindE (loadSteps E path data) (\<lambda>(pos, md).
       if pos \<noteq> length data then Inl (Trailing_bytes path) else Inr md)"
  unfolding metadataLoad_def loadSteps_def
  by (simp add: bindE_assoc case_prod_unfold cong: if_cong)

text \<open>
  C25: a metadata file that was truncated or extended is never accepted in place of the whole one.
  If loading a file succeeds, then loading it with further bytes behind it dies with the message
  about trailing bytes; hence no proper prefix of a valid file is a valid file.
\<close>

theorem metadataLoad_rejects_truncation:
  assumes "metadataLoad E path data = Inr md"
  shows "(ext \<noteq> [] \<longrightarrow> metadataLoad E path (data @ ext) = Inl (Trailing_bytes path)) \<and>
    (\<forall>n < length data. metadataLoad E path (take n data) \<notin> range Inr)"
proof (intro conjI impI allI)
  have steps: "loadSteps E path d = Inr (length d, m)" if "metadataLoad E path d = Inr m" for d m
    using that by (auto simp: metadataLoad_steps bindE_eq_Inr split: if_splits)
  have ext: "metadataLoad E path (d @ e) = Inl (Trailing_bytes path)"
    if "metadataLoad E path d = Inr m" "e \<noteq> []" for d e m
    using steps [OF that(1)] extendable_loadSteps [of E path d e] that(2)
    by (simp add: extendable_def metadataLoad_steps)
  then show "metadataLoad E path (data @ ext) = Inl (Trailing_bytes path)" if "ext \<noteq> []"
    using assms that by blast
  show "metadataLoad E path (take n data) \<notin> range Inr" if "n < length data" for n
  proof
    assume "metadataLoad E path (take n data) \<in> range Inr"
    then obtain m where "metadataLoad E path (take n data) = Inr m" by blast
    from ext [OF this, of "drop n data"] that assms show False by simp
  qed
qed

theorem metadataLoad_rejects_truncation_witness:
  "metadataLoad Little_endian ''m'' (replicate 32 NUL @ ''x'') = Inl (Trailing_bytes ''m'') \<and>
   metadataLoad Little_endian ''m'' (replicate 31 NUL) \<notin> range Inr"
proof -
  have "metadata_ok metadataNew"
    by (simp add: metadata_ok_def metadataNew_def refs_exact_def all_refs_def all_points_def backup_of_def)
  have L: "supported Little_endian" by (simp add: supported_def)
  have zeros: "map char_of_byte (le_bytes 8 (0 :: u64)) = replicate 8 NUL"
    by (simp add: le_bytes_def upt_8 char_of_byte_def char_of_def numeral_eq_Suc)
  have "metadataWrite Little_endian metadataNew = Inr (replicate 32 NUL, metadataNew)"
    using zeros
    by (simp add: metadataWrite_def metadataNew_def write64_ok [OF L] writePathHistoryList_def
        countElements_def andThen_def numeral_eq_Suc)
  moreover have "3 * length (replicate 32 NUL) \<le> SIZE_MAX" by (simp add: SIZE_MAX_def)
  ultimately have "metadataLoad Little_endian ''m'' (replicate 32 NUL) = Inr (normalise metadataNew)"
    using metadata_roundtrip [OF L L \<open>metadata_ok metadataNew\<close>] by blast
  from metadataLoad_rejects_truncation [OF this, of "''x''"] show ?thesis
    by (auto dest!: spec [of _ 31])
qed

section \<open>Loaded metadata satisfies its invariant\<close>

lemma readBytes_length: "readBytes mpath data n pos = Inr (bs, pos') \<Longrightarrow> length bs = n"
  by (auto simp: readBytes_def bindE_eq_Inr assertBytesLeft_Inr substr_def)

lemma readFileInfo_ok:
  "readFileInfo E mpath data pos = Inr (info, pos') \<Longrightarrow> file_info_ok info"
  by (auto simp: readFileInfo_def bindE_eq_Inr file_info_ok_def word_gt_0 min_def
      split: if_splits dest: readBytes_length)

lemma takeWhile_NUL: "NUL \<notin> set (takeWhile (\<lambda>c. c \<noteq> NUL) s)"
  by (auto dest: set_takeWhileD)

lemma view_str: "view (str mem) = takeWhile (\<lambda>c. c \<noteq> NUL) mem"
  by (simp add: str_def strlen_def takeWhile_eq_take [symmetric])

lemma readSymlinkTarget_ok:
  assumes "readSymlinkTarget E mpath data pos = Inr (target, pos')"
  shows "NUL \<notin> set target \<and> length target < SIZE_MAX"
proof -
  from assms obtain n q bs where n: "n + 1 \<le> SIZE_MAX" and bs: "readBytes mpath data n q = Inr (bs, pos')"
    and target: "target = takeWhile (\<lambda>c. c \<noteq> NUL) (map char_of_byte bs @ [NUL])"
    by (auto simp: readSymlinkTarget_def bindE_eq_Inr view_str)
  have "target = takeWhile (\<lambda>c. c \<noteq> NUL) (map char_of_byte bs)"
    unfolding target by (simp add: takeWhile_tail)
  then have "length target \<le> length (map char_of_byte bs)" by (simp only: length_takeWhile_le)
  then show ?thesis using readBytes_length [OF bs] n target takeWhile_NUL by simp
qed

lemma readPathState_ok:
  assumes "readPathState E mpath data pos = Inr (st, pos')"
  shows "path_state_ok st"
  using assms
  by (fastforce simp: readPathState_def bindE_eq_Inr path_state_ok_def split: if_splits
      dest: readFileInfo_ok readSymlinkTarget_ok)

text \<open>
  The invariant while the file is read: the counts are the numbers of points read so far, which the
  multiset holds.
\<close>

definition loading :: "metadata \<Rightarrow> path_history multiset \<Rightarrow> bool" where
  "loading md M \<longleftrightarrow>
     backup_id (current_backup md) = 0 \<and> ref_count (current_backup md) = 0 \<and>
     (\<forall>k < length (backup_history md).
        unat (ref_count (backup_history md ! k)) = count (image_mset point_backup M) (Hist k)) \<and>
     (\<forall>p \<in># M. path_state_ok (state p) \<and>
        (\<exists>k < length (backup_history md). point_backup p = Hist k))"

lemma increment_ref_D:
  "increment_ref b = Inr b' \<Longrightarrow> b' = b\<lparr>ref_count := ref_count b'\<rparr> \<and> unat (ref_count b') = unat (ref_count b) + 1"
  using add_guard [of 1 "ref_count b"] unat_add_u64 [of "ref_count b" 1]
  by (auto simp: increment_ref_def sSizeAdd_def split: if_splits)

lemma loading_readPathHistory:
  assumes "readPathHistory E mpath data pos md = Inr (p, pos', md')" and "loading md M"
  shows "loading md' (add_mset p M) \<and> length (backup_history md') = length (backup_history md) \<and>
    config_history md' = config_history md"
proof -
  from assms(1) obtain i b st q where i: "i < length (backup_history md)"
    and b: "increment_ref (backup_history md ! i) = Inr b"
    and st: "readPathState E mpath data q = Inr (st, pos')"
    and p: "p = \<lparr>point_backup = Hist i, state = st\<rparr>"
    and md': "md' = md\<lparr>backup_history := (backup_history md)[i := b]\<rparr>"
    by (auto simp: readPathHistory_def bindE_eq_Inr split: if_splits)
  show ?thesis
    using assms(2) i increment_ref_D [OF b] readPathState_ok [OF st]
    by (auto simp: loading_def md' p nth_list_update)
qed

lemma loading_readPoints:
  "readPoints E mpath data n pos md = Inr (ps, pos', md') \<Longrightarrow> loading md M \<Longrightarrow>
   loading md' (mset ps + M) \<and> length (backup_history md') = length (backup_history md) \<and>
   config_history md' = config_history md"
proof (induction n arbitrary: pos md ps M)
  case (Suc n)
  from Suc.prems(1) obtain p q md1 rest where
    p: "readPathHistory E mpath data pos md = Inr (p, q, md1)"
    and rest: "readPoints E mpath data n q md1 = Inr (rest, pos', md')" and ps: "ps = p # rest"
    by (auto simp: bindE_eq_Inr)
  from loading_readPathHistory [OF p Suc.prems(2)] Suc.IH [OF rest, of "add_mset p M"]
  show ?case by (simp add: ps)
qed simp

lemma loading_readFullPathHistory:
  assumes "readFullPathHistory E mpath data pos md = Inr (ps, pos', md')" and "loading md M"
  shows "loading md' (mset ps + M) \<and> length (backup_history md') = length (backup_history md) \<and>
    config_history md' = config_history md"
proof -
  from assms(1) obtain n q where "readSize E mpath data pos = Inr (n, q)"
    and "(n = 0 \<and> ps = [] \<and> md' = md) \<or> readPoints E mpath data n q md = Inr (ps, pos', md')"
    by (fastforce simp: readFullPathHistory_def bindE_eq_Inr gr0_conv_Suc split: if_splits)
  then show ?thesis using loading_readPoints assms(2) by fastforce
qed

lemma readNodePath_ok:
  assumes "readNodePath E mpath data parent pos = Inr (p, pos')" and "parent = [] \<or> last parent \<noteq> CHR ''/''"
  shows "path_ok parent p \<and> last p \<noteq> CHR ''/''"
proof -
  from assms(1) obtain n q name where n: "0 < n" and len: "q + n \<le> length data"
    and name: "name = substr data q n" "NUL \<notin> set name" "CHR ''/'' \<notin> set name" "\<not> is_dot_element name"
    and p: "p = append_path parent name"
    by (auto simp: readNodePath_def bindE_eq_Inr Let_def assertBytesLeft_Inr split: if_splits)
  have "name \<noteq> []" using n len name(1) by (auto simp: substr_def)
  moreover have "split_path p = (parent, name)" unfolding p using name(3) assms(2) by (rule split_append_path)
  moreover have "last p \<in> set name" using \<open>name \<noteq> []\<close> by (simp add: p append_path_def)
  ultimately show ?thesis using name p by (auto simp: path_ok_def name_ok_def)
qed

lemma is_part_of_repository_none [simp]: "is_part_of_repository (PathNode p BH_none pol hist subs)"
  by (simp add: is_part_of_repository_def backupHintNoPol_def BH_defs)

lemma loading_readNodes:
  "readNodes E mpath data parent n pos tree md = Inr (tree', pos', md') \<Longrightarrow>
   parent = [] \<or> last parent \<noteq> CHR ''/'' \<Longrightarrow> nodes_ok (\<lambda>_. True) parent tree \<Longrightarrow>
   loading md (mset (written_points tree) + M) \<Longrightarrow>
   nodes_ok (\<lambda>_. True) parent tree' \<and> loading md' (mset (written_points tree') + M) \<and>
   config_history md' = config_history md"
proof (induction E mpath data parent n pos tree md arbitrary: tree' pos' md' M rule: readNodes.induct)
  case (2 E mpath data parent n pos tree md)
  from "2.prems"(1) obtain p pol h q md1 c r subs s md2 where
    head: "readNodeHead E mpath data parent pos md = Inr (p, pol, h, q, md1)"
    and count: "readSize E mpath data q = Inr (c, r)"
    and subs: "readNodes E mpath data p c r [] md1 = Inr (subs, s, md2)"
    and rest: "readNodes E mpath data parent n s (PathNode p BH_none pol h subs # tree) md2 =
      Inr (tree', pos', md')"
    by (auto simp: bindE_eq_Inr)
  from head obtain u v md0 b where path: "readNodePath E mpath data parent pos = Inr (p, u)"
    and pol: "pol = policy_of_byte b"
    and hist: "readFullPathHistory E mpath data v (md\<lparr>path_table := p # path_table md\<rparr>) = Inr (h, q, md1)"
    by (auto simp: readNodeHead_def bindE_eq_Inr Let_def)
  note p = readNodePath_ok [OF path "2.prems"(2)]
  let ?M = "mset (written_points tree) + M"
  have "loading (md\<lparr>path_table := p # path_table md\<rparr>) ?M"
    using "2.prems"(4) by (simp add: loading_def)
  from loading_readFullPathHistory [OF hist this]
  have md1: "loading md1 (mset h + ?M)" "config_history md1 = config_history md" by simp_all
  have "loading md1 (mset (written_points []) + (mset h + ?M))" using md1 by simp
  from "2.IH"(1) [OF head refl refl refl refl count refl subs _ _ this] p
  have md2: "nodes_ok (\<lambda>_. True) p subs" "loading md2 (mset (written_points subs) + (mset h + ?M))"
    "config_history md2 = config_history md"
    using md1 by simp_all
  let ?tree = "PathNode p BH_none pol h subs # tree"
  have "nodes_ok (\<lambda>_. True) parent ?tree"
    using p md2(1) "2.prems"(3) by (simp add: pol list_all_iff)
  moreover have "loading md2 (mset (written_points ?tree) + M)"
    using md2(2) by (simp add: ac_simps)
  ultimately show ?case
    using "2.IH"(2) [OF head refl refl refl refl count refl subs refl refl rest "2.prems"(2)] md2(3)
    by simp
qed simp

text \<open>
  C17: every metadata that is loaded satisfies the invariant of the metadata, whatever the file
  contains. Each reference count is the number of history points that refer to the backup, all
  points refer to backups of the array, all states are representable, and each path is its parent's
  path, a slash and a valid name. Writing it and loading it again therefore gives its normal form.
\<close>

theorem metadataLoad_establishes_invariant:
  assumes "metadataLoad E path data = Inr md"
  shows "metadata_ok md \<and>
    (\<forall>E' E'' bytes md'. supported E' \<and> supported E'' \<and> metadataWrite E' md = Inr (bytes, md') \<and>
       3 * length bytes \<le> SIZE_MAX \<longrightarrow> metadataLoad E'' path bytes = Inr (normalise md))"
proof -
  from assms obtain n p0 backups p1 config p2 md1 total p3 nodes md2 where
    backups: "readBackups E path data 0 n p0 = Inr (backups, p1)"
    and config: "readFullPathHistory E path data p1 (metadataNew\<lparr>backup_history := backups\<rparr>) =
      Inr (config, p2, md1)"
    and nodes: "readPathSubnodes E path data [] p3
        (md1\<lparr>config_history := config, total_path_count := word_of_nat total\<rparr>) =
      Inr (nodes, length data, md2)"
    and md: "md = md2\<lparr>paths := nodes\<rparr>"
    by (auto simp: metadataLoad_def bindE_eq_Inr simp del: readBackups.simps split: if_splits)
  have zero: "readBackups E path data i n p = Inr (bs, q) \<Longrightarrow> \<forall>b \<in> set bs. ref_count b = 0" for i n p bs q
    by (induction n arbitrary: i p bs) (fastforce simp: bindE_eq_Inr)+
  have "loading (metadataNew\<lparr>backup_history := backups\<rparr>) {#}"
    using zero [OF backups] by (auto simp: loading_def metadataNew_def)
  from loading_readFullPathHistory [OF config this]
  have "loading md1 (mset config)" by simp
  then have "loading (md1\<lparr>config_history := config, total_path_count := word_of_nat total\<rparr>)
      (mset (written_points []) + mset config)"
    by (simp add: loading_def)
  with nodes obtain m q where "readNodes E path data [] m q []
      (md1\<lparr>config_history := config, total_path_count := word_of_nat total\<rparr>) =
      Inr (nodes, length data, md2)"
    by (auto simp: readPathSubnodes_def bindE_eq_Inr)
  from loading_readNodes [OF this _ _ \<open>loading (md1\<lparr>config_history := config, total_path_count := word_of_nat total\<rparr>)
      (mset (written_points []) + mset config)\<close>]
  have ok: "nodes_ok (\<lambda>_. True) [] nodes" "loading md2 (mset (written_points nodes) + mset config)"
    "config_history md2 = config"
    by simp_all
  have points: "mset (all_points md) = mset (written_points nodes) + mset config"
    by (simp add: all_points_def md ok(3))
  have set_points: "set (all_points md) = set (written_points nodes) \<union> set config"
    using arg_cong [OF points, of set_mset] by simp
  have counts: "count_list (map point_backup (all_points md)) r =
      count (image_mset point_backup (mset (written_points nodes) + mset config)) r" for r
    unfolding points [symmetric] by (simp only: count_mset flip: mset_map)
  have refs: "\<exists>k < length (backup_history md). point_backup p = Hist k" if "p \<in> set (all_points md)" for p
    using ok(2) that set_points by (auto simp: loading_def md)
  have "refs_exact md"
    unfolding refs_exact_def
  proof (intro conjI ballI)
    fix r assume "r \<in> set (all_refs md)"
    then consider "r = Current" | k where "r = Hist k" "k < length (backup_history md)"
      by (auto simp: all_refs_def)
    then show "unat (ref_count (backup_of md r)) = count_list (map point_backup (all_points md)) r"
    proof cases
      case 1
      then have "r \<notin> set (map point_backup (all_points md))" using refs by fastforce
      then have "count_list (map point_backup (all_points md)) r = 0"
        by (simp only: count_list_0_iff) simp
      then show ?thesis using 1 ok(2) by (simp add: backup_of_def loading_def md)
    next
      case 2
      then show ?thesis using ok(2) unfolding counts by (simp add: backup_of_def loading_def md)
    qed
  next
    show "set (map point_backup (all_points md)) \<subseteq> set (all_refs md)"
      using refs by (fastforce simp: all_refs_def)
  qed
  moreover have "list_all (\<lambda>p. path_state_ok (state p)) (all_points md)"
    using ok(2) set_points by (auto simp: list_all_iff loading_def)
  ultimately have "metadata_ok md"
    using ok by (simp add: metadata_ok_def loading_def md)
  then show ?thesis using metadataLoad_written by blast
qed

theorem metadataLoad_establishes_invariant_witness:
  "\<exists>bytes md'. metadataLoad Little_endian ''m'' bytes = Inr (normalise metadataNew) \<and>
     metadata_ok (normalise metadataNew)"
proof -
  have ok: "metadata_ok metadataNew"
    by (simp add: metadata_ok_def metadataNew_def refs_exact_def all_refs_def all_points_def backup_of_def)
  have L: "supported Little_endian" by (simp add: supported_def)
  have "metadataWrite Little_endian metadataNew =
      Inr (concat (replicate 4 (map char_of_byte (le_bytes 8 (0 :: u64)))), metadataNew)"
    by (simp add: metadataWrite_def metadataNew_def write64_ok [OF L] writePathHistoryList_def
        countElements_def andThen_def numeral_eq_Suc)
  moreover have "3 * length (concat (replicate 4 (map char_of_byte (le_bytes 8 (0 :: u64))))) \<le> SIZE_MAX"
    by (simp add: SIZE_MAX_def length_concat sum_list_replicate)
  ultimately have "metadataLoad Little_endian ''m'' (concat (replicate 4 (map char_of_byte (le_bytes 8 (0 :: u64))))) =
      Inr (normalise metadataNew)"
    using metadataLoad_written [OF _ ok, of Little_endian Little_endian] L by blast
  with metadataLoad_establishes_invariant [OF this] show ?thesis by blast
qed

end
