(* ===== verification/Repo_Paths.thy ===== *)
theory Repo_Paths
  imports Metadata_Types
begin

text \<open>
  Names of stored files: the first part of \<open>src/repository.c\<close>. A file with more than
  \<open>FILE_HASH_SIZE\<close> bytes is stored under a path made of its hash, its size and its slot. The code
  writes the path into a buffer with overlapping calls of \<open>sprintf()\<close>; the model does the same
  writes on a list, and a write behind the end of the buffer is the error \<open>Buffer_overrun\<close>. The
  properties are that the buffer is always large enough, what the path is, and that two files get
  the same path only if hash, size and slot agree.
\<close>

section \<open>The code's functions\<close>

text \<open>\<open>"%x"\<close> and \<open>"%02x"\<close>.\<close>

definition hex_digit :: "nat \<Rightarrow> char" where
  "hex_digit n = ''0123456789abcdef'' ! n"

fun hex :: "nat \<Rightarrow> string" where
  "hex n = (if n < 16 then [hex_digit n] else hex (n div 16) @ [hex_digit (n mod 16)])"

declare hex.simps [simp del]

definition hex2 :: "u8 \<Rightarrow> string" where
  "hex2 b = (let s = hex (unat b) in if length s < 2 then ''0'' @ s else s)"

text \<open>Writes characters into a buffer, and the same with a terminating NUL.\<close>

definition put :: "string \<Rightarrow> nat \<Rightarrow> string \<Rightarrow> string result" where
  "put buffer i s =
     (if i + length s \<le> length buffer then Inr (take i buffer @ s @ drop (i + length s) buffer)
      else Inl Buffer_overrun)"

definition sprintf_at :: "string \<Rightarrow> nat \<Rightarrow> string \<Rightarrow> string result" where
  "sprintf_at buffer i s = put buffer i (s @ [NUL])"

definition getFilePathRequiredCapacity :: "file_info \<Rightarrow> nat" where
  "getFilePathRequiredCapacity info =
     length (hex (unat (slot info))) + length (hex (unat (file_size info))) +
     (FILE_HASH_SIZE * 2) + 5"

text \<open>The writes to \<open>buffer[index * 2]\<close> for the bytes from the given index on.\<close>

fun putHash :: "string \<Rightarrow> nat \<Rightarrow> u8 list \<Rightarrow> string result" where
  "putHash buffer i [] = Inr buffer"
| "putHash buffer i (b # bs) =
     bindE (sprintf_at buffer i (hex2 b)) (\<lambda>buffer. putHash buffer (i + 2) bs)"

text \<open>\<open>base\<close> is the offset of the buffer that is passed to the function.\<close>

definition buildFilePath :: "string \<Rightarrow> nat \<Rightarrow> file_info \<Rightarrow> string result" where
  "buildFilePath buffer base info =
     bindE (sprintf_at buffer base (hex2 (file_hash info ! 0))) (\<lambda>buffer.
     bindE (sprintf_at buffer (base + 3) (hex2 (file_hash info ! 1))) (\<lambda>buffer.
     bindE (put buffer (base + 2) [buffer ! (base + 1)]) (\<lambda>buffer.
     bindE (put buffer (base + 1) ''/'') (\<lambda>buffer.
     bindE (put buffer (base + 5) [buffer ! (base + 4)]) (\<lambda>buffer.
     bindE (put buffer (base + 4) ''/'') (\<lambda>buffer.
     bindE (putHash buffer (base + 2 + 2 * 2) (drop 2 (take FILE_HASH_SIZE (file_hash info))))
       (\<lambda>buffer.
     sprintf_at buffer (base + 2 + FILE_HASH_SIZE * 2)
       (''x'' @ hex (unat (file_size info)) @ ''x'' @ hex (unat (slot info))))))))))"

text \<open>
  \<open>CR_EnsureCapacity()\<close> keeps the content of a growable buffer and makes it at least as large as
  required; the new bytes are \<open>garbage\<close>.
\<close>

definition ensureCapacity :: "string \<Rightarrow> string \<Rightarrow> nat \<Rightarrow> string" where
  "ensureCapacity garbage buffer capacity =
     buffer @ take (capacity - length buffer) (garbage @ replicate capacity NUL)"

definition fillPathBufferWithInfo ::
  "string \<Rightarrow> string \<Rightarrow> string \<Rightarrow> file_info \<Rightarrow> string result" where
  "fillPathBufferWithInfo garbage path_buffer repo_path info =
     bindE (size_add (getFilePathRequiredCapacity info + 1) (length repo_path))
       (\<lambda>required_capacity.
     bindE (put (ensureCapacity garbage path_buffer required_capacity) 0 repo_path) (\<lambda>path_buffer.
     bindE (put path_buffer (length repo_path) ''/'') (\<lambda>path_buffer.
       buildFilePath path_buffer (length repo_path + 1) info)))"

definition repoBuildRegularFilePath :: "string \<Rightarrow> string \<Rightarrow> file_info \<Rightarrow> string result" where
  "repoBuildRegularFilePath garbage buffer info =
     buildFilePath (ensureCapacity garbage buffer (getFilePathRequiredCapacity info)) 0 info"

section \<open>The path\<close>

definition stored_path :: "file_info \<Rightarrow> string" where
  "stored_path info =
     (let h = concat (map hex2 (file_hash info))
      in take 1 h @ ''/'' @ take 2 (drop 1 h) @ ''/'' @ drop 3 h @
         ''x'' @ hex (unat (file_size info)) @ ''x'' @ hex (unat (slot info)))"

lemma hex_digit_in: "n < 16 \<Longrightarrow> hex_digit n \<in> set ''0123456789abcdef''"
  unfolding hex_digit_def by (rule nth_mem) simp

lemma hex_digits: "set (hex n) \<subseteq> set ''0123456789abcdef''"
proof (induction n rule: hex.induct)
  case (1 n)
  show ?case
  proof (cases "n < 16")
    case True
    then show ?thesis using hex_digit_in [OF True] by (simp add: hex.simps [of n])
  next
    case False
    then show ?thesis using 1 [OF False] hex_digit_in [of "n mod 16"]
      by (subst hex.simps) simp
  qed
qed

lemma hex_digit_inj:
  assumes "m < 16" "n < 16" "hex_digit m = hex_digit n"
  shows "m = n"
proof -
  have "distinct ''0123456789abcdef''" by simp
  then show ?thesis using assms nth_eq_iff_index_eq [of "''0123456789abcdef''" m n]
    unfolding hex_digit_def by simp
qed

lemma hex_not_Nil [simp]: "hex n \<noteq> []"
  by (subst hex.simps) simp

text \<open>Hexadecimal digits determine the number.\<close>

fun digit_value :: "char \<Rightarrow> nat" where
  "digit_value c = (THE n. n < 16 \<and> hex_digit n = c)"

lemma digit_value [simp]: "n < 16 \<Longrightarrow> digit_value (hex_digit n) = n"
  using hex_digit_inj by (auto intro!: the_equality)

definition unhex :: "string \<Rightarrow> nat" where
  "unhex s = foldl (\<lambda>n c. 16 * n + digit_value c) 0 s"

lemma unhex_hex [simp]: "unhex (hex n) = n"
proof (induction n rule: hex.induct)
  case (1 n)
  show ?case
  proof (cases "n < 16")
    case True
    then show ?thesis by (simp add: unhex_def hex.simps [of n] del: digit_value.simps)
  next
    case False
    have "unhex (hex n) = 16 * unhex (hex (n div 16)) + n mod 16"
      using False by (subst hex.simps) (simp add: unhex_def del: digit_value.simps)
    then show ?thesis using 1 [OF False] by simp
  qed
qed

lemma hex_inj: "hex m = hex n \<longleftrightarrow> m = n"
  by (metis unhex_hex)

lemma hex2_cases: "unat b < 16 \<Longrightarrow> hex2 b = ''0'' @ hex (unat b)"
  "\<not> unat b < 16 \<Longrightarrow> hex2 b = hex (unat b)"
  by (simp_all add: hex2_def Let_def hex.simps [of "unat b"] length_Suc_conv)

lemma length_hex2 [simp]: "length (hex2 b) = 2"
proof -
  have "unat b < 256" using unsigned_less [of b, where ?'a = nat] by simp
  then have "unat b div 16 < 16" by simp
  then show ?thesis
    by (cases "unat b < 16")
      (simp_all add: hex2_cases hex.simps [of "unat b"] hex.simps [of "unat b div 16"])
qed

lemma unhex_zero [simp]: "unhex (CHR ''0'' # s) = unhex s"
proof -
  have "digit_value CHR ''0'' = 0" using digit_value [of 0] by (simp add: hex_digit_def)
  then show ?thesis by (simp add: unhex_def del: digit_value.simps)
qed

lemma unhex_hex2 [simp]: "unhex (hex2 b) = unat b"
  by (cases "unat b < 16") (simp_all add: hex2_cases del: digit_value.simps)

lemma hex2_inj [simp]: "hex2 a = hex2 b \<longleftrightarrow> a = b"
  by (metis unhex_hex2 word_unat_eq_iff)

lemma hex2_digits: "set (hex2 b) \<subseteq> set ''0123456789abcdef''"
  using hex_digits [of "unat b"] by (cases "unat b < 16") (auto simp: hex2_cases)

lemma concat_hex2_inj:
  "concat (map hex2 as) = concat (map hex2 bs) \<longleftrightarrow> as = bs"
proof (induction as arbitrary: bs)
  case Nil
  then show ?case by (cases bs) (auto dest: arg_cong [of _ _ length])
next
  case (Cons a as)
  then show ?case
  proof (cases bs)
    case Nil
    then show ?thesis by (auto dest: arg_cong [of _ _ length])
  next
    case (Cons b bs')
    then show ?thesis using Cons.IH by simp
  qed
qed

section \<open>The writes stay inside the buffer and produce the path\<close>

lemma put_at:
  assumes "length pre = i" "length old = length s"
  shows "put (pre @ old @ rest) i s = Inr (pre @ s @ rest)"
  using assms by (simp add: put_def)

lemma putHash_spec:
  "length pre = i \<Longrightarrow> 2 * length bs < length rest \<Longrightarrow>
   \<exists>rest'. putHash (pre @ rest) i bs = Inr (pre @ concat (map hex2 bs) @ rest') \<and>
     length rest' = length rest - 2 * length bs"
proof (induction bs arbitrary: pre i rest)
  case (Cons b bs)
  have split: "rest = take 3 rest @ drop 3 rest" by simp
  have len: "length (take 3 rest) = length (hex2 b @ [NUL])" using Cons.prems(2) by simp
  have "sprintf_at (pre @ rest) i (hex2 b) = Inr (pre @ (hex2 b @ [NUL]) @ drop 3 rest)"
    unfolding sprintf_at_def using put_at [OF Cons.prems(1) len, of "drop 3 rest"] by simp
  then have "putHash (pre @ rest) i (b # bs) =
      putHash ((pre @ hex2 b) @ NUL # drop 3 rest) (i + 2) bs"
    by simp
  moreover have "length (pre @ hex2 b) = i + 2" using Cons.prems(1) by simp
  moreover have "2 * length bs < length (NUL # drop 3 rest)" using Cons.prems(2) by simp
  ultimately obtain rest' where
    "putHash (pre @ rest) i (b # bs) = Inr ((pre @ hex2 b) @ concat (map hex2 bs) @ rest')"
    and "length rest' = length (NUL # drop 3 rest) - 2 * length bs"
    using Cons.IH [of "pre @ hex2 b" "i + 2" "NUL # drop 3 rest"] by metis
  then show ?case using Cons.prems(2) by (intro exI [of _ rest']) simp
qed simp

lemma two_chars: "length s = 2 \<Longrightarrow> s = [s ! 0, s ! 1]"
  by (cases s; cases "tl s") auto

lemma length_concat_hex2 [simp]: "length (concat (map hex2 bs)) = 2 * length bs"
  by (induction bs) auto

lemma six_elements: "6 \<le> length xs \<Longrightarrow> \<exists>a b c d e f ys. xs = a # b # c # d # e # f # ys"
  by (auto simp: numeral_eq_Suc Suc_le_length_iff)

lemma buildFilePath_spec:
  assumes hash: "length (file_hash info) = FILE_HASH_SIZE" and base: "length pre = base"
    and room: "getFilePathRequiredCapacity info \<le> length rest"
  shows "\<exists>rest'. buildFilePath (pre @ rest) base info = Inr (pre @ stored_path info @ NUL # rest')"
proof -
  have hash20: "length (file_hash info) = 20" using hash by (simp add: FILE_HASH_SIZE_def)
  obtain h0 h1 hs where h: "file_hash info = h0 # h1 # hs" and hs: "length hs = 18"
    using hash20 by (auto simp: length_Suc_conv numeral_eq_Suc)
  define a b c d where abcd: "a = hex2 h0 ! 0" "b = hex2 h0 ! 1" "c = hex2 h1 ! 0" "d = hex2 h1 ! 1"
  have hex: "hex2 h0 = [a, b]" "hex2 h1 = [c, d]" unfolding abcd by (rule two_chars, simp)+
  define suffix where "suffix = ''x'' @ Repo_Paths.hex (unat (file_size info)) @ ''x'' @ Repo_Paths.hex (unat (slot info))"
  have cap: "getFilePathRequiredCapacity info = 43 + length suffix"
    by (simp add: getFilePathRequiredCapacity_def suffix_def FILE_HASH_SIZE_def)
  have "6 \<le> length rest" using room cap by simp
  then obtain x0 x1 x2 x3 x4 x5 tl where rest: "rest = [x0, x1, x2, x3, x4, x5] @ tl"
    using six_elements [of rest] by auto
  have tl: "37 + length suffix \<le> length tl" using room cap rest by simp
  have "2 * length hs < length tl" using tl hs by simp
  from putHash_spec [of "pre @ [a, CHR ''/'', b, c, CHR ''/'', d]" "base + 6" hs tl] this base
  obtain tl' where put: "putHash ((pre @ [a, CHR ''/'', b, c, CHR ''/'', d]) @ tl) (base + 6) hs =
      Inr ((pre @ [a, CHR ''/'', b, c, CHR ''/'', d]) @ concat (map hex2 hs) @ tl')"
    and tl': "length tl' = length tl - 36"
    using hs by auto
  have first: "bindE (sprintf_at (pre @ rest) base (hex2 h0)) (\<lambda>buffer.
     bindE (sprintf_at buffer (base + 3) (hex2 h1)) (\<lambda>buffer.
     bindE (put buffer (base + 2) [buffer ! (base + 1)]) (\<lambda>buffer.
     bindE (put buffer (base + 1) ''/'') (\<lambda>buffer.
     bindE (put buffer (base + 5) [buffer ! (base + 4)]) (\<lambda>buffer.
     bindE (put buffer (base + 4) ''/'') f))))) =
     f ((pre @ [a, CHR ''/'', b, c, CHR ''/'', d]) @ tl)" for f
    unfolding rest hex sprintf_at_def base [symmetric]
    by (simp add: put_def nth_append numeral_eq_Suc)
  let ?done = "pre @ [a, CHR ''/'', b, c, CHR ''/'', d] @ concat (map hex2 hs)"
  have last: "sprintf_at (?done @ tl') (base + 2 + FILE_HASH_SIZE * 2) suffix =
      Inr (?done @ (suffix @ [NUL]) @ drop (length suffix + 1) tl')"
  proof -
    have "length (take (length suffix + 1) tl') = length (suffix @ [NUL])" using tl tl' by simp
    moreover have "length ?done = base + 2 + FILE_HASH_SIZE * 2"
      using base hs by (simp add: FILE_HASH_SIZE_def)
    ultimately show ?thesis
      unfolding sprintf_at_def
      using put_at [of ?done "base + 2 + FILE_HASH_SIZE * 2" "take (length suffix + 1) tl'" "suffix @ [NUL]"
          "drop (length suffix + 1) tl'"]
      by simp
  qed
  have path: "stored_path info = [a, CHR ''/'', b, c, CHR ''/'', d] @ concat (map hex2 hs) @ suffix"
    by (simp add: stored_path_def h hex suffix_def numeral_eq_Suc)
  have eqs: "file_hash info ! 0 = h0" "file_hash info ! 1 = h1"
    "drop 2 (take FILE_HASH_SIZE (file_hash info)) = hs"
    using hs by (simp_all add: h FILE_HASH_SIZE_def)
  have base6: "base + 2 + 2 * 2 = base + 6" by simp
  have "buildFilePath (pre @ rest) base info = Inr (?done @ (suffix @ [NUL]) @ drop (length suffix + 1) tl')"
    unfolding buildFilePath_def eqs first base6 put bindE_simps
    using last by (simp add: suffix_def)
  then show ?thesis by (simp add: path)
qed

lemma length_ensureCapacity: "capacity \<le> length (ensureCapacity garbage buffer capacity)"
  by (simp add: ensureCapacity_def)

lemma repoBuildRegularFilePath_spec:
  assumes "length (file_hash info) = FILE_HASH_SIZE"
  shows "\<exists>rest. repoBuildRegularFilePath garbage buffer info = Inr (stored_path info @ NUL # rest)"
  using buildFilePath_spec [of info "[]" 0] assms length_ensureCapacity
  by (simp add: repoBuildRegularFilePath_def)

lemma fillPathBufferWithInfo_spec:
  assumes hash: "length (file_hash info) = FILE_HASH_SIZE"
    and size: "getFilePathRequiredCapacity info + 1 + length repo_path \<le> SIZE_MAX"
  shows "\<exists>rest. fillPathBufferWithInfo garbage path_buffer repo_path info =
    Inr (repo_path @ ''/'' @ stored_path info @ NUL # rest)"
proof -
  let ?cap = "getFilePathRequiredCapacity info + 1 + length repo_path"
  define buffer where "buffer = ensureCapacity garbage path_buffer ?cap"
  have len: "?cap \<le> length buffer" by (simp add: buffer_def length_ensureCapacity)
  have "put buffer 0 repo_path = Inr (repo_path @ drop (length repo_path) buffer)"
    using len by (simp add: put_def)
  moreover have "put (repo_path @ drop (length repo_path) buffer) (length repo_path) ''/'' =
      Inr ((repo_path @ ''/'') @ drop (length repo_path + 1) buffer)"
    using len by (simp add: put_def)
  ultimately have "fillPathBufferWithInfo garbage path_buffer repo_path info =
      buildFilePath ((repo_path @ ''/'') @ drop (length repo_path + 1) buffer) (length repo_path + 1) info"
    using size by (simp add: fillPathBufferWithInfo_def size_add_def buffer_def)
  moreover have "getFilePathRequiredCapacity info \<le> length (drop (length repo_path + 1) buffer)"
    using len by simp
  ultimately show ?thesis
    using buildFilePath_spec [OF hash, of "repo_path @ ''/''" "length repo_path + 1"
        "drop (length repo_path + 1) buffer"] by simp
qed

lemma hash_digits: "set (concat (map hex2 bs)) \<subseteq> set ''0123456789abcdef''"
  using hex2_digits by (induction bs) auto

lemma stored_path_parts:
  obtains h1 h2 h3 where
    "stored_path info = h1 @ ''/'' @ h2 @ ''/'' @ h3 @ ''x'' @ hex (unat (file_size info)) @ ''x'' @
       hex (unat (slot info))"
    and "set (h1 @ h2 @ h3) \<subseteq> set ''0123456789abcdef''"
proof
  let ?h = "concat (map hex2 (file_hash info))"
  show "stored_path info = take 1 ?h @ ''/'' @ take 2 (drop 1 ?h) @ ''/'' @ drop 3 ?h @ ''x'' @
      hex (unat (file_size info)) @ ''x'' @ hex (unat (slot info))"
    by (simp add: stored_path_def Let_def)
  have "set (take 1 ?h) \<subseteq> set ?h" "set (take 2 (drop 1 ?h)) \<subseteq> set ?h" "set (drop 3 ?h) \<subseteq> set ?h"
    by (meson set_take_subset set_drop_subset subset_trans)+
  then show "set (take 1 ?h @ take 2 (drop 1 ?h) @ drop 3 ?h) \<subseteq> set ''0123456789abcdef''"
    using hash_digits [of "file_hash info"] unfolding set_append by blast
qed

lemma NUL_not_in_stored_path: "NUL \<notin> set (stored_path info)"
proof -
  obtain h1 h2 h3 where path: "stored_path info = h1 @ ''/'' @ h2 @ ''/'' @ h3 @ ''x'' @
      hex (unat (file_size info)) @ ''x'' @ hex (unat (slot info))"
    and h: "set (h1 @ h2 @ h3) \<subseteq> set ''0123456789abcdef''"
    by (rule stored_path_parts)
  have "NUL \<notin> set (hex n)" for n using hex_digits [of n] by auto
  moreover have "NUL \<notin> set (h1 @ h2 @ h3)" using h by auto
  ultimately show ?thesis unfolding path by simp
qed

lemma slashes_in_stored_path: "filter (\<lambda>c. c = CHR ''/'') (stored_path info) = ''//''"
proof -
  obtain h1 h2 h3 where path: "stored_path info = h1 @ ''/'' @ h2 @ ''/'' @ h3 @ ''x'' @
      hex (unat (file_size info)) @ ''x'' @ hex (unat (slot info))"
    and h: "set (h1 @ h2 @ h3) \<subseteq> set ''0123456789abcdef''"
    by (rule stored_path_parts)
  have none: "filter (\<lambda>c. c = CHR ''/'') s = []" if "CHR ''/'' \<notin> set s" for s
    using that by (auto simp: filter_empty_conv)
  have "CHR ''/'' \<notin> set (hex n)" for n using hex_digits [of n] by auto
  moreover have "CHR ''/'' \<notin> set (h1 @ h2 @ h3)" using h by auto
  ultimately show ?thesis unfolding path by (simp add: none)
qed

text \<open>
  C26: building the path of a stored file never writes behind the buffer that was allocated for it,
  whatever the buffer held before. The resulting C string is the repository's path, a slash, and
  the path of the file: the first hexadecimal digit of the hash, a slash, two more digits, a slash,
  and the remaining digits, the size and the slot separated by \<open>x\<close>; the capacity is exactly its
  length and the terminating NUL.
\<close>

theorem fillPathBuffer_safe:
  assumes "length (file_hash info) = FILE_HASH_SIZE" and "NUL \<notin> set repo_path"
    and "getFilePathRequiredCapacity info + 1 + length repo_path \<le> SIZE_MAX"
  shows "(\<exists>buf. fillPathBufferWithInfo garbage path_buffer repo_path info = Inr buf \<and>
      view (str buf) = repo_path @ ''/'' @ stored_path info) \<and>
    (\<exists>buf. repoBuildRegularFilePath garbage path_buffer info = Inr buf \<and>
      view (str buf) = stored_path info) \<and>
    getFilePathRequiredCapacity info = length (stored_path info) + 1"
proof -
  have view: "view (str (s @ NUL # rest)) = s" if "NUL \<notin> set s" for s rest
    using that by (simp add: str_def strlen_def)
  obtain rest rest' where
    "fillPathBufferWithInfo garbage path_buffer repo_path info =
      Inr ((repo_path @ ''/'' @ stored_path info) @ NUL # rest)"
    "repoBuildRegularFilePath garbage path_buffer info = Inr (stored_path info @ NUL # rest')"
    using fillPathBufferWithInfo_spec [OF assms(1,3)] repoBuildRegularFilePath_spec [OF assms(1)]
    by (metis append.assoc)
  moreover have "NUL \<notin> set (repo_path @ ''/'' @ stored_path info)"
    using assms(2) NUL_not_in_stored_path by simp
  moreover have "getFilePathRequiredCapacity info = length (stored_path info) + 1"
    using assms(1) by (simp add: getFilePathRequiredCapacity_def stored_path_def Let_def FILE_HASH_SIZE_def)
  ultimately show ?thesis using view NUL_not_in_stored_path by blast
qed

definition example_info :: file_info where
  "example_info = \<lparr>permission_bits = 0, modification_time = 0, file_size = 300,
     file_hash = replicate 20 171, slot = 2\<rparr>"

theorem fillPathBuffer_safe_witness:
  "\<exists>buf. fillPathBufferWithInfo ''garbage'' ''old'' ''repo'' example_info = Inr buf \<and>
     view (str buf) = ''repo/'' @ stored_path example_info"
proof -
  have hash: "length (file_hash example_info) = FILE_HASH_SIZE"
    by (simp add: example_info_def FILE_HASH_SIZE_def)
  have "getFilePathRequiredCapacity example_info = 49"
    by (simp add: getFilePathRequiredCapacity_def example_info_def FILE_HASH_SIZE_def hex.simps)
  then show ?thesis
    using fillPathBuffer_safe [OF hash, of "''repo''" "''garbage''" "''old''"] by (simp add: SIZE_MAX_def)
qed

lemma x_not_hex: "CHR ''x'' \<notin> set (hex n)"
  using hex_digits [of n] by auto

lemma sizes_inj:
  assumes "hex m @ ''x'' @ hex k = hex m' @ ''x'' @ hex k'"
  shows "m = m' \<and> k = k'"
proof -
  have "takeWhile (\<lambda>c. c \<noteq> CHR ''x'') (hex m @ ''x'' @ hex k) = hex m"
    "takeWhile (\<lambda>c. c \<noteq> CHR ''x'') (hex m' @ ''x'' @ hex k') = hex m'"
    using x_not_hex [of m] x_not_hex [of m'] by simp_all
  with assms have "hex m = hex m'" by simp
  with assms show ?thesis by (simp add: hex_inj)
qed

lemma stored_path_props:
  assumes "length (file_hash i) = FILE_HASH_SIZE" and "length (file_hash j) = FILE_HASH_SIZE"
  shows "(stored_path i = stored_path j \<longleftrightarrow>
      file_hash i = file_hash j \<and> file_size i = file_size j \<and> slot i = slot j) \<and>
    length (filter (\<lambda>c. c = CHR ''/'') (stored_path i)) = 2 \<and>
    stored_path i \<notin> {''config'', ''metadata'', ''lockfile''}"
proof (intro conjI)
  have two: "length (filter (\<lambda>c. c = CHR ''/'') (stored_path i)) = 2"
    by (simp add: slashes_in_stored_path)
  then show "length (filter (\<lambda>c. c = CHR ''/'') (stored_path i)) = 2" .
  show "stored_path i \<notin> {''config'', ''metadata'', ''lockfile''}"
    using two by auto
  show "stored_path i = stored_path j \<longleftrightarrow>
      file_hash i = file_hash j \<and> file_size i = file_size j \<and> slot i = slot j"
  proof
    assume eq: "stored_path i = stored_path j"
    define h where "h = (\<lambda>i :: file_info. concat (map hex2 (file_hash i)))"
    define t where "t = (\<lambda>i :: file_info. hex (unat (file_size i)) @ ''x'' @ hex (unat (slot i)))"
    have len: "length (h i) = 40" "length (h j) = 40"
      using assms by (simp_all add: h_def FILE_HASH_SIZE_def)
    have "take 1 (h i) @ ''/'' @ take 2 (drop 1 (h i)) @ ''/'' @ drop 3 (h i) @ ''x'' @ t i =
        take 1 (h j) @ ''/'' @ take 2 (drop 1 (h j)) @ ''/'' @ drop 3 (h j) @ ''x'' @ t j"
      using eq by (simp only: stored_path_def Let_def h_def t_def)
    then have parts: "take 1 (h i) = take 1 (h j)" "take 2 (drop 1 (h i)) = take 2 (drop 1 (h j))"
      "drop 3 (h i) = drop 3 (h j)" "t i = t j"
      using len by (simp_all add: append_eq_append_conv)
    have "h k = take 1 (h k) @ take 2 (drop 1 (h k)) @ drop 3 (h k)" for k
      using append_take_drop_id [of 1 "h k"] append_take_drop_id [of 2 "drop 1 (h k)"] by simp
    then have "h i = h j" using parts by metis
    then have "file_hash i = file_hash j" by (simp add: h_def concat_hex2_inj)
    then show "file_hash i = file_hash j \<and> file_size i = file_size j \<and> slot i = slot j"
      using sizes_inj parts(4) unfolding t_def by (metis word_unat_eq_iff)
  next
    assume "file_hash i = file_hash j \<and> file_size i = file_size j \<and> slot i = slot j"
    then show "stored_path i = stored_path j" by (simp add: stored_path_def)
  qed
qed

lemma stored_path_inj:
  "length (file_hash i) = FILE_HASH_SIZE \<Longrightarrow> length (file_hash j) = FILE_HASH_SIZE \<Longrightarrow>
     stored_path i = stored_path j \<longleftrightarrow> file_hash i = file_hash j \<and> file_size i = file_size j \<and> slot i = slot j"
  using stored_path_props by blast

lemma built_path:
  assumes "length (file_hash info) = FILE_HASH_SIZE"
  shows "\<exists>b. repoBuildRegularFilePath garbage buffer info = Inr b \<and> view (str b) = stored_path info"
proof -
  obtain rest where "repoBuildRegularFilePath garbage buffer info = Inr (stored_path info @ NUL # rest)"
    using repoBuildRegularFilePath_spec [OF assms] by blast
  moreover have "view (str (stored_path info @ NUL # rest)) = stored_path info"
    using NUL_not_in_stored_path [of info] by (simp add: str_def strlen_def)
  ultimately show ?thesis by blast
qed

text \<open>
  C27: \<open>repoBuildRegularFilePath()\<close>, which writes the path of a stored file into a buffer of any contents,
  always succeeds, and gives two files the same path only if they agree in hash, size and slot, so storing
  a file can replace no other stored file. The path is always the name of a file two directories
  deep, and it is never the path of \<open>config\<close>, \<open>metadata\<close> or \<open>lockfile\<close>.
\<close>

theorem stored_path_unique:
  assumes "length (file_hash i) = FILE_HASH_SIZE" and "length (file_hash j) = FILE_HASH_SIZE"
  shows "\<exists>b c. repoBuildRegularFilePath garbage buffer i = Inr b \<and> repoBuildRegularFilePath garbage' buffer' j = Inr c \<and>
    (view (str b) = view (str c) \<longleftrightarrow> file_hash i = file_hash j \<and> file_size i = file_size j \<and> slot i = slot j) \<and>
    length (filter (\<lambda>c. c = CHR ''/'') (view (str b))) = 2 \<and>
    view (str b) \<notin> {''config'', ''metadata'', ''lockfile''}"
proof -
  obtain b c where "repoBuildRegularFilePath garbage buffer i = Inr b" "view (str b) = stored_path i"
      "repoBuildRegularFilePath garbage' buffer' j = Inr c" "view (str c) = stored_path j"
    using built_path [OF assms(1)] built_path [OF assms(2)] by meson
  then show ?thesis using stored_path_props [OF assms] by (intro exI [of _ b] exI [of _ c]) simp
qed

theorem stored_path_unique_witness:
  "\<exists>b c. repoBuildRegularFilePath [] [] example_info = Inr b \<and> repoBuildRegularFilePath [] [] (example_info\<lparr>slot := 3\<rparr>) = Inr c \<and>
     view (str b) \<noteq> view (str c)"
proof -
  have "length (file_hash example_info) = FILE_HASH_SIZE"
    "length (file_hash (example_info\<lparr>slot := 3\<rparr>)) = FILE_HASH_SIZE"
    by (simp_all add: example_info_def FILE_HASH_SIZE_def)
  moreover have "slot example_info \<noteq> slot (example_info\<lparr>slot := 3\<rparr>)" by (simp add: example_info_def)
  ultimately show ?thesis using stored_path_unique by metis
qed

end
