(* ===== verification/Repo_Writer.thy ===== *)
theory Repo_Writer
  imports Repo_Paths
begin

text \<open>
  Safe writing into a repository: the \<open>RepoWriter\<close> and \<open>RepoReader\<close> of \<open>src/repository.c\<close>. The
  writer is modelled by the sequence of file-system operations it performs, on a disk that knows
  which files were synchronised. Since every failing operation ends the program, the states in which
  it can stop, and the states a crash can leave behind, are those after a prefix of the sequence.
\<close>

section \<open>The disk\<close>

record stored_file =
  file_data :: string
  synced :: bool

record disk =
  files :: "string \<Rightarrow> stored_file option"
  dirs :: "string set"

datatype fs_op =
    Op_open_write string
  | Op_write string string
  | Op_sync string
  | Op_close string
  | Op_mkdir string
  | Op_sync_dir string
  | Op_rename string string

fun apply_op :: "fs_op \<Rightarrow> disk \<Rightarrow> disk" where
  "apply_op (Op_open_write p) d = d\<lparr>files := (files d)(p \<mapsto> \<lparr>file_data = [], synced = False\<rparr>)\<rparr>"
| "apply_op (Op_write p bytes) d =
     (case files d p of None \<Rightarrow> d
      | Some f \<Rightarrow> d\<lparr>files := (files d)(p \<mapsto> \<lparr>file_data = file_data f @ bytes, synced = False\<rparr>)\<rparr>)"
| "apply_op (Op_sync p) d =
     (case files d p of None \<Rightarrow> d
      | Some f \<Rightarrow> d\<lparr>files := (files d)(p \<mapsto> f\<lparr>synced := True\<rparr>)\<rparr>)"
| "apply_op (Op_close p) d = d"
| "apply_op (Op_mkdir p) d = d\<lparr>dirs := insert p (dirs d)\<rparr>"
| "apply_op (Op_sync_dir p) d = d"
| "apply_op (Op_rename p q) d =
     (case files d p of None \<Rightarrow> d
      | Some f \<Rightarrow> d\<lparr>files := (files d)(q \<mapsto> f, p := None)\<rparr>)"

definition apply_ops :: "fs_op list \<Rightarrow> disk \<Rightarrow> disk" where
  "apply_ops ops d = foldl (\<lambda>d op. apply_op op d) d ops"

lemma apply_ops_simps [simp]:
  "apply_ops [] d = d"
  "apply_ops (op # ops) d = apply_ops ops (apply_op op d)"
  "apply_ops (ops @ ops') d = apply_ops ops' (apply_ops ops d)"
  by (simp_all add: apply_ops_def)

definition path_exists :: "disk \<Rightarrow> string \<Rightarrow> bool" where
  "path_exists d p \<longleftrightarrow> files d p \<noteq> None \<or> p \<in> dirs d"

section \<open>The writer\<close>

datatype rename_target = Rename_to_path string | Rename_to_info file_info

record repo_writer =
  repo_path :: string
  repo_tmp_file_path :: string
  source_file_path :: string
  raw_mode :: bool
  rename_to :: rename_target

definition createRepoWriter ::
  "string \<Rightarrow> string \<Rightarrow> string \<Rightarrow> bool \<Rightarrow> rename_target \<Rightarrow> repo_writer \<times> fs_op list" where
  "createRepoWriter repo tmp source raw target =
     (\<lparr>repo_path = repo, repo_tmp_file_path = tmp, source_file_path = source, raw_mode = raw,
       rename_to = target\<rparr>,
      [Op_open_write tmp])"

definition repoWriterOpenFile ::
  "string \<Rightarrow> string \<Rightarrow> string \<Rightarrow> file_info \<Rightarrow> repo_writer \<times> fs_op list" where
  "repoWriterOpenFile repo tmp source info =
     createRepoWriter repo tmp source False (Rename_to_info info)"

definition repoWriterOpenRaw ::
  "string \<Rightarrow> string \<Rightarrow> string \<Rightarrow> string \<Rightarrow> repo_writer \<times> fs_op list" where
  "repoWriterOpenRaw repo tmp source final_path =
     createRepoWriter repo tmp source True (Rename_to_path final_path)"

definition repoWriterWrite :: "string \<Rightarrow> repo_writer \<Rightarrow> fs_op list" where
  "repoWriterWrite bytes writer = [Op_write (repo_tmp_file_path writer) bytes]"

text \<open>The C string in a buffer.\<close>

definition c_string :: "string \<Rightarrow> string" where
  "c_string buffer = view (str buffer)"

text \<open>
  The case that is not raw: the path buffer is cut at the slashes to get the two directories, which
  are created when they are missing.
\<close>

definition closeFile :: "string \<Rightarrow> repo_writer \<Rightarrow> disk \<Rightarrow> fs_op list" where
  "closeFile path_buffer writer d =
     (let n = length (repo_path writer);
          cut5 = path_buffer[n + 5 := NUL];
          cut2 = cut5[n + 2 := NUL]
      in (if path_exists d (c_string cut5) then []
          else
            (if path_exists d (c_string cut2) then []
             else [Op_mkdir (c_string cut2), Op_sync_dir (repo_path writer)]) @
            [Op_mkdir (c_string (cut2[n + 2 := CHR ''/''])),
             Op_sync_dir (c_string cut2)]) @
         [Op_rename (repo_tmp_file_path writer) (c_string (cut5[n + 5 := CHR ''/''])),
          Op_sync_dir (c_string cut5)])"

definition repoWriterClose ::
  "string \<Rightarrow> string \<Rightarrow> repo_writer \<Rightarrow> disk \<Rightarrow> fs_op list result" where
  "repoWriterClose garbage path_buffer writer d =
     bindE
       (case rename_to writer of
          Rename_to_path final_path \<Rightarrow> Inr [Op_rename (repo_tmp_file_path writer) final_path]
        | Rename_to_info info \<Rightarrow>
            bindE (fillPathBufferWithInfo garbage path_buffer (repo_path writer) info)
              (\<lambda>path_buffer. Inr (closeFile path_buffer writer d)))
       (\<lambda>ops. Inr ([Op_sync (repo_tmp_file_path writer), Op_close (repo_tmp_file_path writer)] @
                   ops @ [Op_sync_dir (repo_path writer)]))"

text \<open>The life of a writer: opened, given some chunks of data, closed.\<close>

definition writeFile ::
  "string \<Rightarrow> string \<Rightarrow> repo_writer \<times> fs_op list \<Rightarrow> string list \<Rightarrow> disk \<Rightarrow> fs_op list result" where
  "writeFile garbage path_buffer opened chunks d =
     (let (writer, open_ops) = opened;
          written = open_ops @ concat (map (\<lambda>c. repoWriterWrite c writer) chunks)
      in bindE (repoWriterClose garbage path_buffer writer (apply_ops written d))
           (\<lambda>ops. Inr (written @ ops)))"

section \<open>The reader\<close>

record repo_reader =
  rd_repo_path :: string
  rd_source_file_path :: string
  rd_remaining :: string

definition repoRegularFileExists ::
  "string \<Rightarrow> string \<Rightarrow> string \<Rightarrow> file_info \<Rightarrow> disk \<Rightarrow> bool result" where
  "repoRegularFileExists garbage path_buffer repo info d =
     bindE (fillPathBufferWithInfo garbage path_buffer repo info) (\<lambda>path_buffer.
       Inr (path_exists d (c_string path_buffer)))"

definition repoReaderOpenFile ::
  "string \<Rightarrow> string \<Rightarrow> string \<Rightarrow> string \<Rightarrow> file_info \<Rightarrow> disk \<Rightarrow> repo_reader result" where
  "repoReaderOpenFile garbage path_buffer repo source info d =
     bindE (fillPathBufferWithInfo garbage path_buffer repo info) (\<lambda>path_buffer.
       case files d (c_string path_buffer) of
         None \<Rightarrow> Inl (Repository_file_missing source repo)
       | Some f \<Rightarrow>
           Inr \<lparr>rd_repo_path = repo, rd_source_file_path = source, rd_remaining = file_data f\<rparr>)"

definition repoReaderRead :: "nat \<Rightarrow> repo_reader \<Rightarrow> (string \<times> repo_reader) result" where
  "repoReaderRead n reader =
     (if length (rd_remaining reader) < n
      then Inl (Repository_end_of_file (rd_source_file_path reader) (rd_repo_path reader))
      else Inr (take n (rd_remaining reader),
                reader\<lparr>rd_remaining := drop n (rd_remaining reader)\<rparr>))"

section \<open>The directories of a stored file\<close>

lemma stored_path_slashes:
  assumes "length (file_hash info) = FILE_HASH_SIZE"
  shows "stored_path info ! 1 = CHR ''/'' \<and> stored_path info ! 4 = CHR ''/'' \<and> 5 < length (stored_path info)"
proof -
  let ?h = "concat (map hex2 (file_hash info))"
  have len: "length ?h = 40" using assms by (simp add: FILE_HASH_SIZE_def)
  then have "6 \<le> length ?h" by (simp only:)
  then obtain a b c h where h: "?h = a # b # c # h"
    using six_elements by blast
  then show ?thesis using len by (simp add: stored_path_def Let_def numeral_eq_Suc)
qed

lemma c_string_take:
  assumes "NUL \<notin> set s" "n \<le> length s"
  shows "c_string ((s @ NUL # rest)[n := NUL]) = take n s"
proof -
  have eq: "(s @ NUL # rest)[n := NUL] = take n s @ NUL # drop (Suc n) (s @ NUL # rest)"
    using assms(2) by (simp add: upd_conv_take_nth_drop)
  have "NUL \<notin> set (take n s)" using assms(1) by (meson in_set_takeD)
  then show ?thesis unfolding eq using assms(2)
    by (simp add: c_string_def str_def strlen_def min_def)
qed

lemma c_string_whole: "NUL \<notin> set s \<Longrightarrow> c_string (s @ NUL # rest) = s"
  by (simp add: c_string_def str_def strlen_def)

text \<open>The writer's operations with the paths written out.\<close>

definition dir2 :: "string \<Rightarrow> file_info \<Rightarrow> string" where
  "dir2 repo info = repo @ ''/'' @ take 1 (stored_path info)"

definition dir5 :: "string \<Rightarrow> file_info \<Rightarrow> string" where
  "dir5 repo info = repo @ ''/'' @ take 4 (stored_path info)"

definition full_path :: "string \<Rightarrow> file_info \<Rightarrow> string" where
  "full_path repo info = repo @ ''/'' @ stored_path info"

definition mkdir_ops :: "string \<Rightarrow> file_info \<Rightarrow> disk \<Rightarrow> fs_op list" where
  "mkdir_ops repo info d =
     (if path_exists d (dir5 repo info) then []
      else (if path_exists d (dir2 repo info) then [] else [Op_mkdir (dir2 repo info), Op_sync_dir repo]) @
        [Op_mkdir (dir5 repo info), Op_sync_dir (dir2 repo info)])"

lemma closeFile_paths:
  assumes hash: "length (file_hash info) = FILE_HASH_SIZE" and repo: "NUL \<notin> set (repo_path w)"
  shows "closeFile (full_path (repo_path w) info @ NUL # rest) w d =
    mkdir_ops (repo_path w) info d @
    [Op_rename (repo_tmp_file_path w) (full_path (repo_path w) info), Op_sync_dir (dir5 (repo_path w) info)]"
proof -
  let ?n = "length (repo_path w)"
  let ?s = "full_path (repo_path w) info"
  let ?b = "?s @ NUL # rest"
  note sp = stored_path_slashes [OF hash]
  have nul: "NUL \<notin> set ?s" using repo NUL_not_in_stored_path by (simp add: full_path_def)
  have len: "?n + 6 < length ?s" using sp by (simp add: full_path_def)
  have at: "?s ! (?n + 2) = CHR ''/''" "?s ! (?n + 5) = CHR ''/''"
    using sp by (simp_all add: full_path_def nth_append)
  have b_at: "?b ! (?n + 2) = CHR ''/''" "?b ! (?n + 5) = CHR ''/''"
    using at len by (simp_all add: nth_append)
  have restore5: "?b[?n + 5 := NUL, ?n + 5 := CHR ''/''] = ?b"
    using b_at by (simp add: list_update_overwrite list_update_same_conv len)
      (metis b_at(2) list_update_id)
  have restore2: "?b[?n + 5 := NUL, ?n + 2 := NUL, ?n + 2 := CHR ''/''] = ?b[?n + 5 := NUL]"
  proof -
    have "?b[?n + 5 := NUL] ! (?n + 2) = CHR ''/''" using b_at by simp
    then show ?thesis by (metis list_update_id list_update_overwrite)
  qed
  have c5: "c_string (?b[?n + 5 := NUL]) = dir5 (repo_path w) info"
    using c_string_take [OF nul, of "?n + 5" rest] len by (simp add: full_path_def dir5_def)
  have c2: "c_string (?b[?n + 5 := NUL, ?n + 2 := NUL]) = dir2 (repo_path w) info"
  proof -
    have eq: "?b[?n + 5 := NUL] = take (?n + 5) ?s @ NUL # drop (Suc (?n + 5)) ?b"
      using len by (simp add: upd_conv_take_nth_drop)
    have "NUL \<notin> set (take (?n + 5) ?s)" using nul by (meson in_set_takeD)
    moreover have "?n + 2 \<le> length (take (?n + 5) ?s)" using len by simp
    ultimately have "c_string (?b[?n + 5 := NUL, ?n + 2 := NUL]) = take (?n + 2) (take (?n + 5) ?s)"
      unfolding eq by (rule c_string_take)
    then show ?thesis using len by (simp add: full_path_def dir2_def min_def)
  qed
  have c: "c_string ?b = ?s" by (rule c_string_whole [OF nul])
  show ?thesis
    unfolding closeFile_def Let_def restore5 restore2 c5 c2 c mkdir_ops_def by simp
qed

lemma repoWriterClose_info:
  assumes "rename_to w = Rename_to_info info" "length (file_hash info) = FILE_HASH_SIZE"
    and "NUL \<notin> set (repo_path w)"
    and "getFilePathRequiredCapacity info + 1 + length (repo_path w) \<le> SIZE_MAX"
  shows "repoWriterClose garbage buffer w d =
    Inr ([Op_sync (repo_tmp_file_path w), Op_close (repo_tmp_file_path w)] @ mkdir_ops (repo_path w) info d @
      [Op_rename (repo_tmp_file_path w) (full_path (repo_path w) info),
       Op_sync_dir (dir5 (repo_path w) info), Op_sync_dir (repo_path w)])"
proof -
  obtain rest where "fillPathBufferWithInfo garbage buffer (repo_path w) info =
      Inr (full_path (repo_path w) info @ NUL # rest)"
    using fillPathBufferWithInfo_spec [OF assms(2,4)] by (auto simp: full_path_def)
  then show ?thesis using assms closeFile_paths [OF assms(2,3)] by (simp add: repoWriterClose_def)
qed

text \<open>The path at which the file appears.\<close>

definition final_path :: "repo_writer \<Rightarrow> string" where
  "final_path w = (case rename_to w of Rename_to_path p \<Rightarrow> p
     | Rename_to_info info \<Rightarrow> full_path (repo_path w) info)"

definition writer_ok :: "repo_writer \<Rightarrow> bool" where
  "writer_ok w \<longleftrightarrow> NUL \<notin> set (repo_path w) \<and> repo_tmp_file_path w \<noteq> final_path w \<and>
     (case rename_to w of Rename_to_path p \<Rightarrow> True
      | Rename_to_info info \<Rightarrow> length (file_hash info) = FILE_HASH_SIZE \<and>
          getFilePathRequiredCapacity info + 1 + length (repo_path w) \<le> SIZE_MAX)"

text \<open>All operations of a session: data for the temporary file, one rename, directories.\<close>

definition dir_op :: "fs_op \<Rightarrow> bool" where
  "dir_op op \<longleftrightarrow> (\<exists>p. op = Op_close p \<or> op = Op_mkdir p \<or> op = Op_sync_dir p)"

lemma writeFile_shape:
  assumes "writer_ok w"
  obtains before after where
    "writeFile garbage buffer (w, [Op_open_write (repo_tmp_file_path w)]) chunks d =
      Inr (Op_open_write (repo_tmp_file_path w) # map (Op_write (repo_tmp_file_path w)) chunks @
        Op_sync (repo_tmp_file_path w) # before @
        Op_rename (repo_tmp_file_path w) (final_path w) # after)"
    and "list_all dir_op before" and "list_all dir_op after"
proof -
  let ?tmp = "repo_tmp_file_path w"
  let ?written = "Op_open_write ?tmp # map (Op_write ?tmp) chunks"
  have written: "[Op_open_write ?tmp] @ concat (map (\<lambda>c. repoWriterWrite c w) chunks) = ?written"
    by (simp add: repoWriterWrite_def)
  let ?d = "apply_ops ?written d"
  have "\<exists>before after. repoWriterClose garbage buffer w ?d =
      Inr (Op_sync ?tmp # before @ Op_rename ?tmp (final_path w) # after) \<and>
      list_all dir_op before \<and> list_all dir_op after"
  proof (cases "rename_to w")
    case (Rename_to_path p)
    then show ?thesis
      by (intro exI [of _ "[Op_close ?tmp]"] exI [of _ "[Op_sync_dir (repo_path w)]"])
        (simp add: repoWriterClose_def final_path_def dir_op_def)
  next
    case (Rename_to_info info)
    with assms show ?thesis
      by (intro exI [of _ "Op_close ?tmp # mkdir_ops (repo_path w) info ?d"]
          exI [of _ "[Op_sync_dir (dir5 (repo_path w) info), Op_sync_dir (repo_path w)]"])
        (simp add: repoWriterClose_info writer_ok_def final_path_def dir_op_def mkdir_ops_def)
  qed
  then obtain before after where close: "repoWriterClose garbage buffer w ?d =
      Inr (Op_sync ?tmp # before @ Op_rename ?tmp (final_path w) # after)"
    and "list_all dir_op before" "list_all dir_op after"
    by blast
  moreover have "writeFile garbage buffer (w, [Op_open_write ?tmp]) chunks d =
      Inr (?written @ Op_sync ?tmp # before @ Op_rename ?tmp (final_path w) # after)"
    unfolding writeFile_def Let_def prod.case written close by simp
  ultimately show ?thesis using that by simp
qed

section \<open>Atomicity\<close>

definition only_tmp :: "string \<Rightarrow> fs_op \<Rightarrow> bool" where
  "only_tmp tmp op \<longleftrightarrow> op = Op_open_write tmp \<or> (\<exists>b. op = Op_write tmp b) \<or> op = Op_sync tmp \<or> dir_op op"

lemma only_tmp_files:
  "list_all (only_tmp tmp) ops \<Longrightarrow> p \<noteq> tmp \<Longrightarrow> files (apply_ops ops d) p = files d p"
proof (induction ops arbitrary: d)
  case (Cons op ops)
  then have "files (apply_op op d) p = files d p"
    by (auto simp: only_tmp_def dir_op_def split: option.split)
  then show ?case using Cons by simp
qed simp

lemma dir_ops_files: "list_all dir_op ops \<Longrightarrow> files (apply_ops ops d) = files d"
proof (induction ops arbitrary: d)
  case (Cons op ops)
  then have "files (apply_op op d) = files d" by (auto simp: dir_op_def)
  then show ?case using Cons by simp
qed simp

lemma written_data:
  "files (apply_ops (map (Op_write tmp) chunks) d) tmp =
     map_option (\<lambda>f. if chunks = [] then f
       else \<lparr>file_data = file_data f @ concat chunks, synced = False\<rparr>) (files d tmp)"
  by (induction chunks arbitrary: d) (auto simp: option.map_ident split: option.split)

lemma take_split:
  "(\<exists>k. take n (xs @ x # ys) = take k xs) \<or> (\<exists>k. take n (xs @ x # ys) = xs @ x # take k ys)"
proof (cases "n \<le> length xs")
  case False
  then obtain k where "n = Suc (length xs + k)" by (metis less_imp_Suc_add not_le)
  then show ?thesis by (auto simp: take_Cons')
qed auto

lemma writeFile_atomic:
  assumes "writer_ok w"
  shows "\<exists>ops. writeFile garbage buffer (w, [Op_open_write (repo_tmp_file_path w)]) chunks d = Inr ops \<and>
    (\<forall>n p. p \<noteq> repo_tmp_file_path w \<longrightarrow>
       files (apply_ops (take n ops) d) p = files d p \<or>
       (p = final_path w \<and>
        files (apply_ops (take n ops) d) p = Some \<lparr>file_data = concat chunks, synced = True\<rparr>)) \<and>
    files (apply_ops ops d) (final_path w) = Some \<lparr>file_data = concat chunks, synced = True\<rparr> \<and>
    files (apply_ops ops d) (repo_tmp_file_path w) = None"
proof -
  let ?tmp = "repo_tmp_file_path w" and ?final = "final_path w"
  obtain before after where
    ops: "writeFile garbage buffer (w, [Op_open_write ?tmp]) chunks d =
      Inr (Op_open_write ?tmp # map (Op_write ?tmp) chunks @ Op_sync ?tmp # before @
        Op_rename ?tmp ?final # after)"
    and dir: "list_all dir_op before" "list_all dir_op after"
    by (rule writeFile_shape [OF assms])
  define pre where "pre = Op_open_write ?tmp # map (Op_write ?tmp) chunks @ Op_sync ?tmp # before"
  have ops': "writeFile garbage buffer (w, [Op_open_write ?tmp]) chunks d =
      Inr (pre @ Op_rename ?tmp ?final # after)"
    using ops by (simp add: pre_def)
  have tmp_final: "?tmp \<noteq> ?final" using assms by (simp add: writer_ok_def)
  have only: "list_all (only_tmp ?tmp) pre"
    using dir(1) by (auto simp: pre_def only_tmp_def list_all_iff)
  have full: "files (apply_ops pre d) ?tmp = Some \<lparr>file_data = concat chunks, synced = True\<rparr>"
    by (simp add: pre_def dir_ops_files [OF dir(1)] written_data split: option.split)
  have renamed: "files (apply_ops (pre @ Op_rename ?tmp ?final # take k after) d) =
      (files (apply_ops pre d))(?final \<mapsto> \<lparr>file_data = concat chunks, synced = True\<rparr>, ?tmp := None)" for k
  proof -
    have "list_all dir_op (take k after)" using dir(2) by (auto simp: list_all_iff dest: in_set_takeD)
    then show ?thesis using full by (simp add: dir_ops_files)
  qed
  have step: "files (apply_ops (take n (pre @ Op_rename ?tmp ?final # after)) d) p = files d p \<or>
      (p = ?final \<and> files (apply_ops (take n (pre @ Op_rename ?tmp ?final # after)) d) p =
        Some \<lparr>file_data = concat chunks, synced = True\<rparr>)" if "p \<noteq> ?tmp" for n p
    using take_split [of n pre "Op_rename ?tmp ?final" after]
  proof (elim disjE exE)
    fix k assume k: "take n (pre @ Op_rename ?tmp ?final # after) = take k pre"
    have "list_all (only_tmp ?tmp) (take k pre)" using only by (auto simp: list_all_iff dest: in_set_takeD)
    then show ?thesis unfolding k using only_tmp_files that by blast
  next
    fix k assume k: "take n (pre @ Op_rename ?tmp ?final # after) = pre @ Op_rename ?tmp ?final # take k after"
    show ?thesis unfolding k renamed using only_tmp_files [OF only that] that by simp
  qed
  have "files (apply_ops (pre @ Op_rename ?tmp ?final # after) d) =
      (files (apply_ops pre d))(?final \<mapsto> \<lparr>file_data = concat chunks, synced = True\<rparr>, ?tmp := None)"
    using renamed [of "length after"] by simp
  then show ?thesis using ops' step tmp_final by auto
qed

text \<open>
  C6: writing a file into the repository is atomic. Whenever the program stops or the machine
  crashes during the life of a writer, every file of the repository except the temporary one is
  either untouched, or it is the final file and then contains all data and has been synchronised to
  disk. When the writer was closed, the final file is complete and the temporary file is gone.
\<close>

theorem repoWriter_atomic:
  assumes "writer_ok w"
  shows "\<exists>ops. writeFile garbage buffer (w, [Op_open_write (repo_tmp_file_path w)]) chunks d = Inr ops \<and>
    (\<forall>n p. p \<noteq> repo_tmp_file_path w \<longrightarrow>
       files (apply_ops (take n ops) d) p = files d p \<or>
       (p = final_path w \<and>
        files (apply_ops (take n ops) d) p = Some \<lparr>file_data = concat chunks, synced = True\<rparr>)) \<and>
    files (apply_ops ops d) (final_path w) = Some \<lparr>file_data = concat chunks, synced = True\<rparr> \<and>
    files (apply_ops ops d) (repo_tmp_file_path w) = None"
  by (rule writeFile_atomic [OF assms])

definition example_writer :: repo_writer where
  "example_writer = fst (repoWriterOpenFile ''repo'' ''repo/tmp'' ''/etc/x'' example_info)"

lemma example_writer_ok: "writer_ok example_writer"
proof -
  have "getFilePathRequiredCapacity example_info = 49"
    by (simp add: getFilePathRequiredCapacity_def example_info_def FILE_HASH_SIZE_def hex.simps)
  moreover have "length (full_path ''repo'' example_info) \<noteq> length ''repo/tmp''"
    by (simp add: full_path_def stored_path_def example_info_def hex.simps Let_def)
  then have "full_path ''repo'' example_info \<noteq> ''repo/tmp''" by metis
  ultimately show ?thesis
    by (simp add: writer_ok_def example_writer_def repoWriterOpenFile_def createRepoWriter_def
        final_path_def SIZE_MAX_def) (simp add: example_info_def FILE_HASH_SIZE_def)
qed

theorem repoWriter_atomic_witness:
  "\<exists>ops. writeFile [] [] (example_writer, [Op_open_write ''repo/tmp'']) [''ab'', ''c''] \<lparr>files = Map.empty, dirs = {''repo''}\<rparr> = Inr ops \<and>
     files (apply_ops ops \<lparr>files = Map.empty, dirs = {''repo''}\<rparr>) (full_path ''repo'' example_info) =
       Some \<lparr>file_data = ''abc'', synced = True\<rparr>"
  using repoWriter_atomic [OF example_writer_ok, of "[]" "[]" "[''ab'', ''c'']"
      "\<lparr>files = Map.empty, dirs = {''repo''}\<rparr>"]
  by (auto simp: example_writer_def repoWriterOpenFile_def createRepoWriter_def final_path_def)

section \<open>The operations can be performed\<close>

definition parent_dir :: "string \<Rightarrow> string" where
  "parent_dir p = fst (split_path p)"

text \<open>When the operating system accepts an operation.\<close>

fun op_possible :: "fs_op \<Rightarrow> disk \<Rightarrow> bool" where
  "op_possible (Op_open_write p) d \<longleftrightarrow> parent_dir p \<in> dirs d \<and> p \<notin> dirs d"
| "op_possible (Op_write p b) d \<longleftrightarrow> files d p \<noteq> None"
| "op_possible (Op_sync p) d \<longleftrightarrow> files d p \<noteq> None"
| "op_possible (Op_close p) d \<longleftrightarrow> files d p \<noteq> None"
| "op_possible (Op_mkdir p) d \<longleftrightarrow> parent_dir p \<in> dirs d \<and> \<not> path_exists d p"
| "op_possible (Op_sync_dir p) d \<longleftrightarrow> p \<in> dirs d"
| "op_possible (Op_rename p q) d \<longleftrightarrow> files d p \<noteq> None \<and> parent_dir q \<in> dirs d \<and> q \<notin> dirs d"

fun ops_possible :: "fs_op list \<Rightarrow> disk \<Rightarrow> bool" where
  "ops_possible [] d \<longleftrightarrow> True"
| "ops_possible (op # ops) d \<longleftrightarrow> op_possible op d \<and> ops_possible ops (apply_op op d)"

lemma parent_dirs:
  assumes "length (file_hash info) = FILE_HASH_SIZE" "repo = [] \<or> last repo \<noteq> CHR ''/''"
  shows "parent_dir (dir2 repo info) = repo" "parent_dir (dir5 repo info) = dir2 repo info"
    "parent_dir (full_path repo info) = dir5 repo info"
proof -
  note sp = stored_path_slashes [OF assms(1)]
  have no: "filter (\<lambda>c. c = CHR ''/'') (stored_path info) = ''//''" by (rule slashes_in_stored_path)
  obtain a b c r where path: "stored_path info = [a, CHR ''/'', b, c, CHR ''/''] @ r"
  proof -
    have "6 \<le> length (stored_path info)" using sp by simp
    then obtain a x b c y e r where "stored_path info = a # x # b # c # y # e # r"
      using six_elements by blast
    then show ?thesis using that [of a b c "e # r"] sp by simp
  qed
  have chars: "a \<noteq> CHR ''/''" "b \<noteq> CHR ''/''" "c \<noteq> CHR ''/''" "CHR ''/'' \<notin> set r"
  proof -
    have "length (filter (\<lambda>c. c = CHR ''/'') ([a, CHR ''/'', b, c, CHR ''/''] @ r)) = 2"
      using no path by simp
    then show "a \<noteq> CHR ''/''" "b \<noteq> CHR ''/''" "c \<noteq> CHR ''/''" "CHR ''/'' \<notin> set r"
      by (auto simp: filter_empty_conv split: if_splits)
  qed
  have "split_path (append_path repo [a]) = (repo, [a])"
    using chars assms(2) by (intro split_append_path) auto
  then show "parent_dir (dir2 repo info) = repo"
    by (simp add: parent_dir_def dir2_def path append_path_def)
  have "split_path (append_path (repo @ ''/'' @ [a]) [b, c]) = (repo @ ''/'' @ [a], [b, c])"
    using chars by (intro split_append_path) auto
  then show "parent_dir (dir5 repo info) = dir2 repo info"
    by (simp add: parent_dir_def dir5_def dir2_def path append_path_def)
  have "split_path (append_path (repo @ ''/'' @ [a, CHR ''/'', b, c]) r) = (repo @ ''/'' @ [a, CHR ''/'', b, c], r)"
    using chars by (intro split_append_path) auto
  then show "parent_dir (full_path repo info) = dir5 repo info"
    by (simp add: parent_dir_def full_path_def dir5_def path append_path_def)
qed

lemma ops_possible_append:
  "ops_possible (ops @ ops') d \<longleftrightarrow> ops_possible ops d \<and> ops_possible ops' (apply_ops ops d)"
  by (induction ops arbitrary: d) auto

lemma writes_possible: "files d tmp \<noteq> None \<Longrightarrow> ops_possible (map (Op_write tmp) chunks) d"
  by (induction chunks arbitrary: d) (auto split: option.split)

lemma writes_dirs: "dirs (apply_ops (map (Op_write tmp) chunks) d) = dirs d"
  by (induction chunks arbitrary: d) (auto split: option.split)

text \<open>
  The repository as the writer finds it: its directory exists, the names it is going to use for
  directories are not taken by files, and the directories of the repository are closed upwards.
\<close>

definition repository_ready :: "repo_writer \<Rightarrow> file_info \<Rightarrow> disk \<Rightarrow> bool" where
  "repository_ready w info d \<longleftrightarrow>
     (repo_path w = [] \<or> last (repo_path w) \<noteq> CHR ''/'') \<and> repo_path w \<in> dirs d \<and>
     parent_dir (repo_tmp_file_path w) \<in> dirs d \<and> repo_tmp_file_path w \<notin> dirs d \<and>
     repo_tmp_file_path w \<notin> {dir2 (repo_path w) info, dir5 (repo_path w) info} \<and>
     files d (dir2 (repo_path w) info) = None \<and> files d (dir5 (repo_path w) info) = None \<and>
     (dir5 (repo_path w) info \<in> dirs d \<longrightarrow> dir2 (repo_path w) info \<in> dirs d) \<and>
     full_path (repo_path w) info \<notin> dirs d"

lemma mkdirs_possible:
  assumes hash: "length (file_hash info) = FILE_HASH_SIZE"
    and ready: "repository_ready w info d"
    and d': "dirs d' = dirs d" "\<forall>p \<in> {dir2 (repo_path w) info, dir5 (repo_path w) info}. files d' p = None"
  shows "ops_possible (mkdir_ops (repo_path w) info d') d' \<and>
    dir5 (repo_path w) info \<in> dirs (apply_ops (mkdir_ops (repo_path w) info d') d') \<and>
    dirs (apply_ops (mkdir_ops (repo_path w) info d') d') \<subseteq>
      dirs d \<union> {dir2 (repo_path w) info, dir5 (repo_path w) info} \<and>
    files (apply_ops (mkdir_ops (repo_path w) info d') d') = files d'"
proof -
  let ?a = "dir2 (repo_path w) info" and ?b = "dir5 (repo_path w) info"
  have repo: "repo_path w = [] \<or> last (repo_path w) \<noteq> CHR ''/''" "repo_path w \<in> dirs d'"
    and up: "?b \<in> dirs d' \<longrightarrow> ?a \<in> dirs d'"
    using ready d'(1) by (simp_all add: repository_ready_def)
  note parents = parent_dirs [OF hash repo(1)]
  have none: "files d' ?a = None" "files d' ?b = None" using d'(2) by simp_all
  have "length ?a < length ?b"
    using stored_path_slashes [OF hash] by (simp add: dir2_def dir5_def)
  then have ne: "?a \<noteq> ?b" by auto
  show ?thesis
  proof (cases "?b \<in> dirs d'")
    case True
    then show ?thesis using d'(1) by (auto simp: mkdir_ops_def path_exists_def)
  next
    case b: False
    show ?thesis
    proof (cases "?a \<in> dirs d'")
      case True
      then show ?thesis using b d'(1) none parents(2)
        by (auto simp: mkdir_ops_def path_exists_def)
    next
      case False
      then show ?thesis using b d'(1) none parents(1,2) repo(2) ne
        by (auto simp: mkdir_ops_def path_exists_def)
    qed
  qed
qed

text \<open>
  C28: a repository that is ready for it accepts every operation of the writer in its order: each
  directory is created inside an existing one and only when it is missing, and the file is moved
  into a directory that exists by then.
\<close>

theorem repoWriter_operations_possible:
  assumes "writer_ok w" and "rename_to w = Rename_to_info info" and "repository_ready w info d"
  shows "\<exists>ops. writeFile garbage buffer (w, [Op_open_write (repo_tmp_file_path w)]) chunks d = Inr ops \<and>
    ops_possible ops d"
proof -
  let ?tmp = "repo_tmp_file_path w" and ?repo = "repo_path w"
  let ?written = "Op_open_write ?tmp # map (Op_write ?tmp) chunks"
  let ?d1 = "apply_ops ?written d"
  have ok: "length (file_hash info) = FILE_HASH_SIZE" "NUL \<notin> set ?repo"
    "getFilePathRequiredCapacity info + 1 + length ?repo \<le> SIZE_MAX"
    using assms(1,2) by (simp_all add: writer_ok_def)
  have written: "[Op_open_write ?tmp] @ concat (map (\<lambda>c. repoWriterWrite c w) chunks) = ?written"
    by (simp add: repoWriterWrite_def)
  have ready: "?repo \<in> dirs d" "parent_dir ?tmp \<in> dirs d" "?tmp \<notin> dirs d"
    "full_path ?repo info \<notin> dirs d" "?tmp \<noteq> dir2 ?repo info" "?tmp \<noteq> dir5 ?repo info"
    "files d (dir2 ?repo info) = None" "files d (dir5 ?repo info) = None"
    "?repo = [] \<or> last ?repo \<noteq> CHR ''/''"
    using assms(3) by (simp_all add: repository_ready_def)
  have d1_dirs: "dirs ?d1 = dirs d" by (simp add: writes_dirs)
  have d1_tmp: "files ?d1 ?tmp \<noteq> None" by (simp add: written_data)
  have d1_files: "files ?d1 p = files d p" if "p \<noteq> ?tmp" for p
    using only_tmp_files [of ?tmp ?written p d] that by (auto simp: only_tmp_def list_all_iff)
  let ?d2 = "apply_op (Op_sync ?tmp) ?d1"
  have d2: "dirs ?d2 = dirs d" "files ?d2 ?tmp \<noteq> None" "\<And>p. p \<noteq> ?tmp \<Longrightarrow> files ?d2 p = files d p"
    using d1_dirs d1_tmp d1_files by (auto split: option.splits)
  have mk_eq: "mkdir_ops ?repo info ?d1 = mkdir_ops ?repo info ?d2"
    using d2(1) d1_dirs d1_files d2(3) ready by (simp add: mkdir_ops_def path_exists_def)
  have "\<forall>p \<in> {dir2 ?repo info, dir5 ?repo info}. files ?d2 p = None" using d2(3) ready by simp
  note mk = mkdirs_possible [OF ok(1) assms(3) d2(1) this]
  let ?mk = "mkdir_ops ?repo info ?d2"
  let ?d3 = "apply_ops ?mk ?d2"
  let ?final = "[Op_rename ?tmp (full_path ?repo info), Op_sync_dir (dir5 ?repo info), Op_sync_dir ?repo]"
  have lens: "length (dir2 ?repo info) < length (full_path ?repo info)"
    "length (dir5 ?repo info) < length (full_path ?repo info)"
    using stored_path_slashes [OF ok(1)] by (simp_all add: dir2_def dir5_def full_path_def)
  then have "full_path ?repo info \<notin> dirs ?d3" using mk ready(4) by auto
  moreover have "parent_dir (full_path ?repo info) = dir5 ?repo info"
    using parent_dirs(3) [OF ok(1) ready(9)] .
  moreover have "?repo \<in> dirs ?d3"
  proof -
    have "dirs d' \<subseteq> dirs (apply_ops ops d')" for ops d'
    proof (induction ops arbitrary: d')
      case (Cons op ops)
      have "dirs d' \<subseteq> dirs (apply_op op d')" by (cases op) (auto split: option.split)
      also have "\<dots> \<subseteq> dirs (apply_ops (op # ops) d')" using Cons.IH by simp
      finally show ?case .
    qed simp
    then show ?thesis using d2(1) ready(1) by blast
  qed
  ultimately have "ops_possible ?final ?d3"
    using mk d2(2) by (auto split: option.splits)
  then have "ops_possible (?written @ [Op_sync ?tmp, Op_close ?tmp] @ ?mk @ ?final) d"
    using ready mk d1_tmp d2(2) by (simp add: ops_possible_append writes_possible)
  moreover have "writeFile garbage buffer (w, [Op_open_write ?tmp]) chunks d =
      Inr (?written @ [Op_sync ?tmp, Op_close ?tmp] @ ?mk @ ?final)"
    unfolding writeFile_def Let_def prod.case written repoWriterClose_info [OF assms(2) ok] mk_eq
    by simp
  ultimately show ?thesis by blast
qed

theorem repoWriter_operations_possible_witness:
  "\<exists>ops. writeFile [] [] (example_writer, [Op_open_write ''repo/tmp'']) [''ab''] \<lparr>files = Map.empty, dirs = {''repo''}\<rparr> = Inr ops \<and>
     ops_possible ops \<lparr>files = Map.empty, dirs = {''repo''}\<rparr>"
proof -
  have tmp: "repo_tmp_file_path example_writer = ''repo/tmp''" "repo_path example_writer = ''repo''"
    "rename_to example_writer = Rename_to_info example_info"
    by (simp_all add: example_writer_def repoWriterOpenFile_def createRepoWriter_def)
  have "parent_dir ''repo/tmp'' = ''repo''" by code_simp
  moreover have hash: "length (file_hash example_info) = FILE_HASH_SIZE"
    by (simp add: example_info_def FILE_HASH_SIZE_def)
  have "length (dir2 ''repo'' example_info) = 6" "length (dir5 ''repo'' example_info) = 9"
    "10 < length (full_path ''repo'' example_info)"
    using stored_path_slashes [OF hash] by (simp_all add: dir2_def dir5_def full_path_def)
  then have "dir2 ''repo'' example_info \<noteq> ''repo/tmp''" "dir5 ''repo'' example_info \<noteq> ''repo/tmp''"
    "dir5 ''repo'' example_info \<noteq> ''repo''" "full_path ''repo'' example_info \<noteq> ''repo''"
    by auto
  ultimately have "repository_ready example_writer example_info \<lparr>files = Map.empty, dirs = {''repo''}\<rparr>"
    by (simp add: repository_ready_def tmp)
  from repoWriter_operations_possible [OF example_writer_ok tmp(3) this] show ?thesis by (simp add: tmp)
qed

end
