(* ===== verification/Repo_Lock.thy ===== *)
theory Repo_Lock
  imports Prelude "HOL-Library.Sublist"
begin

text \<open>
  The repository lock: \<open>repoLock()\<close> and \<open>cleanupLockfile()\<close> of \<open>src/repository.c\<close>. The first part is the
  decision of one call, given what \<open>open()\<close> and \<open>lockf()\<close> return. The second part is the protocol
  that several processes run against one repository, as a step relation: the lock belongs to the
  file that a process has opened, not to the name \<open>lockfile\<close>, and the holder removes the name when it
  gives up the lock. The relation has the clean-up of a holder as a parameter, to tell which part of it
  breaks the mutual exclusion.
\<close>

section \<open>One call\<close>

datatype lock_hint = RLH_readwrite | RLH_readonly

datatype open_outcome = Open_ok | Open_read_only_filesystem | Open_failed

datatype lockf_outcome = Lockf_ok | Lockf_busy | Lockf_failed

text \<open>The state that \<open>cleanupLockfile()\<close> finds in the \<open>LockfileInfo\<close>, if it is attached at all.\<close>

datatype lock_outcome = Not_attached | Attached bool

definition repoLock :: "lock_hint \<Rightarrow> open_outcome \<Rightarrow> lockf_outcome \<Rightarrow> string \<Rightarrow> lock_outcome result" where
  "repoLock lock_hint opened locked file_path =
     (if opened \<noteq> Open_ok then
        if opened = Open_read_only_filesystem \<and> lock_hint = RLH_readonly then Inr Not_attached
        else Inl (Lock_failed file_path)
      else if locked = Lockf_ok then Inr (Attached True)
      else if locked = Lockf_busy then Inl Repository_locked
      else Inl (Lock_failed file_path))"

datatype cleanup_action = Unlock | Close | Remove_lockfile

definition cleanupLockfile :: "bool \<Rightarrow> cleanup_action list" where
  "cleanupLockfile is_locked =
     (if is_locked then [Unlock, Close, Remove_lockfile] else [Close])"

section \<open>The protocol\<close>

text \<open>
  Files are numbered; a process remembers the file it has opened. A process that meets a read-only file
  system and only reads goes on without a lock.
\<close>

datatype phase =
    Idle
  | Opened nat
  | Holding nat
  | Cleaning nat "cleanup_action list"
  | Unlocked_reader
  | Died

record lock_state =
  lockfile :: "nat option"
  next_file :: nat
  holder :: "nat \<Rightarrow> nat option"
  phase :: "nat \<Rightarrow> phase"

definition initial :: lock_state where
  "initial = \<lparr>lockfile = None, next_file = 0, holder = (\<lambda>_. None), phase = (\<lambda>_. Idle)\<rparr>"

text \<open>\<open>open(path, O_CREAT | O_WRONLY)\<close> opens the existing file or creates a new one.\<close>

definition open_lockfile :: "lock_state \<Rightarrow> nat \<times> lock_state" where
  "open_lockfile s =
     (case lockfile s of Some i \<Rightarrow> (i, s)
      | None \<Rightarrow> (next_file s, s\<lparr>lockfile := Some (next_file s), next_file := Suc (next_file s)\<rparr>))"

text \<open>A process can only give up its own lock, and closing the file gives it up, too.\<close>

definition give_up :: "nat \<Rightarrow> nat \<Rightarrow> lock_state \<Rightarrow> lock_state" where
  "give_up p i s = (if holder s i = Some p then s\<lparr>holder := (holder s)(i := None)\<rparr> else s)"

fun cleanup_step :: "nat \<Rightarrow> cleanup_action \<Rightarrow> nat \<Rightarrow> lock_state \<Rightarrow> lock_state" where
  "cleanup_step p Unlock i s = give_up p i s"
| "cleanup_step p Close i s = give_up p i s"
| "cleanup_step p Remove_lockfile i s = s\<lparr>lockfile := None\<rparr>"

text \<open>The outcome of \<open>lockf(F_TLOCK)\<close> on a file, unless it fails.\<close>

definition try_lock :: "nat \<Rightarrow> lock_state \<Rightarrow> lockf_outcome" where
  "try_lock i s = (if holder s i = None then Lockf_ok else Lockf_busy)"

inductive lock_step :: "cleanup_action list \<Rightarrow> lock_state \<Rightarrow> lock_state \<Rightarrow> bool" for clean where
  step_open: "phase s p = Idle \<Longrightarrow> open_lockfile s = (i, t) \<Longrightarrow>
    lock_step clean s (t\<lparr>phase := (phase t)(p := Opened i)\<rparr>)"
| step_not_opened: "phase s p = Idle \<Longrightarrow> opened \<noteq> Open_ok \<Longrightarrow> repoLock lock_hint opened locked path = Inl e \<Longrightarrow>
    lock_step clean s (s\<lparr>phase := (phase s)(p := Died)\<rparr>)"
| step_unlocked: "phase s p = Idle \<Longrightarrow> repoLock lock_hint opened locked path = Inr Not_attached \<Longrightarrow>
    lock_step clean s (s\<lparr>phase := (phase s)(p := Unlocked_reader)\<rparr>)"
| step_lock: "phase s p = Opened i \<Longrightarrow>
    repoLock lock_hint Open_ok (try_lock i s) path = Inr (Attached True) \<Longrightarrow>
    lock_step clean s (s\<lparr>holder := (holder s)(i := Some p), phase := (phase s)(p := Holding i)\<rparr>)"
| step_not_locked: "phase s p = Opened i \<Longrightarrow> locked = try_lock i s \<or> locked = Lockf_failed \<Longrightarrow>
    repoLock lock_hint Open_ok locked path = Inl e \<Longrightarrow>
    lock_step clean s (s\<lparr>phase := (phase s)(p := Died)\<rparr>)"
| step_release: "phase s p = Holding i \<Longrightarrow>
    lock_step clean s (s\<lparr>phase := (phase s)(p := Cleaning i clean)\<rparr>)"
| step_cleanup: "phase s p = Cleaning i (a # as) \<Longrightarrow>
    lock_step clean s ((cleanup_step p a i s)\<lparr>phase := (phase s)(p := Cleaning i as)\<rparr>)"

inductive_cases lock_stepE: "lock_step clean s t"

definition reachable :: "cleanup_action list \<Rightarrow> lock_state \<Rightarrow> bool" where
  "reachable clean s \<longleftrightarrow> (lock_step clean)\<^sup>*\<^sup>* initial s"

lemma reachable_initial: "reachable clean initial"
  by (simp add: reachable_def)

lemma reachable_step: "reachable clean s \<Longrightarrow> lock_step clean s t \<Longrightarrow> reachable clean t"
  by (auto simp: reachable_def)

lemma reachable_induct [consumes 1, case_names initial step]:
  assumes "reachable clean s" "P initial" "\<And>s t. reachable clean s \<Longrightarrow> P s \<Longrightarrow> lock_step clean s t \<Longrightarrow> P t"
  shows "P s"
  using assms(1) unfolding reachable_def
  by (induction rule: rtranclp_induct) (auto intro: assms(2,3) simp: reachable_def)

lemma try_lock_ok: "repoLock lock_hint Open_ok (try_lock i s) path = Inr (Attached True) \<longleftrightarrow> holder s i = None"
  by (simp add: repoLock_def try_lock_def)

lemma cleanup_step_fields:
  "phase (cleanup_step p a i s) = phase s" "next_file (cleanup_step p a i s) = next_file s"
  "holder (cleanup_step p a i s) j = Some q \<longleftrightarrow> holder s j = Some q \<and> (q = p \<longrightarrow> j = i \<longrightarrow> a = Remove_lockfile)"
  "a \<noteq> Remove_lockfile \<Longrightarrow> lockfile (cleanup_step p a i s) = lockfile s"
  by (cases a; auto simp: give_up_def)+

section \<open>Exclusion\<close>

text \<open>Whoever uses the repository has the lock of its file, and what is left to clean up is an end of the clean-up.\<close>

definition lock_inv :: "cleanup_action list \<Rightarrow> lock_state \<Rightarrow> bool" where
  "lock_inv clean s \<longleftrightarrow>
     (\<forall>p i. phase s p = Holding i \<longrightarrow> holder s i = Some p) \<and> (\<forall>p i as. phase s p = Cleaning i as \<longrightarrow> suffix as clean)"

lemma lock_inv_reachable: "reachable clean s \<Longrightarrow> lock_inv clean s"
proof (induction rule: reachable_induct)
  case initial
  show ?case by (simp add: lock_inv_def initial_def)
next
  case (step s t)
  from step(2) show ?case
  proof (cases rule: lock_step.cases)
    case (step_open p i u)
    then have "holder u = holder s" "phase u = phase s" by (auto simp: open_lockfile_def split: option.splits)
    then show ?thesis using step(3) unfolding lock_inv_def step_open(1) by auto
  next
    case (step_lock p i lock_hint path)
    then have "holder s i = None" by (simp add: try_lock_ok)
    then show ?thesis using step(3) unfolding lock_inv_def step_lock(1) by auto
  next
    case (step_cleanup p i a as)
    then have "suffix (a # as) clean" using step(3) by (simp add: lock_inv_def)
    then have "suffix as clean" by (rule suffix_ConsD)
    then show ?thesis using step(3) step_cleanup(2) unfolding lock_inv_def step_cleanup(1)
      by (auto simp: cleanup_step_fields)
  qed (use step(3) in \<open>auto simp: lock_inv_def\<close>)
qed

text \<open>While no process has removed the name, everybody uses the file that has it.\<close>

definition has_removed :: "cleanup_action list \<Rightarrow> phase \<Rightarrow> bool" where
  "has_removed clean ph \<longleftrightarrow>
     (\<exists>i as. ph = Cleaning i as \<and> Remove_lockfile \<in> set clean \<and> Remove_lockfile \<notin> set as)"

definition nobody_removed :: "cleanup_action list \<Rightarrow> lock_state \<Rightarrow> bool" where
  "nobody_removed clean s \<longleftrightarrow> (\<forall>p. \<not> has_removed clean (phase s p))"

lemma nobody_removed_before:
  assumes "nobody_removed clean t" "phase t = (phase s)(q := ph)" "\<not> has_removed clean (phase s q)"
  shows "nobody_removed clean s"
  using assms unfolding nobody_removed_def by (metis fun_upd_other)

definition uses :: "phase \<Rightarrow> nat \<Rightarrow> bool" where
  "uses ph i \<longleftrightarrow> ph = Opened i \<or> ph = Holding i \<or> (\<exists>as. ph = Cleaning i as)"

lemma one_file:
  assumes "distinct clean"
  shows "reachable clean s \<Longrightarrow> nobody_removed clean s \<Longrightarrow> uses (phase s p) i \<Longrightarrow> lockfile s = Some i"
proof (induction arbitrary: p i rule: reachable_induct)
  case initial
  then show ?case by (simp add: initial_def uses_def)
next
  case (step s t)
  have other: ?case if "phase t = (phase s)(q := ph)" "lockfile t = lockfile s" "\<not> has_removed clean (phase s q)"
    "\<And>j. uses ph j \<Longrightarrow> uses (phase s q) j" for q ph
  proof -
    have "nobody_removed clean s" by (rule nobody_removed_before [OF step.prems(1) that(1,3)])
    moreover have "uses (phase s p) i" using step.prems(2) that(1,4) by (auto split: if_splits)
    ultimately show ?thesis using step(3) that(2) by simp
  qed
  from step(2) show ?case
  proof (cases rule: lock_step.cases)
    case (step_open q j u)
    have u: "phase u = phase s" "lockfile u = Some j" "lockfile s = None \<or> lockfile s = Some j"
      using step_open by (auto simp: open_lockfile_def split: option.splits)
    have before: "nobody_removed clean s"
      by (rule nobody_removed_before [OF step.prems(1), of s q])
        (simp_all add: u step_open(1) step_open(2) has_removed_def)
    show ?thesis
      using step.prems(2) step(3) [OF before] u unfolding step_open(1)
      by (cases "p = q") (auto simp: uses_def)
  next
    case (step_cleanup q j a as)
    have "suffix (a # as) clean" using lock_inv_reachable [OF step(1)] step_cleanup(2) by (simp add: lock_inv_def)
    then have a: "a \<in> set clean" "a \<notin> set as" using assms by (auto simp: suffix_def)
    have "\<not> has_removed clean (Cleaning j as)"
      using step.prems(1) unfolding step_cleanup(1) nobody_removed_def by (auto dest: spec [of _ q])
    then have "a \<noteq> Remove_lockfile" "\<not> has_removed clean (Cleaning j (a # as))" using a by (auto simp: has_removed_def)
    then show ?thesis
      by (intro other [of q "Cleaning j as"]) (auto simp: step_cleanup cleanup_step_fields uses_def)
  next
    case (step_not_opened q opened lock_hint locked path e)
    then show ?thesis by (intro other [of q Died]) (auto simp: has_removed_def uses_def)
  next
    case (step_unlocked q lock_hint opened locked path)
    then show ?thesis by (intro other [of q Unlocked_reader]) (auto simp: has_removed_def uses_def)
  next
    case (step_lock q j lock_hint path)
    then show ?thesis by (intro other [of q "Holding j"]) (auto simp: has_removed_def uses_def)
  next
    case (step_not_locked q j locked lock_hint path e)
    then show ?thesis by (intro other [of q Died]) (auto simp: has_removed_def uses_def)
  next
    case (step_release q j)
    then show ?thesis by (intro other [of q "Cleaning j clean"]) (auto simp: has_removed_def uses_def)
  qed
qed

lemma exclusive:
  assumes "distinct clean" "reachable clean s" "phase s p = Holding i" "phase s q = Holding j"
    and "i = j \<or> nobody_removed clean s"
  shows "p = q"
proof -
  have "i = j"
    using assms one_file [OF assms(1,2), of p i] one_file [OF assms(1,2), of q j] by (auto simp: uses_def)
  moreover have "holder s i = Some p" "holder s j = Some q"
    using lock_inv_reachable [OF assms(2)] assms(3,4) by (auto simp: lock_inv_def)
  ultimately show ?thesis by simp
qed

text \<open>
  C29: two processes never hold the lock of the same file; and as long as no process has got as far
  as removing the lockfile, at most one process has the lock of the repository. Processes that only read
  from a read-only file system have no lock.
\<close>

theorem repoLock_exclusive:
  assumes "reachable (cleanupLockfile True) s" and "phase s p = Holding i" and "phase s q = Holding j"
    and "i = j \<or> nobody_removed (cleanupLockfile True) s"
  shows "p = q"
  by (rule exclusive [OF _ assms]) (simp add: cleanupLockfile_def)

lemma reachable_open:
  assumes "reachable clean \<lparr>lockfile = l, next_file = n, holder = h, phase = ph\<rparr>" "ph p = Idle"
  shows "reachable clean \<lparr>lockfile = Some (case l of None \<Rightarrow> n | Some i \<Rightarrow> i),
    next_file = (case l of None \<Rightarrow> Suc n | Some i \<Rightarrow> n), holder = h,
    phase = ph(p := Opened (case l of None \<Rightarrow> n | Some i \<Rightarrow> i))\<rparr>"
  using reachable_step [OF assms(1) step_open, of p] assms(2)
  by (cases l) (auto simp: open_lockfile_def)

lemma reachable_lock:
  assumes "reachable clean \<lparr>lockfile = l, next_file = n, holder = h, phase = ph\<rparr>" "ph p = Opened i" "h i = None"
  shows "reachable clean \<lparr>lockfile = l, next_file = n, holder = h(i := Some p), phase = ph(p := Holding i)\<rparr>"
  using reachable_step [OF assms(1) step_lock, of p i RLH_readwrite "[]"] assms(2,3) by (simp add: try_lock_ok)

lemma reachable_release:
  assumes "reachable clean \<lparr>lockfile = l, next_file = n, holder = h, phase = ph\<rparr>" "ph p = Holding i"
  shows "reachable clean \<lparr>lockfile = l, next_file = n, holder = h, phase = ph(p := Cleaning i clean)\<rparr>"
  using reachable_step [OF assms(1) step_release, of p i] assms(2) by simp

lemma reachable_cleanup:
  assumes "reachable clean s" "phase s p = Cleaning i (a # as)"
  shows "reachable clean ((cleanup_step p a i s)\<lparr>phase := (phase s)(p := Cleaning i as)\<rparr>)"
  using reachable_step [OF assms(1) step_cleanup [OF assms(2)]] .

lemma one_holder:
  "reachable clean \<lparr>lockfile = Some 0, next_file = 1, holder = (\<lambda>_. None)(0 := Some 0), phase = (\<lambda>_. Idle)(0 := Holding 0)\<rparr>"
proof -
  have "reachable clean \<lparr>lockfile = None, next_file = 0, holder = (\<lambda>_. None), phase = (\<lambda>_. Idle)\<rparr>"
    using reachable_initial by (simp add: initial_def)
  from reachable_lock [OF reachable_open [OF this, of 0], of 0 0] show ?thesis by simp
qed

theorem repoLock_exclusive_witness:
  "\<exists>s. reachable (cleanupLockfile True) s \<and> phase s 0 = Holding 0 \<and> (\<forall>q j. phase s q = Holding j \<longrightarrow> q = 0)"
proof -
  let ?s = "\<lparr>lockfile = Some 0, next_file = 1, holder = (\<lambda>_. None)(0 := Some 0), phase = (\<lambda>_. Idle)(0 := Holding 0)\<rparr>"
  have zero: "phase ?s 0 = Holding 0" by simp
  have free: "nobody_removed (cleanupLockfile True) ?s" by (simp add: nobody_removed_def has_removed_def)
  have "q = 0" if "phase ?s q = Holding j" for q j
    by (rule repoLock_exclusive [OF one_holder that zero disjI2 [OF free]])
  with one_holder zero show ?thesis by blast
qed

section \<open>The race\<close>

text \<open>
  Process 0 holds the lock and process 1 has opened its file. Once process 0 has given up the lock and has
  removed the name, process 1 locks the file it has open, and process 2 creates and locks a new one.
\<close>

lemma race:
  assumes "set clean = {Unlock, Close, Remove_lockfile}" "distinct clean"
  shows "\<exists>s p q i j. reachable clean s \<and> p \<noteq> q \<and> phase s p = Holding i \<and> phase s q = Holding j"
proof -
  let ?P = "(\<lambda>_ :: nat. Idle)" and ?H = "\<lambda>_ :: nat. None :: nat option"
  from reachable_open [OF one_holder, of 1 clean]
  have "reachable clean \<lparr>lockfile = Some 0, next_file = 1, holder = ?H(0 := Some 0), phase = ?P(0 := Holding 0, 1 := Opened 0)\<rparr>"
    by simp
  from reachable_release [OF this, of 0 0]
  have start: "reachable clean \<lparr>lockfile = Some 0, next_file = 1, holder = ?H(0 := Some 0),
      phase = ?P(1 := Opened 0, 0 := Cleaning 0 clean)\<rparr>" by (simp add: fun_upd_twist)
  have run: "reachable clean \<lparr>lockfile = (if Remove_lockfile \<in> set as then None else l), next_file = 1,
      holder = (if Unlock \<in> set as \<or> Close \<in> set as then ?H else h), phase = ?P(1 := Opened 0, 0 := Cleaning 0 [])\<rparr>"
    if "reachable clean \<lparr>lockfile = l, next_file = 1, holder = h, phase = ?P(1 := Opened 0, 0 := Cleaning 0 as)\<rparr>"
      "h = ?H \<or> h = ?H(0 := Some 0)" for as l h
    using that
  proof (induction as arbitrary: l h)
    case (Cons a as)
    note step = reachable_cleanup [where p = 0 and i = 0 and a = a and as = as, OF Cons.prems(1)]
    have none: "?H(0 := None) = ?H" by auto
    show ?case
    proof (cases a)
      case Remove_lockfile
      have "reachable clean \<lparr>lockfile = None, next_file = 1, holder = h, phase = ?P(1 := Opened 0, 0 := Cleaning 0 as)\<rparr>"
        using step Remove_lockfile by (simp add: fun_upd_def cong: if_cong)
      from Cons.IH [OF this Cons.prems(2)] show ?thesis using Remove_lockfile by (auto split: if_splits)
    next
      case Unlock
      have "reachable clean \<lparr>lockfile = l, next_file = 1, holder = ?H, phase = ?P(1 := Opened 0, 0 := Cleaning 0 as)\<rparr>"
        using step Unlock Cons.prems(2) none by (auto simp: give_up_def fun_upd_def cong: if_cong)
      from Cons.IH [OF this] show ?thesis using Unlock by (auto split: if_splits)
    next
      case Close
      have "reachable clean \<lparr>lockfile = l, next_file = 1, holder = ?H, phase = ?P(1 := Opened 0, 0 := Cleaning 0 as)\<rparr>"
        using step Close Cons.prems(2) none by (auto simp: give_up_def fun_upd_def cong: if_cong)
      from Cons.IH [OF this] show ?thesis using Close by (auto split: if_splits)
    qed
  qed simp
  from run [OF start] assms(1)
  have "reachable clean \<lparr>lockfile = None, next_file = 1, holder = ?H, phase = ?P(1 := Opened 0, 0 := Cleaning 0 [])\<rparr>"
    by simp
  from reachable_open [OF reachable_lock [OF this, of 1 0], of 2]
  have "reachable clean \<lparr>lockfile = Some 1, next_file = Suc 1, holder = ?H(0 := Some 1),
      phase = ?P(1 := Holding 0, 0 := Cleaning 0 [], 2 := Opened 1)\<rparr>" by (simp add: fun_upd_twist)
  from reachable_lock [OF this, of 2 1]
  have "reachable clean \<lparr>lockfile = Some 1, next_file = Suc 1, holder = ?H(0 := Some 1, 1 := Some 2),
      phase = ?P(1 := Holding 0, 0 := Cleaning 0 [], 2 := Holding 1)\<rparr>" (is "reachable clean ?s")
    by simp
  moreover have "phase ?s 1 = Holding 0" "phase ?s 2 = Holding 1" by simp_all
  ultimately show ?thesis by (metis one_eq_numeral_iff semiring_norm(83))
qed

text \<open>
  C30: removing the lockfile is what breaks the mutual exclusion. With the clean-up of the code, two
  processes can have a lock of the repository at the same time; they can also if the name were removed
  before the lock is given up; and they never can if the clean-up left the lockfile in place.
\<close>

theorem repoLock_race:
  "(\<exists>s p q i j. reachable (cleanupLockfile True) s \<and> p \<noteq> q \<and> phase s p = Holding i \<and> phase s q = Holding j) \<and>
   (\<exists>s p q i j. reachable [Remove_lockfile, Unlock, Close] s \<and> p \<noteq> q \<and> phase s p = Holding i \<and> phase s q = Holding j) \<and>
   (\<forall>s p q i j. reachable (filter (\<lambda>a. a \<noteq> Remove_lockfile) (cleanupLockfile True)) s \<longrightarrow>
      phase s p = Holding i \<longrightarrow> phase s q = Holding j \<longrightarrow> p = q)"
proof (intro conjI allI impI)
  show "\<exists>s p q i j. reachable (cleanupLockfile True) s \<and> p \<noteq> q \<and> phase s p = Holding i \<and> phase s q = Holding j"
    by (rule race) (auto simp: cleanupLockfile_def)
  show "\<exists>s p q i j. reachable [Remove_lockfile, Unlock, Close] s \<and> p \<noteq> q \<and> phase s p = Holding i \<and> phase s q = Holding j"
    by (rule race) auto
next
  fix s p q i j
  let ?clean = "filter (\<lambda>a. a \<noteq> Remove_lockfile) (cleanupLockfile True)"
  assume "reachable ?clean s" "phase s p = Holding i" "phase s q = Holding j"
  moreover have "distinct ?clean" by (simp add: cleanupLockfile_def)
  moreover have "nobody_removed ?clean s" by (auto simp: nobody_removed_def has_removed_def)
  ultimately show "p = q" using exclusive by blast
qed

theorem repoLock_race_witness:
  "\<exists>s. reachable (filter (\<lambda>a. a \<noteq> Remove_lockfile) (cleanupLockfile True)) s \<and> phase s 0 = Holding 0 \<and>
     (\<forall>q j. phase s q = Holding j \<longrightarrow> q = 0)"
proof -
  let ?s = "\<lparr>lockfile = Some 0, next_file = 1, holder = (\<lambda>_. None)(0 := Some 0), phase = (\<lambda>_. Idle)(0 := Holding 0)\<rparr>"
  have zero: "phase ?s 0 = Holding 0" by simp
  have "q = 0" if "phase ?s q = Holding j" for q j
    using repoLock_race one_holder that zero by blast
  with one_holder zero show ?thesis by blast
qed

end
