(* ===== verification/Search_Tree.thy ===== *)
theory Search_Tree
  imports Str Metadata_Types
begin

text \<open>
  The configuration file: \<open>src/search-tree.c\<close>. Parsing it gives a tree of \<open>SearchNode\<close>s. The nodes
  are kept in a list, a pointer to a node is its position there, and the linked list of a node's
  subnodes is the list of their positions; the root is node 0. The table from paths to nodes, which
  the code builds with \<open>src/string-table.c\<close>, is the map that this table refines. Strings stand for
  the slices they view, on which \<open>Str\<close> proves the string functions correct. The regular expression
  compiler is a parameter: it gives the message for an expression that is not valid.
\<close>

section \<open>Data\<close>

record regex_entry =
  expression :: string
  re_line_nr :: nat
  has_matched :: bool

record search_node =
  sn_name :: string
  sn_line_nr :: nat
  sn_regex :: "string option"
  sn_search_match :: u32
  sn_policy :: backup_policy
  sn_policy_inherited :: bool
  sn_policy_line_nr :: nat
  sn_subnodes :: "nat list"
  sn_subnodes_contain_regex :: bool

record search_tree =
  tree_nodes :: "search_node list"
  ignore_expressions :: "regex_entry list"
  summarize_expressions :: "regex_entry list"

record parser = search_tree +
  existing_nodes :: "string \<rightharpoonup> nat"
  current_policy :: backup_policy

type_synonym regcomp = "string \<Rightarrow> string option"

definition SRT_none :: u32 where "SRT_none = 0"

section \<open>Lines\<close>

text \<open>The loop of \<open>getLine()\<close> over \<open>end\<close>.\<close>

function findLineEnd :: "string \<Rightarrow> nat \<Rightarrow> nat" where
  "findLineEnd config pos =
     (if pos < length config \<and> config ! pos \<noteq> CHR 0x0A then findLineEnd config (pos + 1) else pos)"
  by pat_completeness auto
termination by (relation "measure (\<lambda>(config, pos). length config - pos)") auto

declare findLineEnd.simps [simp del]

definition getLine :: "string \<Rightarrow> nat \<Rightarrow> string" where
  "getLine config start = take (findLineEnd config start - start) (drop start config)"

section \<open>Nodes\<close>

definition sRegexCompile :: "regcomp \<Rightarrow> string \<Rightarrow> string \<Rightarrow> nat \<Rightarrow> unit result" where
  "sRegexCompile regcomp expr file_name line_nr =
     (case regcomp expr of None \<Rightarrow> Inr ()
      | Some message \<Rightarrow> Inl (Regex_error file_name line_nr message expr))"

text \<open>
  The name and the expression of the node for the last element of a path: an element that starts
  with a slash is a regular expression.
\<close>

definition compileName :: "regcomp \<Rightarrow> string \<Rightarrow> nat \<Rightarrow> (string \<times> string option) result" where
  "compileName regcomp tail line_nr =
     (if length tail \<ge> 2 \<and> tail ! 0 = CHR ''/'' then
        bindE (sRegexCompile regcomp (drop 1 tail) ''config'' line_nr) (\<lambda>_.
          Inr (drop 1 tail, Some (drop 1 tail)))
      else Inr (tail, None))"

text \<open>The part of \<open>newNode()\<close> behind the recursion.\<close>

definition insertNode :: "regcomp \<Rightarrow> string \<Rightarrow> nat \<Rightarrow> nat \<Rightarrow> parser \<Rightarrow> (nat \<times> parser) result" where
  "insertNode regcomp path line_nr parent p =
     bindE (compileName regcomp (snd (split_path path)) line_nr) (\<lambda>(name, regex).
       let parent_node = tree_nodes p ! parent;
           node = \<lparr>sn_name = name, sn_line_nr = line_nr, sn_regex = regex,
                   sn_search_match = SRT_none,
                   sn_policy = sn_policy parent_node,
                   sn_policy_inherited = (sn_policy parent_node \<noteq> BPOL_none),
                   sn_policy_line_nr = line_nr,
                   sn_subnodes = [], sn_subnodes_contain_regex = False\<rparr>;
           new = length (tree_nodes p);
           parent_node = parent_node\<lparr>sn_subnodes := new # sn_subnodes parent_node,
             sn_subnodes_contain_regex := (sn_subnodes_contain_regex parent_node \<or> regex \<noteq> None)\<rparr>
       in Inr (new, p\<lparr>tree_nodes := (tree_nodes p)[parent := parent_node] @ [node],
                      existing_nodes := (existing_nodes p)(path \<mapsto> new)\<rparr>))"

function newNode :: "regcomp \<Rightarrow> string \<Rightarrow> nat \<Rightarrow> parser \<Rightarrow> (nat \<times> parser) result" where
  "newNode regcomp path line_nr p =
     (let head = fst (split_path path)
      in bindE (case existing_nodes p head of
                  Some parent_node \<Rightarrow> Inr (parent_node, p)
                | None \<Rightarrow> if length head < length path then newNode regcomp head line_nr p
                          else Inl Endless_recursion)
           (\<lambda>(parent_node, p). insertNode regcomp path line_nr parent_node p))"
  by pat_completeness auto
termination by (relation "measure (\<lambda>(regcomp, path, line_nr, p). length path)") auto

declare newNode.simps [simp del]

text \<open>
  \<open>inheritPolicyToSubnodes()\<close>, with the depth of the stack as its first argument.
\<close>

fun inheritPolicyToSubnodes :: "nat \<Rightarrow> nat \<Rightarrow> search_node list \<Rightarrow> search_node list result" where
  "inheritPolicyToSubnodes 0 parent ns = Inl Endless_recursion"
| "inheritPolicyToSubnodes (Suc depth) parent ns =
     foldE (\<lambda>i ns.
       let node = ns ! i; parent_node = ns ! parent
       in if sn_policy node = BPOL_none \<or> sn_policy_inherited node
          then inheritPolicyToSubnodes depth i
                 (ns[i := node\<lparr>sn_policy := sn_policy parent_node, sn_policy_inherited := True,
                               sn_policy_line_nr := sn_policy_line_nr parent_node\<rparr>])
          else Inr ns)
       (sn_subnodes (ns ! parent)) ns"

section \<open>The parser\<close>

definition setPolicy :: "nat \<Rightarrow> nat \<Rightarrow> parser \<Rightarrow> parser result" where
  "setPolicy line_nr i p =
     (let node = (tree_nodes p ! i)\<lparr>sn_policy := current_policy p, sn_policy_inherited := False,
                                     sn_policy_line_nr := line_nr\<rparr>;
          ns = (tree_nodes p)[i := node]
      in bindE (inheritPolicyToSubnodes (Suc (length ns)) i ns) (\<lambda>ns.
           Inr (p\<lparr>tree_nodes := ns\<rparr>)))"

definition definePath :: "regcomp \<Rightarrow> nat \<Rightarrow> string \<Rightarrow> parser \<Rightarrow> parser result" where
  "definePath regcomp line_nr line p =
     (if has_dot_elements line then Inl (Config_dot_elements line_nr line)
      else
        let path = strip_slashes line;
            previous_definition = existing_nodes p path
        in case previous_definition of
             Some i \<Rightarrow>
               if sn_policy (tree_nodes p ! i) \<noteq> BPOL_none \<and> \<not> sn_policy_inherited (tree_nodes p ! i)
               then Inl (Config_redefinition line_nr
                      (sn_policy (tree_nodes p ! i) \<noteq> current_policy p)
                      (sn_policy_line_nr (tree_nodes p ! i)) line)
               else setPolicy line_nr i p
           | None \<Rightarrow>
               bindE (newNode regcomp path line_nr p) (\<lambda>(i, p). setPolicy line_nr i p))"

definition addExpression :: "regcomp \<Rightarrow> nat \<Rightarrow> string \<Rightarrow> parser \<Rightarrow> parser result" where
  "addExpression regcomp line_nr line p =
     bindE (sRegexCompile regcomp line ''config'' line_nr) (\<lambda>_.
       let e = \<lparr>expression = line, re_line_nr = line_nr, has_matched = False\<rparr>
       in Inr (if current_policy p = BPOL_summarize
               then p\<lparr>summarize_expressions := e # summarize_expressions p\<rparr>
               else p\<lparr>ignore_expressions := e # ignore_expressions p\<rparr>))"

definition parseLine :: "regcomp \<Rightarrow> nat \<Rightarrow> string \<Rightarrow> parser \<Rightarrow> parser result" where
  "parseLine regcomp line_nr line p =
     (if is_whitespace_only line \<or> line ! 0 = CHR ''#'' then Inr p
      else if line = ''[copy]'' then Inr (p\<lparr>current_policy := BPOL_copy\<rparr>)
      else if line = ''[mirror]'' then Inr (p\<lparr>current_policy := BPOL_mirror\<rparr>)
      else if line = ''[track]'' then Inr (p\<lparr>current_policy := BPOL_track\<rparr>)
      else if line = ''[ignore]'' then Inr (p\<lparr>current_policy := BPOL_ignore\<rparr>)
      else if line = ''[summarize]'' then Inr (p\<lparr>current_policy := BPOL_summarize\<rparr>)
      else if line ! 0 = CHR ''['' \<and> line ! (length line - 1) = CHR '']'' then
        Inl (Config_invalid_policy line_nr (take (length line - 2) (drop 1 line)))
      else if current_policy p = BPOL_none then
        Inl (Config_pattern_without_policy line_nr line)
      else if current_policy p = BPOL_ignore \<or> current_policy p = BPOL_summarize then
        addExpression regcomp line_nr line p
      else if line ! 0 = CHR ''/'' then definePath regcomp line_nr line p
      else Inl (Config_invalid_path line_nr line))"

text \<open>The loop of \<open>searchTreeParse()\<close> over \<open>parser_position\<close> and \<open>line_nr\<close>.\<close>

lemma findLineEnd_takeWhile:
  "findLineEnd config pos = pos + length (takeWhile (\<lambda>c. c \<noteq> CHR 0x0A) (drop pos config))"
proof (induction config pos rule: findLineEnd.induct)
  case (1 config pos)
  show ?case
  proof (cases "pos < length config")
    case True
    then show ?thesis
      using 1 by (subst findLineEnd.simps) (auto simp flip: Cons_nth_drop_Suc)
  qed (subst findLineEnd.simps, simp)
qed

lemma getLine_takeWhile: "getLine config pos = takeWhile (\<lambda>c. c \<noteq> CHR 0x0A) (drop pos config)"
  by (simp add: getLine_def findLineEnd_takeWhile flip: takeWhile_eq_take)

function parseLoop :: "regcomp \<Rightarrow> string \<Rightarrow> nat \<Rightarrow> nat \<Rightarrow> parser \<Rightarrow> parser result" where
  "parseLoop regcomp config parser_position line_nr p =
     (if parser_position < length config then
        let line = getLine config parser_position;
            pos = parser_position + length line
        in bindE (parseLine regcomp line_nr line p) (\<lambda>p.
             parseLoop regcomp config (pos + (if pos < length config then 1 else 0)) (line_nr + 1) p)
      else Inr p)"
  by pat_completeness auto
termination
proof (relation "measure (\<lambda>(regcomp, config, pos, line_nr, p). length config - pos)", simp, goal_cases)
  case (1 regcomp config pos line_nr p l pos2 p2)
  have "length l \<le> length config - pos"
    using length_takeWhile_le [of _ "drop pos config"] 1 by (simp add: getLine_takeWhile)
  then show ?case using 1 by (cases "l = []") auto
qed

declare parseLoop.simps [simp del]

definition root_node :: search_node where
  "root_node = \<lparr>sn_name = ''/'', sn_line_nr = 0, sn_regex = None, sn_search_match = SRT_none,
     sn_policy = BPOL_none, sn_policy_inherited = False, sn_policy_line_nr = 0,
     sn_subnodes = [], sn_subnodes_contain_regex = False\<rparr>"

definition initial_parser :: parser where
  "initial_parser = \<lparr>tree_nodes = [root_node], ignore_expressions = [], summarize_expressions = [],
     existing_nodes = Map.empty([] \<mapsto> 0), current_policy = BPOL_none\<rparr>"

definition has_bom :: "string \<Rightarrow> bool" where
  "has_bom config \<longleftrightarrow> length config \<ge> 3 \<and> config ! 0 = CHR 0xEF \<and> config ! 1 = CHR 0xBB \<and> config ! 2 = CHR 0xBF"

definition searchTreeParse :: "regcomp \<Rightarrow> string \<Rightarrow> search_tree result" where
  "searchTreeParse regcomp config =
     (if NUL \<in> set config then Inl Config_null_bytes
      else bindE (parseLoop regcomp config (if has_bom config then 3 else 0) 1 initial_parser)
             (\<lambda>p. Inr (search_tree.truncate p)))"

definition searchTreeLoad :: "regcomp \<Rightarrow> (string \<Rightarrow> string result) \<Rightarrow> string \<Rightarrow> search_tree result" where
  "searchTreeLoad regcomp sGetFilesContent path_to_config =
     bindE (sGetFilesContent path_to_config) (searchTreeParse regcomp)"

section \<open>The lines of a file\<close>

text \<open>The lines of a configuration file: a newline ends a line, the last one may be missing.\<close>

function split_lines :: "string \<Rightarrow> string list" where
  "split_lines [] = []"
| "split_lines (c # s) =
     takeWhile (\<lambda>c. c \<noteq> CHR 0x0A) (c # s) # split_lines (drop 1 (dropWhile (\<lambda>c. c \<noteq> CHR 0x0A) (c # s)))"
  by pat_completeness auto
termination
proof (relation "measure length", simp, goal_cases)
  case (1 c s)
  show ?case using length_dropWhile_le [of "\<lambda>c. c \<noteq> CHR 0x0A" s] by auto
qed

fun numbered :: "nat \<Rightarrow> string list \<Rightarrow> (nat \<times> string) list" where
  "numbered n [] = []"
| "numbered n (line # ls) = (n, line) # numbered (n + 1) ls"

definition config_lines :: "string \<Rightarrow> string list" where
  "config_lines config = split_lines (if has_bom config then drop 3 config else config)"

definition parseLines :: "regcomp \<Rightarrow> (nat \<times> string) list \<Rightarrow> parser \<Rightarrow> parser result" where
  "parseLines regcomp = foldE (\<lambda>(line_nr, line). parseLine regcomp line_nr line)"

lemma drop_line:
  assumes "pos < length config"
  defines "pos2 \<equiv> pos + length (getLine config pos)"
  shows "drop (pos2 + (if pos2 < length config then 1 else 0)) config
    = drop 1 (dropWhile (\<lambda>c. c \<noteq> CHR 0x0A) (drop pos config))"
proof -
  have "drop pos2 config = dropWhile (\<lambda>c. c \<noteq> CHR 0x0A) (drop pos config)"
    unfolding pos2_def getLine_takeWhile dropWhile_eq_drop by (simp add: add.commute)
  moreover have "drop (pos2 + (if pos2 < length config then 1 else 0)) config = drop 1 (drop pos2 config)"
    by simp
  ultimately show ?thesis by (simp only:)
qed

lemma parseLoop_lines:
  "parseLoop regcomp config pos line_nr p = parseLines regcomp (numbered line_nr (split_lines (drop pos config))) p"
proof (induction regcomp config pos line_nr p rule: parseLoop.induct)
  case (1 regcomp config pos line_nr p)
  show ?case
  proof (cases "pos < length config")
    case True
    define pos2 where "pos2 = pos + length (getLine config pos)"
    obtain c s where cs: "drop pos config = c # s" using True by (metis Cons_nth_drop_Suc)
    have "split_lines (drop pos config) = getLine config pos #
        split_lines (drop (pos2 + (if pos2 < length config then 1 else 0)) config)"
      unfolding pos2_def drop_line [OF True] unfolding getLine_takeWhile cs by simp
    moreover have "parseLoop regcomp config (pos2 + (if pos2 < length config then 1 else 0)) (line_nr + 1) q =
        parseLines regcomp (numbered (line_nr + 1)
          (split_lines (drop (pos2 + (if pos2 < length config then 1 else 0)) config))) q"
      if "parseLine regcomp line_nr (getLine config pos) p = Inr q" for q
      using "1.IH" [OF True refl _ that, of pos2] by (simp add: pos2_def)
    ultimately show ?thesis
      by (cases "parseLine regcomp line_nr (getLine config pos) p")
        (subst parseLoop.simps, simp add: True Let_def parseLines_def pos2_def)+
  next
    case False
    then show ?thesis by (subst parseLoop.simps) (simp add: parseLines_def)
  qed
qed

section \<open>Inheriting policies\<close>

text \<open>A node inherits unless it got a policy of its own; what it must then have is its parent's.\<close>

definition inherits :: "search_node \<Rightarrow> bool" where
  "inherits node \<longleftrightarrow> sn_policy node = BPOL_none \<or> sn_policy_inherited node"

definition edge :: "search_node list \<Rightarrow> nat \<Rightarrow> nat \<Rightarrow> bool" where
  "edge ns i j \<longleftrightarrow> i < length ns \<and> j \<in> set (sn_subnodes (ns ! i))"

definition edge_ok :: "search_node list \<Rightarrow> nat \<Rightarrow> nat \<Rightarrow> bool" where
  "edge_ok ns i j \<longleftrightarrow> (inherits (ns ! j) \<longrightarrow>
     sn_policy (ns ! j) = sn_policy (ns ! i) \<and>
     (sn_policy_inherited (ns ! j) \<longleftrightarrow> sn_policy (ns ! i) \<noteq> BPOL_none))"

text \<open>Subnodes come later in the list and have one parent.\<close>

definition forest :: "search_node list \<Rightarrow> bool" where
  "forest ns \<longleftrightarrow> (\<forall>i j. edge ns i j \<longrightarrow> i < j \<and> j < length ns) \<and>
     (\<forall>i i' j. edge ns i j \<longrightarrow> edge ns i' j \<longrightarrow> i = i')"

text \<open>Everything about a node but its policy.\<close>

definition shape :: "search_node \<Rightarrow> search_node" where
  "shape node = node\<lparr>sn_policy := BPOL_none, sn_policy_inherited := False, sn_policy_line_nr := 0\<rparr>"

definition repolicy :: "nat \<Rightarrow> (nat \<times> nat) set \<Rightarrow> search_node list \<Rightarrow> search_node list \<Rightarrow> bool" where
  "repolicy i E ns ns' \<longleftrightarrow>
     map shape ns' = map shape ns \<and>
     (\<forall>k < length ns. k \<le> i \<or> \<not> inherits (ns ! k) \<longrightarrow> ns' ! k = ns ! k) \<and>
     (\<forall>k < length ns. inherits (ns ! k) \<longrightarrow> inherits (ns' ! k)) \<and>
     (\<forall>a b. edge ns a b \<longrightarrow> (a, b) \<in> E \<or> edge_ok ns a b \<longrightarrow> edge_ok ns' a b)"

lemma shape_subnodes: "shape n = shape m \<Longrightarrow> sn_subnodes n = sn_subnodes m"
  by (cases n; cases m) (simp add: shape_def)

lemma shape_nth: "map shape ns' = map shape ns \<Longrightarrow> k < length ns \<Longrightarrow> shape (ns' ! k) = shape (ns ! k)"
  by (metis length_map nth_map)

lemma shape_length: "map shape ns' = map shape ns \<Longrightarrow> length ns' = length ns"
  by (rule map_eq_imp_length_eq)

lemma shape_update: "shape n = shape (ns ! i) \<Longrightarrow> map shape (ns[i := n]) = map shape ns"
  by (cases "i < length ns") (auto simp: map_update list_update_same_conv list_update_beyond)

lemma shape_policy [simp]:
  "shape (n\<lparr>sn_policy := x, sn_policy_inherited := y, sn_policy_line_nr := z\<rparr>) = shape n"
  by (simp add: shape_def)

lemma edge_shape:
  assumes "map shape ns' = map shape ns"
  shows "edge ns' = edge ns"
proof (intro ext)
  fix i j
  show "edge ns' i j = edge ns i j"
    using shape_subnodes [OF shape_nth [OF assms, of i]] shape_length [OF assms] by (auto simp: edge_def)
qed

lemma forest_shape:
  assumes "map shape ns' = map shape ns"
  shows "forest ns' = forest ns"
  unfolding forest_def edge_shape [OF assms] shape_length [OF assms] ..

lemma repolicyI:
  assumes "map shape ns' = map shape ns"
    and "\<And>k. k < length ns \<Longrightarrow> k \<le> i \<or> \<not> inherits (ns ! k) \<Longrightarrow> ns' ! k = ns ! k"
    and "\<And>k. k < length ns \<Longrightarrow> inherits (ns ! k) \<Longrightarrow> inherits (ns' ! k)"
    and "\<And>a b. edge ns a b \<Longrightarrow> (a, b) \<in> E \<or> edge_ok ns a b \<Longrightarrow> edge_ok ns' a b"
  shows "repolicy i E ns ns'"
  using assms unfolding repolicy_def by blast

lemma repolicyD:
  assumes "repolicy i E ns ns'"
  shows "map shape ns' = map shape ns"
    and "k < length ns \<Longrightarrow> k \<le> i \<or> \<not> inherits (ns ! k) \<Longrightarrow> ns' ! k = ns ! k"
    and "k < length ns \<Longrightarrow> inherits (ns ! k) \<Longrightarrow> inherits (ns' ! k)"
    and "edge ns a b \<Longrightarrow> (a, b) \<in> E \<or> edge_ok ns a b \<Longrightarrow> edge_ok ns' a b"
  using assms unfolding repolicy_def by blast+

lemma repolicy_refl: "repolicy i {} ns ns"
  by (simp add: repolicy_def)

lemma repolicy_trans:
  assumes a: "repolicy i E ns ns1" and b: "repolicy i F ns1 ns2"
  shows "repolicy i (E \<union> F) ns ns2"
proof (rule repolicyI)
  note sh = repolicyD(1) [OF a]
  show "map shape ns2 = map shape ns" using repolicyD(1) [OF b] sh by simp
  show "ns2 ! k = ns ! k" if "k < length ns" "k \<le> i \<or> \<not> inherits (ns ! k)" for k
    using repolicyD(2) [OF a that] repolicyD(2) [OF b, of k] that shape_length [OF sh] by simp
  show "inherits (ns2 ! k)" if "k < length ns" "inherits (ns ! k)" for k
    using repolicyD(3) [OF a that] repolicyD(3) [OF b, of k] that shape_length [OF sh] by simp
  show "edge_ok ns2 x y" if "edge ns x y" "(x, y) \<in> E \<union> F \<or> edge_ok ns x y" for x y
    using repolicyD(4) [OF a that(1)] repolicyD(4) [OF b, of x y] that edge_shape [OF sh] by auto
qed

lemma repolicy_child:
  assumes "forest ns" "edge ns i j" "inherits (ns ! j)" "sn_policy (ns ! i) \<noteq> BPOL_none"
    and "repolicy j {(j, c) | c. True} (ns[j := (ns ! j)\<lparr>sn_policy := sn_policy (ns ! i),
      sn_policy_inherited := True, sn_policy_line_nr := sn_policy_line_nr (ns ! i)\<rparr>]) ns2"
      (is "repolicy j ?E ?ns1 ns2")
  shows "repolicy i {(i, j)} ns ns2"
proof -
  have ij: "i < j" "j < length ns" using assms(1,2) by (auto simp: forest_def)
  have shape: "map shape ?ns1 = map shape ns"
    by (rule shape_update) simp
  note edges = edge_shape [OF this]
  have own: "edge_ok ?ns1 i j" using ij assms(4) by (simp add: edge_ok_def)
  have other: "edge_ok ?ns1 a b" if "edge_ok ns a b" "a \<noteq> j" "b \<noteq> j" for a b
    using that by (simp add: edge_ok_def)
  have parent: "a = i" if "edge ns a j" for a
    using that assms(1,2) by (auto simp: forest_def)
  have "edge_ok ns2 a b" if "edge ns a b" "(a, b) \<in> {(i, j)} \<or> edge_ok ns a b" for a b
  proof -
    have "(a, b) \<in> ?E \<or> edge_ok ?ns1 a b"
      using that own other [of a b] parent [of a] by (cases "a = j"; cases "b = j") auto
    then show ?thesis using repolicyD(4) [OF assms(5), of a b] that(1) edges by simp
  qed
  moreover have "ns2 ! k = ns ! k" if "k < length ns" "k \<le> i \<or> \<not> inherits (ns ! k)" for k
    using repolicyD(2) [OF assms(5), of k] assms(3) ij that by (cases "k = j") auto
  moreover have "inherits (ns2 ! k)" if "k < length ns" "inherits (ns ! k)" for k
    using repolicyD(3) [OF assms(5), of k] ij that by (cases "k = j") (auto simp: inherits_def)
  ultimately show ?thesis using repolicyD(1) [OF assms(5)] shape by (intro repolicyI) auto
qed

lemma inheritPolicyToSubnodes_repolicy:
  assumes "forest ns" "i < length ns" "length ns \<le> i + depth" "sn_policy (ns ! i) \<noteq> BPOL_none"
  shows "\<exists>ns'. inheritPolicyToSubnodes depth i ns = Inr ns' \<and> repolicy i {(i, c) | c. True} ns ns'"
  using assms
proof (induction depth arbitrary: i ns)
  case (Suc depth)
  let ?body = "\<lambda>j ns. let node = ns ! j; parent_node = ns ! i
       in if sn_policy node = BPOL_none \<or> sn_policy_inherited node
          then inheritPolicyToSubnodes depth j
                 (ns[j := node\<lparr>sn_policy := sn_policy parent_node, sn_policy_inherited := True,
                               sn_policy_line_nr := sn_policy_line_nr parent_node\<rparr>])
          else Inr ns"
  have loop: "\<exists>ns'. foldE ?body js ms = Inr ns' \<and> repolicy i {(i, c) | c. c \<in> set js} ms ns'"
    if "forest ms" "length ms = length ns" "ms ! i = ns ! i" "set js \<subseteq> set (sn_subnodes (ns ! i))" for js ms
    using that
  proof (induction js arbitrary: ms)
    case Nil
    then show ?case by (simp add: repolicy_refl)
  next
    case (Cons j js)
    have e: "edge ms i j" using Cons.prems Suc.prems(2) by (simp add: edge_def)
    then have ij: "i < j" "j < length ms" using Cons.prems(1) by (auto simp: forest_def)
    have "\<exists>ms1. ?body j ms = Inr ms1 \<and> repolicy i {(i, j)} ms ms1"
    proof (cases "inherits (ms ! j)")
      case True
      let ?ms = "ms[j := (ms ! j)\<lparr>sn_policy := sn_policy (ms ! i),
        sn_policy_inherited := True, sn_policy_line_nr := sn_policy_line_nr (ms ! i)\<rparr>]"
      have "map shape ?ms = map shape ms"
        by (rule shape_update) simp
      then have "forest ?ms" using Cons.prems(1) forest_shape by blast
      then obtain ms1 where ms1: "inheritPolicyToSubnodes depth j ?ms = Inr ms1"
          "repolicy j {(j, c) | c. True} ?ms ms1"
        using Suc.IH [of ?ms j] Suc.prems Cons.prems ij by auto
      have "repolicy i {(i, j)} ms ms1"
        using repolicy_child [OF Cons.prems(1) e True _ ms1(2)] Suc.prems(4) Cons.prems(3) by simp
      with ms1(1) True show ?thesis by (auto simp: inherits_def Let_def)
    next
      case False
      then have "edge_ok ms i j" by (simp add: edge_ok_def)
      then show ?thesis using False by (auto simp: inherits_def Let_def repolicy_def)
    qed
    then obtain ms1 where ms1: "?body j ms = Inr ms1" "repolicy i {(i, j)} ms ms1" by blast
    have sh: "map shape ms1 = map shape ms" "ms1 ! i = ms ! i"
      using ms1(2) Suc.prems(2) Cons.prems(2) by (auto simp: repolicy_def)
    then obtain ns' where ns': "foldE ?body js ms1 = Inr ns'" "repolicy i {(i, c) | c. c \<in> set js} ms1 ns'"
      using Cons.IH [of ms1] Cons.prems forest_shape [OF sh(1)] map_eq_imp_length_eq [OF sh(1)] by auto
    have "{(i, j)} \<union> {(i, c) | c. c \<in> set js} = {(i, c) | c. c \<in> set (j # js)}" by auto
    with repolicy_trans [OF ms1(2) ns'(2)] ms1(1) ns'(1) show ?case by simp
  qed
  from loop [of ns "sn_subnodes (ns ! i)"] Suc.prems(1)
  obtain ns' where "inheritPolicyToSubnodes (Suc depth) i ns = Inr ns'"
      "repolicy i {(i, c) | c. c \<in> set (sn_subnodes (ns ! i))} ns ns'"
    by auto
  then show ?case unfolding repolicy_def edge_def by auto
qed simp

section \<open>The tree and the table of paths\<close>

definition parent_path :: "string \<Rightarrow> string" where
  "parent_path path = fst (split_path path)"

definition node_name :: "string \<Rightarrow> string \<times> string option" where
  "node_name path =
     (let tail = snd (split_path path)
      in if length tail \<ge> 2 \<and> tail ! 0 = CHR ''/'' then (drop 1 tail, Some (drop 1 tail))
         else (tail, None))"

text \<open>The table names every node once, and the subnodes of a node are those one element below it.\<close>

definition table_ok :: "search_node list \<Rightarrow> (string \<rightharpoonup> nat) \<Rightarrow> bool" where
  "table_ok ns tbl \<longleftrightarrow>
     tbl [] = Some 0 \<and>
     (\<forall>p i. tbl p = Some i \<longrightarrow> i < length ns) \<and>
     (\<forall>p q i. tbl p = Some i \<longrightarrow> tbl q = Some i \<longrightarrow> p = q) \<and>
     (\<forall>i < length ns. \<exists>p. tbl p = Some i) \<and>
     (\<forall>p j. p \<noteq> [] \<longrightarrow> tbl p = Some j \<longrightarrow>
        (\<exists>i. tbl (parent_path p) = Some i \<and> edge ns i j \<and> i < j)) \<and>
     (\<forall>i j. edge ns i j \<longrightarrow> (\<exists>p. p \<noteq> [] \<and> tbl p = Some j \<and> tbl (parent_path p) = Some i))"

definition names_ok :: "search_node list \<Rightarrow> (string \<rightharpoonup> nat) \<Rightarrow> bool" where
  "names_ok ns tbl \<longleftrightarrow>
     (\<forall>p j. p \<noteq> [] \<longrightarrow> tbl p = Some j \<longrightarrow> (sn_name (ns ! j), sn_regex (ns ! j)) = node_name p) \<and>
     (\<forall>i < length ns. distinct (sn_subnodes (ns ! i)) \<and>
        (sn_subnodes_contain_regex (ns ! i) \<longleftrightarrow>
           list_ex (\<lambda>j. sn_regex (ns ! j) \<noteq> None) (sn_subnodes (ns ! i))))"

definition policies_ok :: "search_node list \<Rightarrow> bool" where
  "policies_ok ns \<longleftrightarrow> (\<forall>i j. edge ns i j \<longrightarrow> edge_ok ns i j) \<and> \<not> sn_policy_inherited (ns ! 0)"

lemma table_okD:
  assumes "table_ok ns tbl"
  shows "tbl [] = Some 0"
    and "tbl p = Some i \<Longrightarrow> i < length ns"
    and "tbl p = Some i \<Longrightarrow> tbl q = Some i \<Longrightarrow> p = q"
    and "i < length ns \<Longrightarrow> \<exists>p. tbl p = Some i"
    and "p \<noteq> [] \<Longrightarrow> tbl p = Some j \<Longrightarrow> \<exists>i. tbl (parent_path p) = Some i \<and> edge ns i j \<and> i < j"
    and "edge ns i j \<Longrightarrow> \<exists>p. p \<noteq> [] \<and> tbl p = Some j \<and> tbl (parent_path p) = Some i"
  using assms unfolding table_ok_def by blast+

lemma table_ok_forest:
  assumes "table_ok ns tbl"
  shows "forest ns"
proof -
  have "i < j \<and> j < length ns" if "edge ns i j" for i j
    using table_okD(6) [OF assms that] table_okD(2,5) [OF assms] by force
  moreover have "i = i'" if "edge ns i j" "edge ns i' j" for i i' j
    using table_okD(6) [OF assms that(1)] table_okD(6) [OF assms that(2)] table_okD(3) [OF assms]
    by (metis option.inject)
  ultimately show ?thesis unfolding forest_def by blast
qed

lemma table_ok_shape:
  assumes "map shape ns' = map shape ns" "table_ok ns tbl"
  shows "table_ok ns' tbl"
  using assms(2) unfolding table_ok_def edge_shape [OF assms(1)] shape_length [OF assms(1)] .

lemma shape_fields:
  "shape n = shape m \<Longrightarrow> sn_name n = sn_name m \<and> sn_regex n = sn_regex m \<and> sn_line_nr n = sn_line_nr m \<and>
     sn_subnodes_contain_regex n = sn_subnodes_contain_regex m \<and> sn_search_match n = sn_search_match m"
  by (cases n; cases m) (simp add: shape_def)

lemma names_ok_shape:
  assumes sh: "map shape ns' = map shape ns" and t: "table_ok ns tbl" and n: "names_ok ns tbl"
  shows "names_ok ns' tbl"
proof -
  have same: "sn_name (ns' ! k) = sn_name (ns ! k) \<and> sn_regex (ns' ! k) = sn_regex (ns ! k) \<and>
      sn_subnodes_contain_regex (ns' ! k) = sn_subnodes_contain_regex (ns ! k) \<and>
      sn_subnodes (ns' ! k) = sn_subnodes (ns ! k)" if "k < length ns" for k
    using shape_fields [OF shape_nth [OF sh that]] shape_subnodes [OF shape_nth [OF sh that]] by simp
  have ex: "list_ex (\<lambda>j. sn_regex (ns' ! j) \<noteq> None) (sn_subnodes (ns ! i)) \<longleftrightarrow>
      list_ex (\<lambda>j. sn_regex (ns ! j) \<noteq> None) (sn_subnodes (ns ! i))" if i: "i < length ns" for i
  proof (rule list_ex_cong [OF refl])
    fix j assume "j \<in> set (sn_subnodes (ns ! i))"
    then have "edge ns i j" using i by (simp add: edge_def)
    then have "j < length ns" using table_ok_forest [OF t] unfolding forest_def by blast
    from same [OF this] show "sn_regex (ns' ! j) \<noteq> None \<longleftrightarrow> sn_regex (ns ! j) \<noteq> None" by simp
  qed
  show ?thesis unfolding names_ok_def
  proof (intro conjI allI impI)
    show "(sn_name (ns' ! j), sn_regex (ns' ! j)) = node_name q" if "q \<noteq> []" "tbl q = Some j" for q j
      using n that same [OF table_okD(2) [OF t that(2)]] by (simp add: names_ok_def)
    fix i assume "i < length ns'"
    then have i: "i < length ns" using shape_length [OF sh] by simp
    then show "distinct (sn_subnodes (ns' ! i))" using n same [OF i] by (simp add: names_ok_def)
    show "sn_subnodes_contain_regex (ns' ! i) \<longleftrightarrow>
        list_ex (\<lambda>j. sn_regex (ns' ! j) \<noteq> None) (sn_subnodes (ns' ! i))"
      using n same [OF i] i ex [OF i] by (simp add: names_ok_def)
  qed
qed

lemma compileName_Inr:
  "compileName regcomp (snd (split_path path)) line_nr = Inr nr \<Longrightarrow> nr = node_name path"
  by (auto simp: compileName_def node_name_def bindE_eq_Inr Let_def split: if_splits)

text \<open>What matters of a node for the policies.\<close>

definition policy_of :: "search_node \<Rightarrow> backup_policy \<times> bool" where
  "policy_of node = (sn_policy node, sn_policy_inherited node)"

lemma edge_ok_policy_of:
  "policy_of (ns' ! i) = policy_of (ns ! i) \<Longrightarrow> policy_of (ns' ! j) = policy_of (ns ! j) \<Longrightarrow>
     edge_ok ns' i j = edge_ok ns i j"
  by (simp add: edge_ok_def policy_of_def inherits_def)

lemma insertNode_ok:
  assumes add: "insertNode regcomp path line_nr parent p = Inr (new, p')"
    and t: "table_ok (tree_nodes p) (existing_nodes p)" and n: "names_ok (tree_nodes p) (existing_nodes p)"
    and pol: "policies_ok (tree_nodes p)"
    and path: "path \<noteq> []" "existing_nodes p path = None" "existing_nodes p (parent_path path) = Some parent"
  shows "new = length (tree_nodes p)"
    and "\<exists>ns. p' = p\<lparr>tree_nodes := ns, existing_nodes := (existing_nodes p)(path \<mapsto> new)\<rparr> \<and> length ns = Suc new"
    and "table_ok (tree_nodes p') (existing_nodes p')" "names_ok (tree_nodes p') (existing_nodes p')"
    and "policies_ok (tree_nodes p')" "inherits (tree_nodes p' ! new)"
    and "\<forall>k < new. policy_of (tree_nodes p' ! k) = policy_of (tree_nodes p ! k)"
proof -
  let ?ns = "tree_nodes p" and ?tbl = "existing_nodes p"
  let ?pn = "?ns ! parent"
  obtain name regex where nr: "(name, regex) = node_name path"
      and c: "compileName regcomp (snd (split_path path)) line_nr = Inr (name, regex)"
    using add compileName_Inr unfolding insertNode_def bindE_eq_Inr by fast
  define node where "node = \<lparr>sn_name = name, sn_line_nr = line_nr, sn_regex = regex,
      sn_search_match = SRT_none, sn_policy = sn_policy ?pn,
      sn_policy_inherited = (sn_policy ?pn \<noteq> BPOL_none), sn_policy_line_nr = line_nr,
      sn_subnodes = [], sn_subnodes_contain_regex = False\<rparr>"
  define pn where "pn = ?pn\<lparr>sn_subnodes := length ?ns # sn_subnodes ?pn,
      sn_subnodes_contain_regex := (sn_subnodes_contain_regex ?pn \<or> regex \<noteq> None)\<rparr>"
  define ns where "ns = ?ns[parent := pn] @ [node]"
  have p': "new = length ?ns" "p' = p\<lparr>tree_nodes := ns, existing_nodes := ?tbl(path \<mapsto> length ?ns)\<rparr>"
    using add by (auto simp: insertNode_def c ns_def node_def pn_def Let_def)
  have len: "length ns = Suc (length ?ns)" by (simp add: ns_def)
  have parent: "parent < length ?ns" using table_okD(2) [OF t path(3)] .
  have nth: "ns ! k = (if k = parent then pn else ?ns ! k)" if "k < length ?ns" for k
    using that by (simp add: ns_def nth_append nth_list_update)
  have last: "ns ! length ?ns = node" by (simp add: ns_def nth_append)
  have below: "j < length ?ns" if "edge ?ns i j" for i j
    using table_ok_forest [OF t] that by (auto simp: forest_def)
  have e: "edge ns i j \<longleftrightarrow> edge ?ns i j \<or> (i = parent \<and> j = length ?ns)" for i j
  proof (cases "i < length ?ns")
    case True
    then show ?thesis by (auto simp: edge_def len nth pn_def)
  next
    case False
    then have "edge ns i j \<longleftrightarrow> False" by (auto simp: edge_def len last node_def less_Suc_eq)
    then show ?thesis using False parent by (auto simp: edge_def)
  qed
  show "new = length ?ns" by (rule p'(1))
  show "\<exists>ns. p' = p\<lparr>tree_nodes := ns, existing_nodes := ?tbl(path \<mapsto> new)\<rparr> \<and> length ns = Suc new"
    using p' len by blast
  have pp: "parent_path path \<noteq> path" using path(2,3) by auto
  show "table_ok (tree_nodes p') (existing_nodes p')"
    unfolding table_ok_def
  proof (intro conjI allI impI)
    show "existing_nodes p' [] = Some 0" using path(1) table_okD(1) [OF t] by (simp add: p')
    show "i < length (tree_nodes p')" if "existing_nodes p' q = Some i" for q i
      using that table_okD(2) [OF t, of q i] by (auto simp: p' len split: if_splits)
    show "q = r" if "existing_nodes p' q = Some i" "existing_nodes p' r = Some i" for q r i
      using that table_okD(2,3) [OF t] by (auto simp: p' split: if_splits)
    show "\<exists>q. existing_nodes p' q = Some i" if bound: "i < length (tree_nodes p')" for i
    proof (cases "i = length ?ns")
      case True
      then show ?thesis by (intro exI [of _ path]) (simp add: p')
    next
      case False
      then obtain q where "?tbl q = Some i" using bound table_okD(4) [OF t, of i] by (auto simp: p' len)
      moreover from this have "q \<noteq> path" using path(2) by auto
      ultimately show ?thesis by (intro exI [of _ q]) (simp add: p')
    qed
    show "\<exists>i. existing_nodes p' (parent_path q) = Some i \<and> edge (tree_nodes p') i j \<and> i < j"
      if q: "q \<noteq> []" "existing_nodes p' q = Some j" for q j
    proof (cases "q = path")
      case True
      then show ?thesis using q path(3) pp parent by (auto simp: p' e)
    next
      case False
      then obtain i where "?tbl (parent_path q) = Some i" "edge ?ns i j" "i < j"
        using q table_okD(5) [OF t, of q j] by (auto simp: p')
      moreover from this have "parent_path q \<noteq> path" using path(2) by auto
      ultimately show ?thesis by (auto simp: p' e)
    qed
    show "\<exists>q. q \<noteq> [] \<and> existing_nodes p' q = Some j \<and> existing_nodes p' (parent_path q) = Some i"
      if "edge (tree_nodes p') i j" for i j
    proof (cases "edge ?ns i j")
      case True
      then obtain q where "q \<noteq> []" "?tbl q = Some j" "?tbl (parent_path q) = Some i"
        using table_okD(6) [OF t] by blast
      moreover from this have "q \<noteq> path" "parent_path q \<noteq> path" using path(2) by auto
      ultimately show ?thesis by (intro exI [of _ q]) (simp add: p')
    next
      case False
      then show ?thesis using that path pp by (intro exI [of _ path]) (auto simp: p' e)
    qed
  qed
  have fields: "sn_name (ns ! k) = sn_name (?ns ! k) \<and> sn_regex (ns ! k) = sn_regex (?ns ! k) \<and>
      policy_of (ns ! k) = policy_of (?ns ! k)" if "k < length ?ns" for k
    using that by (simp add: nth pn_def policy_of_def)
  then show old: "\<forall>k < new. policy_of (tree_nodes p' ! k) = policy_of (tree_nodes p ! k)"
    by (simp add: p')
  show "names_ok (tree_nodes p') (existing_nodes p')"
    unfolding names_ok_def
  proof (intro conjI allI impI)
    show "(sn_name (tree_nodes p' ! j), sn_regex (tree_nodes p' ! j)) = node_name q"
      if "q \<noteq> []" "existing_nodes p' q = Some j" for q j
      using that nr last n table_okD(2) [OF t, of q j] fields [of j]
      by (auto simp: p' node_def names_ok_def split: if_splits)
    fix i
    assume "i < length (tree_nodes p')"
    then consider "i < length ?ns" | "i = length ?ns" by (auto simp: p' len less_Suc_eq)
    then show "distinct (sn_subnodes (tree_nodes p' ! i))"
    proof cases
      case 1
      then show ?thesis using n below by (auto simp: p' nth pn_def names_ok_def edge_def)
    qed (simp add: p' last node_def)
    have ex: "list_ex (\<lambda>j. sn_regex (ns ! j) \<noteq> None) (sn_subnodes (?ns ! i)) \<longleftrightarrow>
        sn_subnodes_contain_regex (?ns ! i)" if "i < length ?ns"
    proof -
      have "sn_regex (ns ! j) = sn_regex (?ns ! j)" if "j \<in> set (sn_subnodes (?ns ! i))" for j
        using that \<open>i < length ?ns\<close> below fields by (simp add: edge_def)
      then have "list_ex (\<lambda>j. sn_regex (ns ! j) \<noteq> None) (sn_subnodes (?ns ! i)) \<longleftrightarrow>
          list_ex (\<lambda>j. sn_regex (?ns ! j) \<noteq> None) (sn_subnodes (?ns ! i))"
        by (intro list_ex_cong [OF refl]) simp
      then show ?thesis using n that by (simp add: names_ok_def)
    qed
    from \<open>i < length (tree_nodes p')\<close> consider "i < length ?ns" | "i = length ?ns" by (auto simp: p' len less_Suc_eq)
    then show "sn_subnodes_contain_regex (tree_nodes p' ! i) \<longleftrightarrow>
        list_ex (\<lambda>j. sn_regex (tree_nodes p' ! j) \<noteq> None) (sn_subnodes (tree_nodes p' ! i))"
    proof cases
      case 1
      then show ?thesis using ex by (auto simp: p' nth pn_def last node_def)
    qed (simp add: p' last node_def)
  qed
  have "edge_ok ns i j" if "edge ns i j" for i j
  proof (cases "edge ?ns i j")
    case True
    then show ?thesis
      using pol fields [of i] fields [of j] below [OF True] edge_ok_policy_of [of ns i ?ns j]
      by (auto simp: policies_ok_def edge_def)
  next
    case False
    then have "i = parent" "j = length ?ns" using that e by auto
    then show ?thesis using fields [OF parent] by (simp add: edge_ok_def last node_def policy_of_def)
  qed
  moreover have "\<not> sn_policy_inherited (ns ! 0)"
    using pol fields [OF order.strict_trans1 [OF le0 parent]] by (simp add: policies_ok_def policy_of_def)
  ultimately show "policies_ok (tree_nodes p')" by (simp add: policies_ok_def p')
  show "inherits (tree_nodes p' ! new)" by (simp add: p' last node_def inherits_def)
qed

text \<open>A path and all paths it goes through, up to the root.\<close>

lemma parent_path_shorter: "p \<noteq> [] \<Longrightarrow> length (parent_path p) < length p"
  by (simp add: parent_path_def split_path_head_shorter)

function ancestors :: "string \<Rightarrow> string list" where
  "ancestors p = p # (if p = [] then [] else ancestors (parent_path p))"
  by pat_completeness auto
termination by (relation "measure length") (auto simp: parent_path_shorter)

declare ancestors.simps [simp del]

lemma ancestors_shorter: "q \<in> set (ancestors p) \<Longrightarrow> length q \<le> length p"
proof (induction p rule: ancestors.induct)
  case (1 p)
  show ?case
  proof (cases "q = p")
    case False
    then have "p \<noteq> []" "q \<in> set (ancestors (parent_path p))"
      using "1.prems" ancestors.simps [of p] by (auto split: if_splits)
    then show ?thesis using "1.IH" parent_path_shorter [of p] by simp
  qed simp
qed

definition parser_ok :: "parser \<Rightarrow> bool" where
  "parser_ok p \<longleftrightarrow> table_ok (tree_nodes p) (existing_nodes p) \<and> names_ok (tree_nodes p) (existing_nodes p) \<and>
     policies_ok (tree_nodes p)"

lemma ancestors_in_table:
  "table_ok ns tbl \<Longrightarrow> tbl p \<noteq> None \<Longrightarrow> set (ancestors p) \<subseteq> dom tbl"
proof (induction p rule: ancestors.induct)
  case (1 p)
  then show ?case using table_okD(5) [OF "1.prems"(1), of p] by (subst ancestors.simps) auto
qed

text \<open>New nodes inherit, and the old ones keep their policies.\<close>

definition extends_by :: "string \<Rightarrow> parser \<Rightarrow> parser \<Rightarrow> bool" where
  "extends_by path p p' \<longleftrightarrow> parser_ok p' \<and>
     existing_nodes p \<subseteq>\<^sub>m existing_nodes p' \<and>
     dom (existing_nodes p') = dom (existing_nodes p) \<union> set (ancestors path) \<and>
     length (tree_nodes p) \<le> length (tree_nodes p') \<and>
     (\<forall>k < length (tree_nodes p). policy_of (tree_nodes p' ! k) = policy_of (tree_nodes p ! k)) \<and>
     (\<forall>k < length (tree_nodes p'). length (tree_nodes p) \<le> k \<longrightarrow> inherits (tree_nodes p' ! k)) \<and>
     p' = p\<lparr>tree_nodes := tree_nodes p', existing_nodes := existing_nodes p'\<rparr>"

lemma newNode_ok:
  assumes "newNode regcomp path line_nr p = Inr (i, p')" "parser_ok p" "path \<noteq> []"
    "existing_nodes p path = None"
  shows "extends_by path p p' \<and> existing_nodes p' path = Some i"
  using assms
proof (induction regcomp path line_nr p arbitrary: i p' rule: newNode.induct)
  case (1 regcomp path line_nr p)
  let ?parent = "parent_path path"
  note table = "1.prems"(2) [unfolded parser_ok_def, THEN conjunct1]
  have anc: "set (ancestors path) = insert path (set (ancestors ?parent))"
    using "1.prems"(3) by (subst ancestors.simps) simp
  from "1.prems"(1) obtain par p1 where
      par: "(case existing_nodes p ?parent of Some parent_node \<Rightarrow> Inr (parent_node, p)
        | None \<Rightarrow> if length ?parent < length path then newNode regcomp ?parent line_nr p
                  else Inl Endless_recursion) = Inr (par, p1)"
      and add: "insertNode regcomp path line_nr par p1 = Inr (i, p')"
    unfolding newNode.simps [of regcomp path line_nr p] Let_def parent_path_def [symmetric]
    by (auto simp: bindE_eq_Inr)
  have p1: "extends_by ?parent p p1 \<and> existing_nodes p1 ?parent = Some par \<and> existing_nodes p1 path = None"
  proof (cases "existing_nodes p ?parent")
    case None
    have ne: "?parent \<noteq> []" using None table_okD(1) [OF table] by auto
    have short: "length ?parent < length path" using "1.prems"(3) by (rule parent_path_shorter)
    have e: "extends_by ?parent p p1 \<and> existing_nodes p1 ?parent = Some par"
      using "1.IH" [OF refl None [unfolded parent_path_def] short [unfolded parent_path_def]]
        par None short "1.prems"(2) ne by (simp add: parent_path_def)
    have "path \<notin> set (ancestors ?parent)" using ancestors_shorter [of path ?parent] short by auto
    with e "1.prems"(4) show ?thesis unfolding extends_by_def by auto
  next
    case (Some j)
    then have "set (ancestors ?parent) \<subseteq> dom (existing_nodes p)"
      using ancestors_in_table [OF table] by simp
    with Some par "1.prems"(2,4) show ?thesis
      by (auto simp: extends_by_def simp del: length_0_conv)
  qed
  then have ok1: "parser_ok p1" by (simp add: extends_by_def)
  note new = insertNode_ok [OF add conjunct1 [OF ok1 [unfolded parser_ok_def]] _ _ "1.prems"(3)]
  have new: "i = length (tree_nodes p1)" "parser_ok p'" "inherits (tree_nodes p' ! i)"
      "\<exists>ns. p' = p1\<lparr>tree_nodes := ns, existing_nodes := (existing_nodes p1)(path \<mapsto> i)\<rparr> \<and> length ns = Suc i"
      "\<forall>k < i. policy_of (tree_nodes p' ! k) = policy_of (tree_nodes p1 ! k)"
    using new p1 ok1 by (simp_all add: parser_ok_def)
  then have t': "existing_nodes p' = (existing_nodes p1)(path \<mapsto> i)" "length (tree_nodes p') = Suc i"
      "p' = p1\<lparr>tree_nodes := tree_nodes p', existing_nodes := existing_nodes p'\<rparr>"
    by auto
  have e: "extends_by ?parent p p1" "existing_nodes p1 path = None" using p1 by simp_all
  have "extends_by path p p'"
    unfolding extends_by_def
  proof (intro conjI)
    show "parser_ok p'" by (rule new(2))
    show "existing_nodes p \<subseteq>\<^sub>m existing_nodes p'"
      using e by (auto simp: extends_by_def map_le_def t'(1) dom_def)
    show "dom (existing_nodes p') = dom (existing_nodes p) \<union> set (ancestors path)"
      using e(1) by (auto simp: extends_by_def t'(1) anc)
    show "length (tree_nodes p) \<le> length (tree_nodes p')"
      using e(1) new(1) t'(2) by (simp add: extends_by_def)
    show "\<forall>k < length (tree_nodes p). policy_of (tree_nodes p' ! k) = policy_of (tree_nodes p ! k)"
      using e(1) new(1,5) by (simp add: extends_by_def)
    show "\<forall>k < length (tree_nodes p'). length (tree_nodes p) \<le> k \<longrightarrow> inherits (tree_nodes p' ! k)"
      using e(1) new(1,3,5) t'(2) by (auto simp: extends_by_def less_Suc_eq policy_of_def inherits_def)
    have "p1 = p\<lparr>tree_nodes := tree_nodes p1, existing_nodes := existing_nodes p1\<rparr>"
      using e(1) unfolding extends_by_def by blast
    with t'(3) show "p' = p\<lparr>tree_nodes := tree_nodes p', existing_nodes := existing_nodes p'\<rparr>"
      by (cases p; cases p1; cases p') simp
  qed
  then show ?case by (simp add: t'(1))
qed

lemma newNode_returns:
  assumes "table_ok (tree_nodes p) (existing_nodes p)" "path \<noteq> []"
  shows "newNode regcomp path line_nr p \<noteq> Inl Endless_recursion"
  using assms
proof (induction regcomp path line_nr p rule: newNode.induct)
  case (1 regcomp path line_nr p)
  have add: "insertNode regcomp path line_nr i q \<noteq> Inl Endless_recursion" for i q
    by (auto simp: insertNode_def compileName_def sRegexCompile_def bindE_eq_Inl Let_def split: option.splits)
  have short: "length (fst (split_path path)) < length path"
    using "1.prems"(2) by (rule split_path_head_shorter)
  show ?case
  proof (cases "existing_nodes p (fst (split_path path))")
    case None
    then have "fst (split_path path) \<noteq> []" using table_okD(1) [OF "1.prems"(1)] by auto
    then show ?thesis
      using "1.IH" [OF refl None short "1.prems"(1)] add None short
      by (subst newNode.simps) (auto simp: bindE_eq_Inl Let_def)
  next
    case (Some i)
    then show ?thesis using add by (subst newNode.simps) (simp add: Let_def)
  qed
qed

lemma setPolicy_ok:
  assumes ok: "parser_ok p" and i: "i < length (tree_nodes p)" and pol: "current_policy p \<noteq> BPOL_none"
  shows "\<exists>ns. setPolicy line_nr i p = Inr (p\<lparr>tree_nodes := ns\<rparr>) \<and> parser_ok (p\<lparr>tree_nodes := ns\<rparr>) \<and>
    policy_of (ns ! i) = (current_policy p, False) \<and>
    (\<forall>k < length (tree_nodes p). k \<noteq> i \<longrightarrow>
       (if inherits (tree_nodes p ! k) then inherits (ns ! k) else policy_of (ns ! k) = policy_of (tree_nodes p ! k)))"
proof -
  let ?ns = "tree_nodes p"
  let ?node = "(?ns ! i)\<lparr>sn_policy := current_policy p, sn_policy_inherited := False,
    sn_policy_line_nr := line_nr\<rparr>"
  let ?ns1 = "?ns[i := ?node]"
  have t: "table_ok ?ns (existing_nodes p)" "names_ok ?ns (existing_nodes p)" "policies_ok ?ns"
    using ok by (simp_all add: parser_ok_def)
  have sh: "map shape ?ns1 = map shape ?ns" by (rule shape_update) simp
  have "forest ?ns1" using table_ok_forest [OF t(1)] forest_shape [OF sh] by simp
  then obtain ns where ns: "inheritPolicyToSubnodes (Suc (length ?ns1)) i ?ns1 = Inr ns"
      and re: "repolicy i {(i, c) | c. True} ?ns1 ns"
    using inheritPolicyToSubnodes_repolicy [of ?ns1 i "Suc (length ?ns1)"] i pol by auto
  have set: "setPolicy line_nr i p = Inr (p\<lparr>tree_nodes := ns\<rparr>)"
    using ns unfolding setPolicy_def Let_def by (simp only: bindE_simps)
  have sh2: "map shape ns = map shape ?ns" using repolicyD(1) [OF re] sh by simp
  have at_i: "ns ! i = ?node" using repolicyD(2) [OF re, of i] i by simp
  have "edge_ok ns a b" if "edge ?ns a b" for a b
  proof (rule repolicyD(4) [OF re])
    show "edge ?ns1 a b" using that edge_shape [OF sh] by simp
    have "edge_ok ?ns a b" using t(3) that by (simp add: policies_ok_def)
    then show "(a, b) \<in> {(i, c) | c. True} \<or> edge_ok ?ns1 a b"
      using i pol by (cases "b = i") (auto simp: edge_ok_def inherits_def)
  qed
  moreover have "\<not> sn_policy_inherited (ns ! 0)"
  proof -
    have "0 < length ?ns" by (rule order.strict_trans1 [OF le0 i])
    then have "ns ! 0 = ?ns1 ! 0" using repolicyD(2) [OF re, of 0] by simp
    then show ?thesis using t(3) i by (cases "i = 0") (simp_all add: policies_ok_def)
  qed
  ultimately have "policies_ok ns" using edge_shape [OF sh2] by (simp add: policies_ok_def)
  then have "parser_ok (p\<lparr>tree_nodes := ns\<rparr>)"
    using table_ok_shape [OF sh2 t(1)] names_ok_shape [OF sh2 t(1,2)] by (simp add: parser_ok_def)
  moreover have "if inherits (?ns ! k) then inherits (ns ! k) else policy_of (ns ! k) = policy_of (?ns ! k)"
    if "k < length ?ns" "k \<noteq> i" for k
    using repolicyD(2,3) [OF re, of k] that by simp
  moreover have "policy_of (ns ! i) = (current_policy p, False)" using at_i by (simp add: policy_of_def)
  ultimately show ?thesis using set by blast
qed

section \<open>What a configuration declares\<close>

definition ignorable :: "string \<Rightarrow> bool" where
  "ignorable line \<longleftrightarrow> is_whitespace_only line \<or> line ! 0 = CHR ''#''"

definition section_policy :: "string \<Rightarrow> backup_policy option" where
  "section_policy line = map_of [(''[copy]'', BPOL_copy), (''[mirror]'', BPOL_mirror),
     (''[track]'', BPOL_track), (''[ignore]'', BPOL_ignore), (''[summarize]'', BPOL_summarize)] line"

text \<open>The patterns of a list of lines, with the policy of their section and their line.\<close>

fun patterns :: "(nat \<times> string) list \<Rightarrow> backup_policy \<Rightarrow> (backup_policy \<times> nat \<times> string) list" where
  "patterns [] pol = []"
| "patterns ((n, line) # ls) pol =
     (if ignorable line then patterns ls pol
      else case section_policy line of
             Some pol' \<Rightarrow> patterns ls pol'
           | None \<Rightarrow> (pol, n, line) # patterns ls pol)"

definition expressions :: "backup_policy \<Rightarrow> (backup_policy \<times> nat \<times> string) list \<Rightarrow> regex_entry list" where
  "expressions pol ps =
     rev (map (\<lambda>(_, n, line). \<lparr>expression = line, re_line_nr = n, has_matched = False\<rparr>)
       (filter (\<lambda>(pol', _). pol' = pol) ps))"

definition declared :: "(backup_policy \<times> nat \<times> string) list \<Rightarrow> (string \<times> backup_policy) list" where
  "declared ps = map (\<lambda>(pol, _, line). (strip_slashes line, pol))
     (filter (\<lambda>(pol, _). pol \<noteq> BPOL_ignore \<and> pol \<noteq> BPOL_summarize) ps)"

text \<open>The policy of a path: its own, or the one of the nearest path above that has one.\<close>

function effective_policy :: "(string \<times> backup_policy) list \<Rightarrow> string \<Rightarrow> backup_policy" where
  "effective_policy ds p =
     (case map_of ds p of Some pol \<Rightarrow> pol
      | None \<Rightarrow> if p = [] then BPOL_none else effective_policy ds (parent_path p))"
  by pat_completeness auto
termination by (relation "measure (length \<circ> snd)") (auto simp: parent_path_shorter)

declare effective_policy.simps [simp del]

definition policies_declared :: "(string \<times> backup_policy) list \<Rightarrow> parser \<Rightarrow> bool" where
  "policies_declared ds p \<longleftrightarrow> parser_ok p \<and> distinct (map fst ds) \<and> (\<forall>d \<in> set ds. snd d \<noteq> BPOL_none) \<and>
     (\<forall>q i. existing_nodes p q = Some i \<longrightarrow>
        (case map_of ds q of
           Some pol \<Rightarrow> policy_of (tree_nodes p ! i) = (pol, False)
         | None \<Rightarrow> inherits (tree_nodes p ! i)))"

definition declares :: "(string \<times> backup_policy) list \<Rightarrow> parser \<Rightarrow> bool" where
  "declares ds p \<longleftrightarrow> policies_declared ds p \<and>
     dom (existing_nodes p) = insert [] (\<Union>d \<in> set ds. set (ancestors (fst d)))"

lemma self_ancestor: "p \<in> set (ancestors p)"
  by (subst ancestors.simps) simp

lemma declared_in_table: "declares ds p \<Longrightarrow> d \<in> set ds \<Longrightarrow> existing_nodes p (fst d) \<noteq> None"
  using self_ancestor unfolding declares_def by blast

lemma policies_declared_setPolicy:
  assumes d: "policies_declared ds p" and q: "existing_nodes p path = Some i" and inh: "map_of ds path = None"
    and pol: "current_policy p \<noteq> BPOL_none"
  shows "\<exists>ns. setPolicy line_nr i p = Inr (p\<lparr>tree_nodes := ns\<rparr>) \<and>
    policies_declared (ds @ [(path, current_policy p)]) (p\<lparr>tree_nodes := ns\<rparr>)"
proof -
  have t: "table_ok (tree_nodes p) (existing_nodes p)" and ok: "parser_ok p"
    using d by (simp_all add: policies_declared_def parser_ok_def)
  obtain ns where ns: "setPolicy line_nr i p = Inr (p\<lparr>tree_nodes := ns\<rparr>)" "parser_ok (p\<lparr>tree_nodes := ns\<rparr>)"
      "policy_of (ns ! i) = (current_policy p, False)"
      "\<And>k. k < length (tree_nodes p) \<Longrightarrow> k \<noteq> i \<Longrightarrow>
        (if inherits (tree_nodes p ! k) then inherits (ns ! k) else policy_of (ns ! k) = policy_of (tree_nodes p ! k))"
    using setPolicy_ok [OF ok table_okD(2) [OF t q] pol] by blast
  have a: "case map_of (ds @ [(path, current_policy p)]) r of
      Some pol \<Rightarrow> policy_of (ns ! k) = (pol, False) | None \<Rightarrow> inherits (ns ! k)"
    if r: "existing_nodes p r = Some k" for r k
  proof (cases "r = path")
    case True
    then show ?thesis using ns(3) inh q r by (simp add: map_add_def)
  next
    case False
    then have k: "k \<noteq> i" "k < length (tree_nodes p)" using table_okD(2,3) [OF t] q r by auto
    have "case map_of ds r of Some pol \<Rightarrow> policy_of (tree_nodes p ! k) = (pol, False)
        | None \<Rightarrow> inherits (tree_nodes p ! k)"
      using d r unfolding policies_declared_def by blast
    moreover have "pol' \<noteq> BPOL_none" if "map_of ds r = Some pol'" for pol'
      using d map_of_SomeD [OF that] by (auto simp: policies_declared_def)
    ultimately show ?thesis using ns(4) [OF k(2,1)] False
      by (auto simp: map_add_def inherits_def policy_of_def split: option.splits if_splits)
  qed
  have b: "path \<notin> fst ` set ds" using inh by (simp add: map_of_eq_None_iff)
  have "policies_declared (ds @ [(path, current_policy p)]) (p\<lparr>tree_nodes := ns\<rparr>)"
    unfolding policies_declared_def
  proof (intro conjI allI impI)
    show "parser_ok (p\<lparr>tree_nodes := ns\<rparr>)" by (rule ns(2))
    show "distinct (map fst (ds @ [(path, current_policy p)]))" using d b by (auto simp: policies_declared_def)
    show "\<forall>d \<in> set (ds @ [(path, current_policy p)]). snd d \<noteq> BPOL_none"
      using d pol by (auto simp: policies_declared_def)
    fix r k assume "existing_nodes (p\<lparr>tree_nodes := ns\<rparr>) r = Some k"
    then show "case map_of (ds @ [(path, current_policy p)]) r of
        None \<Rightarrow> inherits (tree_nodes (p\<lparr>tree_nodes := ns\<rparr>) ! k)
      | Some pol \<Rightarrow> policy_of (tree_nodes (p\<lparr>tree_nodes := ns\<rparr>) ! k) = (pol, False)"
      using a [of r k] by (simp cong: option.case_cong)
  qed
  with ns(1) show ?thesis by blast
qed

lemma declares_extend:
  assumes d: "declares ds p" and e: "extends_by path p p'" and new: "existing_nodes p path = None"
  shows "map_of ds path = None" and "policies_declared ds p'"
proof -
  show "map_of ds path = None"
    using declared_in_table [OF d, of "(path, _)"] new by (force dest: map_of_SomeD simp: map_of_eq_None_iff)
  have ok: "parser_ok p" "parser_ok p'" using d e by (simp_all add: declares_def policies_declared_def extends_by_def)
  have "case map_of ds q of
      Some pol \<Rightarrow> policy_of (tree_nodes p' ! i) = (pol, False) | None \<Rightarrow> inherits (tree_nodes p' ! i)"
    if q: "existing_nodes p' q = Some i" for q i
  proof (cases "i < length (tree_nodes p)")
    case True
    then obtain r where "existing_nodes p r = Some i"
      using ok(1) table_okD(4) unfolding parser_ok_def by blast
    moreover from this have "r = q"
      using e q ok(2) table_okD(3) [of "tree_nodes p'" "existing_nodes p'" r i q]
      unfolding extends_by_def parser_ok_def map_le_def by (metis domI)
    moreover have "policy_of (tree_nodes p' ! i) = policy_of (tree_nodes p ! i)"
      using e True by (simp add: extends_by_def)
    ultimately show ?thesis
      using d unfolding declares_def policies_declared_def by (fastforce simp: policy_of_def inherits_def split: option.splits)
  next
    case False
    then have "existing_nodes p q = None"
      using e q table_okD(2) [of "tree_nodes p" "existing_nodes p" q] ok(1)
      unfolding extends_by_def parser_ok_def map_le_def by (metis domI domIff option.inject)
    then have "map_of ds q = None"
      using declared_in_table [OF d, of "(q, _)"] by (force dest: map_of_SomeD simp: map_of_eq_None_iff)
    moreover have "inherits (tree_nodes p' ! i)"
      using e False q table_okD(2) [of "tree_nodes p'" "existing_nodes p'" q i] ok(2)
      by (simp add: extends_by_def parser_ok_def)
    ultimately show ?thesis by simp
  qed
  then show "policies_declared ds p'"
    using d ok(2) unfolding declares_def policies_declared_def by blast
qed

lemma addExpression_fields:
  "addExpression regcomp n line p = Inr p' \<Longrightarrow> tree_nodes p' = tree_nodes p \<and>
     existing_nodes p' = existing_nodes p \<and> current_policy p' = current_policy p"
  by (auto simp: addExpression_def bindE_eq_Inr Let_def)

lemma declares_cong:
  "tree_nodes p' = tree_nodes p \<Longrightarrow> existing_nodes p' = existing_nodes p \<Longrightarrow> declares ds p' = declares ds p"
  unfolding declares_def policies_declared_def parser_ok_def by (simp cong: option.case_cong)

lemma setPolicy_fields:
  "setPolicy n i p = Inr p' \<Longrightarrow> existing_nodes p' = existing_nodes p \<and> current_policy p' = current_policy p \<and>
     ignore_expressions p' = ignore_expressions p \<and> summarize_expressions p' = summarize_expressions p"
  unfolding setPolicy_def Let_def bindE_eq_Inr by auto

lemma definePath_step:
  assumes d: "declares ds p" and pol: "current_policy p \<noteq> BPOL_none"
  shows "definePath regcomp n line p \<noteq> Inl Endless_recursion"
    and "definePath regcomp n line p = Inr p' \<Longrightarrow>
      declares (ds @ [(strip_slashes line, current_policy p)]) p' \<and> current_policy p' = current_policy p \<and>
      ignore_expressions p' = ignore_expressions p \<and> summarize_expressions p' = summarize_expressions p"
proof -
  let ?path = "strip_slashes line"
  have ok: "parser_ok p" and t: "table_ok (tree_nodes p) (existing_nodes p)"
    using d by (simp_all add: declares_def policies_declared_def parser_ok_def)
  have pd: "policies_declared ds p" using d by (simp add: declares_def)
  have "definePath regcomp n line p \<noteq> Inl Endless_recursion \<and>
    (definePath regcomp n line p = Inr p' \<longrightarrow>
      declares (ds @ [(?path, current_policy p)]) p' \<and> current_policy p' = current_policy p \<and>
      ignore_expressions p' = ignore_expressions p \<and> summarize_expressions p' = summarize_expressions p)"
  proof (cases "has_dot_elements line")
    case True
    then show ?thesis by (simp add: definePath_def)
  next
    case False
    note no_dots = this
    show ?thesis
    proof (cases "existing_nodes p ?path")
      case (Some i)
      show ?thesis
      proof (cases "inherits (tree_nodes p ! i)")
        case True
        have "case map_of ds ?path of Some pol \<Rightarrow> policy_of (tree_nodes p ! i) = (pol, False)
            | None \<Rightarrow> inherits (tree_nodes p ! i)"
          using pd Some unfolding policies_declared_def by blast
        moreover have "pol' \<noteq> BPOL_none" if "map_of ds ?path = Some pol'" for pol'
          using pd map_of_SomeD [OF that] by (auto simp: policies_declared_def)
        ultimately have "map_of ds ?path = None"
          using True by (cases "map_of ds ?path") (auto simp: policy_of_def inherits_def)
        from policies_declared_setPolicy [OF pd Some this pol, of n] obtain ns
          where ns: "setPolicy n i p = Inr (p\<lparr>tree_nodes := ns\<rparr>)"
            "policies_declared (ds @ [(?path, current_policy p)]) (p\<lparr>tree_nodes := ns\<rparr>)" by blast
        moreover have "dom (existing_nodes p) =
            insert [] (\<Union>d \<in> set (ds @ [(?path, current_policy p)]). set (ancestors (fst d)))"
          using d ancestors_in_table [OF t, of ?path] Some by (auto simp: declares_def)
        ultimately have "declares (ds @ [(?path, current_policy p)]) (p\<lparr>tree_nodes := ns\<rparr>)"
          by (simp add: declares_def)
        moreover note ns(1)
        moreover have "definePath regcomp n line p = setPolicy n i p"
          using no_dots Some True by (auto simp: definePath_def Let_def inherits_def)
        ultimately show ?thesis by auto
      next
        case False
        then show ?thesis using no_dots Some by (simp add: definePath_def Let_def inherits_def)
      qed
    next
      case None
      then have ne: "?path \<noteq> []" using table_okD(1) [OF t] by auto
      have def: "definePath regcomp n line p =
          bindE (newNode regcomp ?path n p) (\<lambda>(i, p). setPolicy n i p)"
        using no_dots None by (simp add: definePath_def Let_def)
      show ?thesis
      proof (cases "newNode regcomp ?path n p")
        case (Inl e)
        then show ?thesis using newNode_returns [OF t ne, of regcomp n] by (simp add: def)
      next
        case (Inr ip)
        then obtain i p1 where new: "newNode regcomp ?path n p = Inr (i, p1)" by (cases ip) auto
        note e = newNode_ok [OF new ok ne None]
        then have p1: "p1 = p\<lparr>tree_nodes := tree_nodes p1, existing_nodes := existing_nodes p1\<rparr>"
          unfolding extends_by_def by blast
        then have fields: "current_policy p1 = current_policy p" "ignore_expressions p1 = ignore_expressions p"
            "summarize_expressions p1 = summarize_expressions p"
          by (cases p; cases p1; simp)+
        from policies_declared_setPolicy [OF declares_extend(2) [OF d conjunct1 [OF e] None] conjunct2 [OF e]
            declares_extend(1) [OF d conjunct1 [OF e] None], of n] pol
        obtain ns where ns: "setPolicy n i p1 = Inr (p1\<lparr>tree_nodes := ns\<rparr>)"
            "policies_declared (ds @ [(?path, current_policy p)]) (p1\<lparr>tree_nodes := ns\<rparr>)"
          unfolding fields by blast
        have "dom (existing_nodes p1) =
            insert [] (\<Union>d \<in> set (ds @ [(?path, current_policy p)]). set (ancestors (fst d)))"
          using d e by (auto simp: declares_def extends_by_def)
        then have "declares (ds @ [(?path, current_policy p)]) (p1\<lparr>tree_nodes := ns\<rparr>)"
          using ns(2) by (simp add: declares_def)
        with ns(1) show ?thesis by (auto simp: def new fields)
      qed
    qed
  qed
  then show "definePath regcomp n line p \<noteq> Inl Endless_recursion"
    and "definePath regcomp n line p = Inr p' \<Longrightarrow>
      declares (ds @ [(strip_slashes line, current_policy p)]) p' \<and> current_policy p' = current_policy p \<and>
      ignore_expressions p' = ignore_expressions p \<and> summarize_expressions p' = summarize_expressions p"
    by blast+
qed


section \<open>Lines and files\<close>

lemma section_policy_simps:
  "line \<in> {''[copy]'', ''[mirror]'', ''[track]'', ''[ignore]'', ''[summarize]''} \<longleftrightarrow> section_policy line \<noteq> None"
  by (auto simp: section_policy_def)

lemma parseLine_ignorable: "ignorable line \<Longrightarrow> parseLine regcomp n line p = Inr p"
  by (simp add: parseLine_def ignorable_def)

lemma parseLine_section:
  "\<not> ignorable line \<Longrightarrow> section_policy line = Some pol \<Longrightarrow>
     parseLine regcomp n line p = Inr (p\<lparr>current_policy := pol\<rparr>)"
  by (auto simp: parseLine_def ignorable_def section_policy_def split: if_splits)

lemma parseLine_pattern:
  assumes "\<not> ignorable line" "section_policy line = None"
  shows "parseLine regcomp n line p =
    (if line ! 0 = CHR ''['' \<and> line ! (length line - 1) = CHR '']'' then
       Inl (Config_invalid_policy n (take (length line - 2) (drop 1 line)))
     else if current_policy p = BPOL_none then Inl (Config_pattern_without_policy n line)
     else if current_policy p = BPOL_ignore \<or> current_policy p = BPOL_summarize then
       addExpression regcomp n line p
     else if line ! 0 = CHR ''/'' then definePath regcomp n line p
     else Inl (Config_invalid_path n line))"
  using assms section_policy_simps [of line] unfolding parseLine_def ignorable_def by auto

lemma parseLines_declares:
  assumes "declares ds p" "parseLines regcomp ls p = Inr p'"
  shows "declares (ds @ declared (patterns ls (current_policy p))) p' \<and>
    ignore_expressions p' = expressions BPOL_ignore (patterns ls (current_policy p)) @ ignore_expressions p \<and>
    summarize_expressions p' = expressions BPOL_summarize (patterns ls (current_policy p)) @ summarize_expressions p"
  using assms
proof (induction ls arbitrary: ds p)
  case Nil
  then show ?case by (simp add: parseLines_def declared_def expressions_def)
next
  case (Cons nl ls)
  obtain n line where nl: "nl = (n, line)" by (cases nl)
  obtain p1 where p1: "parseLine regcomp n line p = Inr p1" "parseLines regcomp ls p1 = Inr p'"
    using Cons.prems(2) by (auto simp: parseLines_def nl bindE_eq_Inr)
  show ?case
  proof (cases "ignorable line")
    case True
    then show ?thesis using Cons.IH [OF Cons.prems(1), of] p1 by (simp add: parseLine_ignorable nl)
  next
    case False
    note not_ignorable = this
    show ?thesis
    proof (cases "section_policy line")
      case (Some pol)
      then have "p1 = p\<lparr>current_policy := pol\<rparr>"
        using p1(1) parseLine_section [OF False Some] by simp
      then show ?thesis
        using Cons.IH [of ds p1] Cons.prems(1) p1(2) declares_cong [of p1 p ds] False Some by (simp add: nl)
    next
      case None
      let ?pol = "current_policy p"
      note line = p1(1) [unfolded parseLine_pattern [OF not_ignorable None]]
      have pol: "?pol \<noteq> BPOL_none" using line by (auto split: if_splits)
      have ps: "patterns (nl # ls) ?pol = (?pol, n, line) # patterns ls ?pol"
        using not_ignorable None by (simp add: nl)
      show ?thesis
      proof (cases "?pol = BPOL_ignore \<or> ?pol = BPOL_summarize")
        case True
        then have add: "addExpression regcomp n line p = Inr p1" using line by (auto split: if_splits)
        from addExpression_fields [OF this] declares_cong [of p1 p ds] Cons.prems(1)
        have "declares ds p1" "current_policy p1 = ?pol" by auto
        with Cons.IH [OF this(1) p1(2)] show ?thesis
          using add True unfolding ps
          by (auto simp: declared_def expressions_def addExpression_def bindE_eq_Inr Let_def)
      next
        case False
        then have "definePath regcomp n line p = Inr p1" using line by (auto split: if_splits)
        from definePath_step(2) [OF Cons.prems(1) pol this]
        have step: "declares (ds @ [(strip_slashes line, ?pol)]) p1" "current_policy p1 = ?pol"
            "ignore_expressions p1 = ignore_expressions p" "summarize_expressions p1 = summarize_expressions p"
          by auto
        from Cons.IH [OF step(1) p1(2)] show ?thesis
          using False step(2-4) unfolding ps by (simp add: declared_def expressions_def)
      qed
    qed
  qed
qed

lemma parseLines_returns:
  assumes "declares ds p"
  shows "parseLines regcomp ls p \<noteq> Inl Endless_recursion"
  using assms
proof (induction ls arbitrary: ds p)
  case Nil
  then show ?case by (simp add: parseLines_def)
next
  case (Cons nl ls)
  obtain n line where nl: "nl = (n, line)" by (cases nl)
  have "parseLine regcomp n line p \<noteq> Inl Endless_recursion"
    using definePath_step(1) [OF Cons.prems, of regcomp n line]
    by (auto simp: parseLine_def addExpression_def sRegexCompile_def bindE_eq_Inl Let_def split: option.splits)
  moreover have "parseLines regcomp ls p1 \<noteq> Inl Endless_recursion" if "parseLine regcomp n line p = Inr p1" for p1
    using Cons.IH parseLines_declares [OF Cons.prems, of regcomp "[(n, line)]" p1] that
    by (auto simp: parseLines_def)
  ultimately show ?case by (auto simp: parseLines_def nl bindE_eq_Inl)
qed

lemma initial_declares: "declares [] initial_parser"
proof -
  have "edge [root_node] i j \<longleftrightarrow> False" for i j
    by (auto simp: edge_def root_node_def less_Suc_eq)
  then show ?thesis
    by (auto simp: declares_def policies_declared_def parser_ok_def table_ok_def names_ok_def policies_ok_def
        initial_parser_def inherits_def root_node_def split: if_splits)
qed

lemma effective_policy_table:
  assumes d: "declares ds p" and q: "existing_nodes p q = Some i"
  shows "sn_policy (tree_nodes p ! i) = effective_policy ds q"
  using q
proof (induction q arbitrary: i rule: ancestors.induct)
  case (1 q)
  have t: "table_ok (tree_nodes p) (existing_nodes p)" and pol: "policies_ok (tree_nodes p)"
    and pd: "policies_declared ds p"
    using d by (simp_all add: declares_def policies_declared_def parser_ok_def)
  have own: "case map_of ds q of Some pol \<Rightarrow> policy_of (tree_nodes p ! i) = (pol, False)
      | None \<Rightarrow> inherits (tree_nodes p ! i)"
    using pd "1.prems" unfolding policies_declared_def by blast
  show ?case
  proof (cases "map_of ds q")
    case None
    show ?thesis
    proof (cases "q = []")
      case True
      then have "i = 0" using "1.prems" table_okD(1) [OF t] by simp
      then show ?thesis
        using own None True pol by (subst effective_policy.simps) (simp add: inherits_def policies_ok_def)
    next
      case False
      then obtain j where j: "existing_nodes p (parent_path q) = Some j" "edge (tree_nodes p) j i"
        using table_okD(5) [OF t False "1.prems"] by blast
      then have "sn_policy (tree_nodes p ! i) = sn_policy (tree_nodes p ! j)"
        using pol own None by (simp add: policies_ok_def edge_ok_def)
      with "1.IH" [OF False j(1)] False None show ?thesis by (subst effective_policy.simps) simp
    qed
  next
    case (Some pol)
    then show ?thesis using own by (subst effective_policy.simps) (simp add: policy_of_def)
  qed
qed

text \<open>The lines of a file without its last newline character, put together again.\<close>

lemma split_lines_join:
  "concat (map (\<lambda>line. line @ [CHR 0x0A]) (split_lines s)) = s \<or>
   concat (map (\<lambda>line. line @ [CHR 0x0A]) (split_lines s)) = s @ [CHR 0x0A]"
proof (induction s rule: split_lines.induct)
  case (2 c s)
  let ?s = "c # s" and ?P = "\<lambda>c. c \<noteq> CHR 0x0A"
  have s: "takeWhile ?P ?s @ dropWhile ?P ?s = ?s" by (rule takeWhile_dropWhile_id)
  show ?case
  proof (cases "dropWhile ?P ?s")
    case Nil
    then show ?thesis using s by simp
  next
    case (Cons d rest)
    then have "d = CHR 0x0A" using hd_dropWhile [of ?P ?s] by (metis list.discI list.sel(1))
    define first where "first = takeWhile ?P ?s"
    have "?s = first @ [CHR 0x0A] @ rest" using s Cons \<open>d = _\<close> unfolding first_def by simp
    moreover have "split_lines ?s = first # split_lines rest" using Cons by (simp add: first_def)
    moreover have "concat (map (\<lambda>line. line @ [CHR 0x0A]) (split_lines rest)) = rest \<or>
        concat (map (\<lambda>line. line @ [CHR 0x0A]) (split_lines rest)) = rest @ [CHR 0x0A]"
      using "2.IH" Cons by simp
    ultimately show ?thesis by (elim disjE) (simp_all del: split_lines.simps)
  qed
qed simp

lemma split_lines_no_newline: "line \<in> set (split_lines s) \<Longrightarrow> CHR 0x0A \<notin> set line"
  by (induction s rule: split_lines.induct) (auto dest: set_takeWhileD split: if_splits)

text \<open>
  C31: parsing a configuration, which scans the file by position, is parsing its lines one after
  the other, numbered from 1 and without the byte order mark; the lines hold no newline and give
  the file back when they are put together.
\<close>

theorem searchTreeParse_by_lines:
  "searchTreeParse regcomp config =
     (if NUL \<in> set config then Inl Config_null_bytes
      else bindE (parseLines regcomp (numbered 1 (config_lines config)) initial_parser)
             (\<lambda>p. Inr (search_tree.truncate p))) \<and>
   CHR 0x0A \<notin> set (concat (config_lines config)) \<and>
   concat (map (\<lambda>line. line @ [CHR 0x0A]) (config_lines config)) \<in>
     (let text = if has_bom config then drop 3 config else config in {text, text @ [CHR 0x0A]})"
  using split_lines_join [of "if has_bom config then drop 3 config else config"] split_lines_no_newline
  by (auto simp: searchTreeParse_def parseLoop_lines config_lines_def Let_def)

definition example_config :: string where
  "example_config = ''[copy]'' @ [CHR 0x0A] @ ''/home/u'' @ [CHR 0x0A] @ ''[mirror]'' @ [CHR 0x0A] @ ''/home/u//x*'' @ [CHR 0x0A]
     @ ''/home'' @ [CHR 0x0A]"

text \<open>
  C16: a configuration that parses gives a tree in which every node stands for one path and has the
  name and the expression of that path's last element; the paths are those that the file defines and
  the directories they lie in. No path is defined twice, every node has the policy of the nearest
  path above it that the file defines, whatever the order of the lines, and the expressions to
  ignore and to summarize are those of their sections, the last one first.
\<close>

definition config_patterns :: "string \<Rightarrow> (backup_policy \<times> nat \<times> string) list" where
  "config_patterns config = patterns (numbered 1 (config_lines config)) BPOL_none"

theorem searchTreeParse_correct:
  assumes "searchTreeParse regcomp config = Inr t"
  shows "(\<exists>tbl. table_ok (tree_nodes t) tbl \<and> names_ok (tree_nodes t) tbl \<and>
      dom tbl = insert [] (\<Union>d \<in> set (declared (config_patterns config)). set (ancestors (fst d))) \<and>
      (\<forall>path i. tbl path = Some i \<longrightarrow>
        sn_policy (tree_nodes t ! i) = effective_policy (declared (config_patterns config)) path)) \<and>
    distinct (map fst (declared (config_patterns config))) \<and>
    ignore_expressions t = expressions BPOL_ignore (config_patterns config) \<and>
    summarize_expressions t = expressions BPOL_summarize (config_patterns config)"
proof -
  obtain p where p: "parseLines regcomp (numbered 1 (config_lines config)) initial_parser = Inr p"
      and t: "t = search_tree.truncate p"
    using assms by (auto simp: searchTreeParse_def parseLoop_lines config_lines_def bindE_eq_Inr split: if_splits)
  have fields: "tree_nodes t = tree_nodes p" "ignore_expressions t = ignore_expressions p"
      "summarize_expressions t = summarize_expressions p"
    by (simp_all add: t search_tree.truncate_def)
  from parseLines_declares [OF initial_declares p]
  have d: "declares (declared (config_patterns config)) p"
      "ignore_expressions p = expressions BPOL_ignore (config_patterns config)"
      "summarize_expressions p = expressions BPOL_summarize (config_patterns config)"
    by (simp_all add: config_patterns_def initial_parser_def)
  have "table_ok (tree_nodes t) (existing_nodes p) \<and> names_ok (tree_nodes t) (existing_nodes p) \<and>
      distinct (map fst (declared (config_patterns config)))"
    using d(1) by (simp add: fields declares_def policies_declared_def parser_ok_def)
  moreover have "dom (existing_nodes p) =
      insert [] (\<Union>d \<in> set (declared (config_patterns config)). set (ancestors (fst d)))"
    using d(1) by (simp add: declares_def)
  ultimately show ?thesis using effective_policy_table [OF d(1)] d(2,3) fields by metis
qed

theorem searchTreeParse_correct_witness:
  "\<exists>t tbl i. searchTreeParse (\<lambda>_. None) example_config = Inr t \<and> tbl ''/home/u//x*'' = Some i \<and>
     sn_policy (tree_nodes t ! i) = BPOL_mirror \<and> sn_regex (tree_nodes t ! i) = Some ''x*''"
proof -
  have ds: "declared (config_patterns example_config) =
      [(''/home/u'', BPOL_copy), (''/home/u//x*'', BPOL_mirror), (''/home'', BPOL_mirror)]"
    by code_simp
  have "case searchTreeParse (\<lambda>_. None) example_config of Inl _ \<Rightarrow> False | Inr _ \<Rightarrow> True" by code_simp
  then obtain t where t: "searchTreeParse (\<lambda>_. None) example_config = Inr t" by (auto split: sum.splits)
  from searchTreeParse_correct [OF t, unfolded ds] obtain tbl where
      n: "names_ok (tree_nodes t) tbl"
      and dom: "dom tbl = insert [] (\<Union>d \<in> set [(''/home/u'', BPOL_copy), (''/home/u//x*'', BPOL_mirror),
        (''/home'', BPOL_mirror)]. set (ancestors (fst d)))"
      and pol: "\<And>path i. tbl path = Some i \<Longrightarrow> sn_policy (tree_nodes t ! i) = effective_policy
        [(''/home/u'', BPOL_copy), (''/home/u//x*'', BPOL_mirror), (''/home'', BPOL_mirror)] path"
    by blast
  have "''/home/u//x*'' \<in> dom tbl" unfolding dom using self_ancestor [of "''/home/u//x*''"] by simp
  then obtain i where i: "tbl ''/home/u//x*'' = Some i" by blast
  have "effective_policy
      [(''/home/u'', BPOL_copy), (''/home/u//x*'', BPOL_mirror), (''/home'', BPOL_mirror)] ''/home/u//x*'' = BPOL_mirror"
    by code_simp
  with pol [OF i] have "sn_policy (tree_nodes t ! i) = BPOL_mirror" by (simp only:)
  moreover have "node_name ''/home/u//x*'' = (''x*'', Some ''x*'')" by code_simp
  moreover have "(sn_name (tree_nodes t ! i), sn_regex (tree_nodes t ! i)) = node_name ''/home/u//x*''"
    using n i unfolding names_ok_def by blast
  ultimately have "sn_regex (tree_nodes t ! i) = Some ''x*''" "sn_policy (tree_nodes t ! i) = BPOL_mirror"
    by simp_all
  then show ?thesis using t i by blast
qed

text \<open>
  C32: parsing always returns, with a tree or with a message: neither the recursion that creates
  missing parent nodes nor the one that hands policies down exhausts its stack, whatever the
  configuration holds.
\<close>

theorem searchTreeParse_returns:
  "searchTreeParse regcomp config \<noteq> Inl Endless_recursion"
  using parseLines_returns [OF initial_declares]
  by (simp add: searchTreeParse_def parseLoop_lines bindE_eq_Inl)

section \<open>Messages\<close>

fun message_line :: "nb_error \<Rightarrow> nat option" where
  "message_line (Config_invalid_policy n _) = Some n"
| "message_line (Config_pattern_without_policy n _) = Some n"
| "message_line (Config_dot_elements n _) = Some n"
| "message_line (Config_redefinition n _ _ _) = Some n"
| "message_line (Config_invalid_path n _) = Some n"
| "message_line (Regex_error f n _ _) = (if f = ''config'' then Some n else None)"
| "message_line _ = None"

lemma newNode_message:
  "newNode regcomp path n p = Inl e \<Longrightarrow> e = Endless_recursion \<or> message_line e = Some n"
proof (induction regcomp path n p rule: newNode.induct)
  case (1 regcomp path n p)
  have add: "insertNode regcomp path n i q = Inl e \<Longrightarrow> message_line e = Some n" for i q
    by (auto simp: insertNode_def compileName_def sRegexCompile_def bindE_eq_Inl Let_def split: option.splits if_splits)
  show ?case
    using "1.IH" [OF refl] "1.prems" add unfolding newNode.simps [of regcomp path n p] Let_def bindE_eq_Inl
    by (auto split: option.splits if_splits)
qed

lemma foldE_error: "foldE f xs s = Inl e \<Longrightarrow> \<exists>x \<in> set xs. \<exists>s. f x s = Inl e"
  by (induction xs arbitrary: s) (auto simp: bindE_eq_Inl)

lemma inheritPolicyToSubnodes_message:
  "inheritPolicyToSubnodes depth i ns = Inl e \<Longrightarrow> e = Endless_recursion"
proof (induction depth arbitrary: i ns)
  case (Suc depth)
  from foldE_error [OF Suc.prems [unfolded inheritPolicyToSubnodes.simps]] Suc.IH
  show ?case by (auto simp: Let_def split: if_splits)
qed simp

lemma definePath_message:
  "definePath regcomp n line p = Inl e \<Longrightarrow> e = Endless_recursion \<or> message_line e = Some n"
proof -
  have "e = Endless_recursion" if "setPolicy n i q = Inl e" for i q
    using that unfolding setPolicy_def Let_def bindE_eq_Inl
    by (auto dest: inheritPolicyToSubnodes_message simp del: inheritPolicyToSubnodes.simps)
  then show "definePath regcomp n line p = Inl e \<Longrightarrow> ?thesis"
    using newNode_message [of regcomp "strip_slashes line" n p e]
    unfolding definePath_def Let_def by (auto simp: bindE_eq_Inl split: if_splits option.splits)
qed

lemma parseLine_message:
  assumes "declares ds p" "parseLine regcomp n line p = Inl e"
  shows "message_line e = Some n"
proof (cases "current_policy p \<noteq> BPOL_none \<and> definePath regcomp n line p = Inl e")
  case True
  then show ?thesis using definePath_message definePath_step(1) [OF assms(1)] by blast
next
  case False
  then show ?thesis using assms(2)
    by (auto simp: parseLine_def addExpression_def sRegexCompile_def bindE_eq_Inl Let_def
        split: if_splits option.splits)
qed

lemma numbered_append: "numbered n (xs @ ys) = numbered n xs @ numbered (n + length xs) ys"
  by (induction xs arbitrary: n) auto

lemma parseLines_append:
  "parseLines regcomp (xs @ ys) p = bindE (parseLines regcomp xs p) (parseLines regcomp ys)"
  by (simp add: parseLines_def foldE_append)

lemma parseLines_message:
  assumes "declares ds p" "parseLines regcomp (numbered n ls) p = Inl e"
  shows "\<exists>k q. k < length ls \<and> parseLines regcomp (numbered n (take k ls)) p = Inr q \<and>
    parseLine regcomp (n + k) (ls ! k) q = Inl e \<and> message_line e = Some (n + k)"
  using assms(2)
proof (induction ls rule: rev_induct)
  case Nil
  then show ?case by (simp add: parseLines_def)
next
  case (snoc line ls)
  show ?case
  proof (cases "parseLines regcomp (numbered n ls) p")
    case (Inl e')
    then have "parseLines regcomp (numbered n ls) p = Inl e"
      using snoc.prems by (simp add: numbered_append parseLines_append)
    from snoc.IH [OF this] obtain k q where k: "k < length ls"
        "parseLines regcomp (numbered n (take k ls)) p = Inr q"
        "parseLine regcomp (n + k) (ls ! k) q = Inl e" "message_line e = Some (n + k)" by blast
    then show ?thesis by (intro exI [of _ k] exI [of _ q]) (simp add: nth_append)
  next
    case (Inr q)
    then have e: "parseLine regcomp (n + length ls) line q = Inl e"
      using snoc.prems Inr by (simp add: numbered_append parseLines_append)
        (simp add: parseLines_def bindE_eq_Inl)
    from parseLine_message [OF conjunct1 [OF parseLines_declares [OF assms(1) Inr]] this]
    show ?thesis using Inr e by (intro exI [of _ "length ls"] exI [of _ q]) simp
  qed
qed

text \<open>
  C33: a configuration that does not parse is reported at the first line that is wrong: the lines
  before it are accepted, the message has the number of that line, and what the line says decides it
  together with the lines before. Only null bytes are reported without a line.
\<close>

theorem searchTreeParse_message:
  assumes "searchTreeParse regcomp config = Inl e"
  shows "NUL \<in> set config \<and> e = Config_null_bytes \<or>
    (\<exists>k p. k < length (config_lines config) \<and> message_line e = Some (k + 1) \<and>
       parseLines regcomp (numbered 1 (take k (config_lines config))) initial_parser = Inr p \<and>
       parseLine regcomp (k + 1) (config_lines config ! k) p = Inl e)"
proof (cases "NUL \<in> set config")
  case False
  then have "parseLines regcomp (numbered 1 (config_lines config)) initial_parser = Inl e"
    using assms by (simp add: searchTreeParse_def parseLoop_lines config_lines_def bindE_eq_Inl split: if_splits)
  from parseLines_message [OF initial_declares this] show ?thesis by fastforce
qed (use assms in \<open>simp add: searchTreeParse_def\<close>)

theorem searchTreeParse_message_witness:
  "message_line (Config_redefinition 3 False 2 ''/a/'') = Some 3 \<and>
   (\<exists>k p. parseLine (\<lambda>_. None) (k + 1) (config_lines (''[copy]'' @ [CHR 0x0A] @ ''/a'' @ [CHR 0x0A] @ ''/a/'') ! k) p =
     Inl (Config_redefinition 3 False 2 ''/a/''))"
proof -
  have e: "searchTreeParse (\<lambda>_. None) (''[copy]'' @ [CHR 0x0A] @ ''/a'' @ [CHR 0x0A] @ ''/a/'') =
      Inl (Config_redefinition 3 False 2 ''/a/'')" by code_simp
  from searchTreeParse_message [OF this] show ?thesis unfolding message_line.simps(4) by blast
qed

end
