(* ===== verification/File_System.thy ===== *)
theory File_System
  imports Str Metadata_Types
begin

text \<open>
  The part of the operating system that the program reads from: the results of \<open>stat()\<close>,
  \<open>lstat()\<close>, \<open>opendir()\<close> with \<open>readdir()\<close>, \<open>readlink()\<close>, of reading a file, of \<open>malloc()\<close>, of
  \<open>regexec()\<close> and of the hash function, which is fed with a sequence of blocks, as a record of functions, and the wrappers of \<open>src/safe-wrappers.c\<close> that read from it. \<open>None\<close> is a
  failing call. Strings stand for the slices they view.
\<close>

datatype file_type = Regular_file | Symlink_file | Directory_file | Other_file

record file_stat =
  st_type :: file_type
  st_mode :: u32
  st_uid :: u32
  st_gid :: u32
  st_mtime :: u64
  st_size :: u64
  st_blksize :: u64

datatype lstat_result = Lstat_ok file_stat | Lstat_missing | Lstat_failed

record os =
  os_stat :: "string \<Rightarrow> file_stat option"
  os_lstat :: "string \<Rightarrow> lstat_result"
  os_readdir :: "string \<Rightarrow> string option list option"
  os_readlink :: "string \<Rightarrow> u64 \<Rightarrow> string option"
  os_content :: "string \<Rightarrow> string option"
  os_regexec :: "string \<Rightarrow> string \<Rightarrow> bool"
  os_memory :: memory
  os_blake2b :: "string list \<Rightarrow> u8 list"

definition sStat :: "os \<Rightarrow> string \<Rightarrow> file_stat result" where
  "sStat sys path =
     (case os_stat sys path of None \<Rightarrow> Inl (File_access_failed path) | Some stats \<Rightarrow> Inr stats)"

definition sLStat :: "os \<Rightarrow> string \<Rightarrow> file_stat result" where
  "sLStat sys path =
     (case os_lstat sys path of Lstat_ok stats \<Rightarrow> Inr stats | _ \<Rightarrow> Inl (File_access_failed path))"

definition sPathExists :: "os \<Rightarrow> string \<Rightarrow> bool result" where
  "sPathExists sys path =
     (case os_lstat sys path of
        Lstat_ok _ \<Rightarrow> Inr True
      | Lstat_missing \<Rightarrow> Inr False
      | Lstat_failed \<Rightarrow> Inl (File_access_failed path))"

text \<open>
  A \<open>DirIterator\<close> is the path of its directory with the results of the calls of \<open>readdir()\<close> that are
  still to come; an entry \<open>None\<close> is a call that fails.
\<close>

type_synonym dir_iterator = "string \<times> string option list"

definition sDirOpen :: "os \<Rightarrow> string \<Rightarrow> dir_iterator result" where
  "sDirOpen sys path =
     (case os_readdir sys path of
        None \<Rightarrow> Inl (Directory_failed path)
      | Some dirents \<Rightarrow> Inr (path, dirents))"

text \<open>The next entry as a path, or the empty string at the end.\<close>

fun readEntries :: "string \<Rightarrow> string option list \<Rightarrow> (string \<times> string option list) result" where
  "readEntries path [] = Inr ([], [])"
| "readEntries path (None # dirents) = Inl (Directory_failed path)"
| "readEntries path (Some d_name # dirents) =
     (if d_name = ''.'' \<or> d_name = ''..'' then readEntries path dirents
      else Inr (append_path path d_name, dirents))"

definition sDirGetNext :: "dir_iterator \<Rightarrow> (string \<times> dir_iterator) result" where
  "sDirGetNext dir =
     bindE (readEntries (fst dir) (snd dir)) (\<lambda>(entry, dirents). Inr (entry, (fst dir, dirents)))"

lemma readEntries_shorter:
  "readEntries path dirents = Inr (entry, rest) \<Longrightarrow> entry \<noteq> [] \<Longrightarrow> length rest < length dirents"
  by (induction path dirents rule: readEntries.induct) (auto split: if_splits)

lemma sDirGetNext_shorter:
  "sDirGetNext dir = Inr (entry, dir') \<Longrightarrow> entry \<noteq> [] \<Longrightarrow>
     fst dir' = fst dir \<and> length (snd dir') < length (snd dir)"
  by (auto simp: sDirGetNext_def bindE_eq_Inr dest: readEntries_shorter)

definition SSIZE_MAX :: nat where
  "SSIZE_MAX = 2 ^ 63 - 1"

text \<open>
  \<open>sSymlinkReadTarget()\<close>: the size is the one that \<open>lstat()\<close> reported, and one more byte is offered
  to \<open>readlink()\<close> to see whether the link has grown.
\<close>

definition sSymlinkReadTarget :: "os \<Rightarrow> allocator \<Rightarrow> string \<Rightarrow> string result" where
  "sSymlinkReadTarget sys a path =
     bindE (sLStat sys path) (\<lambda>stats.
     bindE (sUint64Add (st_size stats) 1) (\<lambda>buffer_length.
       if unat buffer_length > SIZE_MAX then Inl (Die path)
       else if unat buffer_length > SSIZE_MAX then Inl (Die path)
       else
         bindE (allocate (os_memory sys) a (unat buffer_length)) (\<lambda>_.
           case os_readlink sys path buffer_length of
             None \<Rightarrow> Inl (Die path)
           | Some bytes \<Rightarrow>
               if length bytes \<noteq> unat (st_size stats) then Inl (Symlink_changed path)
               else Inr (view (str (bytes @ [NUL]))))))"

text \<open>A file opened for reading: its path, and what is left of it.\<close>

record file_stream =
  fs_path :: string
  fs_rest :: string

definition sFopenRead :: "os \<Rightarrow> string \<Rightarrow> file_stream result" where
  "sFopenRead sys path =
     (case os_content sys path of
        None \<Rightarrow> Inl (File_access_failed path)
      | Some bytes \<Rightarrow> Inr \<lparr>fs_path = path, fs_rest = bytes\<rparr>)"

definition sFread :: "nat \<Rightarrow> file_stream \<Rightarrow> (string \<times> file_stream) result" where
  "sFread n stream =
     (if length (fs_rest stream) < n then Inl (End_of_file (fs_path stream))
      else Inr (take n (fs_rest stream), stream\<lparr>fs_rest := drop n (fs_rest stream)\<rparr>))"

definition sFbytesLeft :: "file_stream \<Rightarrow> bool" where
  "sFbytesLeft stream \<longleftrightarrow> fs_rest stream \<noteq> []"

text \<open>
  \<open>sGetFilesContent()\<close>: a file that is shorter or longer than \<open>stat()\<close> said is refused.
\<close>

definition sGetFilesContent :: "os \<Rightarrow> string \<Rightarrow> string result" where
  "sGetFilesContent sys path =
     bindE (sStat sys path) (\<lambda>stats.
       if st_type stats \<noteq> Regular_file then Inl (Not_a_regular_file path)
       else if unat (st_size stats) > SIZE_MAX then Inl (Size_too_large path)
       else if st_size stats > 0 then
         bindE (sFopenRead sys path) (\<lambda>stream.
         bindE (sFread (unat (st_size stats)) stream) (\<lambda>(bytes, stream).
           if sFbytesLeft stream then Inl (File_changed path) else Inr bytes))
       else Inr [])"

lemma sFread_Inr:
  "sFread n stream = Inr (bytes, stream') \<longleftrightarrow>
     n \<le> length (fs_rest stream) \<and> bytes = take n (fs_rest stream) \<and>
     stream' = stream\<lparr>fs_rest := drop n (fs_rest stream)\<rparr>"
  by (auto simp: sFread_def)

lemma sFopenRead_Inr:
  "sFopenRead sys path = Inr stream \<longleftrightarrow>
     (\<exists>bytes. os_content sys path = Some bytes \<and> stream = \<lparr>fs_path = path, fs_rest = bytes\<rparr>)"
  by (auto simp: sFopenRead_def split: option.splits)

lemma sGetFilesContent_Inr:
  "sGetFilesContent sys path = Inr bytes \<Longrightarrow> bytes \<noteq> [] \<Longrightarrow> os_content sys path = Some bytes"
  by (auto simp: sGetFilesContent_def sStat_def bindE_eq_Inr sFread_Inr sFopenRead_Inr sFbytesLeft_def
      split: option.splits if_splits)

end
