(* ===== verification/Search.thy ===== *)
theory Search
  imports Search_Tree File_System
begin

text \<open>
  Searching the file system: the iterator of \<open>src/search.c\<close>. It walks directories with an explicit
  stack of states and one path buffer that all states share; each state only knows how much of the
  buffer belongs to its directory. The nodes of the search tree and the ignore expressions are
  updated while searching, so they are part of the state. A pointer into a linked list of nodes is
  the rest of the list.
\<close>

section \<open>The state\<close>

datatype access =
    Direct "nat list"
  | Dir_search (ds_dir: dir_iterator) (ds_subnodes: "nat list") (ds_fallback_policy: backup_policy)

record dir_search_state =
  path_length :: nat
  access :: access

record iterator =
  current_path :: string
  it_nodes :: "search_node list"
  it_ignore :: "regex_entry list"
  it_state :: dir_search_state
  it_capacity :: nat
  it_stack :: "dir_search_state list"

definition SRT_regular_file :: u32 where "SRT_regular_file = 1"
definition SRT_symlink :: u32 where "SRT_symlink = 2"
definition SRT_directory :: u32 where "SRT_directory = 4"
definition SRT_other :: u32 where "SRT_other = 8"

definition srt_of :: "file_type \<Rightarrow> u32" where
  "srt_of t = (case t of Regular_file \<Rightarrow> SRT_regular_file | Symlink_file \<Rightarrow> SRT_symlink
     | Directory_file \<Rightarrow> SRT_directory | Other_file \<Rightarrow> SRT_other)"

record search_result =
  sr_path :: string
  sr_node :: "nat option"
  sr_policy :: backup_policy
  sr_stats :: file_stat

datatype search_event = Found search_result | End_of_directory | End_of_search

section \<open>The operations\<close>

definition sizeof_DirSearchState :: nat where
  "sizeof_DirSearchState = 40"

definition pushCurrentState :: "iterator \<Rightarrow> iterator result" where
  "pushCurrentState it =
     bindE (if length (it_stack it) = it_capacity it then
              bindE (size_mul (it_capacity it) 2) (\<lambda>new_capacity.
              bindE (size_mul sizeof_DirSearchState new_capacity) (\<lambda>_.
                Inr (it\<lparr>it_capacity := new_capacity\<rparr>)))
            else Inr it)
       (\<lambda>it. Inr (it\<lparr>it_stack := it_state it # it_stack it\<rparr>))"

definition replaceCurrentFilename :: "string \<Rightarrow> iterator \<Rightarrow> iterator" where
  "replaceCurrentFilename filename it =
     it\<lparr>current_path := append_path (take (path_length (it_state it)) (current_path it)) filename\<rparr>"

definition subnodes_of :: "iterator \<Rightarrow> nat option \<Rightarrow> nat list" where
  "subnodes_of it node = (case node of None \<Rightarrow> [] | Some i \<Rightarrow> sn_subnodes (it_nodes it ! i))"

definition buildSearchResult ::
  "os \<Rightarrow> nat option \<Rightarrow> backup_policy \<Rightarrow> iterator \<Rightarrow> search_result result" where
  "buildSearchResult sys node policy it =
     bindE (if node \<noteq> None \<and> subnodes_of it node \<noteq> [] then sStat sys (current_path it)
            else sLStat sys (current_path it))
       (\<lambda>stats. Inr \<lparr>sr_path = current_path it, sr_node = node, sr_policy = policy, sr_stats = stats\<rparr>)"

definition recursionStepRaw ::
  "os \<Rightarrow> nat option \<Rightarrow> backup_policy \<Rightarrow> iterator \<Rightarrow> iterator result" where
  "recursionStepRaw sys node policy it =
     (let direct = (case node of None \<Rightarrow> False
        | Some i \<Rightarrow> sn_policy (it_nodes it ! i) = BPOL_none \<and> \<not> sn_subnodes_contain_regex (it_nodes it ! i))
      in bindE (if direct then Inr (Direct (subnodes_of it node))
                else bindE (sDirOpen sys (current_path it)) (\<lambda>dir.
                       Inr (Dir_search dir (subnodes_of it node) policy)))
           (\<lambda>acc. Inr (it\<lparr>it_state := \<lparr>path_length = length (current_path it), access = acc\<rparr>\<rparr>)))"

definition recursionStep ::
  "os \<Rightarrow> nat option \<Rightarrow> backup_policy \<Rightarrow> iterator \<Rightarrow> iterator result" where
  "recursionStep sys node policy it = bindE (pushCurrentState it) (recursionStepRaw sys node policy)"

definition markMatched :: "nat option \<Rightarrow> file_type \<Rightarrow> search_node list \<Rightarrow> search_node list" where
  "markMatched node t ns =
     (case node of None \<Rightarrow> ns
      | Some i \<Rightarrow> ns[i := (ns ! i)\<lparr>sn_search_match := sn_search_match (ns ! i) OR srt_of t\<rparr>])"

definition finishNodeStep ::
  "os \<Rightarrow> nat option \<Rightarrow> backup_policy \<Rightarrow> iterator \<Rightarrow> (search_event \<times> iterator) result" where
  "finishNodeStep sys node policy it =
     bindE (buildSearchResult sys node policy it) (\<lambda>found_file.
       let t = st_type (sr_stats found_file);
           it = it\<lparr>it_nodes := markMatched node t (it_nodes it)\<rparr>
       in bindE (if t = Directory_file then recursionStep sys node policy it else Inr it)
            (\<lambda>it. Inr (Found found_file, it)))"

definition finishDirectory :: "iterator \<Rightarrow> search_event \<times> iterator" where
  "finishDirectory it =
     (case it_stack it of
        [] \<Rightarrow> (End_of_search, it)
      | st # stack \<Rightarrow> (End_of_directory, it\<lparr>it_state := st, it_stack := stack\<rparr>))"

definition nodeMatches :: "os \<Rightarrow> search_node \<Rightarrow> string \<Rightarrow> bool" where
  "nodeMatches sys node name =
     (case sn_regex node of Some expr \<Rightarrow> os_regexec sys expr name | None \<Rightarrow> sn_name node = name)"

text \<open>The loop over the subnodes; a second match is fatal.\<close>

fun matchSubnodes ::
  "os \<Rightarrow> search_node list \<Rightarrow> string \<Rightarrow> string \<Rightarrow> nat option \<Rightarrow> nat list \<Rightarrow> nat option result" where
  "matchSubnodes sys ns path name matched [] = Inr matched"
| "matchSubnodes sys ns path name matched (i # is) =
     (if nodeMatches sys (ns ! i) name then
        if matched = None then matchSubnodes sys ns path name (Some i) is
        else Inl (Ambiguous_rules path)
      else matchSubnodes sys ns path name matched is)"

text \<open>The loop over the ignore expressions: whether one matches, and the list with it marked.\<close>

fun matchIgnore :: "os \<Rightarrow> string \<Rightarrow> regex_entry list \<Rightarrow> bool \<times> regex_entry list" where
  "matchIgnore sys path [] = (False, [])"
| "matchIgnore sys path (e # es) =
     (if os_regexec sys (expression e) path then (True, e\<lparr>has_matched := True\<rparr> # es)
      else case matchIgnore sys path es of (found, es) \<Rightarrow> (found, e # es))"

definition dirents_left :: "iterator \<Rightarrow> nat" where
  "dirents_left it = (case access (it_state it) of Direct _ \<Rightarrow> 0 | Dir_search dir _ _ \<Rightarrow> length (snd dir))"

function finishSearchStep :: "os \<Rightarrow> iterator \<Rightarrow> (search_event \<times> iterator) result" where
  "finishSearchStep sys it =
     (case access (it_state it) of
        Direct _ \<Rightarrow> Inl (Die ''not a directory search'')
      | Dir_search dir subnodes fallback_policy \<Rightarrow>
          bindE (sDirGetNext dir) (\<lambda>(entry, dir').
            if entry = [] then Inr (finishDirectory it)
            else
              let dir_entry_name = snd (split_path entry);
                  it = replaceCurrentFilename dir_entry_name
                         (it\<lparr>it_state := (it_state it)\<lparr>access := Dir_search dir' subnodes fallback_policy\<rparr>\<rparr>)
              in bindE (matchSubnodes sys (it_nodes it) (current_path it) dir_entry_name None subnodes)
                   (\<lambda>matched_node.
                     case matched_node of
                       Some i \<Rightarrow> finishNodeStep sys (Some i) (sn_policy (it_nodes it ! i)) it
                     | None \<Rightarrow>
                         if fallback_policy = BPOL_none then finishSearchStep sys it
                         else case matchIgnore sys (current_path it) (it_ignore it) of (ignored, es) \<Rightarrow>
                           let it = it\<lparr>it_ignore := es\<rparr>
                           in if ignored then finishSearchStep sys it
                              else finishNodeStep sys None fallback_policy it)))"
  by pat_completeness auto
termination
  by (relation "measure (\<lambda>(sys, it). dirents_left it)")
    (auto simp: dirents_left_def replaceCurrentFilename_def dest!: sDirGetNext_shorter)

declare finishSearchStep.simps [simp del]

function finishCurrentNode :: "os \<Rightarrow> iterator \<Rightarrow> (search_event \<times> iterator) result" where
  "finishCurrentNode sys it =
     (case access (it_state it) of
        Dir_search _ _ _ \<Rightarrow> Inl (Die ''not a direct access'')
      | Direct [] \<Rightarrow> Inr (finishDirectory it)
      | Direct (i # is) \<Rightarrow>
          let it = replaceCurrentFilename (sn_name (it_nodes it ! i))
                     (it\<lparr>it_state := (it_state it)\<lparr>access := Direct is\<rparr>\<rparr>)
          in bindE (sPathExists sys (current_path it)) (\<lambda>exists.
               if exists then finishNodeStep sys (Some i) (sn_policy (it_nodes it ! i)) it
               else finishCurrentNode sys it))"
  by pat_completeness auto
termination
  by (relation "measure (\<lambda>(sys, it). case access (it_state it) of Direct is \<Rightarrow> length is | _ \<Rightarrow> 0)")
    (auto simp: replaceCurrentFilename_def)

declare finishCurrentNode.simps [simp del]

definition searchGetNext :: "os \<Rightarrow> iterator \<Rightarrow> (search_event \<times> iterator) result" where
  "searchGetNext sys it =
     (case access (it_state it) of
        Dir_search _ _ _ \<Rightarrow> finishSearchStep sys it
      | Direct _ \<Rightarrow> finishCurrentNode sys it)"

definition searchNew :: "os \<Rightarrow> search_tree \<Rightarrow> iterator result" where
  "searchNew sys tree =
     bindE (recursionStepRaw sys (Some 0) (sn_policy (tree_nodes tree ! 0))
              \<lparr>current_path = ''/'', it_nodes = tree_nodes tree, it_ignore = ignore_expressions tree,
               it_state = \<lparr>path_length = 0, access = Direct []\<rparr>, it_capacity = 0, it_stack = []\<rparr>)
       (\<lambda>it. let it = it\<lparr>it_state := (it_state it)\<lparr>path_length := 0\<rparr>, it_capacity := 4\<rparr>
             in bindE (size_mul sizeof_DirSearchState (it_capacity it)) (\<lambda>_. Inr it))"

section \<open>The traversal as a recursion\<close>

text \<open>
  What the iterator is to do: a visit of a path reports it and, when it is a directory, goes through
  it in the same way and reports its end. Directories whose node has no policy and no subnode with
  an expression are not listed: their subnodes are looked up by name. The first argument bounds the
  depth of the recursion.
\<close>

type_synonym marks = "search_node list \<times> regex_entry list"
type_synonym walk = "(search_event list \<times> marks) result"

definition followed_by :: "walk \<Rightarrow> (marks \<Rightarrow> walk) \<Rightarrow> walk" where
  "followed_by w f = bindE w (\<lambda>(evs, m). bindE (f m) (\<lambda>(evs', m'). Inr (evs @ evs', m')))"

type_synonym visit = "string \<Rightarrow> nat option \<Rightarrow> backup_policy \<Rightarrow> marks \<Rightarrow> walk"

fun walkNodes :: "visit \<Rightarrow> os \<Rightarrow> string \<Rightarrow> nat list \<Rightarrow> marks \<Rightarrow> walk" where
  "walkNodes visit sys base [] m = Inr ([], m)"
| "walkNodes visit sys base (i # is) m =
     (let path = append_path base (sn_name (fst m ! i))
      in bindE (sPathExists sys path) (\<lambda>exists.
           if exists then
             followed_by (visit path (Some i) (sn_policy (fst m ! i)) m) (walkNodes visit sys base is)
           else walkNodes visit sys base is m))"

fun walkEntries ::
  "visit \<Rightarrow> os \<Rightarrow> string \<Rightarrow> string \<Rightarrow> nat list \<Rightarrow> backup_policy \<Rightarrow> string option list \<Rightarrow> marks \<Rightarrow> walk" where
  "walkEntries visit sys base dir subnodes fallback [] m = Inr ([], m)"
| "walkEntries visit sys base dir subnodes fallback (None # dirents) m = Inl (Directory_failed dir)"
| "walkEntries visit sys base dir subnodes fallback (Some d_name # dirents) m =
     (if d_name = ''.'' \<or> d_name = ''..'' then walkEntries visit sys base dir subnodes fallback dirents m
      else
        let name = snd (split_path (append_path dir d_name));
            path = append_path base name
        in bindE (matchSubnodes sys (fst m) path name None subnodes) (\<lambda>matched.
             case matched of
               Some i \<Rightarrow>
                 followed_by (visit path (Some i) (sn_policy (fst m ! i)) m)
                   (walkEntries visit sys base dir subnodes fallback dirents)
             | None \<Rightarrow>
                 if fallback = BPOL_none then walkEntries visit sys base dir subnodes fallback dirents m
                 else case matchIgnore sys path (snd m) of (ignored, es) \<Rightarrow>
                   if ignored then walkEntries visit sys base dir subnodes fallback dirents (fst m, es)
                   else followed_by (visit path None fallback (fst m, es))
                          (walkEntries visit sys base dir subnodes fallback dirents)))"

definition subnodes_at :: "search_node list \<Rightarrow> nat option \<Rightarrow> nat list" where
  "subnodes_at ns node = (case node of None \<Rightarrow> [] | Some i \<Rightarrow> sn_subnodes (ns ! i))"

definition looked_up_directly :: "search_node list \<Rightarrow> nat option \<Rightarrow> bool" where
  "looked_up_directly ns node \<longleftrightarrow> (case node of None \<Rightarrow> False
     | Some i \<Rightarrow> sn_policy (ns ! i) = BPOL_none \<and> \<not> sn_subnodes_contain_regex (ns ! i))"

definition walkDirectory ::
  "visit \<Rightarrow> os \<Rightarrow> string \<Rightarrow> string \<Rightarrow> nat option \<Rightarrow> backup_policy \<Rightarrow> marks \<Rightarrow> walk" where
  "walkDirectory visit sys base path node policy m =
     (if looked_up_directly (fst m) node then walkNodes visit sys base (subnodes_at (fst m) node) m
      else bindE (sDirOpen sys path) (\<lambda>dir.
             walkEntries visit sys base path (subnodes_at (fst m) node) policy (snd dir) m))"

fun walkPath :: "nat \<Rightarrow> os \<Rightarrow> visit" where
  "walkPath 0 sys path node policy m = Inl Endless_recursion"
| "walkPath (Suc depth) sys path node policy m =
     bindE (if subnodes_at (fst m) node \<noteq> [] then sStat sys path else sLStat sys path) (\<lambda>stats.
       let found = Found \<lparr>sr_path = path, sr_node = node, sr_policy = policy, sr_stats = stats\<rparr>;
           m = (markMatched node (st_type stats) (fst m), snd m)
       in if st_type stats = Directory_file then
            bindE (walkDirectory (walkPath depth sys) sys path path node policy m) (\<lambda>(evs, m).
              Inr (found # evs @ [End_of_directory], m))
          else Inr ([found], m))"

text \<open>The whole search: the entries of the root directory have no parent path before their slash.\<close>

definition walkTree :: "nat \<Rightarrow> os \<Rightarrow> search_tree \<Rightarrow> walk" where
  "walkTree depth sys tree =
     walkDirectory (walkPath depth sys) sys [] ''/'' (Some 0) (sn_policy (tree_nodes tree ! 0))
       (tree_nodes tree, ignore_expressions tree)"

section \<open>Running the iterator\<close>

fun runSearch :: "nat \<Rightarrow> os \<Rightarrow> iterator \<Rightarrow> (search_event list \<times> iterator) result" where
  "runSearch 0 sys it = Inl Endless_recursion"
| "runSearch (Suc n) sys it =
     bindE (searchGetNext sys it) (\<lambda>(ev, it).
       if ev = End_of_search then Inr ([ev], it)
       else bindE (runSearch n sys it) (\<lambda>(evs, it). Inr (ev # evs, it)))"

text \<open>
  The events until the current directory ends, with the state in which it does, or until an error.
\<close>

inductive search_ends :: "os \<Rightarrow> iterator \<Rightarrow> search_event list \<Rightarrow> iterator result \<Rightarrow> bool" for sys where
  ends: "searchGetNext sys it = Inr (finishDirectory it') \<Longrightarrow> search_ends sys it [] (Inr it')"
| fails: "searchGetNext sys it = Inl e \<Longrightarrow> search_ends sys it [] (Inl e)"
| steps: "searchGetNext sys it = Inr (ev, it1) \<Longrightarrow> ev \<noteq> End_of_search \<Longrightarrow> search_ends sys it1 evs r \<Longrightarrow>
    search_ends sys it (ev # evs) r"

inductive_cases search_endsE: "search_ends sys it evs r"

lemma search_ends_same: "search_ends sys it1 evs r \<Longrightarrow> searchGetNext sys it = searchGetNext sys it1 \<Longrightarrow>
    search_ends sys it evs r"
  by (erule search_endsE) (auto intro: search_ends.intros)

lemma search_ends_popped:
  assumes "search_ends sys it evs r" "r = Inr it'" "finishDirectory it' = (End_of_directory, it2)"
    and "search_ends sys it2 evs2 r2"
  shows "search_ends sys it (evs @ End_of_directory # evs2) r2"
  using assms
  by (induction rule: search_ends.induct) (auto intro: search_ends.intros)

lemma search_ends_result:
  "search_ends sys it evs r \<Longrightarrow>
     (\<forall>it'. r = Inr it' \<longrightarrow> it_stack it' = [] \<longrightarrow>
        runSearch (Suc (length evs)) sys it = Inr (evs @ [End_of_search], it')) \<and>
     (\<forall>e. r = Inl e \<longrightarrow> runSearch (Suc (length evs)) sys it = Inl e)"
  by (induction rule: search_ends.induct) (auto simp: finishDirectory_def)

lemma search_ends_run:
  "search_ends sys it evs (Inr it') \<Longrightarrow> it_stack it' = [] \<Longrightarrow>
     runSearch (Suc (length evs)) sys it = Inr (evs @ [End_of_search], it')"
  "search_ends sys it evs (Inl e) \<Longrightarrow> runSearch (Suc (length evs)) sys it = Inl e"
  using search_ends_result by blast+

section \<open>The iterator does what the recursion says\<close>

text \<open>The depth of directories for which the stack of states can always grow.\<close>

definition max_depth :: nat where
  "max_depth = 2 ^ 50"

lemma pushCurrentState_Inr:
  assumes "length (it_stack it) \<le> max_depth"
  shows "\<exists>c. pushCurrentState it = Inr (it\<lparr>it_capacity := c, it_stack := it_state it # it_stack it\<rparr>)"
proof (cases "length (it_stack it) = it_capacity it")
  case True
  then have "it_capacity it * 2 \<le> SIZE_MAX" "sizeof_DirSearchState * (it_capacity it * 2) \<le> SIZE_MAX"
    using assms by (simp_all add: max_depth_def SIZE_MAX_def sizeof_DirSearchState_def)
  then show ?thesis using True by (auto simp: pushCurrentState_def size_mul_def)
qed (auto simp: pushCurrentState_def intro!: exI [of _ "it_capacity it"])

definition visit_ok :: "os \<Rightarrow> nat \<Rightarrow> visit \<Rightarrow> bool" where
  "visit_ok sys depth visit \<longleftrightarrow> (\<forall>it node policy. length (it_stack it) + depth \<le> max_depth \<longrightarrow>
     (case visit (current_path it) node policy (it_nodes it, it_ignore it) of
        Inr (evs, ns, es) \<Rightarrow> \<exists>ev evs' it1 it'. evs = ev # evs' \<and> ev \<noteq> End_of_search \<and>
          finishNodeStep sys node policy it = Inr (ev, it1) \<and>
          it_nodes it' = ns \<and> it_ignore it' = es \<and> it_stack it' = it_stack it \<and> it_state it' = it_state it \<and>
          take (length (current_path it)) (current_path it') = current_path it \<and>
          (\<forall>evs2 r. search_ends sys it' evs2 r \<longrightarrow> search_ends sys it1 (evs' @ evs2) r)
      | Inl e \<Rightarrow> e = Endless_recursion \<or> finishNodeStep sys node policy it = Inl e \<or>
          (\<exists>ev evs' it1. finishNodeStep sys node policy it = Inr (ev, it1) \<and> ev \<noteq> End_of_search \<and>
             search_ends sys it1 evs' (Inl e))))"

definition lists_as :: "os \<Rightarrow> iterator \<Rightarrow> walk \<Rightarrow> bool" where
  "lists_as sys it w \<longleftrightarrow>
     (case w of
        Inr (evs, ns, es) \<Rightarrow> \<exists>it'. search_ends sys it evs (Inr it') \<and> it_nodes it' = ns \<and> it_ignore it' = es \<and>
          it_stack it' = it_stack it \<and>
          take (path_length (it_state it)) (current_path it') = take (path_length (it_state it)) (current_path it)
      | Inl e \<Rightarrow> e = Endless_recursion \<or> (\<exists>evs. search_ends sys it evs (Inl e)))"

lemma lists_as_same:
  assumes "lists_as sys it2 w" "searchGetNext sys it = searchGetNext sys it2" "it_stack it2 = it_stack it"
    "path_length (it_state it2) = path_length (it_state it)"
    "take (path_length (it_state it)) (current_path it2) = take (path_length (it_state it)) (current_path it)"
  shows "lists_as sys it w"
  using assms search_ends_same [of sys it2 _ _ it] unfolding lists_as_def
  by (fastforce split: sum.splits prod.splits)

lemma prefix_kept:
  assumes "take (length q) p = q" "n \<le> length q"
  shows "take n p = take n q \<and> n \<le> length p"
proof -
  have "take n (take (length q) p) = take n p" using assms(2) by (simp add: min_def)
  moreover have "length q \<le> length p" using arg_cong [OF assms(1), of length] by simp
  ultimately show ?thesis using assms by simp
qed

lemma lists_as_visit:
  assumes v: "visit_ok sys depth visit" and depth: "length (it_stack it) + depth \<le> max_depth"
    and nxt: "searchGetNext sys it = finishNodeStep sys node policy it2"
    and it2: "it_stack it2 = it_stack it" "path_length (it_state it2) = path_length (it_state it)"
      "take (path_length (it_state it)) (current_path it2) = take (path_length (it_state it)) (current_path it)"
      "path_length (it_state it) \<le> length (current_path it2)"
    and rest: "\<And>it3. it_stack it3 = it_stack it2 \<Longrightarrow> it_state it3 = it_state it2 \<Longrightarrow>
      take (length (current_path it2)) (current_path it3) = current_path it2 \<Longrightarrow>
      lists_as sys it3 (k (it_nodes it3, it_ignore it3))"
  shows "lists_as sys it (followed_by (visit (current_path it2) node policy (it_nodes it2, it_ignore it2)) k)"
proof -
  have "length (it_stack it2) + depth \<le> max_depth" using depth it2(1) by simp
  note vis = v [unfolded visit_ok_def, rule_format, OF this, of node policy]
  show ?thesis
proof (cases "visit (current_path it2) node policy (it_nodes it2, it_ignore it2)")
  case (Inl e)
  then have "e = Endless_recursion \<or> finishNodeStep sys node policy it2 = Inl e \<or>
      (\<exists>ev evs' it1. finishNodeStep sys node policy it2 = Inr (ev, it1) \<and> ev \<noteq> End_of_search \<and>
         search_ends sys it1 evs' (Inl e))"
    using vis by simp
  then show ?thesis
    using nxt Inl unfolding lists_as_def followed_by_def
    by simp (metis search_ends.fails search_ends.steps)
next
  case (Inr res)
  obtain evs ns es where res: "res = (evs, ns, es)" by (cases res) auto
  from vis obtain ev evs' it1 it' where
      e: "evs = ev # evs'" "ev \<noteq> End_of_search" "finishNodeStep sys node policy it2 = Inr (ev, it1)"
      "it_nodes it' = ns" "it_ignore it' = es" "it_stack it' = it_stack it2" "it_state it' = it_state it2"
      "take (length (current_path it2)) (current_path it') = current_path it2"
      "\<And>evs2 r. search_ends sys it' evs2 r \<Longrightarrow> search_ends sys it1 (evs' @ evs2) r"
    unfolding Inr res by auto
  have tk: "take (path_length (it_state it)) (current_path it') = take (path_length (it_state it)) (current_path it)"
    using prefix_kept [OF e(8) it2(4)] it2(3) by simp
  note after = rest [OF e(6-8), unfolded e(4,5)]
  have go: "search_ends sys it (ev # evs' @ evs2) r" if "search_ends sys it' evs2 r" for evs2 r
    using e(2,3,9) nxt that by (auto intro: search_ends.steps)
  show ?thesis
  proof (cases "k (ns, es)")
    case (Inl x)
    then have "x = Endless_recursion \<or> (\<exists>evs. search_ends sys it' evs (Inl x))"
      using after by (simp add: lists_as_def)
    then show ?thesis using go Inr res Inl e(1) by (auto simp: lists_as_def followed_by_def)
  next
    case inr: (Inr y)
    obtain evs3 ns3 es3 where y: "y = (evs3, ns3, es3)" by (cases y) auto
    then obtain it4 where "search_ends sys it' evs3 (Inr it4)" "it_nodes it4 = ns3" "it_ignore it4 = es3"
        "it_stack it4 = it_stack it'"
        "take (path_length (it_state it')) (current_path it4) = take (path_length (it_state it')) (current_path it')"
      using after inr by (auto simp: lists_as_def)
    moreover from this have "search_ends sys it (evs @ evs3) (Inr it4)" using go e(1) by simp
    ultimately show ?thesis
      using Inr res inr y e(6,7) it2(1,2) tk by (auto simp: lists_as_def followed_by_def)
  qed
qed
qed

lemma replaceCurrentFilename_simps:
  "path_length (it_state it) \<le> length (current_path it) \<Longrightarrow>
     take (path_length (it_state it)) (current_path (replaceCurrentFilename name it)) =
       take (path_length (it_state it)) (current_path it) \<and>
     path_length (it_state it) \<le> length (current_path (replaceCurrentFilename name it))"
  "it_state (replaceCurrentFilename name it) = it_state it"
  "it_nodes (replaceCurrentFilename name it) = it_nodes it"
  "it_ignore (replaceCurrentFilename name it) = it_ignore it"
  "it_stack (replaceCurrentFilename name it) = it_stack it"
  "current_path (replaceCurrentFilename name it) =
     append_path (take (path_length (it_state it)) (current_path it)) name"
  by (simp_all add: replaceCurrentFilename_def append_path_def)

lemma walkNodes_lists:
  assumes "visit_ok sys depth visit" "length (it_stack it) + depth \<le> max_depth"
    "access (it_state it) = Direct is" "path_length (it_state it) \<le> length (current_path it)"
  shows "lists_as sys it (walkNodes visit sys (take (path_length (it_state it)) (current_path it)) is
    (it_nodes it, it_ignore it))"
  using assms(2-4)
proof (induction "is" arbitrary: it)
  case Nil
  then have "searchGetNext sys it = Inr (finishDirectory it)"
    by (simp add: searchGetNext_def finishCurrentNode.simps)
  then show ?case by (auto simp: lists_as_def intro: search_ends.ends)
next
  case (Cons i "is")
  let ?base = "take (path_length (it_state it)) (current_path it)"
  let ?it = "it\<lparr>it_state := (it_state it)\<lparr>access := Direct is\<rparr>\<rparr>"
  let ?it2 = "replaceCurrentFilename (sn_name (it_nodes it ! i)) ?it"
  have nxt: "searchGetNext sys it = bindE (sPathExists sys (current_path ?it2)) (\<lambda>exists.
      if exists then finishNodeStep sys (Some i) (sn_policy (it_nodes it ! i)) ?it2
      else finishCurrentNode sys ?it2)"
    using Cons.prems(2) by (simp add: searchGetNext_def finishCurrentNode.simps [of sys it] Let_def
        replaceCurrentFilename_simps cong: if_cong)
  have path: "current_path ?it2 = append_path ?base (sn_name (it_nodes it ! i))"
    by (simp add: replaceCurrentFilename_simps)
  note r = replaceCurrentFilename_simps [where it = ?it]
  have tk: "take (path_length (it_state it)) (current_path ?it2) = ?base"
      "path_length (it_state it) \<le> length (current_path ?it2)"
    using r(1) Cons.prems(3) by auto
  show ?case
  proof (cases "sPathExists sys (current_path ?it2)")
    case (Inl e)
    then show ?thesis using nxt
      by (auto simp: lists_as_def path intro: search_ends.fails)
  next
    case (Inr found)
    show ?thesis
    proof (cases found)
      case True
      have "lists_as sys it (followed_by
          (visit (current_path ?it2) (Some i) (sn_policy (it_nodes it ! i)) (it_nodes ?it2, it_ignore ?it2))
          (walkNodes visit sys ?base is))"
      proof (rule lists_as_visit [OF assms(1) Cons.prems(1)])
        show "searchGetNext sys it = finishNodeStep sys (Some i) (sn_policy (it_nodes it ! i)) ?it2"
          using nxt Inr True by simp
        fix it3 :: iterator
        assume it3: "it_stack it3 = it_stack ?it2" "it_state it3 = it_state ?it2"
          "take (length (current_path ?it2)) (current_path it3) = current_path ?it2"
        have st: "path_length (it_state it3) = path_length (it_state it)" "access (it_state it3) = Direct is"
            "length (it_stack it3) = length (it_stack it)"
          using it3 by (simp_all add: r)
        have "take (path_length (it_state it)) (current_path it3) = ?base"
            "path_length (it_state it) \<le> length (current_path it3)"
          using prefix_kept [OF it3(3) tk(2)] tk(1) by simp_all
        moreover from this have "lists_as sys it3 (walkNodes visit sys
            (take (path_length (it_state it3)) (current_path it3)) is (it_nodes it3, it_ignore it3))"
          by (intro Cons.IH) (use Cons.prems(1) st in simp_all)
        ultimately show "lists_as sys it3 (walkNodes visit sys ?base is (it_nodes it3, it_ignore it3))"
          by (simp only: st)
      qed (use tk in \<open>simp_all add: r\<close>)
      then show ?thesis using Inr True by (simp add: path r)
    next
      case False
      have "lists_as sys ?it2 (walkNodes visit sys (take (path_length (it_state ?it2)) (current_path ?it2)) is
          (it_nodes ?it2, it_ignore ?it2))"
        by (rule Cons.IH) (use Cons.prems tk in \<open>simp_all add: r\<close>)
      then have "lists_as sys ?it2 (walkNodes visit sys ?base is (it_nodes it, it_ignore it))"
        using tk by (simp add: r)
      moreover have "searchGetNext sys it = searchGetNext sys ?it2"
        using nxt Inr False by (simp add: searchGetNext_def r)
      ultimately have "lists_as sys it (walkNodes visit sys ?base is (it_nodes it, it_ignore it))"
        by (rule lists_as_same) (use tk in \<open>simp_all add: r\<close>)
      then show ?thesis using Inr False by (simp add: path)
    qed
  qed
qed

text \<open>The body of the loop over the entries of a directory, for one entry.\<close>

definition walkEntry ::
  "visit \<Rightarrow> os \<Rightarrow> string \<Rightarrow> nat list \<Rightarrow> backup_policy \<Rightarrow> string \<Rightarrow> (marks \<Rightarrow> walk) \<Rightarrow> marks \<Rightarrow> walk" where
  "walkEntry visit sys base subnodes fallback entry rest m =
     (let name = snd (split_path entry);
          path = append_path base name
      in bindE (matchSubnodes sys (fst m) path name None subnodes) (\<lambda>matched.
           case matched of
             Some i \<Rightarrow> followed_by (visit path (Some i) (sn_policy (fst m ! i)) m) rest
           | None \<Rightarrow>
               if fallback = BPOL_none then rest m
               else case matchIgnore sys path (snd m) of (ignored, es) \<Rightarrow>
                 if ignored then rest (fst m, es)
                 else followed_by (visit path None fallback (fst m, es)) rest))"

lemma walkEntries_readEntries:
  "walkEntries visit sys base dir subnodes fallback dirents m =
     bindE (readEntries dir dirents) (\<lambda>(entry, dirents).
       if entry = [] then Inr ([], m)
       else walkEntry visit sys base subnodes fallback entry
              (walkEntries visit sys base dir subnodes fallback dirents) m)"
proof (induction dirents)
  case (Cons d dirents)
  then show ?case
    by (cases d) (simp_all add: walkEntry_def Let_def append_path_def cong: option.case_cong if_cong)
qed simp

lemma walkEntries_lists:
  assumes "visit_ok sys depth visit" "length (it_stack it) + depth \<le> max_depth"
    "access (it_state it) = Dir_search (dir, dirents) subnodes fallback"
    "path_length (it_state it) \<le> length (current_path it)"
  shows "lists_as sys it (walkEntries visit sys (take (path_length (it_state it)) (current_path it)) dir
    subnodes fallback dirents (it_nodes it, it_ignore it))"
  using assms(2-4)
proof (induction dirents arbitrary: it rule: length_induct)
  case (1 dirents)
  let ?base = "take (path_length (it_state it)) (current_path it)"
  show ?case
  proof (cases "readEntries dir dirents")
    case (Inl e)
    then have "searchGetNext sys it = Inl e"
      using "1.prems"(2) by (simp add: searchGetNext_def finishSearchStep.simps [of sys it] sDirGetNext_def)
    then show ?thesis using Inl
      by (subst walkEntries_readEntries) (auto simp: lists_as_def intro: search_ends.fails)
  next
    case (Inr er)
    then obtain entry rest where er: "readEntries dir dirents = Inr (entry, rest)" by (cases er) auto
    then have get: "sDirGetNext (dir, dirents) = Inr (entry, (dir, rest))" by (simp add: sDirGetNext_def)
    show ?thesis
    proof (cases "entry = []")
      case True
      then have "searchGetNext sys it = Inr (finishDirectory it)"
        using "1.prems"(2) get by (simp add: searchGetNext_def finishSearchStep.simps [of sys it])
      then show ?thesis using er True
        by (subst walkEntries_readEntries) (auto simp: lists_as_def intro: search_ends.ends)
    next
      case False
      let ?it = "it\<lparr>it_state := (it_state it)\<lparr>access := Dir_search (dir, rest) subnodes fallback\<rparr>\<rparr>"
      let ?name = "snd (split_path entry)"
      let ?it2 = "replaceCurrentFilename ?name ?it"
      let ?walk = "walkEntries visit sys ?base dir subnodes fallback rest"
      note r = replaceCurrentFilename_simps [where it = ?it]
      have tk: "take (path_length (it_state it)) (current_path ?it2) = ?base"
          "path_length (it_state it) \<le> length (current_path ?it2)"
        using r(1) "1.prems"(3) by auto
      have path: "current_path ?it2 = append_path ?base ?name" by (simp add: r)
      have nxt: "searchGetNext sys it =
          bindE (matchSubnodes sys (it_nodes it) (current_path ?it2) ?name None subnodes) (\<lambda>matched_node.
            case matched_node of
              Some i \<Rightarrow> finishNodeStep sys (Some i) (sn_policy (it_nodes it ! i)) ?it2
            | None \<Rightarrow>
                if fallback = BPOL_none then finishSearchStep sys ?it2
                else case matchIgnore sys (current_path ?it2) (it_ignore it) of (ignored, es) \<Rightarrow>
                  if ignored then finishSearchStep sys (?it2\<lparr>it_ignore := es\<rparr>)
                  else finishNodeStep sys None fallback (?it2\<lparr>it_ignore := es\<rparr>))"
        using "1.prems"(2) get False
        by (simp add: searchGetNext_def finishSearchStep.simps [of sys it] Let_def r cong: option.case_cong if_cong)
      have IH: "lists_as sys it3 (?walk (it_nodes it3, it_ignore it3))"
        if "it_stack it3 = it_stack it" "it_state it3 = it_state ?it"
          "take (length (current_path ?it2)) (current_path it3) = current_path ?it2" for it3
      proof -
        have st: "path_length (it_state it3) = path_length (it_state it)"
            "access (it_state it3) = Dir_search (dir, rest) subnodes fallback"
          using that(2) by simp_all
        have "take (path_length (it_state it)) (current_path it3) = ?base"
            "path_length (it_state it) \<le> length (current_path it3)"
          using prefix_kept [OF that(3) tk(2)] tk(1) by simp_all
        moreover from this have "lists_as sys it3 (walkEntries visit sys
            (take (path_length (it_state it3)) (current_path it3)) dir subnodes fallback rest
            (it_nodes it3, it_ignore it3))"
          using "1.IH" [rule_format, OF readEntries_shorter [OF er False], of it3] "1.prems"(1) st that(1)
          by simp
        ultimately show ?thesis by (simp only: st)
      qed
      have visited: "lists_as sys it (followed_by
          (visit (current_path ?it2) node pol (it_nodes it4, it_ignore it4)) ?walk)"
        if "searchGetNext sys it = finishNodeStep sys node pol it4" "it4 = ?it2\<lparr>it_ignore := es\<rparr>"
        for node pol es it4
      proof -
        have "lists_as sys it (followed_by
            (visit (current_path it4) node pol (it_nodes it4, it_ignore it4)) ?walk)"
          by (rule lists_as_visit [OF assms(1) "1.prems"(1) that(1)])
            (use tk IH in \<open>simp_all add: that(2) r\<close>)
        then show ?thesis by (simp add: that(2))
      qed
      have skipped: "lists_as sys it (?walk (it_nodes it, es))"
        if "searchGetNext sys it = finishSearchStep sys (?it2\<lparr>it_ignore := es\<rparr>)" for es
      proof (rule lists_as_same)
        show "lists_as sys (?it2\<lparr>it_ignore := es\<rparr>) (?walk (it_nodes it, es))"
          using IH [of "?it2\<lparr>it_ignore := es\<rparr>"] by (simp add: r)
        show "searchGetNext sys it = searchGetNext sys (?it2\<lparr>it_ignore := es\<rparr>)"
          using that by (simp add: searchGetNext_def r)
      qed (use tk in \<open>simp_all add: r\<close>)
      have "lists_as sys it (walkEntry visit sys ?base subnodes fallback entry ?walk (it_nodes it, it_ignore it))"
      proof (cases "matchSubnodes sys (it_nodes it) (current_path ?it2) ?name None subnodes")
        case (Inl e)
        then have "searchGetNext sys it = Inl e" using nxt by simp
        then show ?thesis using Inl
          by (auto simp: walkEntry_def Let_def path lists_as_def intro: search_ends.fails)
      next
        case (Inr matched)
        note m = this and m' = this [unfolded path]
        have same: "?it2\<lparr>it_ignore := it_ignore it\<rparr> = ?it2" by (simp add: r replaceCurrentFilename_def)
        show ?thesis
        proof (cases matched)
          case (Some i)
          have "lists_as sys it (followed_by
              (visit (current_path ?it2) (Some i) (sn_policy (it_nodes it ! i)) (it_nodes ?it2, it_ignore ?it2)) ?walk)"
            by (rule visited [of _ _ _ "it_ignore it"]) (use nxt m Some same in simp_all)
          then show ?thesis using m Some by (simp add: walkEntry_def Let_def path r)
        next
          case None
          show ?thesis
          proof (cases "fallback = BPOL_none")
            case True
            have "lists_as sys it (?walk (it_nodes it, it_ignore it))"
              by (rule skipped) (use nxt m None True same in simp_all)
            then show ?thesis using m' None True by (simp add: walkEntry_def Let_def)
          next
            case False
            obtain ignored es where es: "matchIgnore sys (current_path ?it2) (it_ignore it) = (ignored, es)"
              by (cases "matchIgnore sys (current_path ?it2) (it_ignore it)") auto
            show ?thesis
            proof (cases ignored)
              case True
              then show ?thesis using skipped [of es] nxt m None False es
                by (simp add: walkEntry_def Let_def path)
            next
              case not_ignored: False
              have "lists_as sys it (followed_by (visit (current_path ?it2) None fallback
                  (it_nodes (?it2\<lparr>it_ignore := es\<rparr>), it_ignore (?it2\<lparr>it_ignore := es\<rparr>))) ?walk)"
                by (rule visited [of _ _ _ es]) (use nxt m None False es not_ignored in simp_all)
              then show ?thesis using m None False es not_ignored
                by (simp add: walkEntry_def Let_def path r)
            qed
          qed
        qed
      qed
      then show ?thesis using er False by (subst walkEntries_readEntries) simp
    qed
  qed
qed

lemma recursionStepRaw_access:
  "recursionStepRaw sys node policy it =
     bindE (if looked_up_directly (it_nodes it) node then Inr (Direct (subnodes_at (it_nodes it) node))
            else bindE (sDirOpen sys (current_path it)) (\<lambda>dir.
                   Inr (Dir_search dir (subnodes_at (it_nodes it) node) policy)))
       (\<lambda>acc. Inr (it\<lparr>it_state := \<lparr>path_length = length (current_path it), access = acc\<rparr>\<rparr>))"
  by (simp add: recursionStepRaw_def looked_up_directly_def subnodes_at_def subnodes_of_def)

lemma sDirOpen_path: "sDirOpen sys path = Inr dir \<Longrightarrow> fst dir = path"
  by (auto simp: sDirOpen_def split: option.splits)

lemma walkDirectory_lists:
  assumes "visit_ok sys depth visit" "recursionStepRaw sys node policy it = Inr it1"
    "length (it_stack it2) + depth \<le> max_depth" "path_length (it_state it2) \<le> length (current_path it2)"
    "it_nodes it2 = it_nodes it" "it_ignore it2 = it_ignore it" "access (it_state it2) = access (it_state it1)"
  shows "lists_as sys it2 (walkDirectory visit sys (take (path_length (it_state it2)) (current_path it2))
    (current_path it) node policy (it_nodes it, it_ignore it))"
proof (cases "looked_up_directly (it_nodes it) node")
  case True
  then have "access (it_state it2) = Direct (subnodes_at (it_nodes it) node)"
    using assms(2,7) by (auto simp: recursionStepRaw_access)
  from walkNodes_lists [OF assms(1,3) this assms(4)] show ?thesis
    using True assms(5,6) by (simp add: walkDirectory_def)
next
  case False
  then obtain dir where dir: "sDirOpen sys (current_path it) = Inr dir"
      "access (it_state it2) = Dir_search dir (subnodes_at (it_nodes it) node) policy"
    using assms(2,7) by (auto simp: recursionStepRaw_access bindE_eq_Inr)
  moreover have "dir = (current_path it, snd dir)" using sDirOpen_path [OF dir(1)] by (cases dir) simp
  ultimately have "access (it_state it2) =
      Dir_search (current_path it, snd dir) (subnodes_at (it_nodes it) node) policy" by simp
  from walkEntries_lists [OF assms(1,3) this assms(4)] show ?thesis
    using False assms(5,6) dir(1) by (simp add: walkDirectory_def)
qed

lemma walkDirectory_fails:
  "recursionStepRaw sys node policy it = Inl e \<Longrightarrow>
     walkDirectory visit sys base (current_path it) node policy (it_nodes it, it_ignore it) = Inl e"
  by (auto simp: recursionStepRaw_access walkDirectory_def bindE_eq_Inl split: if_splits)

lemma finishDirectory_pushed:
  "it_stack it = st # stack \<Longrightarrow> finishDirectory it = (End_of_directory, it\<lparr>it_state := st, it_stack := stack\<rparr>)"
  by (simp add: finishDirectory_def)

lemma buildSearchResult_stats:
  "buildSearchResult sys node policy it =
     bindE (if subnodes_at (it_nodes it) node \<noteq> [] then sStat sys (current_path it) else sLStat sys (current_path it))
       (\<lambda>stats. Inr \<lparr>sr_path = current_path it, sr_node = node, sr_policy = policy, sr_stats = stats\<rparr>)"
  by (cases node) (simp_all add: buildSearchResult_def subnodes_at_def subnodes_of_def)

lemma walkPath_visit_ok: "visit_ok sys depth (walkPath depth sys)"
proof (induction depth)
  case 0
  then show ?case by (simp add: visit_ok_def)
next
  case (Suc depth)
  show ?case unfolding visit_ok_def
  proof (intro allI impI)
    fix it :: iterator and node policy
    assume depth: "length (it_stack it) + Suc depth \<le> max_depth"
    let ?stats = "if subnodes_at (it_nodes it) node \<noteq> [] then sStat sys (current_path it)
      else sLStat sys (current_path it)"
    show "case walkPath (Suc depth) sys (current_path it) node policy (it_nodes it, it_ignore it) of
        Inl e \<Rightarrow> e = Endless_recursion \<or> finishNodeStep sys node policy it = Inl e \<or>
          (\<exists>ev evs' it1. finishNodeStep sys node policy it = Inr (ev, it1) \<and> ev \<noteq> End_of_search \<and>
             search_ends sys it1 evs' (Inl e))
      | Inr (evs, ns, es) \<Rightarrow> \<exists>ev evs' it1 it'. evs = ev # evs' \<and> ev \<noteq> End_of_search \<and>
          finishNodeStep sys node policy it = Inr (ev, it1) \<and>
          it_nodes it' = ns \<and> it_ignore it' = es \<and> it_stack it' = it_stack it \<and> it_state it' = it_state it \<and>
          take (length (current_path it)) (current_path it') = current_path it \<and>
          (\<forall>evs2 r. search_ends sys it' evs2 r \<longrightarrow> search_ends sys it1 (evs' @ evs2) r)"
      (is "case ?walk of Inl e \<Rightarrow> ?failed e | Inr w \<Rightarrow> ?found w")
    proof (cases ?stats)
      case (Inl e)
      then have "finishNodeStep sys node policy it = Inl e"
        by (simp add: finishNodeStep_def buildSearchResult_stats)
      moreover have "?walk = Inl e" using Inl by simp
      ultimately show ?thesis by simp
    next
      case (Inr stats)
      let ?found = "\<lparr>sr_path = current_path it, sr_node = node, sr_policy = policy, sr_stats = stats\<rparr>"
      let ?it = "it\<lparr>it_nodes := markMatched node (st_type stats) (it_nodes it)\<rparr>"
      have step: "finishNodeStep sys node policy it =
          bindE (if st_type stats = Directory_file then recursionStep sys node policy ?it else Inr ?it)
            (\<lambda>it. Inr (Found ?found, it))"
        using Inr by (simp add: finishNodeStep_def buildSearchResult_stats)
      have walk: "?walk =
          (if st_type stats = Directory_file then
             bindE (walkDirectory (walkPath depth sys) sys (current_path it) (current_path it) node policy
                      (it_nodes ?it, it_ignore ?it)) (\<lambda>(evs, m). Inr (Found ?found # evs @ [End_of_directory], m))
           else Inr ([Found ?found], (it_nodes ?it, it_ignore ?it)))"
        using Inr by simp
      show ?thesis
      proof (cases "st_type stats = Directory_file")
        case False
        then show ?thesis unfolding walk using step by (auto intro!: exI [of _ ?it])
      next
        case True
        obtain c where push: "pushCurrentState ?it =
            Inr (?it\<lparr>it_capacity := c, it_stack := it_state it # it_stack it\<rparr>)"
          using pushCurrentState_Inr [of ?it] depth by auto
        let ?pushed = "?it\<lparr>it_capacity := c, it_stack := it_state it # it_stack it\<rparr>"
        have fin: "finishNodeStep sys node policy it =
            bindE (recursionStepRaw sys node policy ?pushed) (\<lambda>it. Inr (Found ?found, it))"
          using step True push by (simp add: recursionStep_def)
        show ?thesis
        proof (cases "recursionStepRaw sys node policy ?pushed")
          case (Inl e)
          from walkDirectory_fails [OF this, of "walkPath depth sys" "current_path it"]
          show ?thesis unfolding walk using True fin Inl by simp
        next
          case raw: (Inr it1)
          have it1: "it_nodes it1 = it_nodes ?it" "it_ignore it1 = it_ignore it" "current_path it1 = current_path it"
              "path_length (it_state it1) = length (current_path it)" "it_stack it1 = it_state it # it_stack it"
            using raw by (auto simp: recursionStepRaw_access bindE_eq_Inr)
          have "lists_as sys it1 (walkDirectory (walkPath depth sys) sys
              (take (path_length (it_state it1)) (current_path it1)) (current_path ?pushed) node policy
              (it_nodes ?pushed, it_ignore ?pushed))"
            by (rule walkDirectory_lists [OF Suc raw]) (use it1 depth in simp_all)
          then have l: "lists_as sys it1 (walkDirectory (walkPath depth sys) sys (current_path it) (current_path it)
              node policy (it_nodes ?it, it_ignore ?it))"
            by (simp add: it1)
          have fin1: "finishNodeStep sys node policy it = Inr (Found ?found, it1)"
            using fin raw by simp
          show ?thesis
          proof (cases "walkDirectory (walkPath depth sys) sys (current_path it) (current_path it)
              node policy (it_nodes ?it, it_ignore ?it)")
            case (Inl e)
            then show ?thesis unfolding walk using l True fin1 by (auto simp: lists_as_def)
          next
            case dir: (Inr w)
            obtain evs ns es where w: "w = (evs, ns, es)" by (cases w) auto
            from l dir w obtain it2 where it2: "search_ends sys it1 evs (Inr it2)" "it_nodes it2 = ns"
                "it_ignore it2 = es" "it_stack it2 = it_stack it1"
                "take (length (current_path it)) (current_path it2) = current_path it"
              by (auto simp: lists_as_def it1)
            let ?it3 = "it2\<lparr>it_state := it_state it, it_stack := it_stack it\<rparr>"
            have "finishDirectory it2 = (End_of_directory, ?it3)"
              using finishDirectory_pushed it2(4) it1(5) by simp
            from search_ends_popped [OF it2(1) refl this]
            have "search_ends sys it1 ((evs @ [End_of_directory]) @ evs2) r"
              if "search_ends sys ?it3 evs2 r" for evs2 r
              using that by simp
            then show ?thesis unfolding walk using dir w True fin1 it2
              by (auto intro!: exI [of _ ?it3])
          qed
        qed
      qed
    qed
  qed
qed

lemma walk_as_iterator:
  assumes "depth \<le> max_depth"
  shows "case walkTree depth sys tree of
      Inr (evs, ns, es) \<Rightarrow> \<exists>it it'. searchNew sys tree = Inr it \<and>
        runSearch (length evs + 1) sys it = Inr (evs @ [End_of_search], it') \<and>
        it_nodes it' = ns \<and> it_ignore it' = es
    | Inl e \<Rightarrow> e = Endless_recursion \<or> searchNew sys tree = Inl e \<or>
        (\<exists>it n. searchNew sys tree = Inr it \<and> runSearch n sys it = Inl e)"
proof -
  let ?first = "\<lparr>current_path = ''/'', it_nodes = tree_nodes tree, it_ignore = ignore_expressions tree,
               it_state = \<lparr>path_length = 0, access = Direct []\<rparr>, it_capacity = 0, it_stack = []\<rparr>"
  let ?policy = "sn_policy (tree_nodes tree ! 0)"
  show ?thesis
  proof (cases "recursionStepRaw sys (Some 0) ?policy ?first")
    case (Inl e)
    then have "walkTree depth sys tree = Inl e"
      using walkDirectory_fails [OF Inl, of "walkPath depth sys" "[]"] by (simp add: walkTree_def)
    moreover have "searchNew sys tree = Inl e" using Inl by (simp add: searchNew_def)
    ultimately show ?thesis by simp
  next
    case (Inr it1)
    let ?it = "it1\<lparr>it_state := (it_state it1)\<lparr>path_length := 0\<rparr>, it_capacity := 4\<rparr>"
    have new: "searchNew sys tree = Inr ?it" using Inr
      by (simp add: searchNew_def Let_def size_mul_def sizeof_DirSearchState_def SIZE_MAX_def)
    have it1: "it_nodes it1 = tree_nodes tree" "it_ignore it1 = ignore_expressions tree"
        "current_path it1 = ''/''" "it_stack it1 = []"
      using Inr by (auto simp: recursionStepRaw_access bindE_eq_Inr)
    have "lists_as sys ?it (walkDirectory (walkPath depth sys) sys
        (take (path_length (it_state ?it)) (current_path ?it)) (current_path ?first) (Some 0) ?policy
        (it_nodes ?first, it_ignore ?first))"
      by (rule walkDirectory_lists [OF walkPath_visit_ok Inr]) (use it1 assms in simp_all)
    then have l: "lists_as sys ?it (walkTree depth sys tree)" by (simp add: walkTree_def)
    show ?thesis
    proof (cases "walkTree depth sys tree")
      case (Inl e)
      then have "e = Endless_recursion \<or> (\<exists>evs. search_ends sys ?it evs (Inl e))"
        using l by (simp add: lists_as_def)
      then have "e = Endless_recursion \<or> (\<exists>n. runSearch n sys ?it = Inl e)"
        using search_ends_run(2) by blast
      then show ?thesis using new Inl by auto
    next
      case (Inr w)
      obtain evs ns es where w: "w = (evs, ns, es)" by (cases w) auto
      with l Inr obtain it' where "search_ends sys ?it evs (Inr it')" "it_nodes it' = ns" "it_ignore it' = es"
          "it_stack it' = []"
        by (auto simp: lists_as_def it1)
      with search_ends_run(1) [OF this(1,4)] show ?thesis using new Inr w by auto
    qed
  qed
qed

text \<open>
  C13: searching is the recursive traversal. For every search tree and file system, an iterator
  that is asked again and again returns the events of the traversal in its order and then the end
  of the search, with the same nodes and expressions marked as matched; and when the traversal
  meets an error, the program ends with that error. The stack of states, the shared path buffer
  and the lists that are consumed step by step never show.
\<close>

theorem searchGetNext_traverses:
  assumes "depth \<le> max_depth"
  shows "case walkTree depth sys tree of
      Inr (evs, ns, es) \<Rightarrow> \<exists>it it'. searchNew sys tree = Inr it \<and>
        runSearch (length evs + 1) sys it = Inr (evs @ [End_of_search], it') \<and>
        it_nodes it' = ns \<and> it_ignore it' = es
    | Inl e \<Rightarrow> e = Endless_recursion \<or> searchNew sys tree = Inl e \<or>
        (\<exists>it n. searchNew sys tree = Inr it \<and> runSearch n sys it = Inl e)"
  by (rule walk_as_iterator [OF assms])

section \<open>Every search ends\<close>

text \<open>\<open>stat()\<close> and \<open>lstat()\<close> fail for a path that does not fit into \<open>PATH_MAX\<close> bytes.\<close>

definition PATH_MAX :: nat where
  "PATH_MAX = 4096"

definition paths_limited :: "os \<Rightarrow> bool" where
  "paths_limited sys \<longleftrightarrow> (\<forall>path. PATH_MAX \<le> length path \<longrightarrow>
     os_stat sys path = None \<and> os_lstat sys path = Lstat_failed)"

definition returns_below :: "nat \<Rightarrow> visit \<Rightarrow> bool" where
  "returns_below n visit \<longleftrightarrow> (\<forall>path node policy m. n < length path \<longrightarrow>
     visit path node policy m \<noteq> Inl Endless_recursion)"

lemma returns_belowD:
  "returns_below n visit \<Longrightarrow> n < length path \<Longrightarrow> visit path node policy m \<noteq> Inl Endless_recursion"
  unfolding returns_below_def by blast

lemma matchSubnodes_error: "matchSubnodes sys ns path name matched is \<noteq> Inl Endless_recursion"
  by (induction sys ns path name matched "is" rule: matchSubnodes.induct) auto

lemma followed_by_returns:
  "w \<noteq> Inl Endless_recursion \<Longrightarrow> (\<And>m. k m \<noteq> Inl Endless_recursion) \<Longrightarrow>
     followed_by w k \<noteq> Inl Endless_recursion"
  by (auto simp: followed_by_def bindE_eq_Inl)

lemma walkNodes_returns:
  "returns_below (length base) visit \<Longrightarrow> walkNodes visit sys base is m \<noteq> Inl Endless_recursion"
proof (induction "is" arbitrary: m)
  case (Cons i "is")
  have "visit (append_path base name) node policy m' \<noteq> Inl Endless_recursion" for name node policy m'
    by (rule returns_belowD [OF Cons.prems]) (simp add: append_path_def)
  with Cons.IH [OF Cons.prems] have "followed_by (visit (append_path base (sn_name (fst m ! i))) (Some i)
      (sn_policy (fst m ! i)) m) (walkNodes visit sys base is) \<noteq> Inl Endless_recursion"
    by (rule followed_by_returns [rotated])
  then show ?case using Cons.IH [OF Cons.prems]
    by (simp add: Let_def bindE_eq_Inl sPathExists_def split: lstat_result.splits if_splits)
qed simp

lemma walkEntries_returns:
  "returns_below (length base) visit \<Longrightarrow>
     walkEntries visit sys base dir subnodes fallback dirents m \<noteq> Inl Endless_recursion"
proof (induction dirents arbitrary: m rule: length_induct)
  case (1 dirents)
  have v: "visit (append_path base name) node policy m' \<noteq> Inl Endless_recursion" for name node policy m'
    by (rule returns_belowD [OF "1.prems"]) (simp add: append_path_def)
  show ?case
  proof (cases "readEntries dir dirents")
    case (Inl e)
    have "readEntries dir dirents \<noteq> Inl Endless_recursion"
      by (induction dir dirents rule: readEntries.induct) auto
    then show ?thesis by (subst walkEntries_readEntries) (simp add: Inl)
  next
    case (Inr er)
    obtain entry rest where er: "er = (entry, rest)" by (cases er) auto
    show ?thesis
    proof (cases "entry = []")
      case False
      have "length rest < length dirents" using readEntries_shorter Inr er False by blast
      with 1 have "walkEntries visit sys base dir subnodes fallback rest m' \<noteq> Inl Endless_recursion" for m'
        by blast
      then have f: "followed_by (visit (append_path base name) node policy m')
            (walkEntries visit sys base dir subnodes fallback rest) \<noteq> Inl Endless_recursion"
          and k: "walkEntries visit sys base dir subnodes fallback rest m' \<noteq> Inl Endless_recursion"
        for name node policy m'
        by (rule followed_by_returns [OF v]) (rule \<open>\<And>m'. walkEntries _ _ _ _ _ _ rest m' \<noteq> _\<close>)
      have "walkEntry visit sys base subnodes fallback entry
          (walkEntries visit sys base dir subnodes fallback rest) m \<noteq> Inl Endless_recursion"
        unfolding walkEntry_def Let_def bindE_eq_Inl
        by (cases "fallback = BPOL_none")
          (use f k in \<open>simp_all add: matchSubnodes_error split: option.splits prod.splits\<close>)
      then show ?thesis by (subst walkEntries_readEntries) (simp add: Inr er False)
    qed (subst walkEntries_readEntries, simp add: Inr er)
  qed
qed

lemma walkDirectory_returns:
  "returns_below (length base) visit \<Longrightarrow> walkDirectory visit sys base path node policy m \<noteq> Inl Endless_recursion"
  using walkNodes_returns walkEntries_returns
  by (auto simp: walkDirectory_def bindE_eq_Inl sDirOpen_def split: option.splits)

lemma walkPath_returns:
  assumes "paths_limited sys"
  shows "0 < depth \<Longrightarrow> returns_below (PATH_MAX - depth) (walkPath depth sys)"
proof (induction depth)
  case (Suc depth)
  show ?case unfolding returns_below_def
  proof (intro allI impI)
    fix path :: string and node policy and m :: marks
    assume long: "PATH_MAX - Suc depth < length path"
    let ?stats = "if subnodes_at (fst m) node \<noteq> [] then sStat sys path else sLStat sys path"
    show "walkPath (Suc depth) sys path node policy m \<noteq> Inl Endless_recursion"
    proof (cases ?stats)
      case (Inl e)
      then have "e \<noteq> Endless_recursion"
        by (auto simp: sStat_def sLStat_def split: if_splits option.splits lstat_result.splits)
      then show ?thesis using Inl by simp
    next
      case (Inr stats)
      then have "length path < PATH_MAX"
        using assms unfolding paths_limited_def
        by (cases "PATH_MAX \<le> length path") (auto simp: sStat_def sLStat_def split: if_splits)
      then have "0 < depth" using long by (cases depth) auto
      have "returns_below (length path) (walkPath depth sys)"
        using Suc.IH [OF \<open>0 < depth\<close>] long \<open>0 < depth\<close> unfolding returns_below_def by fastforce
      from walkDirectory_returns [OF this] show ?thesis using Inr by (auto simp: Let_def bindE_eq_Inl)
    qed
  qed
qed simp

lemma search_returns:
  assumes "paths_limited sys"
  shows "(\<exists>e. searchNew sys tree = Inl e) \<or>
    (\<exists>it n. searchNew sys tree = Inr it \<and>
      ((\<exists>evs it'. runSearch n sys it = Inr (evs @ [End_of_search], it')) \<or>
       (\<exists>e. e \<noteq> Endless_recursion \<and> runSearch n sys it = Inl e)))"
proof -
  have "returns_below 0 (walkPath PATH_MAX sys)"
    using walkPath_returns [OF assms, of PATH_MAX] by (simp add: PATH_MAX_def)
  then have "walkTree PATH_MAX sys tree \<noteq> Inl Endless_recursion"
    using walkDirectory_returns [of "[]"] by (simp add: walkTree_def)
  moreover have "PATH_MAX \<le> max_depth" by (simp add: PATH_MAX_def max_depth_def)
  note walk = walk_as_iterator [OF this, of sys tree]
  show ?thesis
  proof (cases "walkTree PATH_MAX sys tree")
    case (Inl e)
    then have "searchNew sys tree = Inl e \<or> (\<exists>it n. searchNew sys tree = Inr it \<and> runSearch n sys it = Inl e)"
      and "e \<noteq> Endless_recursion"
      using walk calculation by auto
    then show ?thesis by blast
  next
    case (Inr w)
    then obtain evs ns es where "walkTree PATH_MAX sys tree = Inr (evs, ns, es)" by (cases w) auto
    with walk obtain it it' where "searchNew sys tree = Inr it"
        "runSearch (length evs + 1) sys it = Inr (evs @ [End_of_search], it')" by auto
    then show ?thesis by blast
  qed
qed

text \<open>
  C34: every search comes to an end: after finitely many calls an iterator has reported the end of
  the search or an error, because a path that the system accepts is shorter than \<open>PATH_MAX\<close>.
  This holds for every search tree and for cyclic links as well.
\<close>

theorem searchGetNext_ends:
  assumes "paths_limited sys"
  shows "(\<exists>e. searchNew sys tree = Inl e) \<or>
    (\<exists>it n. searchNew sys tree = Inr it \<and>
      ((\<exists>evs it'. runSearch n sys it = Inr (evs @ [End_of_search], it')) \<or>
       (\<exists>e. e \<noteq> Endless_recursion \<and> runSearch n sys it = Inl e)))"
  using search_returns [OF assms] .

section \<open>Searching the root directory\<close>

lemma matchSubnodes_matches:
  "matchSubnodes sys ns path name matched is = Inr (Some i) \<Longrightarrow> matched = Some i \<or> nodeMatches sys (ns ! i) name"
  by (induction sys ns path name matched "is" rule: matchSubnodes.induct) (auto split: if_splits)

lemma split_root_entry: "d \<noteq> [] \<Longrightarrow> CHR ''/'' \<notin> set d \<Longrightarrow> snd (split_path (append_path ''/'' d)) = CHR ''/'' # d"
proof -
  assume d: "d \<noteq> []" "CHR ''/'' \<notin> set d"
  have "dropWhile (\<lambda>c. c \<noteq> CHR ''/'') (rev (append_path ''/'' d)) = ''//''"
    using d(2) by (simp add: append_path_def dropWhile_append)
  then have "upto_last_slash (append_path ''/'' d) = ''//''" by (simp add: upto_last_slash_def)
  then show ?thesis by (simp add: split_path_def strip_slashes_def append_path_def)
qed

text \<open>Marking nodes as matched changes neither their names nor their expressions.\<close>

definition same_names :: "search_node list \<Rightarrow> search_node list \<Rightarrow> bool" where
  "same_names ns ns' \<longleftrightarrow> length ns' = length ns \<and>
     (\<forall>i < length ns. sn_name (ns' ! i) = sn_name (ns ! i) \<and> sn_regex (ns' ! i) = sn_regex (ns ! i))"

lemma same_names_refl [simp]: "same_names ns ns"
  by (simp add: same_names_def)

lemma same_names_trans: "same_names ns ns1 \<Longrightarrow> same_names ns1 ns2 \<Longrightarrow> same_names ns ns2"
  by (auto simp: same_names_def)

lemma same_names_mark: "same_names ns (markMatched node t ns)"
proof (cases node)
  case (Some x)
  have "sn_name (markMatched node t ns ! i) = sn_name (ns ! i) \<and> sn_regex (markMatched node t ns ! i) = sn_regex (ns ! i)"
    if "i < length ns" for i
    using that Some by (cases "x = i") (simp_all add: markMatched_def)
  then show ?thesis by (simp add: same_names_def markMatched_def Some)
qed (simp add: markMatched_def)

text \<open>What a visit of a path finds: the path itself with its node, or something below it.\<close>

definition visit_below :: "visit \<Rightarrow> bool" where
  "visit_below visit \<longleftrightarrow> (\<forall>path node policy m evs m'. visit path node policy m = Inr (evs, m') \<longrightarrow>
     same_names (fst m) (fst m') \<and>
     (\<forall>res. Found res \<in> set evs \<longrightarrow>
        sr_path res = path \<and> sr_node res = node \<or> (\<exists>r. sr_path res = append_path path r)))"

lemma visit_belowD:
  assumes "visit_below visit" "visit path node policy m = Inr (evs, m')"
  shows "same_names (fst m) (fst m')"
    and "Found res \<in> set evs \<Longrightarrow> sr_path res = path \<and> sr_node res = node \<or> (\<exists>r. sr_path res = append_path path r)"
  using assms unfolding visit_below_def by blast+

definition finds_below :: "string \<Rightarrow> marks \<Rightarrow> search_event list \<times> marks \<Rightarrow> bool" where
  "finds_below base m w \<longleftrightarrow> same_names (fst m) (fst (snd w)) \<and>
     (\<forall>res. Found res \<in> set (fst w) \<longrightarrow> (\<exists>r. sr_path res = append_path base r))"

lemma finds_below_visit:
  assumes "visit_below visit" "followed_by (visit (append_path base name) node policy m) k = Inr w"
    and "\<And>m1 w1. k m1 = Inr w1 \<Longrightarrow> finds_below base m1 w1"
  shows "finds_below base m w"
proof -
  obtain evs1 m1 evs2 m2 where v: "visit (append_path base name) node policy m = Inr (evs1, m1)" "k m1 = Inr (evs2, m2)"
      "w = (evs1 @ evs2, m2)"
    using assms(2) by (auto simp: followed_by_def bindE_eq_Inr)
  note V = visit_belowD [OF assms(1) v(1)]
  have "append_path (append_path base name) r = append_path base (append_path name r)" for r
    by (simp add: append_path_def)
  with V(2) have "\<exists>r. sr_path res = append_path base r" if "Found res \<in> set evs1" for res using that by metis
  moreover have "same_names (fst m) (fst m2)"
    using same_names_trans [OF V(1)] assms(3) [OF v(2)] by (simp add: finds_below_def)
  ultimately show ?thesis using assms(3) [OF v(2)] by (auto simp: finds_below_def v(3))
qed

lemma walkNodes_below: "visit_below visit \<Longrightarrow> walkNodes visit sys base is m = Inr w \<Longrightarrow> finds_below base m w"
proof (induction "is" arbitrary: m w)
  case (Cons i "is")
  let ?path = "append_path base (sn_name (fst m ! i))"
  obtain present where P: "sPathExists sys ?path = Inr present" using Cons.prems(2) by (auto simp: Let_def bindE_eq_Inr)
  show ?case
  proof (cases present)
    case True
    then have "followed_by (visit ?path (Some i) (sn_policy (fst m ! i)) m) (walkNodes visit sys base is) = Inr w"
      using Cons.prems(2) P by (simp add: Let_def)
    from finds_below_visit [OF Cons.prems(1) this Cons.IH [OF Cons.prems(1)]] show ?thesis .
  qed (use Cons P in simp)
qed (auto simp: finds_below_def)

lemma walkEntries_below:
  "visit_below visit \<Longrightarrow> walkEntries visit sys base dir subnodes fallback dirents m = Inr w \<Longrightarrow> finds_below base m w"
proof (induction dirents arbitrary: m w)
  case (Cons d dirents)
  note visit = finds_below_visit [OF Cons.prems(1) _ Cons.IH [OF Cons.prems(1)]]
  show ?case
  proof (cases d)
    case (Some n)
    let ?name = "snd (split_path (append_path dir n))" and ?rest = "walkEntries visit sys base dir subnodes fallback dirents"
    let ?path = "append_path base ?name"
    show ?thesis
    proof (cases "n = ''.'' \<or> n = ''..''")
      case False
      with Cons.prems(2) obtain matched where
        R: "(case matched of
               Some i \<Rightarrow> followed_by (visit ?path (Some i) (sn_policy (fst m ! i)) m) ?rest
             | None \<Rightarrow>
                 if fallback = BPOL_none then ?rest m
                 else case matchIgnore sys ?path (snd m) of (ignored, es) \<Rightarrow>
                   if ignored then ?rest (fst m, es) else followed_by (visit ?path None fallback (fst m, es)) ?rest) = Inr w"
        by (auto simp: Some Let_def bindE_eq_Inr)
      show ?thesis
      proof (cases matched)
        case None
        obtain ignored es where es: "matchIgnore sys ?path (snd m) = (ignored, es)" by (cases "matchIgnore sys ?path (snd m)")
        have "finds_below base (fst m, es) w \<Longrightarrow> finds_below base m w" by (cases m) (simp add: finds_below_def)
        then show ?thesis
          using R None es Cons.IH [OF Cons.prems(1)] visit by (auto split: if_splits)
      qed (use R visit in simp)
    qed (use Cons Some in auto)
  qed (use Cons.prems in simp)
qed (auto simp: finds_below_def)

lemma walkDirectory_below:
  "visit_below visit \<Longrightarrow> walkDirectory visit sys base path node policy m = Inr w \<Longrightarrow> finds_below base m w"
  by (auto simp: walkDirectory_def bindE_eq_Inr split: if_splits dest: walkNodes_below walkEntries_below)

lemma walkPath_below: "visit_below (walkPath depth sys)"
proof (induction depth)
  case (Suc depth)
  show ?case unfolding visit_below_def
  proof (intro allI impI)
    fix path :: string and node policy and m :: marks and evs m'
    assume "walkPath (Suc depth) sys path node policy m = Inr (evs, m')"
    then obtain stats where W: "(let found = Found \<lparr>sr_path = path, sr_node = node, sr_policy = policy, sr_stats = stats\<rparr>;
           m = (markMatched node (st_type stats) (fst m), snd m)
       in if st_type stats = Directory_file then
            bindE (walkDirectory (walkPath depth sys) sys path path node policy m) (\<lambda>(evs, m).
              Inr (found # evs @ [End_of_directory], m))
          else Inr ([found], m)) = Inr (evs, m')"
      by (auto simp: bindE_eq_Inr)
    let ?m = "(markMatched node (st_type stats) (fst m), snd m)"
    have mark: "same_names (fst m) (fst ?m)" by (simp add: same_names_mark)
    show "same_names (fst m) (fst m') \<and> (\<forall>res. Found res \<in> set evs \<longrightarrow>
        sr_path res = path \<and> sr_node res = node \<or> (\<exists>r. sr_path res = append_path path r))"
    proof (cases "st_type stats = Directory_file")
      case True
      with W obtain evs1 where w: "walkDirectory (walkPath depth sys) sys path path node policy ?m = Inr (evs1, m')"
          "evs = Found \<lparr>sr_path = path, sr_node = node, sr_policy = policy, sr_stats = stats\<rparr> # evs1 @ [End_of_directory]"
        by (auto simp: Let_def bindE_eq_Inr)
      from walkDirectory_below [OF Suc.IH w(1)] have "same_names (fst ?m) (fst m')"
          "\<forall>res. Found res \<in> set evs1 \<longrightarrow> (\<exists>r. sr_path res = append_path path r)" by (simp_all add: finds_below_def)
      then show ?thesis using w(2) same_names_trans [OF mark] by auto
    qed (use W mark in \<open>auto simp: Let_def\<close>)
  qed
qed (simp add: visit_below_def)

text \<open>The entries of the root directory: a found path and the node that it matches.\<close>

definition doubled :: "search_node list \<Rightarrow> search_result \<Rightarrow> bool" where
  "doubled ns res \<longleftrightarrow> (\<exists>name. sr_path res = ''//'' @ name \<and> (CHR ''/'' \<notin> set name \<longrightarrow>
     (\<forall>i < length ns. sr_node res = Some i \<longrightarrow> sn_regex (ns ! i) = None \<longrightarrow> sn_name (ns ! i) = CHR ''/'' # name)))"

lemma doubled_visit:
  assumes "visit_below visit" "visit (append_path [] (CHR ''/'' # d)) node policy m = Inr (evs, m')" "Found res \<in> set evs"
    and "\<And>i. node = Some i \<Longrightarrow> nodeMatches sys (fst m ! i) (CHR ''/'' # d)" "same_names ns (fst m)"
  shows "doubled ns res"
  using visit_belowD(2) [OF assms(1-3)]
proof (elim disjE conjE exE)
  assume P: "sr_path res = append_path [] (CHR ''/'' # d)" "sr_node res = node"
  have "sn_name (ns ! i) = CHR ''/'' # d" if "i < length ns" "node = Some i" "sn_regex (ns ! i) = None" for i
    using assms(4) [OF that(2)] assms(5) that by (simp add: nodeMatches_def same_names_def)
  with P show ?thesis unfolding doubled_def by (intro exI [of _ d]) (simp add: append_path_def)
next
  fix r assume "sr_path res = append_path (append_path [] (CHR ''/'' # d)) r"
  then show ?thesis unfolding doubled_def by (intro exI [of _ "d @ ''/'' @ r"]) (simp add: append_path_def)
qed

lemma followed_by_found:
  assumes "followed_by (visit path node policy m) k = Inr (evs, m')" "Found res \<in> set evs"
  obtains evs1 m1 where "visit path node policy m = Inr (evs1, m1)" "Found res \<in> set evs1"
  | evs1 m1 evs2 where "visit path node policy m = Inr (evs1, m1)" "k m1 = Inr (evs2, m')" "Found res \<in> set evs2"
  using assms by (auto simp: followed_by_def bindE_eq_Inr)

lemma walkEntries_root:
  assumes "visit_below visit"
  shows "walkEntries visit sys [] ''/'' subnodes fallback dirents m = Inr (evs, m') \<Longrightarrow> Found res \<in> set evs \<Longrightarrow>
    \<forall>d. Some d \<in> set dirents \<longrightarrow> d \<noteq> [] \<and> CHR ''/'' \<notin> set d \<Longrightarrow> same_names ns (fst m) \<Longrightarrow> doubled ns res"
proof (induction dirents arbitrary: m evs)
  case (Cons e dirents)
  from Cons.prems(1) obtain d where e: "e = Some d" by (cases e) auto
  have names: "\<forall>d. Some d \<in> set dirents \<longrightarrow> d \<noteq> [] \<and> CHR ''/'' \<notin> set d" "snd (split_path (append_path ''/'' d)) = CHR ''/'' # d"
    using Cons.prems(3) split_root_entry by (auto simp: e)
  let ?rest = "walkEntries visit sys [] ''/'' subnodes fallback dirents" and ?path = "append_path [] (CHR ''/'' # d)"
  have later: "doubled ns res" if "followed_by (visit ?path node policy m1) ?rest = Inr (evs, m')" "fst m1 = fst m"
      "\<And>i. node = Some i \<Longrightarrow> nodeMatches sys (fst m ! i) (CHR ''/'' # d)" for node policy m1
    using that(1) Cons.prems(2)
  proof (rule followed_by_found)
    fix evs1 m2 assume "visit ?path node policy m1 = Inr (evs1, m2)" "Found res \<in> set evs1"
    from doubled_visit [OF assms this] that(2,3) Cons.prems(4) show ?thesis by auto
  next
    fix evs1 m2 evs2 assume V: "visit ?path node policy m1 = Inr (evs1, m2)" "?rest m2 = Inr (evs2, m')" "Found res \<in> set evs2"
    have "same_names ns (fst m2)" using same_names_trans [OF Cons.prems(4)] visit_belowD(1) [OF assms V(1)] that(2) by simp
    then show ?thesis using Cons.IH [OF V(2,3) names(1)] by blast
  qed
  show ?case
  proof (cases "d = ''.'' \<or> d = ''..''")
    case True
    then show ?thesis using Cons.IH Cons.prems names(1) by (auto simp: e)
  next
    case False
    with Cons.prems(1) obtain matched where
      M: "matchSubnodes sys (fst m) ?path (CHR ''/'' # d) None subnodes = Inr matched" and
      R: "(case matched of
               Some i \<Rightarrow> followed_by (visit ?path (Some i) (sn_policy (fst m ! i)) m) ?rest
             | None \<Rightarrow>
                 if fallback = BPOL_none then ?rest m
                 else case matchIgnore sys ?path (snd m) of (ignored, es) \<Rightarrow>
                   if ignored then ?rest (fst m, es) else followed_by (visit ?path None fallback (fst m, es)) ?rest) = Inr (evs, m')"
      by (auto simp: e names(2) Let_def bindE_eq_Inr)
    show ?thesis
    proof (cases matched)
      case None
      obtain ignored es where es: "matchIgnore sys ?path (snd m) = (ignored, es)"
        by (cases "matchIgnore sys ?path (snd m)")
      have "same_names ns (fst (fst m, es))" using Cons.prems(4) by simp
      then show ?thesis
        using R None es Cons.IH [OF _ Cons.prems(2) names(1)] Cons.prems(4) later [of None fallback "(fst m, es)"]
        by (auto split: if_splits)
    next
      case (Some i)
      then have "nodeMatches sys (fst m ! i) (CHR ''/'' # d)" using matchSubnodes_matches M by fastforce
      then show ?thesis using later [of "Some i" _ m] R Some by simp
    qed
  qed
qed simp

text \<open>A run of the iterator that has come to its end is the same with more calls.\<close>

lemma runSearch_more:
  "runSearch n sys it \<noteq> Inl Endless_recursion \<Longrightarrow> runSearch (n + k) sys it = runSearch n sys it"
proof (induction n arbitrary: it)
  case (Suc n)
  show ?case
  proof (cases "searchGetNext sys it")
    case (Inr r)
    obtain ev it1 where r: "r = (ev, it1)" by (cases r)
    show ?thesis
    proof (cases "ev = End_of_search")
      case False
      then have "runSearch n sys it1 \<noteq> Inl Endless_recursion" using Suc.prems Inr r by auto
      from Suc.IH [OF this] show ?thesis using Inr r False by simp
    qed (simp add: Inr r)
  qed simp
qed simp

lemma runSearch_same:
  "runSearch n sys it \<noteq> Inl Endless_recursion \<Longrightarrow> runSearch m sys it \<noteq> Inl Endless_recursion \<Longrightarrow>
     runSearch n sys it = runSearch m sys it"
  by (metis add.commute runSearch_more)

lemma run_is_walk:
  assumes "paths_limited sys" "searchNew sys tree = Inr it" "runSearch n sys it = Inr (evs, it')"
  obtains evs1 m where "walkTree PATH_MAX sys tree = Inr (evs1, m)" "evs = evs1 @ [End_of_search]"
proof -
  have "returns_below 0 (walkPath PATH_MAX sys)"
    using walkPath_returns [OF assms(1), of PATH_MAX] by (simp add: PATH_MAX_def)
  then have returns: "walkTree PATH_MAX sys tree \<noteq> Inl Endless_recursion"
    using walkDirectory_returns [of "[]"] by (simp add: walkTree_def)
  have "PATH_MAX \<le> max_depth" by (simp add: PATH_MAX_def max_depth_def)
  note walk = walk_as_iterator [OF this, of sys tree]
  show thesis
  proof (cases "walkTree PATH_MAX sys tree")
    case (Inl e)
    then obtain m where "runSearch m sys it = Inl e" using walk returns assms(2) by auto
    then show thesis using runSearch_same [of m sys it n] Inl returns assms(3) by simp
  next
    case (Inr w)
    obtain evs1 ns es where w: "w = (evs1, ns, es)" by (cases w) auto
    obtain it1 where "runSearch (length evs1 + 1) sys it = Inr (evs1 @ [End_of_search], it1)"
      using walk assms(2) unfolding Inr w sum.case prod.case by auto
    then have "evs = evs1 @ [End_of_search]" using runSearch_same [of "length evs1 + 1" sys it n] assms(3) by simp
    with that Inr w show thesis by blast
  qed
qed

text \<open>
  C35: when the root directory itself is listed, because it has a policy or because an expression
  stands directly below it, then every path that the search finds starts with two slashes. A node
  without expression matches an entry of the root directory only if the name of the node starts with a slash.
\<close>

theorem search_root_doubles_slash:
  assumes "paths_limited sys" and "searchNew sys tree = Inr it"
    and "access (it_state it) = Dir_search dir subnodes fallback"
    and "\<And>dirents d. os_readdir sys ''/'' = Some dirents \<Longrightarrow> Some d \<in> set dirents \<Longrightarrow> d \<noteq> [] \<and> CHR ''/'' \<notin> set d"
    and "runSearch n sys it = Inr (evs, it')" and "Found res \<in> set evs"
  shows "\<exists>name. sr_path res = ''//'' @ name \<and> (CHR ''/'' \<notin> set name \<longrightarrow>
    (\<forall>i < length (tree_nodes tree). sr_node res = Some i \<longrightarrow> sn_regex (tree_nodes tree ! i) = None \<longrightarrow>
       sn_name (tree_nodes tree ! i) = CHR ''/'' # name))"
proof -
  obtain evs1 m where w: "walkTree PATH_MAX sys tree = Inr (evs1, m)" "evs = evs1 @ [End_of_search]"
    by (rule run_is_walk [OF assms(1,2,5)])
  have listed: "\<not> looked_up_directly (tree_nodes tree) (Some 0)"
    using assms(2,3) by (auto simp: searchNew_def recursionStepRaw_access bindE_eq_Inr Let_def split: if_splits)
  from w(1) listed obtain dirents where d: "os_readdir sys ''/'' = Some dirents"
      "walkEntries (walkPath PATH_MAX sys) sys [] ''/'' (subnodes_at (tree_nodes tree) (Some 0))
         (sn_policy (tree_nodes tree ! 0)) dirents (tree_nodes tree, ignore_expressions tree) = Inr (evs1, m)"
    by (auto simp: walkTree_def walkDirectory_def bindE_eq_Inr sDirOpen_def split: option.splits)
  have "Found res \<in> set evs1" using assms(6) w(2) by simp
  from walkEntries_root [OF walkPath_below d(2) this] assms(4) d(1)
  show ?thesis by (auto simp: doubled_def)
qed

section \<open>A small file system\<close>

definition example_stat :: "file_type \<Rightarrow> file_stat" where
  "example_stat t = \<lparr>st_type = t, st_mode = 0, st_uid = 0, st_gid = 0, st_mtime = 0, st_size = 0,
     st_blksize = 4096\<rparr>"

definition example_os :: os where
  "example_os = \<lparr>
     os_stat = (\<lambda>path. None),
     os_lstat = (\<lambda>path. if PATH_MAX \<le> length path then Lstat_failed
       else if path = ''/'' \<or> path = ''/a'' then Lstat_ok (example_stat Directory_file)
       else if path = ''/a/f'' \<or> path = ''//f'' then Lstat_ok (example_stat Regular_file) else Lstat_missing),
     os_readdir = (\<lambda>path. if path = ''/a'' then Some [Some ''.'', Some ''f''] else Some [Some ''f'']),
     os_readlink = (\<lambda>_ _. None), os_content = (\<lambda>_. None), os_regexec = (\<lambda>_ _. False),
     os_memory = (\<lambda>_ _. True), os_blake2b = (\<lambda>_. [])\<rparr>"

definition example_tree :: search_tree where
  "example_tree = \<lparr>tree_nodes =
     [root_node\<lparr>sn_subnodes := [1]\<rparr>, root_node\<lparr>sn_name := ''a'', sn_policy := BPOL_copy\<rparr>],
     ignore_expressions = [], summarize_expressions = []\<rparr>"

fun event_path :: "search_event \<Rightarrow> string option" where
  "event_path (Found res) = Some (sr_path res)"
| "event_path _ = None"

lemma example_walk:
  "\<exists>evs ns es. walkTree 3 example_os example_tree = Inr (evs, ns, es) \<and>
     map event_path evs = [Some ''/a'', Some ''/a/f'', None]"
  by (simp add: walkTree_def walkDirectory_def looked_up_directly_def subnodes_at_def example_tree_def
      example_os_def root_node_def sPathExists_def sLStat_def sDirOpen_def append_path_def followed_by_def
      PATH_MAX_def example_stat_def markMatched_def split_path_def upto_last_slash_def strip_slashes_def
      eval_nat_numeral Let_def)

theorem searchGetNext_traverses_witness:
  "\<exists>it evs it'. searchNew example_os example_tree = Inr it \<and>
     runSearch (length evs + 1) example_os it = Inr (evs @ [End_of_search], it') \<and>
     map event_path evs = [Some ''/a'', Some ''/a/f'', None]"
proof -
  obtain evs ns es where w: "walkTree 3 example_os example_tree = Inr (evs, ns, es)"
      "map event_path evs = [Some ''/a'', Some ''/a/f'', None]"
    using example_walk by (elim exE conjE)
  have "(3::nat) \<le> max_depth" by (simp add: max_depth_def)
  from searchGetNext_traverses [OF this, of example_os example_tree] obtain it it' where
      "searchNew example_os example_tree = Inr it"
      "runSearch (length evs + 1) example_os it = Inr (evs @ [End_of_search], it')"
    unfolding w(1) sum.case prod.case by (elim exE conjE)
  with w(2) show ?thesis by (intro exI [of _ it] exI [of _ evs] exI [of _ it'] conjI)
qed

lemma example_paths_limited: "paths_limited example_os"
  by (simp add: paths_limited_def example_os_def)

theorem searchGetNext_ends_witness:
  "\<exists>it n. searchNew example_os example_tree = Inr it \<and>
     ((\<exists>evs it'. runSearch n example_os it = Inr (evs @ [End_of_search], it')) \<or>
      (\<exists>e. e \<noteq> Endless_recursion \<and> runSearch n example_os it = Inl e))"
proof -
  have "\<exists>it. searchNew example_os example_tree = Inr it"
    by (simp add: searchNew_def recursionStepRaw_access looked_up_directly_def example_tree_def root_node_def
        Let_def size_mul_def sizeof_DirSearchState_def SIZE_MAX_def)
  with searchGetNext_ends [OF example_paths_limited, of example_tree] show ?thesis by auto
qed

definition example_root_tree :: search_tree where
  "example_root_tree = \<lparr>tree_nodes = [root_node\<lparr>sn_policy := BPOL_copy\<rparr>],
     ignore_expressions = [], summarize_expressions = []\<rparr>"

theorem search_root_doubles_slash_witness:
  "\<exists>it n evs it' res name. searchNew example_os example_root_tree = Inr it \<and>
     runSearch n example_os it = Inr (evs, it') \<and> Found res \<in> set evs \<and> sr_path res = ''//'' @ name"
proof -
  have readdir: "os_readdir example_os ''/'' = Some [Some ''f'']" by (simp add: example_os_def)
  define it where "it = \<lparr>current_path = ''/'', it_nodes = tree_nodes example_root_tree, it_ignore = [],
      it_state = \<lparr>path_length = 0, access = Dir_search (''/'', [Some ''f'']) [] BPOL_copy\<rparr>,
      it_capacity = 4, it_stack = []\<rparr>"
  have new: "searchNew example_os example_root_tree = Inr it"
    by (simp add: searchNew_def recursionStepRaw_access looked_up_directly_def subnodes_at_def sDirOpen_def
        readdir example_root_tree_def root_node_def it_def
        Let_def size_mul_def sizeof_DirSearchState_def SIZE_MAX_def)
  have "\<exists>res it1. runSearch 2 example_os it = Inr ([Found res, End_of_search], it1)"
    by (simp add: numeral_2_eq_2 searchGetNext_def it_def finishSearchStep.simps sDirGetNext_def append_path_def
        split_path_def upto_last_slash_def strip_slashes_def replaceCurrentFilename_def finishNodeStep_def
        buildSearchResult_def sLStat_def example_os_def PATH_MAX_def example_stat_def finishDirectory_def Let_def)
  then obtain res it1 where run: "runSearch 2 example_os it = Inr ([Found res, End_of_search], it1)" by blast
  have listed: "access (it_state it) = Dir_search (''/'', [Some ''f'']) [] BPOL_copy" by (simp add: it_def)
  have names: "d \<noteq> [] \<and> CHR ''/'' \<notin> set d"
    if "os_readdir example_os ''/'' = Some dirents" "Some d \<in> set dirents" for dirents d
    using that unfolding readdir by auto
  have "Found res \<in> set [Found res, End_of_search]" by simp
  with search_root_doubles_slash [OF example_paths_limited new listed _ run] names
  obtain name where "sr_path res = ''//'' @ name" by meson
  with run new show ?thesis by (metis list.set_intros(1))
qed

end
