(* ===== verification/File_Hash.thy ===== *)
theory File_Hash
  imports File_System
begin

text \<open>
  Reading a file block by block: \<open>src/file-hash.c\<close>, and the loop over the blocks of a file that
  \<open>src/backup.c\<close>, \<open>src/integrity.c\<close> and \<open>src/restore.c\<close> write in the same way. BLAKE2 is a parameter,
  a function of the blocks it was updated with.
\<close>

text \<open>
  The loop: the blocks that are read while \<open>bytes_left\<close> bytes are expected. With a block size of 0
  the code would never end.
\<close>

function readBlocks :: "nat \<Rightarrow> nat \<Rightarrow> file_stream \<Rightarrow> (string list \<times> file_stream) result" where
  "readBlocks blocksize bytes_left stream =
     (if bytes_left > 0 then
        if blocksize = 0 then Inl Endless_recursion
        else
          let bytes_to_read = (if bytes_left > blocksize then blocksize else bytes_left)
          in bindE (sFread bytes_to_read stream) (\<lambda>(buffer, stream).
             bindE (readBlocks blocksize (bytes_left - bytes_to_read) stream) (\<lambda>(buffers, stream).
               Inr (buffer # buffers, stream)))
      else Inr ([], stream))"
  by pat_completeness auto
termination by (relation "measure (\<lambda>(blocksize, bytes_left, stream). bytes_left)") auto

declare readBlocks.simps [simp del]

text \<open>
  The hash, and the sizes with which a progress callback is called, one for each block.
\<close>

definition fileHashCalls :: "os \<Rightarrow> string \<Rightarrow> file_stat \<Rightarrow> (u8 list \<times> nat list) result" where
  "fileHashCalls sys filepath stats =
     bindE (sFopenRead sys filepath) (\<lambda>stream.
     bindE (readBlocks (unat (st_blksize stats)) (unat (st_size stats)) stream) (\<lambda>(blocks, stream).
       if sFbytesLeft stream then Inl (File_changed filepath)
       else Inr (os_blake2b sys blocks, map length blocks)))"

definition fileHash :: "os \<Rightarrow> string \<Rightarrow> file_stat \<Rightarrow> u8 list result" where
  "fileHash sys filepath stats = bindE (fileHashCalls sys filepath stats) (\<lambda>(hash, sizes). Inr hash)"

text \<open>BLAKE2 depends on the bytes only, not on how they were divided into blocks.\<close>

definition hash_of_bytes :: "os \<Rightarrow> bool" where
  "hash_of_bytes sys \<longleftrightarrow>
     (\<forall>xs ys. concat xs = concat ys \<longrightarrow> os_blake2b sys xs = os_blake2b sys ys) \<and>
     (\<forall>xs. length (os_blake2b sys xs) = FILE_HASH_SIZE)"

lemma readBlocks_ok:
  assumes "0 < blocksize" "n \<le> length (fs_rest stream)"
  shows "\<exists>blocks. readBlocks blocksize n stream =
      Inr (blocks, stream\<lparr>fs_rest := drop n (fs_rest stream)\<rparr>) \<and>
    concat blocks = take n (fs_rest stream) \<and> list_all (\<lambda>b. length b \<le> blocksize) blocks"
  using assms(2)
proof (induction n arbitrary: stream rule: less_induct)
  case (less n)
  show ?case
  proof (cases "n = 0")
    case True
    then show ?thesis by (simp add: readBlocks.simps)
  next
    case False
    define k where "k = (if n > blocksize then blocksize else n)"
    have k: "0 < k" "k \<le> n" "k \<le> blocksize" using False assms(1) by (auto simp: k_def)
    let ?s = "stream\<lparr>fs_rest := drop k (fs_rest stream)\<rparr>"
    have rd: "sFread k stream = Inr (take k (fs_rest stream), ?s)"
      using less.prems k by (simp add: sFread_def)
    have "n - k \<le> length (fs_rest ?s)" using less.prems by simp
    moreover have "n - k < n" using k by simp
    ultimately obtain blocks where
        blocks: "readBlocks blocksize (n - k) ?s = Inr (blocks, ?s\<lparr>fs_rest := drop (n - k) (fs_rest ?s)\<rparr>)"
        "concat blocks = take (n - k) (fs_rest ?s)" "list_all (\<lambda>b. length b \<le> blocksize) blocks"
      using less.IH [of "n - k" ?s] by blast
    have "readBlocks blocksize n stream =
        Inr (take k (fs_rest stream) # blocks, stream\<lparr>fs_rest := drop n (fs_rest stream)\<rparr>)"
      using False assms(1) rd blocks(1) k by (subst readBlocks.simps) (simp add: Let_def flip: k_def)
    moreover have "take k (fs_rest stream) @ take (n - k) (drop k (fs_rest stream)) = take n (fs_rest stream)"
      using k(2) by (metis le_add_diff_inverse take_add)
    ultimately show ?thesis using blocks(2,3) k(3) by simp
  qed
qed

lemma readBlocks_short:
  assumes "0 < blocksize" "length (fs_rest stream) < n"
  shows "readBlocks blocksize n stream = Inl (End_of_file (fs_path stream))"
  using assms(2)
proof (induction n arbitrary: stream rule: less_induct)
  case (less n)
  define k where "k = (if n > blocksize then blocksize else n)"
  have n: "0 < n" using less.prems by simp
  then have k: "0 < k" "k \<le> n" using assms(1) by (auto simp: k_def)
  show ?case
  proof (cases "length (fs_rest stream) < k")
    case True
    then have "sFread k stream = Inl (End_of_file (fs_path stream))" by (simp add: sFread_def)
    then show ?thesis using n assms(1) by (subst readBlocks.simps) (simp add: Let_def flip: k_def)
  next
    case False
    let ?s = "stream\<lparr>fs_rest := drop k (fs_rest stream)\<rparr>"
    have "sFread k stream = Inr (take k (fs_rest stream), ?s)" using False by (simp add: sFread_def)
    moreover have "readBlocks blocksize (n - k) ?s = Inl (End_of_file (fs_path ?s))"
      by (rule less.IH) (use n k less.prems False in auto)
    ultimately show ?thesis
      using n assms(1) by (subst readBlocks.simps) (simp add: Let_def flip: k_def)
  qed
qed

lemma fileHashCalls_bytes:
  assumes "hash_of_bytes sys" and "0 < st_blksize stats" and "os_content sys path = Some bytes"
  shows "\<exists>sizes. sum_list sizes = unat (st_size stats) \<and> fileHashCalls sys path stats =
    (if length bytes < unat (st_size stats) then Inl (End_of_file path)
     else if length bytes > unat (st_size stats) then Inl (File_changed path)
     else Inr (os_blake2b sys [bytes], sizes))"
proof -
  let ?s = "\<lparr>fs_path = path, fs_rest = bytes\<rparr>" and ?n = "unat (st_size stats)"
  have bs: "0 < unat (st_blksize stats)" using assms(2) by (simp add: word_less_nat_alt)
  have op: "sFopenRead sys path = Inr ?s" using assms(3) by (simp add: sFopenRead_def)
  show ?thesis
  proof (cases "length bytes < ?n")
    case True
    then show ?thesis using readBlocks_short [OF bs, of ?s ?n] op
      by (intro exI [of _ "[?n]"]) (simp add: fileHashCalls_def)
  next
    case False
    then obtain blocks where blocks: "readBlocks (unat (st_blksize stats)) ?n ?s =
        Inr (blocks, ?s\<lparr>fs_rest := drop ?n bytes\<rparr>)" "concat blocks = take ?n bytes"
      using readBlocks_ok [OF bs, of ?n ?s] by auto
    have "length (concat blocks) = ?n" using False blocks(2) by simp
    then have "sum_list (map length blocks) = ?n" by (simp add: length_concat)
    moreover have "os_blake2b sys blocks = os_blake2b sys [bytes]" if "length bytes = ?n"
      using assms(1) blocks(2) that unfolding hash_of_bytes_def by (metis append_Nil2 concat.simps order_refl take_all)
    ultimately show ?thesis using False op blocks(1)
      by (intro exI [of _ "map length blocks"]) (auto simp: fileHashCalls_def sFbytesLeft_def)
  qed
qed

lemma fileHash_bytes:
  assumes "hash_of_bytes sys" and "0 < st_blksize stats" and "os_content sys path = Some bytes"
  shows "fileHash sys path stats =
    (if length bytes < unat (st_size stats) then Inl (End_of_file path)
     else if length bytes > unat (st_size stats) then Inl (File_changed path)
     else Inr (os_blake2b sys [bytes]))"
  using fileHashCalls_bytes [OF assms] by (auto simp: fileHash_def)

text \<open>
  C36: hashing a file block by block gives the hash of its bytes, whatever the block size of the
  file system; a file that is shorter or longer than its size said is reported.
\<close>

theorem fileHash_blockwise:
  assumes "hash_of_bytes sys" and "0 < st_blksize stats" and "os_content sys path = Some bytes"
  shows "fileHash sys path stats =
    (if length bytes < unat (st_size stats) then Inl (End_of_file path)
     else if length bytes > unat (st_size stats) then Inl (File_changed path)
     else Inr (os_blake2b sys [bytes]))"
  by (rule fileHash_bytes [OF assms])

definition hash_example_os :: os where
  "hash_example_os = \<lparr>
     os_stat = (\<lambda>_. None), os_lstat = (\<lambda>_. Lstat_missing), os_readdir = (\<lambda>_. None),
     os_readlink = (\<lambda>_ _. None), os_content = (\<lambda>path. if path = ''/f'' then Some ''abcde'' else None),
     os_regexec = (\<lambda>_ _. False), os_memory = (\<lambda>_ _. True),
     os_blake2b = (\<lambda>blocks. take FILE_HASH_SIZE (map byte_of_char (concat blocks) @ replicate FILE_HASH_SIZE 0))\<rparr>"

theorem fileHash_blockwise_witness:
  "fileHash hash_example_os ''/f'' \<lparr>st_type = Regular_file, st_mode = 0, st_uid = 0, st_gid = 0, st_mtime = 0,
     st_size = 5, st_blksize = 2\<rparr> = Inr (os_blake2b hash_example_os [''abcde''])"
proof -
  have "hash_of_bytes hash_example_os" by (auto simp: hash_of_bytes_def hash_example_os_def min_def)
  moreover have "os_content hash_example_os ''/f'' = Some ''abcde''" by (simp add: hash_example_os_def)
  ultimately show ?thesis
    using fileHash_blockwise [of hash_example_os "\<lparr>st_type = Regular_file, st_mode = 0, st_uid = 0, st_gid = 0,
      st_mtime = 0, st_size = 5, st_blksize = 2\<rparr>" "''/f''" "''abcde''"] by simp
qed

end
