(* ===== verification/Backup_Nodes.thy ===== *)
theory Backup_Nodes
  imports Metadata_Roundtrip Search File_Hash "HOL-Library.Multiset"
begin

text \<open>
  What a backup does to single nodes: \<open>src/backup-helpers.c\<close> and the functions of \<open>src/backup.c\<close>
  below \<open>initiateMetadataRecursively()\<close>. A function that follows \<open>point->backup->ref_count\<close> changes
  the metadata, one that writes through a \<open>PathNode\<close> pointer gives the new node back. An access
  through a history that is \<open>NULL\<close> is the error \<open>Null_pointer\<close>.
\<close>

section \<open>States of found paths\<close>

fun set_owner :: "u32 \<Rightarrow> u32 \<Rightarrow> path_state \<Rightarrow> path_state" where
  "set_owner uid gid PST_non_existing = PST_non_existing"
| "set_owner uid gid (PST_regular_file _ _ info) = PST_regular_file uid gid info"
| "set_owner uid gid (PST_symlink _ _ target) = PST_symlink uid gid target"
| "set_owner uid gid (PST_directory _ _ info) = PST_directory uid gid info"

text \<open>The hash and the slot of a regular file stay undefined; they are empty and 0 here.\<close>

definition setPathHistoryState :: "os \<Rightarrow> path_state \<Rightarrow> search_result \<Rightarrow> path_state result" where
  "setPathHistoryState sys st result =
     (let stats = sr_stats result
      in case st_type stats of
           Regular_file \<Rightarrow>
             Inr (PST_regular_file (st_uid stats) (st_gid stats)
               \<lparr>permission_bits = st_mode stats, modification_time = st_mtime stats,
                file_size = st_size stats, file_hash = [], slot = 0\<rparr>)
         | Symlink_file \<Rightarrow>
             bindE (sSymlinkReadTarget sys ALT_region (sr_path result)) (\<lambda>target.
               if length target \<noteq> unat (st_size stats) then Inl (Symlink_changed (sr_path result))
               else Inr (PST_symlink (st_uid stats) (st_gid stats) target))
         | Directory_file \<Rightarrow>
             Inr (PST_directory (st_uid stats) (st_gid stats)
               \<lparr>dir_permission_bits = st_mode stats, dir_modification_time = st_mtime stats\<rparr>)
         | Other_file \<Rightarrow> Inr (set_owner (st_uid stats) (st_gid stats) st))"

text \<open>The bytes that a small file or the hash of a large one puts into the hash buffer.\<close>

definition currentHash :: "os \<Rightarrow> string \<Rightarrow> file_stat \<Rightarrow> u64 \<Rightarrow> u8 list result" where
  "currentHash sys path stats expected =
     (if unat expected > FILE_HASH_SIZE then fileHash sys path stats
      else bindE (sFopenRead sys path) (\<lambda>stream.
           bindE (sFread (unat expected) stream) (\<lambda>(bytes, stream).
             if sFbytesLeft stream then Inl (File_changed path) else Inr (map byte_of_char bytes))))"

definition checkFileContentChanges ::
  "os \<Rightarrow> string \<Rightarrow> file_stat \<Rightarrow> hint \<times> file_info \<Rightarrow> (hint \<times> file_info) result" where
  "checkFileContentChanges sys path stats node =
     (case node of (h, info) \<Rightarrow>
        let bytes_used = (if unat (file_size info) > FILE_HASH_SIZE then FILE_HASH_SIZE
                          else unat (file_size info))
        in bindE (currentHash sys path stats (file_size info)) (\<lambda>hash.
             if take bytes_used (file_hash info) \<noteq> hash then
               Inr (backupHintSet (backupHintSet h BH_content_changed) BH_fresh_hash,
                    info\<lparr>file_hash := hash @ drop bytes_used (file_hash info)\<rparr>)
             else Inr (h, info)))"

text \<open>\<open>applyNodeChanges()\<close>, by the type of the state; each change sets its flag.\<close>

definition set_if :: "bool \<Rightarrow> hint \<Rightarrow> hint \<Rightarrow> hint" where
  "set_if changed flag h = (if changed then backupHintSet h flag else h)"

definition applyRegularChanges ::
  "os \<Rightarrow> string \<Rightarrow> file_stat \<Rightarrow> hint \<times> file_info \<Rightarrow> (hint \<times> file_info) result" where
  "applyRegularChanges sys path stats node =
     (case node of (h, info) \<Rightarrow>
        let h = set_if (permission_bits info \<noteq> st_mode stats) BH_permissions_changed h;
            info = info\<lparr>permission_bits := st_mode stats\<rparr>;
            h = set_if (modification_time info \<noteq> st_mtime stats) BH_timestamp_changed h;
            info = info\<lparr>modification_time := st_mtime stats\<rparr>
        in if file_size info \<noteq> st_size stats then
             Inr (backupHintSet h BH_content_changed, info\<lparr>file_size := st_size stats\<rparr>)
           else if hint_has h BH_timestamp_changed \<and> file_size info > 0 then
             checkFileContentChanges sys path stats (h, info)
           else Inr (h, info))"

definition applySymlinkChanges ::
  "os \<Rightarrow> string \<Rightarrow> file_stat \<Rightarrow> hint \<times> string \<Rightarrow> (hint \<times> string) result" where
  "applySymlinkChanges sys path stats node =
     (case node of (h, symlink_target) \<Rightarrow>
        bindE (sSymlinkReadTarget sys ALT_single_growable_buffer path) (\<lambda>target.
          if length target \<noteq> unat (st_size stats) then Inl (Symlink_changed path)
          else if symlink_target \<noteq> target then Inr (backupHintSet h BH_content_changed, target)
          else Inr (h, symlink_target)))"

definition applyDirectoryChanges :: "file_stat \<Rightarrow> hint \<times> directory_info \<Rightarrow> hint \<times> directory_info" where
  "applyDirectoryChanges stats node =
     (case node of (h, info) \<Rightarrow>
        let h = set_if (dir_permission_bits info \<noteq> st_mode stats) BH_permissions_changed h;
            h = set_if (dir_modification_time info \<noteq> st_mtime stats) BH_timestamp_changed h
        in (h, info\<lparr>dir_permission_bits := st_mode stats, dir_modification_time := st_mtime stats\<rparr>))"

definition applyNodeChanges ::
  "os \<Rightarrow> string \<Rightarrow> file_stat \<Rightarrow> hint \<times> path_state \<Rightarrow> (hint \<times> path_state) result" where
  "applyNodeChanges sys path stats node =
     (case node of (h, st) \<Rightarrow>
        let owner = (\<lambda>uid gid. set_if (uid \<noteq> st_uid stats \<or> gid \<noteq> st_gid stats) BH_owner_changed h)
        in case st of
             PST_regular_file uid gid info \<Rightarrow>
               bindE (applyRegularChanges sys path stats (owner uid gid, info)) (\<lambda>(h, info).
                 Inr (h, PST_regular_file (st_uid stats) (st_gid stats) info))
           | PST_symlink uid gid target \<Rightarrow>
               bindE (applySymlinkChanges sys path stats (owner uid gid, target)) (\<lambda>(h, target).
                 Inr (h, PST_symlink (st_uid stats) (st_gid stats) target))
           | PST_directory uid gid info \<Rightarrow>
               (case applyDirectoryChanges stats (owner uid gid, info) of (h, info) \<Rightarrow>
                 Inr (h, PST_directory (st_uid stats) (st_gid stats) info))
           | PST_non_existing \<Rightarrow> Inr (h, st))"

section \<open>Reference counts\<close>

definition decrement_ref :: "metadata \<Rightarrow> backup_ref \<Rightarrow> metadata" where
  "decrement_ref md r =
     (case r of
        Current \<Rightarrow> md\<lparr>current_backup := (current_backup md)
                         \<lparr>ref_count := ref_count (current_backup md) - 1\<rparr>\<rparr>
      | Hist i \<Rightarrow> md\<lparr>backup_history := (backup_history md)
                         [i := (backup_history md ! i)\<lparr>ref_count := ref_count (backup_history md ! i) - 1\<rparr>]\<rparr>)"

definition increment_current :: "metadata \<Rightarrow> metadata result" where
  "increment_current md =
     bindE (increment_ref (current_backup md)) (\<lambda>b. Inr (md\<lparr>current_backup := b\<rparr>))"

definition buildPathHistoryPoint ::
  "os \<Rightarrow> metadata \<Rightarrow> search_result \<Rightarrow> (path_history \<times> metadata) result" where
  "buildPathHistoryPoint sys md result =
     bindE (increment_current md) (\<lambda>md.
     bindE (setPathHistoryState sys PST_non_existing result) (\<lambda>st.
       Inr (\<lparr>point_backup = Current, state = st\<rparr>, md)))"

definition reassignPointToCurrent :: "metadata \<Rightarrow> path_history \<Rightarrow> (path_history \<times> metadata) result" where
  "reassignPointToCurrent md point =
     bindE (increment_current (decrement_ref md (point_backup point))) (\<lambda>md.
       Inr (point\<lparr>point_backup := Current\<rparr>, md))"

fun decrementRefCounts :: "metadata \<Rightarrow> path_history list \<Rightarrow> metadata" where
  "decrementRefCounts md [] = md"
| "decrementRefCounts md (point # points) =
     decrementRefCounts (decrement_ref md (point_backup point)) points"

section \<open>Matching paths\<close>

definition searchNodeMatches :: "os \<Rightarrow> search_node \<Rightarrow> string \<Rightarrow> bool" where
  "searchNodeMatches sys node path_tail =
     (case sn_regex node of Some expr \<Rightarrow> os_regexec sys expr path_tail | None \<Rightarrow> sn_name node = path_tail)"

definition matchesSearchSubnodes ::
  "os \<Rightarrow> search_node list \<Rightarrow> string \<Rightarrow> nat option \<Rightarrow> nat option" where
  "matchesSearchSubnodes sys ns path node_match =
     (case node_match of
        None \<Rightarrow> None
      | Some i \<Rightarrow> find (\<lambda>j. searchNodeMatches sys (ns ! j) (snd (split_path path))) (sn_subnodes (ns ! i)))"

definition matchesIgnoreList :: "os \<Rightarrow> string \<Rightarrow> regex_entry list \<Rightarrow> bool" where
  "matchesIgnoreList sys path ignore_list \<longleftrightarrow> list_ex (\<lambda>e. os_regexec sys (expression e) path) ignore_list"

section \<open>Nodes that are gone\<close>

fun with_hint :: "hint \<Rightarrow> path_node \<Rightarrow> path_node" where
  "with_hint h (PathNode path _ pol hist subs) = PathNode path h pol hist subs"

fun with_subnodes :: "path_node list \<Rightarrow> path_node \<Rightarrow> path_node" where
  "with_subnodes subs (PathNode path h pol hist _) = PathNode path h pol hist subs"

definition prepareNodeForWiping :: "metadata \<Rightarrow> path_node \<Rightarrow> metadata \<times> path_node" where
  "prepareNodeForWiping md node =
     (if backupHintNoPol (node_hint node) = BH_not_part_of_repository then (md, node)
      else (decrementRefCounts (md\<lparr>total_path_count := total_path_count md - 1\<rparr>) (node_history node),
            with_hint (backupHintSet (node_hint node) BH_not_part_of_repository) node))"

text \<open>The recursion over a node and the loop over a list of nodes.\<close>

fun prepareNodeForWipingRecursively :: "metadata \<Rightarrow> path_node \<Rightarrow> metadata \<times> path_node"
  and wipeNodes :: "metadata \<Rightarrow> path_node list \<Rightarrow> metadata \<times> path_node list" where
  "prepareNodeForWipingRecursively md (PathNode path h pol hist subs) =
     (case prepareNodeForWiping md (PathNode path h pol hist subs) of (md, node) \<Rightarrow>
        case wipeNodes md subs of (md, subs) \<Rightarrow> (md, with_subnodes subs node))"
| "wipeNodes md [] = (md, [])"
| "wipeNodes md (n # ns) =
     (case prepareNodeForWipingRecursively md n of (md, n) \<Rightarrow>
        case wipeNodes md ns of (md, ns) \<Rightarrow> (md, n # ns))"

fun markAsRemovedRecursively :: "metadata \<Rightarrow> path_node \<Rightarrow> bool \<Rightarrow> (metadata \<times> path_node) result"
  and markNodesAsRemoved :: "metadata \<Rightarrow> path_node list \<Rightarrow> bool \<Rightarrow> (metadata \<times> path_node list) result" where
  "markAsRemovedRecursively md (PathNode path h pol hist subs) extend_tracked_histories =
     (if backupHintNoPol h = BH_not_part_of_repository then Inr (md, PathNode path h pol hist subs)
      else case hist of
        [] \<Rightarrow> Inl Null_pointer
      | point # _ \<Rightarrow>
          if state point = PST_non_existing then
            bindE (markNodesAsRemoved md subs extend_tracked_histories) (\<lambda>(md, subs).
              Inr (md, PathNode path (backupHintSet h BH_unchanged) pol hist subs))
          else if extend_tracked_histories \<and> pol = BPOL_track then
            bindE (increment_current md) (\<lambda>md.
            bindE (markNodesAsRemoved md subs True) (\<lambda>(md, subs).
              Inr (md, PathNode path (backupHintSet h BH_removed) pol
                     (\<lparr>point_backup = Current, state = PST_non_existing\<rparr> # hist) subs)))
          else
            bindE (markNodesAsRemoved md subs False) (\<lambda>(md, subs).
              Inr (md, PathNode path (backupHintSet h BH_removed) pol hist subs)))"
| "markNodesAsRemoved md [] ext = Inr (md, [])"
| "markNodesAsRemoved md (n # ns) ext =
     bindE (markAsRemovedRecursively md n ext) (\<lambda>(md, n).
     bindE (markNodesAsRemoved md ns ext) (\<lambda>(md, ns). Inr (md, n # ns)))"

section \<open>Policies\<close>

definition is_dir_state :: "path_state \<Rightarrow> bool" where
  "is_dir_state st \<longleftrightarrow> (case st of PST_directory _ _ _ \<Rightarrow> True | _ \<Rightarrow> False)"

text \<open>\<open>handlePolicyChanges()\<close> for a node that was tracked so far.\<close>

definition loseHistory :: "metadata \<Rightarrow> path_node \<Rightarrow> (metadata \<times> path_node) result" where
  "loseHistory md node =
     (case node of PathNode path h pol hist subs \<Rightarrow>
        case hist of
          [] \<Rightarrow> Inl Null_pointer
        | first # rest \<Rightarrow>
            let (md, hist) = (if state first = PST_non_existing
                              then (decrement_ref md (point_backup first), rest) else (md, hist))
            in case hist of
                 [] \<Rightarrow> Inl Null_pointer
               | point # older \<Rightarrow>
                   let (md, h) = (if older \<noteq> [] then (decrementRefCounts md older, backupHintSet h BH_loses_history)
                                  else (md, h));
                       (md, subs) = (if is_dir_state (state point) then (md, subs) else wipeNodes md subs)
                   in Inr (md, PathNode path h pol [point] subs))"

definition handlePolicyChanges ::
  "metadata \<Rightarrow> path_node \<Rightarrow> backup_policy \<Rightarrow> (metadata \<times> path_node) result" where
  "handlePolicyChanges md node policy =
     (if node_policy node = policy then Inr (md, node)
      else
        let node = with_hint (backupHintSet (node_hint node) BH_policy_changed) node
        in bindE (if node_policy node = BPOL_track then loseHistory md node else Inr (md, node))
             (\<lambda>(md, node). case node of PathNode path h _ hist subs \<Rightarrow>
               Inr (md, PathNode path h policy hist subs)))"

definition handleRemovedPath ::
  "metadata \<Rightarrow> path_node \<Rightarrow> backup_policy \<Rightarrow> (metadata \<times> path_node) result" where
  "handleRemovedPath md node policy =
     bindE (handlePolicyChanges md node policy) (\<lambda>(md, node).
       if policy = BPOL_mirror then Inr (prepareNodeForWipingRecursively md node)
       else if policy = BPOL_none \<and> node_subnodes node = [] then Inr (prepareNodeForWiping md node)
       else if policy = BPOL_none then
         (case node_history node of
            [] \<Rightarrow> Inl Null_pointer
          | point # _ \<Rightarrow>
              if \<not> is_dir_state (state point) then Inr (prepareNodeForWiping md node)
              else markAsRemovedRecursively md node True)
       else markAsRemovedRecursively md node True)"

section \<open>Found nodes\<close>

definition handleFiletypeChanges :: "path_state \<Rightarrow> file_type \<Rightarrow> hint \<Rightarrow> hint" where
  "handleFiletypeChanges st t h =
     (case (st, t) of
        (PST_regular_file _ _ _, Symlink_file) \<Rightarrow> backupHintSet h BH_regular_to_symlink
      | (PST_regular_file _ _ _, Directory_file) \<Rightarrow> backupHintSet h BH_regular_to_directory
      | (PST_symlink _ _ _, Regular_file) \<Rightarrow> backupHintSet h BH_symlink_to_regular
      | (PST_symlink _ _ _, Directory_file) \<Rightarrow> backupHintSet h BH_symlink_to_directory
      | (PST_directory _ _ _, Regular_file) \<Rightarrow> backupHintSet h BH_directory_to_regular
      | (PST_directory _ _ _, Symlink_file) \<Rightarrow> backupHintSet h BH_directory_to_symlink
      | _ \<Rightarrow> h)"

text \<open>The state is a copy for tracked nodes and the node's own state otherwise; the hint is the node's.\<close>

definition handleNodeChanges ::
  "os \<Rightarrow> string \<Rightarrow> search_result \<Rightarrow> hint \<times> path_state \<Rightarrow> (hint \<times> path_state) result" where
  "handleNodeChanges sys path result node =
     (case node of (h, st) \<Rightarrow>
        let h = handleFiletypeChanges st (st_type (sr_stats result)) h
        in if backupHintNoPol h = BH_none then applyNodeChanges sys path (sr_stats result) (h, st)
           else if sr_policy result \<noteq> BPOL_none then
             bindE (setPathHistoryState sys st result) (\<lambda>st. Inr (h, st))
           else Inr (h, st))"

definition handleFoundNode ::
  "os \<Rightarrow> metadata \<Rightarrow> path_node \<Rightarrow> search_result \<Rightarrow> (metadata \<times> path_node) result" where
  "handleFoundNode sys md node result =
     bindE (handlePolicyChanges md node (sr_policy result)) (\<lambda>(md, node).
       case node of PathNode path h pol hist subs \<Rightarrow>
       case hist of
         [] \<Rightarrow> Inl Null_pointer
       | point # older \<Rightarrow>
           if sr_policy result \<noteq> BPOL_track then
             bindE (handleNodeChanges sys path result (h, state point)) (\<lambda>(h, st).
               let point = point\<lparr>state := st\<rparr>
               in if backupHintNoPol h \<noteq> BH_none \<or> sr_policy result = BPOL_none then
                    bindE (reassignPointToCurrent md point) (\<lambda>(point, md).
                      Inr (md, PathNode path h pol (point # older) subs))
                  else Inr (md, PathNode path h pol (point # older) subs))
           else if state point = PST_non_existing then
             bindE (buildPathHistoryPoint sys md result) (\<lambda>(new, md).
               Inr (md, PathNode path (backupHintSet h BH_added) pol (new # hist) subs))
           else
             bindE (handleNodeChanges sys path result (h, state point)) (\<lambda>(h, st).
               if backupHintNoPol h \<noteq> BH_none then
                 bindE (increment_current md) (\<lambda>md.
                   Inr (md, PathNode path h pol (\<lparr>point_backup = Current, state = st\<rparr> # hist) subs))
               else Inr (md, PathNode path h pol hist subs)))"

section \<open>Nodes that were not found\<close>

definition handleNotFoundNode ::
  "os \<Rightarrow> search_node list \<Rightarrow> regex_entry list \<Rightarrow> metadata \<Rightarrow> nat option \<Rightarrow> backup_policy \<Rightarrow> path_node \<Rightarrow>
   (metadata \<times> path_node) result" where
  "handleNotFoundNode sys ns ignore_list md node_match parent_policy subnode =
     (if node_hint subnode \<noteq> BH_none then Inr (md, subnode)
      else case matchesSearchSubnodes sys ns (node_path subnode) node_match of
        Some i \<Rightarrow> handleRemovedPath md subnode (sn_policy (ns ! i))
      | None \<Rightarrow>
          if parent_policy = BPOL_none \<or> matchesIgnoreList sys (node_path subnode) ignore_list
          then Inr (prepareNodeForWipingRecursively md subnode)
          else handleRemovedPath md subnode parent_policy)"

fun handleNotFoundSubnodes ::
  "os \<Rightarrow> search_node list \<Rightarrow> regex_entry list \<Rightarrow> metadata \<Rightarrow> nat option \<Rightarrow> backup_policy \<Rightarrow> path_node list \<Rightarrow>
   (metadata \<times> path_node list) result" where
  "handleNotFoundSubnodes sys ns ignore_list md node_match parent_policy [] = Inr (md, [])"
| "handleNotFoundSubnodes sys ns ignore_list md node_match parent_policy (n # subnodes) =
     bindE (handleNotFoundNode sys ns ignore_list md node_match parent_policy n) (\<lambda>(md, n).
     bindE (handleNotFoundSubnodes sys ns ignore_list md node_match parent_policy subnodes) (\<lambda>(md, subnodes).
       Inr (md, n # subnodes)))"

end
