(* ===== verification/Backup_Refs.thy ===== *)
theory Backup_Refs
  imports Backup_Nodes
begin

text \<open>
  The counters of the metadata during a backup: what the nodes of a tree account for, as a multiset,
  and that the functions on nodes keep the counters exact. A node that is marked as
  \<open>BH_not_part_of_repository\<close> accounts for nothing.
\<close>

section \<open>What nodes account for\<close>

text \<open>\<open>None\<close> stands for a path, \<open>Some r\<close> for a history point of the backup \<open>r\<close>.\<close>

type_synonym usage = "backup_ref option multiset"

definition points_usage :: "path_history list \<Rightarrow> usage" where
  "points_usage points = mset (map (Some \<circ> point_backup) points)"

lemma points_usage_simps [simp]:
  "points_usage [] = {#}"
  "points_usage (p # ps) = add_mset (Some (point_backup p)) (points_usage ps)"
  by (simp_all add: points_usage_def)

definition live :: "hint \<Rightarrow> bool" where
  "live h \<longleftrightarrow> backupHintNoPol h \<noteq> BH_not_part_of_repository"

definition head_usage :: "hint \<Rightarrow> path_history list \<Rightarrow> usage" where
  "head_usage h hist = (if live h then add_mset None (points_usage hist) else {#})"

fun node_usage :: "path_node \<Rightarrow> usage" and nodes_usage :: "path_node list \<Rightarrow> usage" where
  "node_usage (PathNode path h pol hist subs) = head_usage h hist + nodes_usage subs"
| "nodes_usage [] = {#}"
| "nodes_usage (n # ns) = node_usage n + nodes_usage ns"

lemma nodes_usage_append [simp]: "nodes_usage (xs @ ys) = nodes_usage xs + nodes_usage ys"
  by (induction xs) (simp_all add: ac_simps)

definition exact :: "metadata \<Rightarrow> usage \<Rightarrow> bool" where
  "exact md U \<longleftrightarrow>
     unat (total_path_count md) = count U None \<and>
     (\<forall>r \<in> set (all_refs md). unat (ref_count (backup_of md r)) = count U (Some r)) \<and>
     (\<forall>r. Some r \<in># U \<longrightarrow> r \<in> set (all_refs md))"

lemma all_refs_iff: "r \<in> set (all_refs md) \<longleftrightarrow> (case r of Current \<Rightarrow> True | Hist i \<Rightarrow> i < length (backup_history md))"
  by (auto simp: all_refs_def split: backup_ref.splits)

lemma backup_of_simps [simp]:
  "backup_of md Current = current_backup md"
  "backup_of md (Hist i) = backup_history md ! i"
  by (simp_all add: backup_of_def)

lemma exact_iff:
  "exact md U \<longleftrightarrow>
     unat (total_path_count md) = count U None \<and>
     unat (ref_count (current_backup md)) = count U (Some Current) \<and>
     (\<forall>i < length (backup_history md). unat (ref_count (backup_history md ! i)) = count U (Some (Hist i))) \<and>
     (\<forall>i. Some (Hist i) \<in># U \<longrightarrow> i < length (backup_history md))"
proof -
  have all: "(\<forall>r \<in> set (all_refs md). P r) \<longleftrightarrow> P Current \<and> (\<forall>i < length (backup_history md). P (Hist i))" for P
    by (auto simp: all_refs_def)
  have "(Some r \<in># U \<longrightarrow> r \<in> set (all_refs md)) \<longleftrightarrow>
      (\<forall>i. r = Hist i \<longrightarrow> Some (Hist i) \<in># U \<longrightarrow> i < length (backup_history md))" for r
    by (cases r) (simp_all add: all_refs_iff)
  then show ?thesis unfolding exact_def all by auto
qed

lemma unat_pred: "unat (w :: u64) = Suc n \<Longrightarrow> unat (w - 1) = n"
  by (simp add: unat_sub word_le_nat_alt)

lemma unat_succ: "sSizeAdd w 1 = Inr w' \<Longrightarrow> unat w' = Suc (unat w)"
  using add_guard [of 1 w] unat_add_u64 [of w 1] by (auto simp: sSizeAdd_def split: if_splits)

lemma exact_decrement:
  "exact md (add_mset (Some r) U) \<Longrightarrow> exact (decrement_ref md r) U"
  by (cases r) (auto simp: exact_iff decrement_ref_def nth_list_update unat_pred)

lemma exact_increment:
  "exact md U \<Longrightarrow> increment_current md = Inr md' \<Longrightarrow> exact md' (add_mset (Some Current) U)"
  by (auto simp: exact_iff increment_current_def increment_ref_def bindE_eq_Inr unat_succ)

lemma exact_decrementRefCounts:
  "exact md (points_usage ps + U) \<Longrightarrow> exact (decrementRefCounts md ps) U"
  by (induction ps arbitrary: md) (auto dest: exact_decrement)

lemma exact_one_path_less:
  "exact md (add_mset None U) \<Longrightarrow> exact (md\<lparr>total_path_count := total_path_count md - 1\<rparr>) U"
  by (auto simp: exact_iff unat_pred)

lemma exact_one_path_more:
  "exact md U \<Longrightarrow> sSizeAdd (total_path_count md) 1 = Inr n \<Longrightarrow>
     exact (md\<lparr>total_path_count := n\<rparr>) (add_mset None U)"
  by (auto simp: exact_iff unat_succ)

section \<open>Wiping and removing\<close>

lemma live_simps [simp]:
  "live BH_none" "\<not> live (backupHintSet h BH_not_part_of_repository)"
  "live (backupHintSet h BH_unchanged)" "live (backupHintSet h BH_added)" "live (backupHintSet h BH_removed)"
  "live (backupHintSet h BH_policy_changed) \<longleftrightarrow> live h" "live (backupHintSet h BH_loses_history) \<longleftrightarrow> live h"
  by (simp_all add: live_def) (simp_all add: BH_defs backupHintNoPol_def)

lemma exact_prepare:
  assumes "exact md (node_usage n + U)" "prepareNodeForWiping md n = (md', n')"
  shows "exact md' (node_usage n' + U) \<and> node_subnodes n' = node_subnodes n \<and> \<not> live (node_hint n')"
proof (cases n)
  case (PathNode path h pol hist subs)
  show ?thesis
  proof (cases "live h")
    case True
    with assms PathNode have E: "exact md (add_mset None (points_usage hist + (nodes_usage subs + U)))"
      and R: "(md', n') = (decrementRefCounts (md\<lparr>total_path_count := total_path_count md - 1\<rparr>) hist,
        PathNode path (backupHintSet h BH_not_part_of_repository) pol hist subs)"
      by (auto simp: head_usage_def prepareNodeForWiping_def live_def ac_simps)
    then show ?thesis
      using exact_decrementRefCounts [OF exact_one_path_less [OF E]] PathNode
      by (simp add: head_usage_def)
  qed (use assms PathNode in \<open>auto simp: head_usage_def prepareNodeForWiping_def live_def\<close>)
qed

lemma exact_wipe:
  "prepareNodeForWipingRecursively md n = (md', n') \<Longrightarrow> exact md (node_usage n + U) \<Longrightarrow>
     exact md' (node_usage n' + U)"
  "wipeNodes md ns = (md', ns') \<Longrightarrow> exact md (nodes_usage ns + U) \<Longrightarrow> exact md' (nodes_usage ns' + U)"
proof (induction md n and md ns arbitrary: md' n' U and md' ns' U
    rule: prepareNodeForWipingRecursively_wipeNodes.induct)
  case (1 md path h pol hist subs)
  obtain md1 n1 where P: "prepareNodeForWiping md (PathNode path h pol hist subs) = (md1, n1)" by fastforce
  obtain md2 subs2 where W: "wipeNodes md1 subs = (md2, subs2)" by fastforce
  obtain path1 h1 pol1 hist1 subs1 where n1: "n1 = PathNode path1 h1 pol1 hist1 subs1" by (cases n1)
  from exact_prepare [OF 1(3) P] n1
  have "exact md1 (nodes_usage subs + (head_usage h1 hist1 + U))" "subs1 = subs" by (auto simp: ac_simps)
  from 1(1) [OF P [symmetric] W this(1)] 1(2) P W n1 show ?case by (auto simp: ac_simps)
next
  case (3 md n ns)
  obtain md1 n1 where P: "prepareNodeForWipingRecursively md n = (md1, n1)" by fastforce
  obtain md2 ns2 where W: "wipeNodes md1 ns = (md2, ns2)" by fastforce
  from 3(1) [OF P, of "nodes_usage ns + U"] 3(4) have "exact md1 (nodes_usage ns + (node_usage n1 + U))"
    by (simp add: ac_simps)
  from 3(2) [OF P [symmetric] W this] 3(3) P W show ?case by (auto simp: ac_simps)
qed simp

lemma exact_mark:
  "markAsRemovedRecursively md n ext = Inr (md', n') \<Longrightarrow> exact md (node_usage n + U) \<Longrightarrow>
     exact md' (node_usage n' + U)"
  "markNodesAsRemoved md ns ext = Inr (md', ns') \<Longrightarrow> exact md (nodes_usage ns + U) \<Longrightarrow>
     exact md' (nodes_usage ns' + U)"
proof (induction md n ext and md ns ext arbitrary: md' n' U and md' ns' U
    rule: markAsRemovedRecursively_markNodesAsRemoved.induct)
  case (1 md path h pol hist subs ext)
  show ?case
  proof (cases "live h")
    case live: True
    with 1(4) obtain point older where hist: "hist = point # older"
      by (cases hist) (auto simp: live_def)
    let ?U = "head_usage h hist + U"
    have E: "exact md (nodes_usage subs + ?U)" using 1(5) by (simp add: ac_simps)
    note H = head_usage_def live
    consider "state point = PST_non_existing"
      | "state point \<noteq> PST_non_existing" "ext \<and> pol = BPOL_track"
      | "state point \<noteq> PST_non_existing" "\<not> (ext \<and> pol = BPOL_track)" by blast
    then show ?thesis
    proof cases
      case 1
      with "1.prems"(1) live hist obtain subs' where M: "markNodesAsRemoved md subs ext = Inr (md', subs')"
        and n': "n' = PathNode path (backupHintSet h BH_unchanged) pol hist subs'"
        by (auto simp: live_def bindE_eq_Inr)
      from "1.IH"(1) [OF _ hist 1 M E] live have "exact md' (nodes_usage subs' + ?U)" by (simp add: live_def)
      with n' live show ?thesis by (simp add: H ac_simps)
    next
      case 2
      with "1.prems"(1) live hist obtain md1 subs' where I: "increment_current md = Inr md1"
        and M: "markNodesAsRemoved md1 subs True = Inr (md', subs')"
        and n': "n' = PathNode path (backupHintSet h BH_removed) pol
          (\<lparr>point_backup = Current, state = PST_non_existing\<rparr> # hist) subs'"
        by (auto simp: live_def bindE_eq_Inr)
      from exact_increment [OF E I]
      have "exact md1 (nodes_usage subs + add_mset (Some Current) ?U)" by simp
      from "1.IH"(2) [OF _ hist 2 I M this] live have "exact md' (nodes_usage subs' + add_mset (Some Current) ?U)"
        by (simp add: live_def)
      with n' live show ?thesis by (simp add: H ac_simps add_mset_commute)
    next
      case 3
      with "1.prems"(1) live hist obtain subs' where M: "markNodesAsRemoved md subs False = Inr (md', subs')"
        and n': "n' = PathNode path (backupHintSet h BH_removed) pol hist subs'"
        by (auto simp: live_def bindE_eq_Inr)
      from "1.IH"(3) [OF _ hist 3 M E] live have "exact md' (nodes_usage subs' + ?U)" by (simp add: live_def)
      with n' live show ?thesis by (simp add: H ac_simps)
    qed
  qed (use 1(4,5) in \<open>simp add: live_def\<close>)
next
  case (3 md n ns ext)
  from 3(3) obtain md1 n1 ns2 where P: "markAsRemovedRecursively md n ext = Inr (md1, n1)"
    and W: "markNodesAsRemoved md1 ns ext = Inr (md', ns2)" and ns': "ns' = n1 # ns2"
    by (auto simp: bindE_eq_Inr)
  from 3(1) [OF P, of "nodes_usage ns + U"] 3(4) have "exact md1 (nodes_usage ns + (node_usage n1 + U))"
    by (simp add: ac_simps)
  from 3(2) [OF P refl W this] ns' show ?case by (simp add: ac_simps)
qed simp

section \<open>Policies and removed paths\<close>

lemma loseHistory_Inr:
  assumes "loseHistory md (PathNode path h pol hist subs) = Inr (md', n')"
  obtains first rest point older md1 md2 h2 where
    "hist = first # rest"
    "state first = PST_non_existing \<and> md1 = decrement_ref md (point_backup first) \<and> rest = point # older \<or>
      state first \<noteq> PST_non_existing \<and> md1 = md \<and> first = point \<and> rest = older"
    "md2 = decrementRefCounts md1 older" "h2 = (if older = [] then h else backupHintSet h BH_loses_history)"
    "is_dir_state (state point) \<and> md' = md2 \<and> n' = PathNode path h2 pol [point] subs \<or>
      \<not> is_dir_state (state point) \<and> (\<exists>subs'. wipeNodes md2 subs = (md', subs') \<and> n' = PathNode path h2 pol [point] subs')"
proof (cases hist)
  case (Cons first rest)
  show ?thesis
  proof (cases "state first = PST_non_existing")
    case True
    with assms Cons obtain point older where rest: "rest = point # older"
      by (cases rest) (simp_all add: loseHistory_def)
    show ?thesis
      by (rule that [of first rest "decrement_ref md (point_backup first)" point older])
        (use assms Cons rest True in \<open>auto simp: loseHistory_def Let_def split: if_splits prod.splits\<close>)
  next
    case False
    show ?thesis
      by (rule that [of first rest md first rest])
        (use assms Cons False in \<open>auto simp: loseHistory_def Let_def split: if_splits prod.splits\<close>)
  qed
qed (use assms in \<open>simp add: loseHistory_def\<close>)

lemma exact_loseHistory:
  assumes "loseHistory md (PathNode path h pol hist subs) = Inr (md', n')" "live h"
    and "exact md (head_usage h hist + nodes_usage subs + U)"
  shows "exact md' (node_usage n' + U) \<and> live (node_hint n')"
  using assms(1)
proof (rule loseHistory_Inr)
  fix first rest point older md1 md2 h2
  assume hist: "hist = first # rest"
    and first: "state first = PST_non_existing \<and> md1 = decrement_ref md (point_backup first) \<and> rest = point # older \<or>
      state first \<noteq> PST_non_existing \<and> md1 = md \<and> first = point \<and> rest = older"
    and md2: "md2 = decrementRefCounts md1 older" and h2: "h2 = (if older = [] then h else backupHintSet h BH_loses_history)"
    and R: "is_dir_state (state point) \<and> md' = md2 \<and> n' = PathNode path h2 pol [point] subs \<or>
      \<not> is_dir_state (state point) \<and> (\<exists>subs'. wipeNodes md2 subs = (md', subs') \<and> n' = PathNode path h2 pol [point] subs')"
  let ?U = "add_mset None (nodes_usage subs + U)"
  have "exact md1 (points_usage (point # older) + ?U)"
    using first assms(2,3) exact_decrement [of md "point_backup first" "points_usage rest + ?U"]
    by (auto simp: hist head_usage_def ac_simps add_mset_commute)
  then have E2: "exact md2 (nodes_usage subs + (add_mset None (points_usage [point]) + U))"
    using exact_decrementRefCounts [of md1 older "nodes_usage subs + (add_mset None (points_usage [point]) + U)"]
    by (simp add: md2 ac_simps add_mset_commute)
  have "live h2" using assms(2) by (simp add: h2)
  with R show ?thesis using E2 exact_wipe(2) [OF _ E2]
    by (auto simp: head_usage_def ac_simps)
qed

lemma exact_policy:
  assumes "handlePolicyChanges md n policy = Inr (md', n')" "live (node_hint n)"
    and "exact md (node_usage n + U)"
  shows "exact md' (node_usage n' + U) \<and> live (node_hint n')"
proof (cases n)
  case (PathNode path h pol hist subs)
  consider "pol = policy" | "pol \<noteq> policy" "pol = BPOL_track" | "pol \<noteq> policy" "pol \<noteq> BPOL_track" by blast
  then show ?thesis
  proof cases
    case 2
    let ?n = "PathNode path (backupHintSet h BH_policy_changed) pol hist subs"
    from assms(1) PathNode 2 obtain md1 n1 where L: "loseHistory md ?n = Inr (md1, n1)"
      and "(case n1 of PathNode path h _ hist subs \<Rightarrow> Inr (md1, PathNode path h policy hist subs)) =
        (Inr (md', n') :: (metadata \<times> path_node) result)"
      by (auto simp: handlePolicyChanges_def bindE_eq_Inr)
    then have L: "loseHistory md ?n = Inr (md', n1)"
      and n': "n' = (case n1 of PathNode path h _ hist subs \<Rightarrow> PathNode path h policy hist subs)"
      by (auto split: path_node.splits)
    from exact_loseHistory [OF L, of U] assms(2,3) PathNode
    have "exact md' (node_usage n1 + U) \<and> live (node_hint n1)" by (simp add: head_usage_def)
    with n' show ?thesis by (cases n1) simp
  qed (use assms PathNode in \<open>auto simp: handlePolicyChanges_def head_usage_def\<close>)
qed

lemma exact_removed:
  assumes "handleRemovedPath md n policy = Inr (md', n')" "live (node_hint n)"
    and "exact md (node_usage n + U)"
  shows "exact md' (node_usage n' + U)"
proof -
  from assms(1) obtain md1 n1 where P: "handlePolicyChanges md n policy = Inr (md1, n1)"
    and R: "prepareNodeForWipingRecursively md1 n1 = (md', n') \<or> prepareNodeForWiping md1 n1 = (md', n') \<or>
      markAsRemovedRecursively md1 n1 True = Inr (md', n')"
    by (auto simp: handleRemovedPath_def bindE_eq_Inr split: if_splits list.splits)
  from exact_policy [OF P assms(2,3)] have "exact md1 (node_usage n1 + U)" by blast
  then show ?thesis using R exact_wipe(1) exact_prepare exact_mark(1) by blast
qed

lemma live_none: "h = BH_none \<Longrightarrow> live h" by simp

lemma exact_not_found:
  "handleNotFoundNode sys ns ignore_list md m pol n = Inr (md', n') \<Longrightarrow> exact md (node_usage n + U) \<Longrightarrow>
     exact md' (node_usage n' + U)"
  by (auto simp: handleNotFoundNode_def split: if_splits option.splits
      intro: exact_removed [OF _ live_none] exact_wipe(1))

lemma exact_not_found_subnodes:
  "handleNotFoundSubnodes sys ns ignore_list md m pol nodes = Inr (md', nodes') \<Longrightarrow>
     exact md (nodes_usage nodes + U) \<Longrightarrow> exact md' (nodes_usage nodes' + U)"
proof (induction sys ns ignore_list md m pol nodes arbitrary: md' nodes' U rule: handleNotFoundSubnodes.induct)
  case (2 sys ns ignore_list md m pol n nodes)
  from 2(2) obtain md1 n1 nodes1 where F: "handleNotFoundNode sys ns ignore_list md m pol n = Inr (md1, n1)"
    and R: "handleNotFoundSubnodes sys ns ignore_list md1 m pol nodes = Inr (md', nodes1)"
    and nodes': "nodes' = n1 # nodes1"
    by (auto simp: bindE_eq_Inr)
  from exact_not_found [OF F, of "nodes_usage nodes + U"] 2(3)
  have "exact md1 (nodes_usage nodes + (node_usage n1 + U))" by (simp add: ac_simps)
  from 2(1) [OF F refl R this] nodes' show ?case by (simp add: ac_simps)
qed simp

section \<open>Found paths\<close>

lemma live_filetype: "live h \<Longrightarrow> live (handleFiletypeChanges st t h)"
  by (auto simp: handleFiletypeChanges_def live_def split: path_state.splits file_type.splits)
    (simp_all add: BH_defs)

lemma live_set_flag: "change_flag f \<Longrightarrow> live (backupHintSet h f)"
  using NoPol_set_flag_not_part by (auto simp: live_def)

lemma live_set_flags [simp]:
  "live (backupHintSet h BH_owner_changed)" "live (backupHintSet h BH_permissions_changed)"
  "live (backupHintSet h BH_timestamp_changed)" "live (backupHintSet h BH_content_changed)"
  "live (backupHintSet h BH_fresh_hash)"
  by (simp_all only: live_set_flag simp_thms)

lemma live_set_if [simp]: "live (backupHintSet h f) \<Longrightarrow> live h \<Longrightarrow> live (set_if b f h)"
  by (simp add: set_if_def)

lemma live_checkContent:
  "checkFileContentChanges sys path stats (h, info) = Inr (h', info') \<Longrightarrow> live h \<Longrightarrow> live h'"
  by (auto simp: checkFileContentChanges_def Let_def bindE_eq_Inr split: if_splits)

lemma live_applyRegular:
  "applyRegularChanges sys path stats (h, info) = Inr (h', info') \<Longrightarrow> live h \<Longrightarrow> live h'"
  by (auto simp: applyRegularChanges_def Let_def split: if_splits elim!: live_checkContent)

lemma live_applyNodeChanges:
  "applyNodeChanges sys path stats (h, st) = Inr (h', st') \<Longrightarrow> live h \<Longrightarrow> live h'"
  by (cases st)
    (auto simp: applyNodeChanges_def Let_def bindE_eq_Inr applySymlinkChanges_def
      applyDirectoryChanges_def split: if_splits elim!: live_applyRegular)

lemma live_handleNodeChanges:
  "handleNodeChanges sys path result (h, st) = Inr (h', st') \<Longrightarrow> live h \<Longrightarrow> live h'"
  using live_filetype [of h st "st_type (sr_stats result)"]
  by (auto simp: handleNodeChanges_def Let_def bindE_eq_Inr split: if_splits dest: live_applyNodeChanges)

lemma exact_build:
  "buildPathHistoryPoint sys md result = Inr (point, md') \<Longrightarrow> exact md U \<Longrightarrow>
     exact md' (add_mset (Some (point_backup point)) U)"
  by (auto simp: buildPathHistoryPoint_def bindE_eq_Inr dest: exact_increment)

lemma exact_reassign:
  "reassignPointToCurrent md point = Inr (point', md') \<Longrightarrow>
     exact md (add_mset (Some (point_backup point)) U) \<Longrightarrow>
     exact md' (add_mset (Some (point_backup point')) U)"
  by (auto simp: reassignPointToCurrent_def bindE_eq_Inr intro: exact_increment [OF exact_decrement])

text \<open>What a found node becomes once its policy is handled.\<close>

definition found_step ::
  "os \<Rightarrow> search_result \<Rightarrow> metadata \<Rightarrow> string \<Rightarrow> hint \<Rightarrow> backup_policy \<Rightarrow> path_history \<Rightarrow> path_history list \<Rightarrow>
   path_node list \<Rightarrow> (metadata \<times> path_node) result" where
  "found_step sys result md path h pol point older subs =
     (if sr_policy result \<noteq> BPOL_track then
        bindE (handleNodeChanges sys path result (h, state point)) (\<lambda>(h, st).
          let point = point\<lparr>state := st\<rparr>
          in if backupHintNoPol h \<noteq> BH_none \<or> sr_policy result = BPOL_none then
               bindE (reassignPointToCurrent md point) (\<lambda>(point, md).
                 Inr (md, PathNode path h pol (point # older) subs))
             else Inr (md, PathNode path h pol (point # older) subs))
      else if state point = PST_non_existing then
        bindE (buildPathHistoryPoint sys md result) (\<lambda>(new, md).
          Inr (md, PathNode path (backupHintSet h BH_added) pol (new # point # older) subs))
      else
        bindE (handleNodeChanges sys path result (h, state point)) (\<lambda>(h, st).
          if backupHintNoPol h \<noteq> BH_none then
            bindE (increment_current md) (\<lambda>md.
              Inr (md, PathNode path h pol (\<lparr>point_backup = Current, state = st\<rparr> # point # older) subs))
          else Inr (md, PathNode path h pol (point # older) subs)))"

lemma handleFoundNode_policy_first:
  "handleFoundNode sys md n result =
     bindE (handlePolicyChanges md n (sr_policy result)) (\<lambda>(md, n).
       case node_history n of [] \<Rightarrow> Inl Null_pointer
       | point # older \<Rightarrow> found_step sys result md (node_path n) (node_hint n) (node_policy n) point older (node_subnodes n))"
  by (auto simp: handleFoundNode_def found_step_def intro!: bindE_cong split: path_node.split list.split)

lemma exact_found_step:
  assumes "found_step sys result md path h pol point older subs = Inr (md', n')" "live h"
    and "exact md (add_mset None (points_usage (point # older)) + nodes_usage subs + U)"
  shows "exact md' (node_usage n' + U) \<and> live (node_hint n')"
proof -
  let ?U = "add_mset None (points_usage older + (nodes_usage subs + U))"
  have E: "exact md (add_mset (Some (point_backup point)) ?U)"
    using assms(3) by (simp add: ac_simps add_mset_commute)
  note usage = head_usage_def ac_simps add_mset_commute
  consider (tracked) "sr_policy result = BPOL_track" "state point = PST_non_existing"
    | (changes) h' st where "handleNodeChanges sys path result (h, state point) = Inr (h', st)"
      "sr_policy result = BPOL_track \<longrightarrow> state point \<noteq> PST_non_existing"
    using assms(1) by (auto simp: found_step_def bindE_eq_Inr split: if_splits)
  then show ?thesis
  proof cases
    case tracked
    with assms(1) obtain new where B: "buildPathHistoryPoint sys md result = Inr (new, md')"
      and n': "n' = PathNode path (backupHintSet h BH_added) pol (new # point # older) subs"
      by (auto simp: found_step_def bindE_eq_Inr)
    from exact_build [OF B E] show ?thesis by (simp add: n' usage)
  next
    case changes
    have live: "live h'" using live_handleNodeChanges [OF changes(1) assms(2)] .
    show ?thesis
    proof (cases "sr_policy result = BPOL_track")
      case True
      with changes assms(1) show ?thesis
        using exact_increment [OF E] E live
        by (auto simp: found_step_def bindE_eq_Inr usage split: if_splits)
    next
      case False
      let ?p = "point\<lparr>state := st\<rparr>"
      have R: "reassignPointToCurrent md ?p = Inr (p, md') \<Longrightarrow> exact md' (add_mset (Some (point_backup p)) ?U)" for p
        by (erule exact_reassign) (simp add: E)
      show ?thesis
      proof (cases "backupHintNoPol h' \<noteq> BH_none \<or> sr_policy result = BPOL_none")
        case True
        with False changes assms(1) obtain p where "reassignPointToCurrent md ?p = Inr (p, md')"
          and n': "n' = PathNode path h' pol (p # older) subs"
          by (auto simp: found_step_def bindE_eq_Inr)
        from R [OF this(1)] show ?thesis using live by (simp add: n' usage)
      next
        case False': False
        with False changes assms(1) have "md' = md" "n' = PathNode path h' pol (?p # older) subs"
          by (auto simp: found_step_def)
        then show ?thesis using E live by (simp add: usage)
      qed
    qed
  qed
qed

lemma exact_found:
  assumes "handleFoundNode sys md n result = Inr (md', n')" "live (node_hint n)"
    and "exact md (node_usage n + U)"
  shows "exact md' (node_usage n' + U) \<and> live (node_hint n')"
proof -
  from assms(1) obtain md1 n1 where P: "handlePolicyChanges md n (sr_policy result) = Inr (md1, n1)"
    and F: "(case node_history n1 of [] \<Rightarrow> Inl Null_pointer | point # older \<Rightarrow>
        found_step sys result md1 (node_path n1) (node_hint n1) (node_policy n1) point older (node_subnodes n1)) = Inr (md', n')"
    by (auto simp: handleFoundNode_policy_first bindE_eq_Inr)
  from F obtain point older where hist: "node_history n1 = point # older" by (cases "node_history n1") auto
  with F have F: "found_step sys result md1 (node_path n1) (node_hint n1) (node_policy n1) point older (node_subnodes n1) = Inr (md', n')"
    by simp
  from exact_policy [OF P assms(2,3)]
  have "live (node_hint n1)" "exact md1 (add_mset None (points_usage (point # older)) + nodes_usage (node_subnodes n1) + U)"
    using hist by (cases n1; simp add: head_usage_def)+
  from exact_found_step [OF F this] show ?thesis .
qed

end
