(* ===== verification/Backup_Initiate.thy ===== *)
theory Backup_Initiate
  imports Backup_Refs
begin

text \<open>
  The first half of a backup: \<open>initiateMetadataRecursively()\<close> and \<open>initiateBackup()\<close> of
  \<open>src/backup.c\<close>, which bring the nodes of the metadata up to date while the search goes through the
  file system. The recursion and its loops have no bound of their own, so they run on fuel; with
  enough of it they return whenever the search ends.

  \<open>strTableGet()\<close> returns a pointer to the node with the wanted path, wherever it is. Here the node is
  looked up in the list that the recursion has arrived at, which is where a node with the path of a
  found child of this directory is; that it would be elsewhere is the error \<open>Die ''path table''\<close>.
\<close>

section \<open>The operations\<close>

text \<open>
  The node of a found path, new or found before, with the nodes in front of it and behind it.
\<close>

definition takeNode ::
  "os \<Rightarrow> search_result \<Rightarrow> metadata \<Rightarrow> path_node list \<Rightarrow>
   (metadata \<times> path_node list \<times> path_node \<times> path_node list) result" where
  "takeNode sys result md node_list =
     (if sr_path result \<notin> set (path_table md) then
        bindE (buildPathHistoryPoint sys md result) (\<lambda>(point, md).
        bindE (sSizeAdd (total_path_count md) 1) (\<lambda>n.
          Inr (md\<lparr>total_path_count := n\<rparr>, [],
               PathNode (sr_path result) BH_added (sr_policy result) [point] [], node_list)))
      else
        case dropWhile (\<lambda>n. node_path n \<noteq> sr_path result) node_list of
          [] \<Rightarrow> Inl (Die ''path table'')
        | node # after \<Rightarrow>
            bindE (handleFoundNode sys md node result) (\<lambda>(md, node).
              Inr (md, takeWhile (\<lambda>n. node_path n \<noteq> sr_path result) node_list, node, after)))"

definition is_regular_state :: "path_state \<Rightarrow> bool" where
  "is_regular_state st \<longleftrightarrow> (case st of PST_regular_file _ _ _ \<Rightarrow> True | _ \<Rightarrow> False)"

definition handleOldSubnodes ::
  "os \<Rightarrow> search_node list \<Rightarrow> regex_entry list \<Rightarrow> search_result \<Rightarrow> metadata \<Rightarrow> path_node \<Rightarrow>
   (metadata \<times> path_node list) result" where
  "handleOldSubnodes sys ns ignore_list result md node =
     (if backupHintNoPol (node_hint node) = BH_directory_to_regular \<or>
         backupHintNoPol (node_hint node) = BH_directory_to_symlink then
        if sr_policy result = BPOL_none \<or> sr_policy result = BPOL_track then
          markNodesAsRemoved md (node_subnodes node) (sr_policy result = BPOL_track)
        else Inr (wipeNodes md (node_subnodes node))
      else if sr_policy result = BPOL_track \<and> node_history node = [] then Inl Null_pointer
      else if sr_policy result = BPOL_track \<and> is_regular_state (state (hd (node_history node))) then
        markNodesAsRemoved md (node_subnodes node) False
      else handleNotFoundSubnodes sys ns ignore_list md (sr_node result) (sr_policy result) (node_subnodes node))"

definition finishNode ::
  "os \<Rightarrow> search_node list \<Rightarrow> regex_entry list \<Rightarrow> search_result \<Rightarrow> metadata \<Rightarrow> path_node \<Rightarrow>
   (metadata \<times> path_node) result" where
  "finishNode sys ns ignore_list result md node =
     bindE (handleOldSubnodes sys ns ignore_list result md node) (\<lambda>(md, subs).
       let node = with_subnodes subs node;
           (md, node) = (if sr_policy result = BPOL_none \<and> \<not> list_ex is_part_of_repository subs
                         then prepareNodeForWiping md node else (md, node));
           node = (if node_hint node = BH_none then with_hint (backupHintSet (node_hint node) BH_unchanged) node
                   else node)
       in Inr (md, node))"

text \<open>
  The recursion gives the event it has processed; \<open>initiateUntil\<close> is the loop that calls it until
  it has processed a given one.
\<close>

fun initiateMetadataRecursively ::
    "nat \<Rightarrow> os \<Rightarrow> metadata \<Rightarrow> path_node list \<Rightarrow> iterator \<Rightarrow>
     (search_event \<times> metadata \<times> path_node list \<times> iterator) result"
  and initiateUntil ::
    "nat \<Rightarrow> search_event \<Rightarrow> os \<Rightarrow> metadata \<Rightarrow> path_node list \<Rightarrow> iterator \<Rightarrow>
     (metadata \<times> path_node list \<times> iterator) result" where
  "initiateMetadataRecursively 0 sys md node_list it = Inl Endless_recursion"
| "initiateMetadataRecursively (Suc fuel) sys md node_list it =
     bindE (searchGetNext sys it) (\<lambda>(ev, it).
       case ev of
         End_of_directory \<Rightarrow> Inr (ev, md, node_list, it)
       | End_of_search \<Rightarrow> Inr (ev, md, node_list, it)
       | Found result \<Rightarrow>
           if st_type (sr_stats result) = Other_file then Inr (ev, md, node_list, it)
           else
             bindE (takeNode sys result md node_list) (\<lambda>(md, before, node, after).
             bindE (if st_type (sr_stats result) = Directory_file
                    then initiateUntil fuel End_of_directory sys md (node_subnodes node) it
                    else Inr (md, node_subnodes node, it)) (\<lambda>(md, subs, it).
             bindE (finishNode sys (it_nodes it) (it_ignore it) result md (with_subnodes subs node)) (\<lambda>(md, node).
               Inr (ev, md, before @ node # after, it)))))"
| "initiateUntil 0 stop sys md node_list it = Inl Endless_recursion"
| "initiateUntil (Suc fuel) stop sys md node_list it =
     bindE (initiateMetadataRecursively fuel sys md node_list it) (\<lambda>(ev, md, node_list, it).
       if ev = stop then Inr (md, node_list, it)
       else initiateUntil fuel stop sys md node_list it)"

text \<open>Besides the metadata, the marks that the search leaves in the search tree are given back.\<close>

definition initiateBackup :: "nat \<Rightarrow> os \<Rightarrow> metadata \<Rightarrow> search_tree \<Rightarrow> (metadata \<times> marks) result" where
  "initiateBackup fuel sys md tree =
     bindE (searchNew sys tree) (\<lambda>it.
     bindE (initiateUntil fuel End_of_search sys md (paths md) it) (\<lambda>(md, nodes, it).
     bindE (handleNotFoundSubnodes sys (it_nodes it) (it_ignore it) md (Some 0) (sn_policy (it_nodes it ! 0)) nodes)
       (\<lambda>(md, nodes). Inr (md\<lparr>paths := nodes\<rparr>, (it_nodes it, it_ignore it)))))"

section \<open>The events that the recursion consumes\<close>

lemma pushCurrentState_stack: "pushCurrentState it = Inr it' \<Longrightarrow> it_stack it' = it_state it # it_stack it"
  by (auto simp: pushCurrentState_def bindE_eq_Inr split: if_splits)

lemma recursionStepRaw_stack: "recursionStepRaw sys node policy it = Inr it' \<Longrightarrow> it_stack it' = it_stack it"
  by (auto simp: recursionStepRaw_def bindE_eq_Inr Let_def)

text \<open>What an event does to the depth of the stack.\<close>

definition steps_stack :: "dir_search_state list \<Rightarrow> search_event \<Rightarrow> dir_search_state list \<Rightarrow> bool" where
  "steps_stack stack ev stack' \<longleftrightarrow>
     (case ev of
        Found result \<Rightarrow>
          length stack' = (if st_type (sr_stats result) = Directory_file then Suc (length stack) else length stack)
      | End_of_directory \<Rightarrow> length stack = Suc (length stack')
      | End_of_search \<Rightarrow> stack = [] \<and> stack' = [])"

lemma finishDirectory_stack: "finishDirectory it = (ev, it') \<Longrightarrow> steps_stack (it_stack it) ev (it_stack it')"
  by (auto simp: finishDirectory_def steps_stack_def split: list.splits)

lemma finishNodeStep_stack:
  "finishNodeStep sys node policy it = Inr (ev, it') \<Longrightarrow> steps_stack (it_stack it) ev (it_stack it')"
  by (auto simp: finishNodeStep_def recursionStep_def steps_stack_def bindE_eq_Inr Let_def split: if_splits
      dest!: pushCurrentState_stack recursionStepRaw_stack)

lemma replaceCurrentFilename_stack [simp]: "it_stack (replaceCurrentFilename name it) = it_stack it"
  by (simp add: replaceCurrentFilename_def)

text \<open>How a call of \<open>searchGetNext()\<close> ends.\<close>

definition last_step :: "os \<Rightarrow> iterator \<Rightarrow> search_event \<times> iterator \<Rightarrow> bool" where
  "last_step sys it r \<longleftrightarrow> (\<exists>it1. it_stack it1 = it_stack it \<and>
     (finishDirectory it1 = r \<or> (\<exists>node policy. finishNodeStep sys node policy it1 = Inr r)))"

lemma last_step_node:
  "finishNodeStep sys node policy it1 = Inr r \<Longrightarrow> it_stack it1 = it_stack it \<Longrightarrow> last_step sys it r"
  by (auto simp: last_step_def)

lemma finishSearchStep_last:
  "finishSearchStep sys it = Inr r \<Longrightarrow> last_step sys it r"
proof (induction "dirents_left it" arbitrary: it rule: less_induct)
  case less
  from less.prems obtain dir subnodes fallback where acc: "access (it_state it) = Dir_search dir subnodes fallback"
    by (cases "access (it_state it)") (auto simp: finishSearchStep.simps [of sys it])
  from less.prems acc obtain entry dir' where get: "sDirGetNext dir = Inr (entry, dir')"
    by (auto simp: finishSearchStep.simps [of sys it] bindE_eq_Inr)
  show ?case
  proof (cases "entry = []")
    case True
    with less.prems acc get show ?thesis
      by (auto simp: finishSearchStep.simps [of sys it] last_step_def)
  next
    case False
    let ?it = "replaceCurrentFilename (snd (split_path entry))
      (it\<lparr>it_state := (it_state it)\<lparr>access := Dir_search dir' subnodes fallback\<rparr>\<rparr>)"
    have again: "last_step sys it r"
      if "finishSearchStep sys it1 = Inr r" "it_state it1 = it_state ?it" "it_stack it1 = it_stack it" for it1
    proof -
      have "dirents_left it1 < dirents_left it"
        using sDirGetNext_shorter [OF get False] that(2) acc
        by (simp add: dirents_left_def replaceCurrentFilename_def)
      from less.hyps [OF this that(1)] that(3) show ?thesis by (simp add: last_step_def)
    qed
    show ?thesis
      using less.prems acc get False
      by (auto simp: finishSearchStep.simps [of sys it] bindE_eq_Inr Let_def intro: again last_step_node
          split: if_splits option.splits prod.splits)
  qed
qed

lemma finishCurrentNode_last:
  "finishCurrentNode sys it = Inr r \<Longrightarrow> last_step sys it r"
proof (induction sys it rule: finishCurrentNode.induct)
  case (1 sys it)
  from "1.prems" obtain ids where acc: "access (it_state it) = Direct ids"
    by (cases "access (it_state it)") (auto simp: finishCurrentNode.simps [of sys it])
  show ?case
  proof (cases ids)
    case Nil
    with "1.prems" acc show ?thesis
      by (auto simp: finishCurrentNode.simps [of sys it] last_step_def)
  next
    case (Cons i rest)
    let ?it = "replaceCurrentFilename (sn_name (it_nodes it ! i)) (it\<lparr>it_state := (it_state it)\<lparr>access := Direct rest\<rparr>\<rparr>)"
    have "last_step sys it r" if "last_step sys ?it r"
      using that by (simp add: last_step_def)
    with "1.prems" acc Cons show ?thesis
      by (auto simp: finishCurrentNode.simps [of sys it] bindE_eq_Inr Let_def split: if_splits
          dest: "1.IH" [OF acc Cons refl] intro: last_step_node)
  qed
qed

lemma searchGetNext_last: "searchGetNext sys it = Inr r \<Longrightarrow> last_step sys it r"
  by (auto simp: searchGetNext_def dest: finishSearchStep_last finishCurrentNode_last split: access.splits)

lemma searchGetNext_stack:
  "searchGetNext sys it = Inr (ev, it') \<Longrightarrow> steps_stack (it_stack it) ev (it_stack it')"
  by (auto simp: last_step_def dest!: searchGetNext_last finishDirectory_stack finishNodeStep_stack)

text \<open>The status of a found path is one that the system has given.\<close>

lemma searchGetNext_stats:
  assumes "searchGetNext sys it = Inr (Found result, it')"
  shows "\<exists>path. os_stat sys path = Some (sr_stats result) \<or> os_lstat sys path = Lstat_ok (sr_stats result)"
proof -
  have "finishDirectory it1 \<noteq> (Found result, it')" for it1
    by (simp add: finishDirectory_def split: list.split)
  with searchGetNext_last [OF assms] obtain node policy it1 where
      "finishNodeStep sys node policy it1 = Inr (Found result, it')"
    unfolding last_step_def by blast
  then have "sStat sys (current_path it1) = Inr (sr_stats result) \<or> sLStat sys (current_path it1) = Inr (sr_stats result)"
    by (auto simp: finishNodeStep_def buildSearchResult_def bindE_eq_Inr Let_def split: if_splits)
  then show ?thesis
    by (auto simp: sStat_def sLStat_def split: option.splits lstat_result.splits)
qed

text \<open>The events of several calls.\<close>

inductive emits :: "os \<Rightarrow> iterator \<Rightarrow> search_event list \<Rightarrow> iterator \<Rightarrow> bool" for sys where
  none: "emits sys it [] it"
| event: "searchGetNext sys it = Inr (ev, it1) \<Longrightarrow> emits sys it1 evs it2 \<Longrightarrow> emits sys it (ev # evs) it2"

lemma emits_trans: "emits sys it evs it1 \<Longrightarrow> emits sys it1 evs' it2 \<Longrightarrow> emits sys it (evs @ evs') it2"
  by (induction rule: emits.induct) (auto intro: emits.intros)

lemma emits_run:
  assumes "emits sys it evs it1" "End_of_search \<notin> set evs" "runSearch n sys it = Inr (all, it')"
  shows "\<exists>m rest. all = evs @ rest \<and> runSearch m sys it1 = Inr (rest, it')"
  using assms
proof (induction arbitrary: n all rule: emits.induct)
  case (event it ev it1 evs it2)
  from event.prems event.hyps(1) obtain m rest where "n = Suc m" "runSearch m sys it1 = Inr (rest, it')" "all = ev # rest"
    by (cases n) (auto simp: bindE_eq_Inr split: if_splits)
  with event.IH [of m rest] event.prems show ?case by auto
qed auto

text \<open>What a call of the recursion consists of when it returns.\<close>

lemma initiateMetadata_Inr:
  assumes "initiateMetadataRecursively (Suc fuel) sys md node_list it = Inr (ev, md', node_list', it')"
  obtains
    (skip) "searchGetNext sys it = Inr (ev, it')" "md' = md" "node_list' = node_list"
      "\<And>result. ev = Found result \<Longrightarrow> st_type (sr_stats result) = Other_file"
  | (found) result it1 md1 before node after md2 subs node' where
      "ev = Found result" "searchGetNext sys it = Inr (Found result, it1)"
      "st_type (sr_stats result) \<noteq> Other_file"
      "takeNode sys result md node_list = Inr (md1, before, node, after)"
      "if st_type (sr_stats result) = Directory_file
       then initiateUntil fuel End_of_directory sys md1 (node_subnodes node) it1 = Inr (md2, subs, it')
       else md2 = md1 \<and> subs = node_subnodes node \<and> it' = it1"
      "finishNode sys (it_nodes it') (it_ignore it') result md2 (with_subnodes subs node) = Inr (md', node')"
      "node_list' = before @ node' # after"
proof -
  from assms obtain ev1 it1 where G: "searchGetNext sys it = Inr (ev1, it1)" by (auto simp: bindE_eq_Inr)
  show ?thesis
  proof (cases ev1)
    case (Found result)
    show ?thesis
    proof (cases "st_type (sr_stats result) = Other_file")
      case True
      show ?thesis by (rule skip) (use assms G Found True in auto)
    next
      case other: False
      show ?thesis
      proof (cases "st_type (sr_stats result) = Directory_file")
        case True
        from assms G Found other True show ?thesis by (auto simp: bindE_eq_Inr intro: found)
      next
        case False
        from assms G Found other False show ?thesis by (auto simp: bindE_eq_Inr intro: found)
      qed
    qed
  qed (rule skip; use assms G in auto)+
qed

lemma initiateUntil_Inr:
  assumes "initiateUntil (Suc fuel) stop sys md node_list it = Inr (md', node_list', it')"
  obtains ev md1 node_list1 it1 where
    "initiateMetadataRecursively fuel sys md node_list it = Inr (ev, md1, node_list1, it1)"
    "if ev = stop then (md', node_list', it') = (md1, node_list1, it1)
     else initiateUntil fuel stop sys md1 node_list1 it1 = Inr (md', node_list', it')"
  using assms by (auto simp: bindE_eq_Inr split: if_splits)

section \<open>The counters stay exact\<close>

fun found_paths :: "search_event list \<Rightarrow> string list" where
  "found_paths [] = []"
| "found_paths (Found result # evs) = sr_path result # found_paths evs"
| "found_paths (_ # evs) = found_paths evs"

lemma found_paths_append [simp]: "found_paths (xs @ ys) = found_paths xs @ found_paths ys"
  by (induction xs rule: found_paths.induct) simp_all

text \<open>
  Nodes as they are after loading. A tracked path that was no directory last time may still have
  subnodes, which belong to an older directory; the set collects the paths of these.
\<close>

definition kept_point :: "path_history list \<Rightarrow> path_history option" where
  "kept_point hist = (case hist of
     [] \<Rightarrow> None
   | first # rest \<Rightarrow>
       if state first = PST_non_existing then (case rest of [] \<Rightarrow> None | point # _ \<Rightarrow> Some point)
       else Some first)"

definition was_directory :: "path_history list \<Rightarrow> bool" where
  "was_directory hist \<longleftrightarrow> (case kept_point hist of None \<Rightarrow> False | Some point \<Rightarrow> is_dir_state (state point))"

fun fresh_node :: "string set \<Rightarrow> path_node \<Rightarrow> bool" and fresh_nodes :: "string set \<Rightarrow> path_node list \<Rightarrow> bool" where
  "fresh_node K (PathNode path h pol hist subs) \<longleftrightarrow>
     h = BH_none \<and> (pol = BPOL_track \<and> \<not> was_directory hist \<and> subs \<noteq> [] \<longrightarrow> path \<in> K) \<and> fresh_nodes K subs"
| "fresh_nodes K [] \<longleftrightarrow> True"
| "fresh_nodes K (n # ns) \<longleftrightarrow> fresh_node K n \<and> fresh_nodes K ns"

lemma fresh_nodes_all: "fresh_nodes K ns \<longleftrightarrow> (\<forall>n \<in> set ns. fresh_node K n)"
  by (induction ns) auto

definition ok_events :: "string set \<Rightarrow> string set \<Rightarrow> search_event list \<Rightarrow> bool" where
  "ok_events K seen evs \<longleftrightarrow> distinct (found_paths evs) \<and> set (found_paths evs) \<inter> seen = {} \<and>
     (\<forall>result. Found result \<in> set evs \<and> st_type (sr_stats result) = Directory_file \<and> sr_path result \<in> K \<longrightarrow>
        sr_policy result = BPOL_track)"

lemma ok_events_append:
  "ok_events K seen (xs @ ys) \<longleftrightarrow>
     ok_events K seen xs \<and> ok_events K (seen \<union> set (found_paths xs)) ys"
  by (auto simp: ok_events_def)

definition ready :: "string set \<Rightarrow> string set \<Rightarrow> path_node list \<Rightarrow> bool" where
  "ready K seen ns \<longleftrightarrow> (\<forall>n \<in> set ns. node_path n \<in> seen \<or> fresh_node K n)"

lemma ready_simps [simp]:
  "ready K seen []" "ready K seen (n # ns) \<longleftrightarrow> (node_path n \<in> seen \<or> fresh_node K n) \<and> ready K seen ns"
  "ready K seen (xs @ ys) \<longleftrightarrow> ready K seen xs \<and> ready K seen ys"
  by (auto simp: ready_def)

lemma ready_mono: "ready K seen ns \<Longrightarrow> seen \<subseteq> seen' \<Longrightarrow> ready K seen' ns"
  by (auto simp: ready_def)

text \<open>What stays of a node when it is found, removed or wiped.\<close>

lemma with_hint_simps [simp]: "node_path (with_hint h n) = node_path n"
  "node_hint (with_hint h n) = h" "node_policy (with_hint h n) = node_policy n"
  "node_history (with_hint h n) = node_history n" "node_subnodes (with_hint h n) = node_subnodes n"
  by (cases n; simp)+

lemma with_subnodes_simps [simp]: "node_path (with_subnodes subs n) = node_path n"
  "node_hint (with_subnodes subs n) = node_hint n" "node_policy (with_subnodes subs n) = node_policy n"
  "node_history (with_subnodes subs n) = node_history n" "node_subnodes (with_subnodes subs n) = subs"
  by (cases n; simp)+

lemma policy_subnodes:
  assumes "handlePolicyChanges md n policy = Inr (md', n')"
  shows "node_path n' = node_path n \<and>
    (policy = BPOL_track \<or> node_policy n \<noteq> BPOL_track \<or> was_directory (node_history n) \<or> node_subnodes n = [] \<longrightarrow>
      node_subnodes n' = node_subnodes n)"
proof (cases "node_policy n = policy \<or> node_policy n \<noteq> BPOL_track")
  case True
  with assms show ?thesis
    by (cases n; cases "node_policy n = policy") (auto simp: handlePolicyChanges_def)
next
  case False
  obtain path h pol hist subs where n: "n = PathNode path h pol hist subs" by (cases n)
  let ?n = "PathNode path (backupHintSet h BH_policy_changed) pol hist subs"
  from assms False n obtain md1 n1 where L: "loseHistory md ?n = Inr (md1, n1)"
    and R: "(case n1 of PathNode path h _ hist subs \<Rightarrow> Inr (md1, PathNode path h policy hist subs)) =
      (Inr (md', n') :: (metadata \<times> path_node) result)"
    by (auto simp: handlePolicyChanges_def bindE_eq_Inr)
  from R have n': "node_path n' = node_path n1" "node_subnodes n' = node_subnodes n1" by (auto split: path_node.splits)
  from L have "node_path n1 = path \<and> (was_directory hist \<or> subs = [] \<longrightarrow> node_subnodes n1 = subs)"
    by (rule loseHistory_Inr) (auto simp: was_directory_def kept_point_def)
  with n n' False show ?thesis by auto
qed

lemma found_subnodes:
  assumes "handleFoundNode sys md n result = Inr (md', n')"
  shows "node_path n' = node_path n \<and>
    (sr_policy result = BPOL_track \<or> node_policy n \<noteq> BPOL_track \<or> was_directory (node_history n) \<or> node_subnodes n = [] \<longrightarrow>
      node_subnodes n' = node_subnodes n)"
proof -
  from assms obtain md1 n1 where P: "handlePolicyChanges md n (sr_policy result) = Inr (md1, n1)"
    and F: "(case node_history n1 of [] \<Rightarrow> Inl Null_pointer | point # older \<Rightarrow>
        found_step sys result md1 (node_path n1) (node_hint n1) (node_policy n1) point older (node_subnodes n1)) = Inr (md', n')"
    by (auto simp: handleFoundNode_policy_first bindE_eq_Inr)
  from F have "node_path n' = node_path n1 \<and> node_subnodes n' = node_subnodes n1"
    by (auto simp: found_step_def bindE_eq_Inr Let_def split: list.splits if_splits)
  with policy_subnodes [OF P] show ?thesis by simp
qed

lemma fresh_hint: "fresh_node K n \<Longrightarrow> live (node_hint n)"
  by (cases n) simp

lemma take_node_exact:
  assumes "takeNode sys result md nl = Inr (md', before, node, after)"
    and "ready K seen nl" "sr_path result \<notin> seen"
    and "st_type (sr_stats result) = Directory_file \<and> sr_path result \<in> K \<longrightarrow> sr_policy result = BPOL_track"
    and "exact md (nodes_usage nl + U)"
  shows "exact md' (nodes_usage (before @ node # after) + U)" "node_path node = sr_path result"
    "ready K seen (before @ after)"
    "st_type (sr_stats result) = Directory_file \<longrightarrow> fresh_nodes K (node_subnodes node)"
proof -
  have "exact md' (nodes_usage (before @ node # after) + U) \<and> node_path node = sr_path result \<and>
    ready K seen (before @ after) \<and>
    (st_type (sr_stats result) = Directory_file \<longrightarrow> fresh_nodes K (node_subnodes node))"
  proof (cases "sr_path result \<in> set (path_table md)")
    case False
    with assms(1) obtain point md1 m where B: "buildPathHistoryPoint sys md result = Inr (point, md1)"
      and m: "sSizeAdd (total_path_count md1) 1 = Inr m" and md': "md' = md1\<lparr>total_path_count := m\<rparr>"
      and R: "before = []" "node = PathNode (sr_path result) BH_added (sr_policy result) [point] []" "after = nl"
      by (auto simp: takeNode_def bindE_eq_Inr)
    from exact_one_path_more [OF exact_build [OF B assms(5)] m]
    have "exact md' (nodes_usage (before @ node # after) + U)"
      by (simp add: R md' head_usage_def live_def BH_defs backupHintNoPol_def)
    with R assms(2) show ?thesis by simp
  next
    case True
    with assms(1) obtain old where drop: "dropWhile (\<lambda>n. node_path n \<noteq> sr_path result) nl = old # after"
      and F: "handleFoundNode sys md old result = Inr (md', node)"
      and before: "before = takeWhile (\<lambda>n. node_path n \<noteq> sr_path result) nl"
      by (auto simp: takeNode_def bindE_eq_Inr split: list.splits)
    have nl: "nl = before @ old # after" using takeWhile_dropWhile_id [of _ nl] before drop by metis
    have path: "node_path old = sr_path result"
      using hd_dropWhile [of "\<lambda>n. node_path n \<noteq> sr_path result" nl] drop by simp
    with assms(2,3) nl have fresh: "fresh_node K old" by simp
    have "exact md (node_usage old + (nodes_usage before + nodes_usage after + U))"
      using assms(5) nl by (simp add: ac_simps)
    from exact_found [OF F fresh_hint [OF fresh] this] found_subnodes [OF F] fresh path assms(2,4) nl
    show ?thesis by (cases old) (auto simp: ac_simps)
  qed
  then show "exact md' (nodes_usage (before @ node # after) + U)" "node_path node = sr_path result"
    "ready K seen (before @ after)"
    "st_type (sr_stats result) = Directory_file \<longrightarrow> fresh_nodes K (node_subnodes node)" by blast+
qed

lemma old_subnodes_exact:
  "handleOldSubnodes sys ns ig result md node = Inr (md', subs) \<Longrightarrow> exact md (nodes_usage (node_subnodes node) + U) \<Longrightarrow>
     exact md' (nodes_usage subs + U)"
  by (auto simp: handleOldSubnodes_def split: if_splits
      intro: exact_mark(2) exact_wipe(2) exact_not_found_subnodes)

lemma node_usage_parts: "node_usage n = head_usage (node_hint n) (node_history n) + nodes_usage (node_subnodes n)"
  by (cases n) simp

lemma prepare_path: "prepareNodeForWiping md n = (md', n') \<Longrightarrow> node_path n' = node_path n"
  by (auto simp: prepareNodeForWiping_def split: if_splits)

lemma finishNode_exact:
  assumes "finishNode sys ns ig result md node = Inr (md', node')" "exact md (node_usage node + U)"
  shows "exact md' (node_usage node' + U) \<and> node_path node' = node_path node"
proof -
  from assms(1) obtain md1 subs where O: "handleOldSubnodes sys ns ig result md node = Inr (md1, subs)"
    by (auto simp: finishNode_def bindE_eq_Inr)
  from assms(2) have "exact md (nodes_usage (node_subnodes node) + (head_usage (node_hint node) (node_history node) + U))"
    by (simp add: node_usage_parts ac_simps)
  from old_subnodes_exact [OF O this]
  have E1: "exact md1 (node_usage (with_subnodes subs node) + U)" by (simp add: node_usage_parts ac_simps)
  define purge where "purge = (sr_policy result = BPOL_none \<and> \<not> list_ex is_part_of_repository subs)"
  obtain md2 n2 where P: "(if purge then prepareNodeForWiping md1 (with_subnodes subs node)
      else (md1, with_subnodes subs node)) = (md2, n2)" by fastforce
  have E2: "exact md2 (node_usage n2 + U)" "node_path n2 = node_path node"
    using P E1 exact_prepare [OF E1, of md2 n2]
    by (auto simp: prepare_path split: if_splits)
  have "md' = md2" "node' = (if node_hint n2 = BH_none then with_hint (backupHintSet (node_hint n2) BH_unchanged) n2 else n2)"
    using assms(1) O P by (auto simp: finishNode_def purge_def Let_def)
  with E2 show ?thesis by (auto simp: node_usage_parts head_usage_def)
qed

text \<open>The events of one call, of the loop in a directory and of the whole search.\<close>

lemma found_path_ok:
  "ok_events K seen (Found result # evs) \<longleftrightarrow> sr_path result \<notin> seen \<and>
     (st_type (sr_stats result) = Directory_file \<and> sr_path result \<in> K \<longrightarrow> sr_policy result = BPOL_track) \<and>
     ok_events K (insert (sr_path result) seen) evs"
  by (auto simp: ok_events_def)

text \<open>
  What the recursion does is described by a relation between the metadata and nodes before and after, and
  the events in between. If the relation holds for single found paths and can be composed, then
  it holds for the recursion and its loops. The events are those that the calls of the search give.
\<close>

locale event_relation =
  fixes sys :: os
    and keeps :: "metadata \<Rightarrow> path_node list \<Rightarrow> search_event list \<Rightarrow> metadata \<Rightarrow> path_node list \<Rightarrow> bool"
  assumes skip: "keeps md ns evs md ns"
    and trans: "keeps md ns evs md1 ns1 \<Longrightarrow> keeps md1 ns1 evs1 md2 ns2 \<Longrightarrow> keeps md ns (evs @ evs1) md2 ns2"
    and found: "st_type (sr_stats result) \<noteq> Other_file \<Longrightarrow>
      takeNode sys result md nl = Inr (md1, before, node, after) \<Longrightarrow>
      (if st_type (sr_stats result) = Directory_file then keeps md1 (node_subnodes node) evs md2 subs
       else md2 = md1 \<and> subs = node_subnodes node \<and> evs = []) \<Longrightarrow>
      finishNode sys sns ig result md2 (with_subnodes subs node) = Inr (md', node') \<Longrightarrow>
      keeps md nl (Found result # evs) md' (before @ node' # after)"
begin

lemma recursion:
  "initiateMetadataRecursively fuel sys md nl it = Inr (ev, md', nl', it') \<Longrightarrow>
     \<exists>evs. emits sys it evs it' \<and> keeps md nl evs md' nl' \<and>
       (if ev = End_of_search then evs = [ev] \<and> it_stack it = []
        else End_of_search \<notin> set evs \<and>
          length (it_stack it) = (if ev = End_of_directory then Suc (length (it_stack it')) else length (it_stack it')))"
  "initiateUntil fuel stop sys md nl it = Inr (md', nl', it') \<Longrightarrow>
     \<exists>evs. emits sys it evs it' \<and> keeps md nl evs md' nl' \<and>
       (stop = End_of_directory \<and> it_stack it \<noteq> [] \<longrightarrow>
          End_of_search \<notin> set evs \<and> length (it_stack it) = Suc (length (it_stack it'))) \<and>
       (stop = End_of_search \<longrightarrow> (\<exists>evs1. evs = evs1 @ [End_of_search] \<and> End_of_search \<notin> set evs1))"
proof (induction fuel arbitrary: stop md nl it ev md' nl' it')
  case 0
  { case 1 then show ?case by simp }
  { case 2 then show ?case by simp }
next
  case (Suc fuel)
  {
  case 1
  from "1" show ?case
  proof (rule initiateMetadata_Inr)
    assume "searchGetNext sys it = Inr (ev, it')" "md' = md" "nl' = nl"
      "\<And>result. ev = Found result \<Longrightarrow> st_type (sr_stats result) = Other_file"
    then show ?thesis using searchGetNext_stack [of sys it ev it']
      by (intro exI [of _ "[ev]"])
        (auto simp: skip steps_stack_def intro: emits.intros split: search_event.splits)
  next
    fix result it1 md1 before node after md2 subs node'
    assume ev: "ev = Found result" and G: "searchGetNext sys it = Inr (Found result, it1)"
      and t: "st_type (sr_stats result) \<noteq> Other_file" and T: "takeNode sys result md nl = Inr (md1, before, node, after)"
      and D: "if st_type (sr_stats result) = Directory_file
       then initiateUntil fuel End_of_directory sys md1 (node_subnodes node) it1 = Inr (md2, subs, it')
       else md2 = md1 \<and> subs = node_subnodes node \<and> it' = it1"
      and F: "finishNode sys (it_nodes it') (it_ignore it') result md2 (with_subnodes subs node) = Inr (md', node')"
      and nl': "nl' = before @ node' # after"
    note stack = searchGetNext_stack [OF G]
    show ?thesis
    proof (cases "st_type (sr_stats result) = Directory_file")
      case True
      with D have "initiateUntil fuel End_of_directory sys md1 (node_subnodes node) it1 = Inr (md2, subs, it')" by simp
      moreover have "it_stack it1 \<noteq> []" using stack True by (auto simp: steps_stack_def)
      ultimately obtain evs where evs: "emits sys it1 evs it'" "keeps md1 (node_subnodes node) evs md2 subs"
          "End_of_search \<notin> set evs" "length (it_stack it1) = Suc (length (it_stack it'))"
        using Suc.IH(2) by blast
      with True found [OF t T _ F, of evs] stack nl' ev show ?thesis
        by (intro exI [of _ "Found result # evs"]) (auto simp: steps_stack_def intro: emits.intros G)
    next
      case False
      with D found [OF t T _ F, of "[]"] stack nl' ev G show ?thesis
        by (intro exI [of _ "[Found result]"]) (auto simp: steps_stack_def intro: emits.intros)
    qed
  qed
  }
  {
  case 2
  from "2" show ?case
  proof (rule initiateUntil_Inr)
    fix ev md1 nl1 it1
    assume S: "initiateMetadataRecursively fuel sys md nl it = Inr (ev, md1, nl1, it1)"
      and R: "if ev = stop then (md', nl', it') = (md1, nl1, it1)
        else initiateUntil fuel stop sys md1 nl1 it1 = Inr (md', nl', it')"
    from Suc.IH(1) [OF S] obtain evs where evs: "emits sys it evs it1" "keeps md nl evs md1 nl1"
      and len: "if ev = End_of_search then evs = [ev] \<and> it_stack it = []
        else End_of_search \<notin> set evs \<and>
          length (it_stack it) = (if ev = End_of_directory then Suc (length (it_stack it1)) else length (it_stack it1))"
      by blast
    show ?thesis
    proof (cases "ev = stop")
      case True
      with R evs len show ?thesis by (intro exI [of _ evs]) auto
    next
      case False
      with R have "initiateUntil fuel stop sys md1 nl1 it1 = Inr (md', nl', it')" by simp
      from Suc.IH(2) [OF this] obtain evs' where evs': "emits sys it1 evs' it'"
          "keeps md1 nl1 evs' md' nl'"
          "stop = End_of_directory \<and> it_stack it1 \<noteq> [] \<longrightarrow>
            End_of_search \<notin> set evs' \<and> length (it_stack it1) = Suc (length (it_stack it'))"
          "stop = End_of_search \<longrightarrow> (\<exists>evs1. evs' = evs1 @ [End_of_search] \<and> End_of_search \<notin> set evs1)"
        by auto
      show ?thesis
        using False evs evs' len emits_trans [OF evs(1) evs'(1)] trans [OF evs(2) evs'(2)]
        by (intro exI [of _ "evs @ evs'"]) (auto split: if_splits)
    qed
  qed
  }
qed

end

definition keeps_exact ::
  "metadata \<Rightarrow> path_node list \<Rightarrow> search_event list \<Rightarrow> metadata \<Rightarrow> path_node list \<Rightarrow> bool" where
  "keeps_exact md ns evs md' ns' \<longleftrightarrow>
     (\<forall>K seen U. ok_events K seen evs \<longrightarrow> ready K seen ns \<longrightarrow> exact md (nodes_usage ns + U) \<longrightarrow>
        ready K (seen \<union> set (found_paths evs)) ns' \<and> exact md' (nodes_usage ns' + U))"

lemma keeps_exact_trans:
  assumes "keeps_exact md ns evs md1 ns1" "keeps_exact md1 ns1 evs1 md2 ns2"
  shows "keeps_exact md ns (evs @ evs1) md2 ns2"
  unfolding keeps_exact_def
proof (intro allI impI)
  fix K seen U
  assume A: "ok_events K seen (evs @ evs1)" "ready K seen ns" "exact md (nodes_usage ns + U)"
  from assms(1) [unfolded keeps_exact_def, rule_format, of K seen U] A
  have "ready K (seen \<union> set (found_paths evs)) ns1" "exact md1 (nodes_usage ns1 + U)"
    by (auto simp: ok_events_append)
  with assms(2) [unfolded keeps_exact_def, rule_format, of K "seen \<union> set (found_paths evs)" U] A(1)
  show "ready K (seen \<union> set (found_paths (evs @ evs1))) ns2 \<and> exact md2 (nodes_usage ns2 + U)"
    by (simp add: ok_events_append Un_assoc)
qed

lemma keeps_exact_skip: "keeps_exact md ns evs md ns"
  by (auto simp: keeps_exact_def intro: ready_mono)

lemma keeps_exact_found:
  assumes take: "takeNode sys result md nl = Inr (md1, before, node, after)"
    and dir: "if st_type (sr_stats result) = Directory_file then keeps_exact md1 (node_subnodes node) evs md2 subs
      else md2 = md1 \<and> subs = node_subnodes node \<and> evs = []"
    and fin: "finishNode sys ns ig result md2 (with_subnodes subs node) = Inr (md', node')"
  shows "keeps_exact md nl (Found result # evs) md' (before @ node' # after)"
  unfolding keeps_exact_def
proof (intro allI impI)
  fix K seen U
  assume ok: "ok_events K seen (Found result # evs)" and nl: "ready K seen nl" and E: "exact md (nodes_usage nl + U)"
  from ok [unfolded found_path_ok] have new: "sr_path result \<notin> seen"
    and track: "st_type (sr_stats result) = Directory_file \<and> sr_path result \<in> K \<longrightarrow> sr_policy result = BPOL_track"
    and rest: "ok_events K (insert (sr_path result) seen) evs" by blast+
  note T = take_node_exact [OF take nl new track E]
  let ?U = "head_usage (node_hint node) (node_history node) + nodes_usage before + nodes_usage after + U"
  have E1: "exact md1 (nodes_usage (node_subnodes node) + ?U)" using T(1) by (simp add: node_usage_parts ac_simps)
  have "exact md2 (nodes_usage subs + ?U)"
  proof (cases "st_type (sr_stats result) = Directory_file")
    case True
    with T(4) have "ready K (insert (sr_path result) seen) (node_subnodes node)"
      by (simp add: ready_def fresh_nodes_all)
    with dir True rest E1 show ?thesis by (simp add: keeps_exact_def)
  qed (use dir E1 in simp)
  then have "exact md2 (node_usage (with_subnodes subs node) + (nodes_usage before + nodes_usage after + U))"
    by (simp add: node_usage_parts ac_simps)
  from finishNode_exact [OF fin this] T(2,3)
  show "ready K (seen \<union> set (found_paths (Found result # evs))) (before @ node' # after) \<and>
      exact md' (nodes_usage (before @ node' # after) + U)"
    by (auto simp: ac_simps intro: ready_mono)
qed

interpretation counters: event_relation sys keeps_exact
proof
  show "keeps_exact md ns evs md ns" for md ns evs by (rule keeps_exact_skip)
  show "keeps_exact md ns evs md1 ns1 \<Longrightarrow> keeps_exact md1 ns1 evs1 md2 ns2 \<Longrightarrow> keeps_exact md ns (evs @ evs1) md2 ns2"
    for md ns evs md1 ns1 evs1 md2 ns2 by (rule keeps_exact_trans)
qed (rule keeps_exact_found; assumption)

lemma emits_all:
  assumes "emits sys it evs it1" "evs = evs1 @ [End_of_search]" "End_of_search \<notin> set evs1"
    and "runSearch n sys it = Inr (all, it')"
  shows "all = evs"
  using assms
proof (induction arbitrary: n all evs1 rule: emits.induct)
  case (event it ev it1 evs it2)
  show ?case
  proof (cases evs1)
    case Nil
    with event.prems event.hyps show ?thesis by (cases n) auto
  next
    case (Cons x xs)
    with event.prems event.hyps(1) obtain m rest where "runSearch m sys it1 = Inr (rest, it')" "all = ev # rest"
      by (cases n) (auto simp: bindE_eq_Inr split: if_splits)
    with event.IH [of xs m rest] event.prems Cons show ?thesis by auto
  qed
qed simp

text \<open>
  C4: \<open>initiateBackup()\<close> keeps the counters of the metadata exact. If, before, the reference count of
  every backup is the number of history points that refer to it and the number of paths is that of
  the nodes, then this holds afterwards of the nodes that are still part of the repository, for all
  that the search finds. \<open>U\<close> are the references from elsewhere, as from the history of the
  configuration file. This needs that the search reports no path twice, and that a tracked path which was no
  directory last time but still has subnodes from earlier is not found as a directory under another
  policy: \<open>wiped_node_found_again\<close> shows what happens then.
\<close>

theorem initiateBackup_counts_exact:
  assumes "searchNew sys tree = Inr it" and "runSearch n sys it = Inr (evs, it')"
    and "distinct (found_paths evs)" and "fresh_nodes K (paths md)"
    and "\<And>result. Found result \<in> set evs \<Longrightarrow> st_type (sr_stats result) = Directory_file \<Longrightarrow>
      sr_path result \<in> K \<Longrightarrow> sr_policy result = BPOL_track"
    and "exact md (nodes_usage (paths md) + U)"
    and "initiateBackup fuel sys md tree = Inr (md', marks)"
  shows "exact md' (nodes_usage (paths md') + U)"
proof -
  from assms(1,7) obtain md1 nodes it1 md2 nodes' where
      I: "initiateUntil fuel End_of_search sys md (paths md) it = Inr (md1, nodes, it1)"
    and N: "handleNotFoundSubnodes sys (it_nodes it1) (it_ignore it1) md1 (Some 0) (sn_policy (it_nodes it1 ! 0)) nodes =
      Inr (md2, nodes')"
    and md': "md' = md2\<lparr>paths := nodes'\<rparr>"
    by (auto simp: initiateBackup_def bindE_eq_Inr)
  from counters.recursion(2) [OF I] obtain evs1 where E: "emits sys it (evs1 @ [End_of_search]) it1"
      "keeps_exact md (paths md) (evs1 @ [End_of_search]) md1 nodes" "End_of_search \<notin> set evs1"
    by auto
  from emits_all [OF E(1) refl E(3) assms(2)] have evs: "evs = evs1 @ [End_of_search]" .
  have "ok_events K {} evs" using assms(3,5) by (auto simp: ok_events_def)
  moreover have "ready K {} (paths md)" using assms(4) by (simp add: ready_def fresh_nodes_all)
  ultimately have "exact md1 (nodes_usage nodes + U)"
    using E(2) assms(6) unfolding keeps_exact_def evs by blast
  from exact_not_found_subnodes [OF N this] show ?thesis by (simp add: md' exact_iff)
qed

lemma bindE_weak_cong: "r = r' \<Longrightarrow> bindE r f = bindE r' f"
  by simp

lemma example_calls:
  "sLStat example_os ''/a'' = Inr (example_stat Directory_file)"
  "sLStat example_os ''/a/f'' = Inr (example_stat Regular_file)"
  "sPathExists example_os ''/a'' = Inr True"
  "sDirOpen example_os ''/a'' = Inr (''/a'', [Some ''.'', Some ''f''])"
  "size_mul sizeof_DirSearchState 4 = Inr 160" "size_mul 4 2 = Inr 8"
  "sSizeAdd 0 1 = Inr 1" "sSizeAdd 2 1 = Inr 3"
  by (simp_all add: sLStat_def sPathExists_def sDirOpen_def example_os_def PATH_MAX_def example_stat_def
      size_mul_def sizeof_DirSearchState_def SIZE_MAX_def sSizeAdd_def)

text \<open>An earlier backup of \<open>/a\<close> with a file \<open>/a/g\<close> that is gone, tracked since.\<close>

definition old_point :: "path_state \<Rightarrow> path_history" where
  "old_point st = \<lparr>point_backup = Hist 0, state = st\<rparr>"

definition example_file :: path_state where
  "example_file = PST_regular_file 0 0 \<lparr>permission_bits = 0, modification_time = 0, file_size = 0,
     file_hash = [], slot = 0\<rparr>"

definition example_old :: metadata where
  "example_old = \<lparr>current_backup = \<lparr>backup_id = 0, completion_time = 0, ref_count = 0\<rparr>,
     backup_history = [\<lparr>backup_id = 0, completion_time = 0, ref_count = 3\<rparr>],
     config_history = [old_point example_file], total_path_count = 2, path_table = [''/a'', ''/a/g''],
     paths = [PathNode ''/a'' BH_none BPOL_copy
       [old_point (PST_directory 0 0 \<lparr>dir_permission_bits = 0, dir_modification_time = 0\<rparr>)]
       [PathNode ''/a/g'' BH_none BPOL_track [old_point example_file] []]]\<rparr>"

lemmas initiate_evaluation =
  initiateBackup_def searchNew_def recursionStepRaw_def recursionStep_def pushCurrentState_def subnodes_of_def
  append_path_def markMatched_def split_path_def upto_last_slash_def strip_slashes_def Let_def
  searchGetNext_def finishSearchStep.simps finishCurrentNode.simps finishNodeStep_def buildSearchResult_def
  finishDirectory_def sDirGetNext_def replaceCurrentFilename_def takeNode_def buildPathHistoryPoint_def
  increment_current_def increment_ref_def setPathHistoryState_def finishNode_def handleOldSubnodes_def
  handleNotFoundNode_def handleFoundNode_def handlePolicyChanges_def handleNodeChanges_def
  handleFiletypeChanges_def applyNodeChanges_def applyDirectoryChanges_def set_if_def backupHintSet_def
  backupHintNoPol_def BH_defs loseHistory_def is_dir_state_def matchesSearchSubnodes_def matchesIgnoreList_def
  handleRemovedPath_def srt_of_def SRT_none_def SRT_directory_def

lemma example_initiate:
  "\<exists>md' marks. initiateBackup (Suc (Suc (Suc (Suc (Suc (Suc (Suc (Suc 0)))))))) example_os example_old example_tree =
       Inr (md', marks) \<and> map node_hint (paths md') = [BH_unchanged] \<and> total_path_count md' = 3"
  by (simp add: initiate_evaluation example_calls example_stat_def example_tree_def root_node_def example_old_def
      old_point_def example_file_def cong: bindE_weak_cong)

lemma map_filter_append: "List.map_filter f (xs @ ys) = List.map_filter f xs @ List.map_filter f ys"
  by (simp add: List.map_filter_def)

lemma found_paths_events: "found_paths evs = List.map_filter event_path evs"
  by (induction evs rule: found_paths.induct) (simp_all add: map_filter_simps)

lemma map_filter_map: "List.map_filter f xs = List.map_filter (\<lambda>x. x) (map f xs)"
  by (simp add: List.map_filter_def filter_map comp_def)

lemma example_search:
  "\<exists>it n evs it'. searchNew example_os example_tree = Inr it \<and> runSearch n example_os it = Inr (evs, it') \<and>
     found_paths evs = [''/a'', ''/a/f'']"
proof -
  obtain evs ns es where w: "walkTree 3 example_os example_tree = Inr (evs, ns, es)"
      and evs: "map event_path evs = [Some ''/a'', Some ''/a/f'', None]"
    using example_walk by (elim exE conjE)
  have "(3::nat) \<le> max_depth" by (simp add: max_depth_def)
  from walk_as_iterator [OF this, of example_os example_tree] w obtain it it' where
      "searchNew example_os example_tree = Inr it"
      "runSearch (length evs + 1) example_os it = Inr (evs @ [End_of_search], it')" by auto
  moreover have "found_paths (evs @ [End_of_search]) = [''/a'', ''/a/f'']"
    using evs map_filter_map [of event_path evs] by (simp add: found_paths_events map_filter_append map_filter_simps)
  ultimately show ?thesis by blast
qed

lemma example_old_exact:
  "exact example_old (nodes_usage (paths example_old) + points_usage (config_history example_old))"
  by (simp add: exact_iff example_old_def old_point_def head_usage_def)

theorem initiateBackup_counts_exact_witness:
  "\<exists>fuel md' marks. initiateBackup fuel example_os example_old example_tree = Inr (md', marks) \<and>
     map node_hint (paths md') = [BH_unchanged] \<and> unat (total_path_count md') = 3 \<and>
     exact md' (nodes_usage (paths md') + points_usage (config_history example_old))"
proof -
  obtain it n evs it' where S: "searchNew example_os example_tree = Inr it"
      "runSearch n example_os it = Inr (evs, it')" and evs: "found_paths evs = [''/a'', ''/a/f'']"
    using example_search by (elim exE conjE)
  obtain fuel md' marks where I: "initiateBackup fuel example_os example_old example_tree = Inr (md', marks)"
      and R: "map node_hint (paths md') = [BH_unchanged]" "total_path_count md' = 3"
    using example_initiate by (elim exE conjE)
  have "distinct (found_paths evs)" by (simp add: evs)
  moreover have "fresh_nodes {} (paths example_old)" by (simp add: example_old_def)
  ultimately have "exact md' (nodes_usage (paths md') + points_usage (config_history example_old))"
    using initiateBackup_counts_exact [OF S _ _ _ example_old_exact I] by blast
  with I R show ?thesis by (intro exI [of _ fuel] exI [of _ md'] exI [of _ marks]) simp
qed

end
