(* ===== verification/Backup_Safety.thy ===== *)
theory Backup_Safety
  imports Backup_Initiate
begin

text \<open>
  Histories stay well-formed during a backup, so that no access through \<open>NULL\<close> happens, and the
  recursion of \<open>initiateBackup()\<close> comes to its end.
\<close>

section \<open>Well-formed histories\<close>

text \<open>
  A tracked path has existed at first and is never removed twice in a row; any other has a single
  point, in which it exists.
\<close>

fun no_gaps :: "path_history list \<Rightarrow> bool" where
  "no_gaps [] \<longleftrightarrow> False"
| "no_gaps [p] \<longleftrightarrow> state p \<noteq> PST_non_existing"
| "no_gaps (p # q # ps) \<longleftrightarrow> (state p = PST_non_existing \<longrightarrow> state q \<noteq> PST_non_existing) \<and> no_gaps (q # ps)"

definition history_ok :: "backup_policy \<Rightarrow> path_history list \<Rightarrow> bool" where
  "history_ok pol hist \<longleftrightarrow> no_gaps hist \<and> (pol \<noteq> BPOL_track \<longrightarrow> length hist = 1)"

fun tree_ok :: "path_node \<Rightarrow> bool" and forest_ok :: "path_node list \<Rightarrow> bool" where
  "tree_ok (PathNode path h pol hist subs) \<longleftrightarrow> history_ok pol hist \<and> forest_ok subs"
| "forest_ok [] \<longleftrightarrow> True"
| "forest_ok (n # ns) \<longleftrightarrow> tree_ok n \<and> forest_ok ns"

lemma forest_ok_append [simp]: "forest_ok (xs @ ys) \<longleftrightarrow> forest_ok xs \<and> forest_ok ys"
  by (induction xs) auto

lemma tree_ok_parts: "tree_ok n \<longleftrightarrow> history_ok (node_policy n) (node_history n) \<and> forest_ok (node_subnodes n)"
  by (cases n) simp

lemma no_gaps_Cons: "no_gaps (p # ps) \<longleftrightarrow>
    (if ps = [] then state p \<noteq> PST_non_existing
     else (state p = PST_non_existing \<longrightarrow> state (hd ps) \<noteq> PST_non_existing) \<and> no_gaps ps)"
  by (cases ps) auto

lemma history_ok_Cons:
  "history_ok pol hist \<longleftrightarrow> (\<exists>p ps. hist = p # ps \<and> no_gaps (p # ps) \<and> (pol \<noteq> BPOL_track \<longrightarrow> ps = []))"
  by (cases hist) (auto simp: history_ok_def)

lemma history_ok_single: "history_ok pol [p] \<longleftrightarrow> state p \<noteq> PST_non_existing"
  by (auto simp: history_ok_def)

abbreviation broken :: "nb_error set" where
  "broken \<equiv> {Null_pointer, Endless_recursion}"

section \<open>Single nodes\<close>

lemma wipe_ok:
  "forest_ok [n] \<Longrightarrow> tree_ok (snd (prepareNodeForWipingRecursively md n))"
  "forest_ok ns \<Longrightarrow> forest_ok (snd (wipeNodes md ns))"
  by (induction md n and md ns rule: prepareNodeForWipingRecursively_wipeNodes.induct)
    (auto simp: prepareNodeForWiping_def split: prod.splits if_splits)

lemma prepare_ok: "tree_ok n \<Longrightarrow> tree_ok (snd (prepareNodeForWiping md n))"
  by (cases n) (simp add: prepareNodeForWiping_def)

lemma increment_never: "never broken (\<lambda>_. True) (increment_current md)"
  by (auto simp: increment_current_def increment_ref_def sSizeAdd_def)

lemma mark_ok:
  "tree_ok n \<Longrightarrow> never broken (\<lambda>(md, n). tree_ok n) (markAsRemovedRecursively md n ext)"
  "forest_ok ns \<Longrightarrow> never broken (\<lambda>(md, ns). forest_ok ns) (markNodesAsRemoved md ns ext)"
proof (induction md n ext and md ns ext rule: markAsRemovedRecursively_markNodesAsRemoved.induct)
  case (1 md path h pol hist subs ext)
  then obtain p ps where hist: "hist = p # ps" by (auto simp: history_ok_Cons)
  show ?case
    using 1 hist increment_never [of md]
    by (auto simp: history_ok_def intro!: never_bind split: prod.splits)
next
  case (3 md n ns ext)
  then show ?case by (auto intro!: never_bind split: prod.splits)
qed simp

lemma loseHistory_ok:
  assumes "no_gaps hist" "forest_ok subs"
  shows "never broken (\<lambda>(md, n). \<exists>p subs' h'. n = PathNode path h' pol [p] subs' \<and> state p \<noteq> PST_non_existing \<and> forest_ok subs')
    (loseHistory md (PathNode path h pol hist subs))"
proof -
  obtain p ps where hist: "hist = p # ps" using assms(1) by (cases hist) auto
  have W: "wipeNodes md subs = (md', ns) \<Longrightarrow> forest_ok ns" for md md' ns
    using wipe_ok(2) [OF assms(2), of md] by simp
  show ?thesis using assms hist
    by (cases ps) (auto simp: loseHistory_def Let_def split: prod.splits dest: W)
qed

lemma policy_ok':
  assumes "tree_ok n"
  shows "never broken (\<lambda>(md, n'). tree_ok n' \<and> node_policy n' = policy) (handlePolicyChanges md n policy)"
proof (cases n)
  case (PathNode path h pol hist subs)
  let ?h = "backupHintSet h BH_policy_changed"
  have gaps: "no_gaps hist" "forest_ok subs" using assms PathNode by (auto simp: history_ok_def)
  show ?thesis
    using assms PathNode loseHistory_ok [OF gaps, of path pol md ?h]
    by (auto simp: handlePolicyChanges_def history_ok_def Let_def intro!: never_bind)
qed

lemma removed_ok:
  assumes "tree_ok n"
  shows "never broken (\<lambda>(md, n). tree_ok n) (handleRemovedPath md n policy)"
proof -
  have R: "never broken (\<lambda>(md, n). tree_ok n)
     (if policy = BPOL_mirror then Inr (prepareNodeForWipingRecursively md n')
      else if policy = BPOL_none \<and> node_subnodes n' = [] then Inr (prepareNodeForWiping md n')
      else if policy = BPOL_none then
        (case node_history n' of [] \<Rightarrow> Inl Null_pointer
         | point # _ \<Rightarrow> if \<not> is_dir_state (state point) then Inr (prepareNodeForWiping md n')
             else markAsRemovedRecursively md n' True)
      else markAsRemovedRecursively md n' True)" if "tree_ok n'" for md n'
    using that wipe_ok(1) [of n' md] prepare_ok [of n' md] mark_ok(1) [of n' md True]
    by (auto simp: tree_ok_parts [of n'] history_ok_Cons split: prod.splits list.splits)
  show ?thesis
    unfolding handleRemovedPath_def
  proof (rule never_bind [OF policy_ok' [OF assms]])
    fix x :: "metadata \<times> path_node" assume "case x of (md, n') \<Rightarrow> tree_ok n' \<and> node_policy n' = policy"
    then have "tree_ok (snd x)" by (simp add: split_beta)
    from R [OF this, of "fst x"] show "never broken (\<lambda>(md, n). tree_ok n) (case x of (md, node) \<Rightarrow>
        if policy = BPOL_mirror then Inr (prepareNodeForWipingRecursively md node)
        else if policy = BPOL_none \<and> node_subnodes node = [] then Inr (prepareNodeForWiping md node)
        else if policy = BPOL_none then
          (case node_history node of [] \<Rightarrow> Inl Null_pointer
           | point # _ \<Rightarrow> if \<not> is_dir_state (state point) then Inr (prepareNodeForWiping md node)
               else markAsRemovedRecursively md node True)
        else markAsRemovedRecursively md node True)"
      by (simp only: split_beta)
  qed
qed

lemma not_found_ok:
  "forest_ok ns \<Longrightarrow> never broken (\<lambda>(md, ns). forest_ok ns) (handleNotFoundSubnodes sys sns ignore_list md m pol ns)"
proof (induction sys sns ignore_list md m pol ns rule: handleNotFoundSubnodes.induct)
  case (2 sys sns ignore_list md m pol n ns)
  have "never broken (\<lambda>(md, n). tree_ok n) (handleNotFoundNode sys sns ignore_list md m pol n)"
    using 2(2) wipe_ok(1) [of n md] removed_ok [of n md]
    by (auto simp: handleNotFoundNode_def split: option.split prod.splits)
  then show ?case using 2 by (auto intro!: never_bind split: prod.splits)
qed simp

section \<open>Reading files and links\<close>

lemma sSymlinkReadTarget_never: "never broken (\<lambda>_. True) (sSymlinkReadTarget sys a path)"
  by (auto simp: sSymlinkReadTarget_def sLStat_def sUint64Add_def allocate_def Let_def intro!: never_bind
      split: lstat_result.split option.split)

lemma sFread_never: "never broken (\<lambda>_. True) (sFread n stream)"
  by (simp add: sFread_def)

lemma sFopenRead_never: "never broken (\<lambda>_. True) (sFopenRead sys path)"
  by (simp add: sFopenRead_def split: option.split)

lemma readBlocks_never: "0 < blocksize \<Longrightarrow> never broken (\<lambda>_. True) (readBlocks blocksize n stream)"
proof (induction n arbitrary: stream rule: less_induct)
  case (less n)
  show ?case
  proof (cases "n = 0")
    case False
    define k where "k = (if n > blocksize then blocksize else n)"
    have "n - k < n" using False less.prems by (auto simp: k_def)
    note R = less.IH [OF this less.prems]
    show ?thesis
      using False less.prems
      by (subst readBlocks.simps)
        (auto simp: Let_def simp flip: k_def intro!: never_bind [OF sFread_never] never_bind [OF R] split: prod.splits)
  qed (simp add: readBlocks.simps)
qed

lemma fileHashCalls_never: "0 < st_blksize stats \<Longrightarrow> never broken (\<lambda>_. True) (fileHashCalls sys path stats)"
  by (auto simp: fileHashCalls_def unat_gt_0 word_gt_0 intro!: never_bind [OF sFopenRead_never] never_bind [OF readBlocks_never]
      split: prod.splits)

lemma fileHash_never: "0 < st_blksize stats \<Longrightarrow> never broken (\<lambda>_. True) (fileHash sys path stats)"
  by (auto simp: fileHash_def intro!: never_bind [OF fileHashCalls_never] split: prod.splits)

lemma currentHash_never: "0 < st_blksize stats \<Longrightarrow> never broken (\<lambda>_. True) (currentHash sys path stats n)"
  by (auto simp: currentHash_def intro!: fileHash_never never_bind [OF sFopenRead_never] never_bind [OF sFread_never])

section \<open>Found paths\<close>

lemma setState_ok:
  "st_type (sr_stats result) \<noteq> Other_file \<Longrightarrow>
     never broken (\<lambda>st. st \<noteq> PST_non_existing) (setPathHistoryState sys st result)"
  by (auto simp: setPathHistoryState_def Let_def intro!: never_bind [OF sSymlinkReadTarget_never] split: file_type.split)

lemma nodeChanges_ok:
  assumes "st_type (sr_stats result) \<noteq> Other_file" "0 < st_blksize (sr_stats result)" "st \<noteq> PST_non_existing"
  shows "never broken (\<lambda>(h, st). st \<noteq> PST_non_existing) (handleNodeChanges sys path result (h, st))"
proof -
  have "never broken (\<lambda>(h, st). st \<noteq> PST_non_existing) (applyNodeChanges sys path (sr_stats result) (h, st))" for h
    using assms(3)
    by (auto simp: applyNodeChanges_def applyRegularChanges_def applySymlinkChanges_def checkFileContentChanges_def Let_def
        intro!: never_bind [OF currentHash_never [OF assms(2)]] never_bind [OF sSymlinkReadTarget_never]
        never_bind [where Q = "\<lambda>_. True"]
        split: path_state.split prod.splits)
  then show ?thesis
    using assms(3) by (auto simp: handleNodeChanges_def Let_def intro!: never_bind [OF setState_ok [OF assms(1)]])
qed

lemma found_step_ok:
  assumes "st_type (sr_stats result) \<noteq> Other_file" "0 < st_blksize (sr_stats result)"
    and "history_ok pol (point # older)" "forest_ok subs" "pol = sr_policy result"
  shows "never broken (\<lambda>(md, n). tree_ok n) (found_step sys result md path h pol point older subs)"
proof -
  note build = never_bind [OF setState_ok [OF assms(1)]] never_bind [OF increment_never]
  have "state point \<noteq> PST_non_existing \<or> pol = BPOL_track \<and> state point = PST_non_existing"
    using assms(3) by (auto simp: history_ok_def)
  then show ?thesis
  proof
    assume A: "state point \<noteq> PST_non_existing"
    note changes = never_bind [OF nodeChanges_ok [OF assms(1,2) A]]
    show ?thesis
      using A assms
      by (auto simp: found_step_def Let_def reassignPointToCurrent_def bindE_assoc history_ok_def no_gaps_Cons
          intro!: changes build split: prod.splits)
  next
    assume A: "pol = BPOL_track \<and> state point = PST_non_existing"
    then show ?thesis using assms
      by (auto simp: found_step_def buildPathHistoryPoint_def bindE_assoc history_ok_def no_gaps_Cons
          intro!: build)
  qed
qed

lemma found_ok:
  assumes "st_type (sr_stats result) \<noteq> Other_file" "0 < st_blksize (sr_stats result)" "tree_ok n"
  shows "never broken (\<lambda>(md, n). tree_ok n) (handleFoundNode sys md n result)"
  unfolding handleFoundNode_policy_first
proof (rule never_bind [OF policy_ok' [OF assms(3)]])
  fix x :: "metadata \<times> path_node" assume x: "case x of (md, n') \<Rightarrow> tree_ok n' \<and> node_policy n' = sr_policy result"
  obtain md1 n1 where [simp]: "x = (md1, n1)" by (cases x)
  have ok: "tree_ok n1" "node_policy n1 = sr_policy result" using x by simp_all
  then obtain point older where hist: "node_history n1 = point # older"
    by (auto simp: tree_ok_parts history_ok_Cons)
  from ok(1) have "history_ok (node_policy n1) (point # older)" "forest_ok (node_subnodes n1)"
    by (simp_all add: tree_ok_parts hist)
  from found_step_ok [OF assms(1,2) this ok(2), of sys md1 "node_path n1" "node_hint n1"]
  show "never broken (\<lambda>(md, n). tree_ok n)
      (case x of (md, n) \<Rightarrow> case node_history n of [] \<Rightarrow> Inl Null_pointer
       | point # older \<Rightarrow> found_step sys result md (node_path n) (node_hint n) (node_policy n) point older
           (node_subnodes n))"
    by (simp add: hist)
qed

lemma take_ok:
  assumes "st_type (sr_stats result) \<noteq> Other_file" "0 < st_blksize (sr_stats result)" "forest_ok nl"
  shows "never broken (\<lambda>(md, before, node, after). forest_ok (before @ node # after)) (takeNode sys result md nl)"
proof (cases "sr_path result \<in> set (path_table md)")
  case False
  have "never broken (\<lambda>(point, md). state point \<noteq> PST_non_existing) (buildPathHistoryPoint sys md result)"
    by (auto simp: buildPathHistoryPoint_def intro!: never_bind [OF increment_never] never_bind [OF setState_ok [OF assms(1)]])
  then show ?thesis using False assms(3)
    by (auto simp: takeNode_def sSizeAdd_def history_ok_single intro!: never_bind)
next
  case True
  let ?before = "takeWhile (\<lambda>n. node_path n \<noteq> sr_path result) nl"
  show ?thesis
  proof (cases "dropWhile (\<lambda>n. node_path n \<noteq> sr_path result) nl")
    case (Cons node after)
    then have "nl = ?before @ node # after" using takeWhile_dropWhile_id by metis
    with assms(3) have "forest_ok ?before" "tree_ok node" "forest_ok after"
      using forest_ok_append [of ?before "node # after"] by auto
    then show ?thesis using True Cons found_ok [OF assms(1,2), of node sys md]
      by (auto simp: takeNode_def intro!: never_bind)
  next
    case Nil
    then show ?thesis using True by (simp add: takeNode_def del: dropWhile_eq_Nil_conv)
  qed
qed

lemma finishNode_ok:
  assumes "tree_ok node"
  shows "never broken (\<lambda>(md, node). tree_ok node) (finishNode sys ns ig result md node)"
proof -
  have subs: "forest_ok (node_subnodes node)" "node_history node \<noteq> []"
    using assms by (auto simp: tree_ok_parts history_ok_Cons)
  have old: "never broken (\<lambda>(md, subs). forest_ok subs) (handleOldSubnodes sys ns ig result md node)"
    using subs wipe_ok(2) [OF subs(1), of md] mark_ok(2) [OF subs(1), of md] not_found_ok [OF subs(1)]
    by (auto simp: handleOldSubnodes_def split: prod.splits)
  have fin: "tree_ok (with_hint h n)" if "tree_ok n" for h n
    using that by (simp add: tree_ok_parts)
  show ?thesis
    unfolding finishNode_def
  proof (rule never_bind [OF old])
    fix x :: "metadata \<times> path_node list" assume x: "case x of (md, subs) \<Rightarrow> forest_ok subs"
    obtain md1 subs where [simp]: "x = (md1, subs)" by (cases x)
    have n: "tree_ok (with_subnodes subs node)" using x assms by (simp add: tree_ok_parts)
    show "never broken (\<lambda>(md, node). tree_ok node) (case x of (md, subs) \<Rightarrow>
        let node = with_subnodes subs node;
           (md, node) = (if sr_policy result = BPOL_none \<and> \<not> list_ex is_part_of_repository subs
                         then prepareNodeForWiping md node else (md, node));
           node = (if node_hint node = BH_none then with_hint (backupHintSet (node_hint node) BH_unchanged) node
                   else node)
       in Inr (md, node))"
      using n prepare_ok [OF n, of md1] by (auto simp: Let_def fin split: prod.splits)
  qed
qed

section \<open>The search\<close>

lemma finishNodeStep_never: "never {Null_pointer} (\<lambda>_. True) (finishNodeStep sys node policy it)"
  by (auto simp: finishNodeStep_def buildSearchResult_def recursionStep_def recursionStepRaw_def pushCurrentState_def
      size_mul_def sStat_def sLStat_def sDirOpen_def Let_def intro!: never_bind [where Q = "\<lambda>_. True"]
      split: option.split lstat_result.split)

lemma sDirGetNext_never: "never {Null_pointer} (\<lambda>_. True) (sDirGetNext dir)"
proof -
  have "never {Null_pointer} (\<lambda>_. True) (readEntries path dirents)" for path dirents
    by (induction path dirents rule: readEntries.induct) auto
  then show ?thesis by (auto simp: sDirGetNext_def intro!: never_bind [where Q = "\<lambda>_. True"])
qed

lemma matchSubnodes_never: "never {Null_pointer} (\<lambda>_. True) (matchSubnodes sys ns path name matched is)"
  by (induction sys ns path name matched "is" rule: matchSubnodes.induct) auto

lemma finishSearchStep_never: "never {Null_pointer} (\<lambda>_. True) (finishSearchStep sys it)"
proof (induction "dirents_left it" arbitrary: it rule: less_induct)
  case less
  show ?case
  proof (cases "access (it_state it)")
    case acc: (Dir_search dir subnodes fallback)
    show ?thesis
    proof (cases "sDirGetNext dir")
      case (Inl e)
      then show ?thesis using acc sDirGetNext_never [of dir] by (simp add: finishSearchStep.simps [of sys it])
    next
      case (Inr r)
      obtain entry dir' where r: "r = (entry, dir')" by (cases r)
      have again: "never {Null_pointer} (\<lambda>_. True) (finishSearchStep sys it1)"
        if "entry \<noteq> []" "access (it_state it1) = Dir_search dir' subnodes fallback" for it1
        using less.hyps [of it1] sDirGetNext_shorter [of dir entry dir'] Inr r that acc by (simp add: dirents_left_def)
      show ?thesis
        using acc Inr r
        by (subst finishSearchStep.simps)
          (auto simp: Let_def replaceCurrentFilename_def intro!: again never_bind [OF matchSubnodes_never]
            finishNodeStep_never split: option.split prod.split)
    qed
  qed (simp add: finishSearchStep.simps [of sys it])
qed

lemma finishCurrentNode_never: "never {Null_pointer} (\<lambda>_. True) (finishCurrentNode sys it)"
proof (induction "case access (it_state it) of Direct ids \<Rightarrow> length ids | _ \<Rightarrow> 0" arbitrary: it rule: less_induct)
  case less
  have E: "never {Null_pointer} (\<lambda>_. True) (sPathExists sys path)" for path
    by (simp add: sPathExists_def split: lstat_result.split)
  show ?case
  proof (cases "access (it_state it)")
    case acc: (Direct ids)
    show ?thesis
    proof (cases ids)
      case (Cons i rest)
      have "never {Null_pointer} (\<lambda>_. True) (finishCurrentNode sys it1)" if "access (it_state it1) = Direct rest" for it1
        using less.hyps [of it1] that acc Cons by simp
      then show ?thesis using acc Cons
        by (subst finishCurrentNode.simps)
          (auto simp: Let_def replaceCurrentFilename_def intro!: never_bind [OF E] finishNodeStep_never)
    qed (use acc in \<open>simp add: finishCurrentNode.simps [of sys it]\<close>)
  qed (simp add: finishCurrentNode.simps [of sys it])
qed

lemma searchGetNext_never: "never {Null_pointer} (\<lambda>_. True) (searchGetNext sys it)"
  by (simp add: searchGetNext_def finishSearchStep_never finishCurrentNode_never split: access.split)

section \<open>The recursion\<close>

text \<open>At most \<open>n\<close> calls bring the search to its end.\<close>

definition left :: "nat \<Rightarrow> os \<Rightarrow> iterator \<Rightarrow> bool" where
  "left n sys it \<longleftrightarrow> never {Endless_recursion} (\<lambda>_. True) (runSearch n sys it)"

lemma left_step:
  assumes "left n sys it"
  shows "never broken (\<lambda>(ev, it1). ev \<noteq> End_of_search \<longrightarrow> (\<exists>m < n. left m sys it1)) (searchGetNext sys it)"
proof (cases n)
  case 0
  then show ?thesis using assms by (simp add: left_def)
next
  case (Suc m)
  show ?thesis
  proof (cases "searchGetNext sys it")
    case (Inl e)
    then show ?thesis using assms Suc searchGetNext_never [of sys it] by (simp add: left_def)
  next
    case (Inr r)
    obtain ev it1 where r: "r = (ev, it1)" by (cases r)
    have "left m sys it1" if "ev \<noteq> End_of_search"
      using assms Suc Inr r that by (cases "runSearch m sys it1") (auto simp: left_def)
    then show ?thesis using Inr r Suc by auto
  qed
qed

definition blocks_positive :: "os \<Rightarrow> bool" where
  "blocks_positive sys \<longleftrightarrow> (\<forall>path stats. os_stat sys path = Some stats \<or> os_lstat sys path = Lstat_ok stats \<longrightarrow>
     0 < st_blksize stats)"

lemma recursion_safe:
  assumes "blocks_positive sys"
  shows "left n sys it \<Longrightarrow> 2 * n \<le> fuel \<Longrightarrow> forest_ok nl \<Longrightarrow>
      never broken (\<lambda>(ev, md', nl', it'). forest_ok nl' \<and>
        (if ev = End_of_search then it_stack it = []
         else (\<exists>m < n. left m sys it') \<and>
          length (it_stack it) = (if ev = End_of_directory then Suc (length (it_stack it')) else length (it_stack it'))))
      (initiateMetadataRecursively fuel sys md nl it)"
    and "left n sys it \<Longrightarrow> 2 * n + 1 \<le> fuel \<Longrightarrow> forest_ok nl \<Longrightarrow>
      stop = End_of_search \<or> stop = End_of_directory \<and> it_stack it \<noteq> [] \<Longrightarrow>
      never broken (\<lambda>(md', nl', it'). forest_ok nl' \<and>
        (stop = End_of_directory \<longrightarrow> (\<exists>m < n. left m sys it') \<and> length (it_stack it) = Suc (length (it_stack it'))))
      (initiateUntil fuel stop sys md nl it)"
proof (induction fuel arbitrary: n it nl md stop)
  case 0
  { case 1 then show ?case by (simp add: left_def) }
  { case 2 then show ?case by simp }
next
  case (Suc fuel)
  {
    case 1
    then have n: "2 * n \<le> Suc fuel" and nl: "forest_ok nl" by simp_all
    note step = left_step [OF 1(1)]
    show ?case
      unfolding initiateMetadataRecursively.simps
    proof (rule never_bind [OF step])
      fix x assume G: "searchGetNext sys it = Inr x"
        and L: "case x of (ev, it1) \<Rightarrow> ev \<noteq> End_of_search \<longrightarrow> (\<exists>m < n. left m sys it1)"
      obtain ev it1 where x: "x = (ev, it1)" by (cases x)
      note stack = searchGetNext_stack [OF G [unfolded x]]
      show "never broken (\<lambda>(ev, md', nl', it'). forest_ok nl' \<and>
        (if ev = End_of_search then it_stack it = []
         else (\<exists>m < n. left m sys it') \<and>
          length (it_stack it) = (if ev = End_of_directory then Suc (length (it_stack it')) else length (it_stack it'))))
        (case x of (ev, it) \<Rightarrow> case ev of
         End_of_directory \<Rightarrow> Inr (ev, md, nl, it)
       | End_of_search \<Rightarrow> Inr (ev, md, nl, it)
       | Found result \<Rightarrow>
           if st_type (sr_stats result) = Other_file then Inr (ev, md, nl, it)
           else
             bindE (takeNode sys result md nl) (\<lambda>(md, before, node, after).
             bindE (if st_type (sr_stats result) = Directory_file
                    then initiateUntil fuel End_of_directory sys md (node_subnodes node) it
                    else Inr (md, node_subnodes node, it)) (\<lambda>(md, subs, it).
             bindE (finishNode sys (it_nodes it) (it_ignore it) result md (with_subnodes subs node)) (\<lambda>(md, node).
               Inr (ev, md, before @ node # after, it)))))"
      proof (cases ev)
        case (Found result)
        then obtain m where m: "m < n" "left m sys it1" using L x by auto
        have blk: "0 < st_blksize (sr_stats result)"
          using searchGetNext_stats G x Found assms unfolding blocks_positive_def by blast
        show ?thesis
        proof (cases "st_type (sr_stats result) = Other_file")
          case True
          then show ?thesis using x Found L nl stack by (auto simp: steps_stack_def)
        next
          case other: False
          define dir where "dir \<longleftrightarrow> st_type (sr_stats result) = Directory_file"
          have inner: "never broken (\<lambda>(md, subs, it'). forest_ok subs \<and> (\<exists>m < n. left m sys it') \<and>
                length (it_stack it) = length (it_stack it'))
              (if dir then initiateUntil fuel End_of_directory sys md1 subs it1 else Inr (md1, subs, it1))"
            if subs: "forest_ok subs" for md1 subs
          proof (cases dir)
            case True
            then have d: "length (it_stack it1) = Suc (length (it_stack it))"
              using stack Found by (simp add: steps_stack_def dir_def)
            then have "it_stack it1 \<noteq> []" by auto
            then have "never broken (\<lambda>(md', nl', it'). forest_ok nl' \<and>
                (End_of_directory = End_of_directory \<longrightarrow> (\<exists>k < m. left k sys it') \<and> length (it_stack it1) = Suc (length (it_stack it'))))
                (initiateUntil fuel End_of_directory sys md1 subs it1)"
              using m n by (intro Suc.IH(2) [OF m(2) _ subs]) auto
            then show ?thesis using True d m(1)
              by (auto elim!: never_mono intro: less_trans)
          next
            case False
            then show ?thesis using subs stack Found m by (auto simp: steps_stack_def dir_def)
          qed
          show ?thesis
            using x Found other
            by (auto simp flip: dir_def simp: tree_ok_parts intro!: never_bind [OF take_ok [OF other blk nl]]
                never_bind [OF inner] never_bind [OF finishNode_ok])
        qed
      qed (use x L nl stack in \<open>auto simp: steps_stack_def\<close>)
    qed
  }
  {
    case 2
    then have n: "2 * n \<le> fuel" and nl: "forest_ok nl" by simp_all
    show ?case
      unfolding initiateUntil.simps
    proof (rule never_bind [OF Suc.IH(1) [OF 2(1) n nl]])
      fix x :: "search_event \<times> metadata \<times> path_node list \<times> iterator"
      assume x: "case x of (ev, md', nl', it') \<Rightarrow> forest_ok nl' \<and>
        (if ev = End_of_search then it_stack it = []
         else (\<exists>m < n. left m sys it') \<and>
          length (it_stack it) = (if ev = End_of_directory then Suc (length (it_stack it')) else length (it_stack it')))"
      obtain ev md1 nl1 it1 where [simp]: "x = (ev, md1, nl1, it1)" by (cases x)
      show "never broken (\<lambda>(md', nl', it'). forest_ok nl' \<and>
          (stop = End_of_directory \<longrightarrow> (\<exists>m < n. left m sys it') \<and> length (it_stack it) = Suc (length (it_stack it'))))
        (case x of (ev, md, nl, it) \<Rightarrow> if ev = stop then Inr (md, nl, it) else initiateUntil fuel stop sys md nl it)"
      proof (cases "ev = stop")
        case True
        then show ?thesis using x 2(4) by auto
      next
        case False
        with x 2(4) obtain m where m: "m < n" "left m sys it1" "forest_ok nl1"
            "length (it_stack it) = (if ev = End_of_directory then Suc (length (it_stack it1)) else length (it_stack it1))"
          by (auto split: if_splits)
        have "never broken (\<lambda>(md', nl', it'). forest_ok nl' \<and>
          (stop = End_of_directory \<longrightarrow> (\<exists>k < m. left k sys it') \<and> length (it_stack it1) = Suc (length (it_stack it'))))
          (initiateUntil fuel stop sys md1 nl1 it1)"
          using False m n 2(4) by (intro Suc.IH(2) [OF m(2) _ m(3)]) auto
        then show ?thesis using False m 2(4)
          by (auto elim!: never_mono intro: less_trans)
      qed
    qed
  }
qed

text \<open>
  C18: on metadata with well-formed histories, \<open>initiateBackup()\<close> comes to an end, whatever is found
  and whichever policies have changed, never follows a history that is \<open>NULL\<close>, and leaves all
  histories well-formed: those of tracked paths never hold two removals in a row and begin with a
  path that exists, all others have one point, in which the path exists. The system only has to
  refuse paths of \<open>PATH_MAX\<close> bytes, and to report block sizes other than 0.
\<close>

theorem initiateBackup_safe:
  assumes "paths_limited sys" and "blocks_positive sys" and "forest_ok (paths md)"
  shows "\<exists>enough. \<forall>fuel \<ge> enough. never {Null_pointer, Endless_recursion}
    (\<lambda>(md', marks). forest_ok (paths md')) (initiateBackup fuel sys md tree)"
proof (cases "searchNew sys tree")
  case (Inl e)
  then have "e \<notin> broken"
    by (auto simp: searchNew_def recursionStepRaw_def sDirOpen_def size_mul_def bindE_eq_Inl Let_def
        split: if_splits option.splits)
  with Inl show ?thesis by (simp add: initiateBackup_def)
next
  case (Inr it)
  then have "\<exists>n. (\<exists>evs it'. runSearch n sys it = Inr (evs @ [End_of_search], it')) \<or>
      (\<exists>e. e \<noteq> Endless_recursion \<and> runSearch n sys it = Inl e)"
    using search_returns [OF assms(1), of tree] by simp
  then obtain n where "runSearch n sys it \<noteq> Inl Endless_recursion" by fastforce
  then have "left n sys it" by (cases "runSearch n sys it") (auto simp: left_def)
  note R = recursion_safe(2) [OF assms(2) this _ assms(3), of _ End_of_search]
  show ?thesis
  proof (intro exI [of _ "2 * n + 1"] allI impI)
    fix fuel assume "2 * n + 1 \<le> fuel"
    note R = R [OF this, of md]
    show "never broken (\<lambda>(md', marks). forest_ok (paths md')) (initiateBackup fuel sys md tree)"
      using Inr
      by (auto simp: initiateBackup_def intro!: never_bind [OF R] never_bind [OF not_found_ok])
  qed
qed

theorem initiateBackup_safe_witness:
  "\<exists>fuel. never {Null_pointer, Endless_recursion} (\<lambda>(md', marks). forest_ok (paths md'))
     (initiateBackup fuel example_os example_old example_tree)"
proof -
  have "os_stat example_os path = None" "os_lstat example_os path = Lstat_ok stats \<Longrightarrow> st_blksize stats = 4096" for path stats
    by (auto simp: example_os_def example_stat_def split: if_splits)
  then have "blocks_positive example_os" by (auto simp: blocks_positive_def)
  moreover have "forest_ok (paths example_old)"
    by (simp add: example_old_def old_point_def example_file_def history_ok_single)
  ultimately obtain enough where "\<forall>fuel \<ge> enough. never {Null_pointer, Endless_recursion}
      (\<lambda>(md', marks). forest_ok (paths md')) (initiateBackup fuel example_os example_old example_tree)"
    using initiateBackup_safe [OF example_paths_limited] by blast
  then show ?thesis by blast
qed

end
