(* ===== verification/Stored_Files.thy ===== *)
theory Stored_Files
  imports Metadata_Roundtrip Repo_Writer String_Table
begin

text \<open>
  The files that the metadata refers to: what \<open>src/garbage-collector.c\<close> and \<open>src/integrity.c\<close> look at
  when they go through all history points of all nodes.
\<close>

text \<open>All nodes of a forest, in the order in which the recursions reach them.\<close>

fun flatten :: "path_node list \<Rightarrow> path_node list" where
  "flatten [] = []"
| "flatten (PathNode path h pol hist subs # nodes) =
     PathNode path h pol hist subs # flatten subs @ flatten nodes"

text \<open>The file of a history point, unless its contents are kept in the metadata.\<close>

definition stored_info :: "path_history \<Rightarrow> file_info option" where
  "stored_info point =
     (case state point of
        PST_regular_file _ _ info \<Rightarrow> if unat (file_size info) > FILE_HASH_SIZE then Some info else None
      | _ \<Rightarrow> None)"

definition stored_infos :: "path_history list \<Rightarrow> file_info list" where
  "stored_infos hist = List.map_filter stored_info hist"

lemma stored_infos_simps [simp]:
  "stored_infos [] = []"
  "stored_infos (point # hist) =
     (case stored_info point of None \<Rightarrow> stored_infos hist | Some info \<Rightarrow> info # stored_infos hist)"
  by (simp_all add: stored_infos_def List.map_filter_def split: option.split)

definition hashes_ok :: "path_history list \<Rightarrow> bool" where
  "hashes_ok hist \<longleftrightarrow> list_all (\<lambda>info. length (file_hash info) = FILE_HASH_SIZE) (stored_infos hist)"

lemma hashes_ok_simps [simp]:
  "hashes_ok []"
  "hashes_ok (point # hist) \<longleftrightarrow>
     (case stored_info point of None \<Rightarrow> True | Some info \<Rightarrow> length (file_hash info) = FILE_HASH_SIZE) \<and> hashes_ok hist"
  by (auto simp: hashes_ok_def split: option.split)

lemma path_state_ok_hashes: "list_all (\<lambda>p. path_state_ok (state p)) hist \<Longrightarrow> hashes_ok hist"
  by (induction hist)
    (auto simp: stored_info_def path_state_ok_def file_info_ok_def min_def split: path_state.splits if_splits)

text \<open>The path that is looked up for a stored file, relative to the repository.\<close>

lemma unique_path:
  assumes "length (file_hash info) = FILE_HASH_SIZE"
  shows "\<exists>b. repoBuildRegularFilePath garbage buffer info = Inr b \<and> c_string b = stored_path info"
  using built_path [OF assms] by (simp add: c_string_def)

text \<open>What is stored under the path of a file in a table, copied as the key and added if it is missing.\<close>

definition internal_errors :: "nb_error set" where
  "internal_errors = {Buffer_overrun, Endless_recursion, Null_pointer} \<union> range Remove_failed"

lemma strCopy_key: "never internal_errors (\<lambda>v. view v = c_string b) (strCopy avail (str b) a)"
proof -
  have "strlen b \<le> length b" by (simp add: strlen_def length_takeWhile_le)
  then show ?thesis
    by (auto simp: never_def strCopy_def strCopyRaw_def allocate_def size_add_def c_string_def internal_errors_def
        str_def view_def bindE_def split: sum.splits allocator.splits)
qed

lemma memory_errors:
  "allocate avail a n = Inl e \<Longrightarrow> e \<notin> internal_errors"
  "size_mul m n = Inl e \<Longrightarrow> e \<notin> internal_errors"
  by (auto simp: internal_errors_def allocate_def size_mul_def Let_def split: if_splits allocator.splits)

lemma strTableMap_key:
  assumes "table_ok siphash t" "strTableGet siphash t k = None"
  shows "never internal_errors
    (\<lambda>t'. table_ok siphash t' \<and> strTableGet siphash t' = (strTableGet siphash t)(k \<mapsto> v)) (strTableMap avail siphash k v t)"
proof (cases "strTableMap avail siphash k v t")
  case (Inl e)
  then have "doubleTableCapacity avail t = Inl e \<or> allocate avail ALT_region sizeof_Bucket = Inl e"
    by (auto simp: strTableMap_def bindE_eq_Inl Let_def split: if_splits)
  then have "e \<notin> internal_errors"
    by (auto simp: doubleTableCapacity_def bindE_eq_Inl Let_def dest!: memory_errors)
  with Inl show ?thesis by simp
qed (use strTableMap_ok [OF assms] in simp)

lemma strTableNew_empty: "never internal_errors (\<lambda>t. t = emptyTable rands) (strTableNew avail rands)"
  by (auto simp: never_def strTableNew_def bindE_eq_Inl bindE_eq_Inr Let_def dest!: memory_errors split: sum.splits)

end
