(* ===== verification/Backup_Policies.thy ===== *)
theory Backup_Policies
  imports Backup_Safety Stored_Files
begin

text \<open>
  Two changes of policy that \<open>src/backup.c\<close> does not handle as it means to: a node that is wiped
  because its parent lost its history and that is found again afterwards, and a file that is found
  as a directory under the policy \<open>none\<close>.
\<close>

section \<open>Found after being wiped\<close>

text \<open>Trees without a node that is part of the repository: they account for nothing, and wiping them changes nothing.\<close>

definition wiped :: "path_node list \<Rightarrow> bool" where
  "wiped ns \<longleftrightarrow> list_all (\<lambda>n. \<not> live (node_hint n)) (flatten ns)"

lemma wiped_simps [simp]:
  "wiped []"
  "wiped (PathNode path h pol hist subs # ns) \<longleftrightarrow> \<not> live h \<and> wiped subs \<and> wiped ns"
  by (auto simp: wiped_def)

lemma wiped_node: "n \<in> set ns \<Longrightarrow> wiped ns \<Longrightarrow> wiped [n]"
proof (induction ns)
  case (Cons m ns)
  then show ?case by (cases m) auto
qed simp

lemma wiped_usage: "wiped ns \<Longrightarrow> nodes_usage ns = {#}"
  by (induction ns rule: flatten.induct) (simp_all add: head_usage_def)

lemma wiped_again:
  "wiped [n] \<Longrightarrow> prepareNodeForWipingRecursively md n = (md, n)"
  "wiped ns \<Longrightarrow> wipeNodes md ns = (md, ns)"
proof (induction md n and md ns rule: prepareNodeForWipingRecursively_wipeNodes.induct)
  case (3 md n ns)
  then show ?case by (cases n) (simp add: prepareNodeForWiping_def)
qed (simp_all add: prepareNodeForWiping_def live_def)

lemma wiping_wipes:
  "prepareNodeForWipingRecursively md n = (md', n') \<Longrightarrow> wiped [n']"
  "wipeNodes md ns = (md', ns') \<Longrightarrow> wiped ns'"
proof (induction md n and md ns arbitrary: md' n' and md' ns' rule: prepareNodeForWipingRecursively_wipeNodes.induct)
  case (1 md path h pol hist subs)
  then show ?case
    by (auto simp: prepareNodeForWiping_def live_def split: prod.splits if_splits)
next
  case (3 md n ns)
  obtain md1 n1 where P: "prepareNodeForWipingRecursively md n = (md1, n1)" by fastforce
  obtain md2 ns2 where W: "wipeNodes md1 ns = (md2, ns2)" by fastforce
  have "wiped [n1]" "wiped ns2" using 3 P W by simp_all
  then show ?case using 3(3) P W by (cases n1) auto
qed simp

text \<open>A tracked path that was no directory wipes what is below it when it loses its history.\<close>

lemma replaced_path_wipes:
  assumes "handleFoundNode sys md (PathNode path h BPOL_track (point # older) subs) result = Inr (md', parent)"
    and "sr_policy result \<noteq> BPOL_track" "state point \<noteq> PST_non_existing" "\<not> is_dir_state (state point)"
  shows "wiped (node_subnodes parent)"
proof -
  have W: "wiped (snd (wipeNodes m subs))" for m using wiping_wipes(2) [of m subs] by (cases "wipeNodes m subs") simp
  from assms show ?thesis
    by (auto simp: handleFoundNode_policy_first handlePolicyChanges_def loseHistory_def bindE_eq_Inr Let_def found_step_def
        split: prod.splits if_splits) (use W in \<open>metis snd_conv\<close>)+
qed

definition same_type :: "path_state \<Rightarrow> file_type \<Rightarrow> bool" where
  "same_type st t \<longleftrightarrow> (case st of
     PST_non_existing \<Rightarrow> True
   | PST_regular_file _ _ _ \<Rightarrow> t = Regular_file
   | PST_symlink _ _ _ \<Rightarrow> t = Symlink_file
   | PST_directory _ _ _ \<Rightarrow> t = Directory_file)"

lemma same_type_hint: "same_type st t \<Longrightarrow> handleFiletypeChanges st t h = h"
  by (auto simp: same_type_def handleFiletypeChanges_def split: path_state.splits)

lemma old_points_kept:
  "list_all (\<lambda>p. point_backup p \<noteq> Current) ps \<Longrightarrow> current_backup (decrementRefCounts md ps) = current_backup md"
proof (induction ps arbitrary: md)
  case (Cons p ps)
  then show ?case by (cases "point_backup p") (simp_all add: decrement_ref_def)
qed simp

text \<open>The policy of a wiped node changes neither what it accounts for nor the current backup.\<close>

lemma wiped_policy:
  assumes "handlePolicyChanges md n policy = Inr (md1, n1)" "wiped [n]" "list_all P (node_history n)"
    and "\<And>p. P p \<Longrightarrow> point_backup p \<noteq> Current"
  shows "wiped [n1]" "current_backup md1 = current_backup md" "list_all P (node_history n1)"
    "policy = BPOL_track \<Longrightarrow> node_history n1 = node_history n"
proof -
  obtain path h pol hist subs where n: "n = PathNode path h pol hist subs" by (cases n)
  have old: "list_all P ps \<Longrightarrow> current_backup (decrementRefCounts m ps) = current_backup m" for ps m
    using old_points_kept [of ps m] assms(4) by (simp add: list_all_iff)
  have one: "P p \<Longrightarrow> current_backup (decrement_ref m (point_backup p)) = current_backup m" for p m
    using old [of "[p]" m] by simp
  have "wiped [n1] \<and> current_backup md1 = current_backup md \<and> list_all P (node_history n1) \<and>
      (policy = BPOL_track \<longrightarrow> node_history n1 = node_history n)"
    using assms(1-3) unfolding n
    by (auto simp: handlePolicyChanges_def loseHistory_def bindE_eq_Inr Let_def live_def wiped_again old one
        split: list.splits if_splits prod.splits)
  then show "wiped [n1]" "current_backup md1 = current_backup md" "list_all P (node_history n1)"
    "policy = BPOL_track \<Longrightarrow> node_history n1 = node_history n" by blast+
qed

lemma wiped_step:
  assumes "found_step sys result md path h pol point older subs = Inr (md', node)" "\<not> live h"
    and "point_backup point \<noteq> Current" "same_type (state point) (st_type (sr_stats result))"
    and "sr_policy result = BPOL_track \<longrightarrow> state point \<noteq> PST_non_existing"
  shows "\<not> live (node_hint node) \<and> node_subnodes node = subs \<and>
    ref_count (current_backup md') = ref_count (current_backup md) + 1"
proof -
  have h: "backupHintNoPol h = BH_not_part_of_repository" using assms(2) by (simp add: live_def)
  have hint: "handleNodeChanges sys path result (h, state point) = Inr (h', st) \<Longrightarrow> h' = h" for h' st
    using h same_type_hint [OF assms(4)]
    by (auto simp: handleNodeChanges_def Let_def bindE_eq_Inr BH_defs split: if_splits)
  have changed: "backupHintNoPol h \<noteq> BH_none" using h by (simp add: BH_defs)
  have added: "increment_current m = Inr m' \<Longrightarrow> ref_count (current_backup m') = ref_count (current_backup m) + 1" for m m'
    by (auto simp: increment_current_def increment_ref_def sSizeAdd_def bindE_eq_Inr split: if_splits)
  have old: "current_backup (decrement_ref m (point_backup point)) = current_backup m" for m
    using old_points_kept [of "[point]" m] assms(3) by simp
  from assms(1,5) show ?thesis
    by (auto simp: found_step_def bindE_eq_Inr Let_def reassignPointToCurrent_def changed assms(2) old
        split: if_splits dest!: hint added)
qed

text \<open>
  C37: a tracked path that was recorded as a file and is found under another policy loses its history,
  and everything below it is wiped from the repository. A node below it that is found again
  in the same backup, with its recorded type, stays wiped: it is not written, although it was found.
  The counters are not exact afterwards, if they were before: the node accounts for
  nothing, but the current backup has got one more reference.
\<close>

theorem wiped_node_found_again:
  assumes "handleFoundNode sys md0 (PathNode dir h0 BPOL_track (point # older) subs) result0 = Inr (md1, parent)"
    and "sr_policy result0 \<noteq> BPOL_track" and "state point \<noteq> PST_non_existing" and "\<not> is_dir_state (state point)"
    and "n \<in> set (node_subnodes parent)"
    and "handleFoundNode sys md n result = Inr (md', node)" and "exact md U"
    and "sr_policy result = BPOL_track \<longrightarrow> state (hd (node_history n)) \<noteq> PST_non_existing"
    and "list_all (\<lambda>p. point_backup p \<noteq> Current \<and> same_type (state p) (st_type (sr_stats result))) (node_history n)"
  shows "\<not> is_part_of_repository node \<and> node_usage node = {#} \<and>
    ref_count (current_backup md') = ref_count (current_backup md) + 1 \<and> \<not> exact md' (node_usage node + U)"
proof -
  have n: "wiped [n]" using wiped_node [OF assms(5)] replaced_path_wipes [OF assms(1-4)] .
  from assms(6) obtain md2 n1 where P: "handlePolicyChanges md n (sr_policy result) = Inr (md2, n1)"
    and F: "(case node_history n1 of [] \<Rightarrow> Inl Null_pointer | point # older \<Rightarrow>
        found_step sys result md2 (node_path n1) (node_hint n1) (node_policy n1) point older (node_subnodes n1)) = Inr (md', node)"
    by (auto simp: handleFoundNode_policy_first bindE_eq_Inr)
  from F obtain p ps where hist: "node_history n1 = p # ps" by (cases "node_history n1") auto
  note W = wiped_policy [OF P n assms(9)]
  have n1: "\<not> live (node_hint n1)" "wiped (node_subnodes n1)" "current_backup md2 = current_backup md"
    "point_backup p \<noteq> Current" "same_type (state p) (st_type (sr_stats result))"
    "sr_policy result = BPOL_track \<longrightarrow> state p \<noteq> PST_non_existing"
    using W hist assms(8) by (cases n1; force)+
  from F hist n1 have S: "\<not> live (node_hint node)" "node_subnodes node = node_subnodes n1"
      "ref_count (current_backup md') = ref_count (current_backup md) + 1"
    using wiped_step [of sys result md2 "node_path n1" "node_hint n1" "node_policy n1" p ps "node_subnodes n1" md' node]
    by simp_all
  have usage: "node_usage node = {#}" using S(1,2) wiped_usage [OF n1(2)] by (cases node) (simp add: head_usage_def)
  have "ref_count (current_backup md) + 1 \<noteq> ref_count (current_backup md)" by simp
  then have "unat (ref_count (current_backup md) + 1) \<noteq> unat (ref_count (current_backup md))"
    by (simp only: word_unat_eq_iff not_False_eq_True)
  then have "\<not> exact md' U" using assms(7) S(3) unfolding exact_iff by metis
  with S usage show ?thesis by (simp add: is_part_of_repository_def live_def)
qed

text \<open>
  \<open>/a\<close> was a directory with the file \<open>/a/f\<close> in the older backup and a regular file in the newer one,
  both tracked. Now \<open>/a\<close> is a directory with \<open>/a/f\<close> again, and its policy is \<open>copy\<close>.
\<close>

definition example_replaced :: metadata where
  "example_replaced = \<lparr>current_backup = \<lparr>backup_id = 0, completion_time = 0, ref_count = 0\<rparr>,
     backup_history = [\<lparr>backup_id = 0, completion_time = 0, ref_count = 2\<rparr>, \<lparr>backup_id = 1, completion_time = 0, ref_count = 2\<rparr>],
     config_history = [], total_path_count = 2, path_table = [''/a'', ''/a/f''],
     paths = [PathNode ''/a'' BH_none BPOL_track
       [\<lparr>point_backup = Hist 0, state = example_file\<rparr>,
        \<lparr>point_backup = Hist 1, state = PST_directory 0 0 \<lparr>dir_permission_bits = 0, dir_modification_time = 0\<rparr>\<rparr>]
       [PathNode ''/a/f'' BH_none BPOL_track
         [\<lparr>point_backup = Hist 0, state = PST_non_existing\<rparr>, \<lparr>point_backup = Hist 1, state = example_file\<rparr>] []]]\<rparr>"

lemma example_replaced_exact: "exact example_replaced (nodes_usage (paths example_replaced))"
  by (simp add: exact_iff example_replaced_def head_usage_def less_2_cases_iff all_conj_distrib)

text \<open>A whole backup of this kind succeeds, loses the file, and has counters that wrap around.\<close>

lemma example_replaced_backup:
  "exact example_replaced (nodes_usage (paths example_replaced)) \<and> forest_ok (paths example_replaced) \<and>
   (\<exists>fuel md' marks. initiateBackup fuel example_os example_replaced example_tree = Inr (md', marks) \<and>
     map (map is_part_of_repository \<circ> node_subnodes) (paths md') = [[False]] \<and>
     map ref_count (backup_history md') = [-1, -1] \<and> ref_count (current_backup md') = 2 \<and>
     \<not> exact md' (nodes_usage (paths md')))"
proof (intro conjI)
  have twice: "sSizeAdd 1 1 = Inr 2" by (simp add: sSizeAdd_def)
  show "exact example_replaced (nodes_usage (paths example_replaced))" by (rule example_replaced_exact)
  show "forest_ok (paths example_replaced)"
    by (simp add: example_replaced_def example_file_def history_ok_def)
  show "\<exists>fuel md' marks. initiateBackup fuel example_os example_replaced example_tree = Inr (md', marks) \<and>
     map (map is_part_of_repository \<circ> node_subnodes) (paths md') = [[False]] \<and>
     map ref_count (backup_history md') = [-1, -1] \<and> ref_count (current_backup md') = 2 \<and>
     \<not> exact md' (nodes_usage (paths md'))"
    by (rule exI [of _ "Suc (Suc (Suc (Suc (Suc (Suc (Suc (Suc 0)))))))"])
      (simp add: initiate_evaluation example_calls example_stat_def example_tree_def root_node_def example_replaced_def
        example_file_def prepareNodeForWiping_def decrement_ref_def reassignPointToCurrent_def
        is_part_of_repository_def exact_iff head_usage_def live_def twice cong: bindE_weak_cong)
qed

definition found_copy :: "string \<Rightarrow> file_type \<Rightarrow> search_result" where
  "found_copy path t = \<lparr>sr_path = path, sr_node = None, sr_policy = BPOL_copy, sr_stats = example_stat t\<rparr>"

theorem wiped_node_found_again_witness:
  "\<exists>md0 n0 md1 parent md' node. paths md0 = [n0] \<and>
     handleFoundNode example_os md0 n0 (found_copy ''/a'' Directory_file) = Inr (md1, parent) \<and>
     handleFoundNode example_os md1 (hd (node_subnodes parent)) (found_copy ''/a/f'' Regular_file) = Inr (md', node) \<and>
     node_path node = ''/a/f'' \<and> \<not> is_part_of_repository node"
proof -
  let ?point = "\<lparr>point_backup = Hist 0, state = example_file\<rparr>"
  let ?older = "[\<lparr>point_backup = Hist 1, state = PST_directory 0 0 \<lparr>dir_permission_bits = 0, dir_modification_time = 0\<rparr>\<rparr>]"
  let ?subs = "[PathNode ''/a/f'' BH_none BPOL_track
       [\<lparr>point_backup = Hist 0, state = PST_non_existing\<rparr>, \<lparr>point_backup = Hist 1, state = example_file\<rparr>] []]"
  have p: "paths example_replaced = [PathNode ''/a'' BH_none BPOL_track (?point # ?older) ?subs]"
    by (simp add: example_replaced_def)
  have "\<exists>md1 parent n md' node.
      handleFoundNode example_os example_replaced (PathNode ''/a'' BH_none BPOL_track (?point # ?older) ?subs)
        (found_copy ''/a'' Directory_file) = Inr (md1, parent) \<and> node_subnodes parent = [n] \<and>
      node_history n = [\<lparr>point_backup = Hist 0, state = PST_non_existing\<rparr>, \<lparr>point_backup = Hist 1, state = example_file\<rparr>] \<and>
      handleFoundNode example_os md1 n (found_copy ''/a/f'' Regular_file) = Inr (md', node) \<and> node_path node = ''/a/f''"
    by (simp add: initiate_evaluation example_calls example_stat_def example_replaced_def found_copy_def
        example_file_def prepareNodeForWiping_def decrement_ref_def reassignPointToCurrent_def sSizeAdd_def
        cong: bindE_weak_cong)
  then obtain md1 parent n md' node where
      R: "handleFoundNode example_os example_replaced (PathNode ''/a'' BH_none BPOL_track (?point # ?older) ?subs)
        (found_copy ''/a'' Directory_file) = Inr (md1, parent)" "node_subnodes parent = [n]"
      "node_history n = [\<lparr>point_backup = Hist 0, state = PST_non_existing\<rparr>, \<lparr>point_backup = Hist 1, state = example_file\<rparr>]"
      "handleFoundNode example_os md1 n (found_copy ''/a/f'' Regular_file) = Inr (md', node)" "node_path node = ''/a/f''"
    by (elim exE conjE)
  have "exact md1 (node_usage parent + {#})"
    using exact_found [OF R(1), of "{#}"] example_replaced_exact p by (simp add: live_def backupHintNoPol_def BH_defs)
  with wiped_node_found_again [OF R(1) _ _ _ _ R(4)] R(2,3)
  have "\<not> is_part_of_repository node"
    by (simp add: found_copy_def example_file_def is_dir_state_def same_type_def example_stat_def)
  with p R show ?thesis by (metis list.sel(1))
qed

section \<open>The policy none\<close>

text \<open>
  C38: a path that has been backed up as a regular file or a symlink and is now found as a directory
  without a policy, because only something in it has one, keeps its old state: the metadata
  say of the current backup that it is a file with the old contents, although its node may have subnodes now.
\<close>

theorem none_keeps_file_state:
  assumes "handleFoundNode sys md (PathNode path BH_none pol [point] subs) result = Inr (md', node)"
    and "sr_policy result = BPOL_none" and "st_type (sr_stats result) = Directory_file"
    and "state point \<noteq> PST_non_existing" and "\<not> is_dir_state (state point)" and "pol \<noteq> BPOL_track"
  shows "\<exists>h. node = PathNode path h BPOL_none [\<lparr>point_backup = Current, state = state point\<rparr>] subs \<and> live h"
proof -
  obtain h1 where P: "handlePolicyChanges md (PathNode path BH_none pol [point] subs) BPOL_none =
      Inr (md, PathNode path h1 BPOL_none [point] subs)" "backupHintNoPol h1 = BH_none"
  proof (cases "pol = BPOL_none")
    case True
    show ?thesis by (rule that [of BH_none]) (simp_all add: handlePolicyChanges_def True backupHintNoPol_def BH_none_def)
  next
    case False
    show ?thesis
      by (rule that [of "backupHintSet BH_none BH_policy_changed"])
        (use False assms(6) in \<open>simp_all add: handlePolicyChanges_def\<close>, simp add: backupHintNoPol_def BH_none_def)
  qed
  have F: "backupHintNoPol (handleFiletypeChanges (state point) Directory_file h1) \<noteq> BH_none"
    "live (handleFiletypeChanges (state point) Directory_file h1)"
    using assms(4,5) by (auto simp: handleFiletypeChanges_def is_dir_state_def live_def split: path_state.splits)
      (simp_all add: BH_defs)
  from assms(1) P F show ?thesis
    by (auto simp: handleFoundNode_def handleNodeChanges_def Let_def assms(2,3) reassignPointToCurrent_def bindE_eq_Inr)
qed

definition example_found :: search_result where
  "example_found = \<lparr>sr_path = ''/a'', sr_node = None, sr_policy = BPOL_none, sr_stats = example_stat Directory_file\<rparr>"

theorem none_keeps_file_state_witness:
  "\<exists>md' h. handleFoundNode example_os example_old
     (PathNode ''/a'' BH_none BPOL_copy [old_point example_file] []) example_found =
       Inr (md', PathNode ''/a'' h BPOL_none [\<lparr>point_backup = Current, state = example_file\<rparr>] [])"
proof -
  have "\<exists>md' node. handleFoundNode example_os example_old
     (PathNode ''/a'' BH_none BPOL_copy [old_point example_file] []) example_found = Inr (md', node)"
    by (simp add: handleFoundNode_def handlePolicyChanges_def handleNodeChanges_def handleFiletypeChanges_def
        example_found_def example_stat_def example_file_def old_point_def reassignPointToCurrent_def
        increment_current_def increment_ref_def decrement_ref_def example_old_def sSizeAdd_def
        backupHintSet_def backupHintNoPol_def BH_defs)
  then obtain md' node where R: "handleFoundNode example_os example_old
     (PathNode ''/a'' BH_none BPOL_copy [old_point example_file] []) example_found = Inr (md', node)"
    by (elim exE)
  have "state (old_point example_file) = example_file" by (simp add: old_point_def)
  with none_keeps_file_state [OF R] R show ?thesis
    by (auto simp: example_found_def example_stat_def example_file_def is_dir_state_def)
qed

end
