(* ===== verification/Backup_Finish.thy ===== *)
theory Backup_Finish
  imports Backup_Initiate Repo_Writer Stored_Files
begin

text \<open>
  The second half of a backup: \<open>finishBackup()\<close> of \<open>src/backup.c\<close>, which stores the contents of new
  and changed files. The files of the user are those of \<open>os\<close>, the repository is a disk that the
  operations of the repository writer change. The pair \<open>buf\<close> holds what the static path buffer of
  \<open>src/repository.c\<close> contains.
\<close>

section \<open>Copying and comparing\<close>

function copyBlocks :: "nat \<Rightarrow> nat \<Rightarrow> file_stream \<Rightarrow> repo_writer \<Rightarrow> disk \<Rightarrow> (file_stream \<times> disk) result" where
  "copyBlocks blocksize bytes_left reader writer d =
     (if bytes_left > 0 then
        if blocksize = 0 then Inl Endless_recursion
        else
          let bytes_to_read = (if bytes_left > blocksize then blocksize else bytes_left)
          in bindE (sFread bytes_to_read reader) (\<lambda>(io_buffer, reader).
               copyBlocks blocksize (bytes_left - bytes_to_read) reader writer
                 (apply_ops (repoWriterWrite io_buffer writer) d))
      else Inr (reader, d))"
  by pat_completeness auto
termination by (relation "measure (\<lambda>(blocksize, bytes_left, reader, writer, d). bytes_left)") auto

declare copyBlocks.simps [simp del]

definition copyFileIntoRepo ::
  "os \<Rightarrow> string \<times> string \<Rightarrow> string \<Rightarrow> string \<Rightarrow> string \<Rightarrow> file_info \<Rightarrow> file_stat \<Rightarrow> disk \<Rightarrow> disk result" where
  "copyFileIntoRepo sys buf repo tmp path info stats d =
     bindE (sFopenRead sys path) (\<lambda>reader.
       case repoWriterOpenFile repo tmp path info of (writer, ops) \<Rightarrow>
         bindE (copyBlocks (unat (st_blksize stats)) (unat (file_size info)) reader writer (apply_ops ops d))
           (\<lambda>(reader, d).
             if sFbytesLeft reader then Inl (File_changed path)
             else bindE (repoWriterClose (fst buf) (snd buf) writer d) (\<lambda>ops. Inr (apply_ops ops d))))"

text \<open>The loop of \<open>equalsToStoredFile()\<close>: whether all blocks were equal, and the bytes that were left.\<close>

function compareBlocks ::
  "nat \<Rightarrow> nat \<Rightarrow> file_stream \<Rightarrow> repo_reader \<Rightarrow> (bool \<times> nat \<times> file_stream) result" where
  "compareBlocks blocksize bytes_left stream repo_stream =
     (if bytes_left > 0 then
        if blocksize = 0 then Inl Endless_recursion
        else
          let bytes_to_read = (if bytes_left > blocksize then blocksize else bytes_left)
          in bindE (sFread bytes_to_read stream) (\<lambda>(io_buffer, stream).
             bindE (repoReaderRead bytes_to_read repo_stream) (\<lambda>(repo_buffer, repo_stream).
               if io_buffer = repo_buffer
               then compareBlocks blocksize (bytes_left - bytes_to_read) stream repo_stream
               else Inr (False, bytes_left - bytes_to_read, stream)))
      else Inr (True, bytes_left, stream))"
  by pat_completeness auto
termination by (relation "measure (\<lambda>(blocksize, bytes_left, stream, repo_stream). bytes_left)") auto

declare compareBlocks.simps [simp del]

definition equalsToStoredFile ::
  "os \<Rightarrow> string \<times> string \<Rightarrow> string \<Rightarrow> string \<Rightarrow> file_info \<Rightarrow> file_stat \<Rightarrow> disk \<Rightarrow> bool result" where
  "equalsToStoredFile sys buf repo path info stats d =
     bindE (sFopenRead sys path) (\<lambda>stream.
     bindE (size_mul (unat (st_blksize stats)) 2) (\<lambda>_.
     bindE (repoReaderOpenFile (fst buf) (snd buf) repo path info d) (\<lambda>repo_stream.
     bindE (compareBlocks (unat (st_blksize stats)) (unat (file_size info)) stream repo_stream)
       (\<lambda>(files_equal, bytes_left, stream).
         if bytes_left = 0 \<and> sFbytesLeft stream then Inl (File_changed path) else Inr files_equal))))"

section \<open>Slots\<close>

lemma slot_increases: "s \<noteq> - 1 \<Longrightarrow> unat (s + 1) = Suc (unat s)" for s :: u8
  using unatSuc [of s] by (simp add: add.commute eq_neg_iff_add_eq_0)

lemma slot_below: "s \<noteq> - 1 \<Longrightarrow> unat s < 255" for s :: u8
proof -
  assume "s \<noteq> - 1"
  moreover have max: "unat (- 1 :: u8) = 255" by (simp add: unsigned_minus_1_eq_mask mask_eq_exp_minus_1)
  ultimately have "unat s \<noteq> 255" by (metis word_unat_eq_iff)
  moreover have "unat s < 256" using unsigned_less [of s, where ?'a = nat] by simp
  ultimately show ?thesis by simp
qed

function searchFromSlot ::
  "os \<Rightarrow> string \<times> string \<Rightarrow> string \<Rightarrow> string \<Rightarrow> file_stat \<Rightarrow> disk \<Rightarrow> file_info \<Rightarrow> (bool \<times> file_info) result" where
  "searchFromSlot sys buf repo path stats d info =
     bindE (repoRegularFileExists (fst buf) (snd buf) repo info d) (\<lambda>exists.
       if \<not> exists then Inr (False, info)
       else bindE (equalsToStoredFile sys buf repo path info stats d) (\<lambda>equal.
         if equal then Inr (True, info)
         else if slot info = - 1 then Inl Slot_overflow
         else searchFromSlot sys buf repo path stats d (info\<lparr>slot := slot info + 1\<rparr>)))"
  by pat_completeness auto

termination
  by (relation "measure (\<lambda>(sys, buf, repo, path, stats, d, info). 255 - unat (slot info))")
    (auto simp: slot_increases dest: slot_below)

declare searchFromSlot.simps [simp del]

definition searchFileDuplicates ::
  "os \<Rightarrow> string \<times> string \<Rightarrow> string \<Rightarrow> string \<Rightarrow> file_stat \<Rightarrow> disk \<Rightarrow> file_info \<Rightarrow> (bool \<times> file_info) result" where
  "searchFileDuplicates sys buf repo path stats d info =
     searchFromSlot sys buf repo path stats d (info\<lparr>slot := 0\<rparr>)"

section \<open>Files and trees\<close>

text \<open>The file info is the one of the node's newest point; the hash keeps the bytes of a small file.\<close>

definition addFileToRepo ::
  "os \<Rightarrow> string \<times> string \<Rightarrow> string \<Rightarrow> string \<Rightarrow> string \<Rightarrow> hint \<Rightarrow> file_info \<Rightarrow> disk \<Rightarrow> (file_info \<times> disk) result" where
  "addFileToRepo sys buf repo tmp path h info d =
     bindE (sStat sys path) (\<lambda>stats.
       if modification_time info \<noteq> st_mtime stats then Inl (File_changed path)
       else if unat (file_size info) > FILE_HASH_SIZE then
         bindE (if hint_has h BH_fresh_hash then Inr info
                else bindE (fileHash sys path stats) (\<lambda>hash. Inr (info\<lparr>file_hash := hash\<rparr>))) (\<lambda>info.
         bindE (searchFileDuplicates sys buf repo path stats d info) (\<lambda>(found, info).
           if found then Inr (info, d)
           else bindE (copyFileIntoRepo sys buf repo tmp path info stats d) (\<lambda>d. Inr (info, d))))
       else if \<not> hint_has h BH_fresh_hash then
         bindE (sFopenRead sys path) (\<lambda>stream.
         bindE (sFread (unat (file_size info)) stream) (\<lambda>(bytes, stream).
           if sFbytesLeft stream then Inl (File_changed path)
           else Inr (info\<lparr>file_hash := map byte_of_char bytes\<rparr>, d)))
       else Inr (info, d))"

definition needs_adding :: "hint \<Rightarrow> file_info \<Rightarrow> bool" where
  "needs_adding h info \<longleftrightarrow> file_size info > 0 \<and>
     (backupHintNoPol h = BH_added \<or> backupHintNoPol h = BH_symlink_to_regular \<or>
      backupHintNoPol h = BH_directory_to_regular \<or> hint_has h BH_content_changed)"

definition storeNewFile ::
  "os \<Rightarrow> string \<times> string \<Rightarrow> string \<Rightarrow> string \<Rightarrow> string \<Rightarrow> hint \<Rightarrow> path_history list \<Rightarrow> disk \<Rightarrow>
   (path_history list \<times> disk) result" where
  "storeNewFile sys buf repo tmp path h hist d =
     (case hist of
        [] \<Rightarrow> Inl Null_pointer
      | point # older \<Rightarrow>
          (case state point of
             PST_regular_file uid gid info \<Rightarrow>
               if needs_adding h info then
                 bindE (addFileToRepo sys buf repo tmp path h info d) (\<lambda>(info, d).
                   Inr (point\<lparr>state := PST_regular_file uid gid info\<rparr> # older, d))
               else Inr (hist, d)
           | _ \<Rightarrow> Inr (hist, d)))"

fun finishBackupRecursively ::
  "os \<Rightarrow> string \<times> string \<Rightarrow> string \<Rightarrow> string \<Rightarrow> path_node list \<Rightarrow> disk \<Rightarrow> (path_node list \<times> disk) result" where
  "finishBackupRecursively sys buf repo tmp [] d = Inr ([], d)"
| "finishBackupRecursively sys buf repo tmp (PathNode path h pol hist subs # nodes) d =
     bindE (storeNewFile sys buf repo tmp path h hist d) (\<lambda>(hist, d).
     bindE (finishBackupRecursively sys buf repo tmp subs d) (\<lambda>(subs, d).
     bindE (finishBackupRecursively sys buf repo tmp nodes d) (\<lambda>(nodes, d).
       Inr (PathNode path h pol hist subs # nodes, d))))"

definition finishBackup ::
  "os \<Rightarrow> string \<times> string \<Rightarrow> string \<Rightarrow> string \<Rightarrow> u64 \<Rightarrow> metadata \<Rightarrow> disk \<Rightarrow> (metadata \<times> disk) result" where
  "finishBackup sys buf repo tmp current_time md d =
     bindE (finishBackupRecursively sys buf repo tmp (paths md) d) (\<lambda>(nodes, d).
       Inr (md\<lparr>paths := nodes, current_backup := (current_backup md)\<lparr>completion_time := current_time\<rparr>\<rparr>, d))"

section \<open>What the loops do\<close>

lemma copyBlocks_ok:
  assumes "0 < blocksize" "n \<le> length (fs_rest reader)"
  shows "\<exists>chunks. copyBlocks blocksize n reader w d =
      Inr (reader\<lparr>fs_rest := drop n (fs_rest reader)\<rparr>, apply_ops (concat (map (\<lambda>c. repoWriterWrite c w) chunks)) d) \<and>
    concat chunks = take n (fs_rest reader)"
  using assms(2)
proof (induction n arbitrary: reader d rule: less_induct)
  case (less n)
  show ?case
  proof (cases "n = 0")
    case True
    then show ?thesis by (intro exI [of _ "[]"]) (simp add: copyBlocks.simps)
  next
    case False
    define k where "k = (if n > blocksize then blocksize else n)"
    have k: "k \<le> n" "n - k < n" using False assms(1) by (auto simp: k_def)
    let ?s = "reader\<lparr>fs_rest := drop k (fs_rest reader)\<rparr>" and ?b = "take k (fs_rest reader)"
    have rd: "sFread k reader = Inr (?b, ?s)" using less.prems k by (simp add: sFread_def)
    have "n - k \<le> length (fs_rest ?s)" using less.prems by simp
    from less.IH [OF k(2) this, of "apply_ops (repoWriterWrite ?b w) d"] obtain chunks where
        C: "copyBlocks blocksize (n - k) ?s w (apply_ops (repoWriterWrite ?b w) d) =
          Inr (?s\<lparr>fs_rest := drop (n - k) (fs_rest ?s)\<rparr>,
            apply_ops (concat (map (\<lambda>c. repoWriterWrite c w) chunks)) (apply_ops (repoWriterWrite ?b w) d))"
        "concat chunks = take (n - k) (fs_rest ?s)" by blast
    have "?b @ take (n - k) (drop k (fs_rest reader)) = take n (fs_rest reader)"
      using k(1) by (metis le_add_diff_inverse take_add)
    moreover have "copyBlocks blocksize n reader w d =
        copyBlocks blocksize (n - k) ?s w (apply_ops (repoWriterWrite ?b w) d)"
      using False assms(1) rd by (subst copyBlocks.simps) (simp add: Let_def flip: k_def)
    ultimately show ?thesis using C k(1) by (intro exI [of _ "?b # chunks"]) simp
  qed
qed

lemma compareBlocks_ok:
  assumes "0 < blocksize" "n \<le> length (fs_rest stream)" "n \<le> length (rd_remaining repo_stream)"
  shows "\<exists>left stream'. compareBlocks blocksize n stream repo_stream =
      Inr (take n (fs_rest stream) = take n (rd_remaining repo_stream), left, stream') \<and>
    (left = 0 \<longrightarrow> fs_rest stream' = drop n (fs_rest stream))"
  using assms(2,3)
proof (induction n arbitrary: stream repo_stream rule: less_induct)
  case (less n)
  show ?case
  proof (cases "n = 0")
    case True
    then show ?thesis by (simp add: compareBlocks.simps)
  next
    case False
    define k where "k = (if n > blocksize then blocksize else n)"
    have k: "k \<le> n" "n - k < n" using False assms(1) by (auto simp: k_def)
    let ?s = "stream\<lparr>fs_rest := drop k (fs_rest stream)\<rparr>"
    let ?r = "repo_stream\<lparr>rd_remaining := drop k (rd_remaining repo_stream)\<rparr>"
    have rd: "sFread k stream = Inr (take k (fs_rest stream), ?s)"
      "repoReaderRead k repo_stream = Inr (take k (rd_remaining repo_stream), ?r)"
      using less.prems k by (simp_all add: sFread_def repoReaderRead_def)
    have parts: "take n xs = take k xs @ take (n - k) (drop k xs)" for xs :: string
      using k(1) by (metis le_add_diff_inverse take_add)
    have step: "compareBlocks blocksize n stream repo_stream =
        (if take k (fs_rest stream) = take k (rd_remaining repo_stream)
         then compareBlocks blocksize (n - k) ?s ?r else Inr (False, n - k, ?s))"
      using False assms(1) rd by (subst compareBlocks.simps) (simp add: Let_def flip: k_def)
    show ?thesis
    proof (cases "take k (fs_rest stream) = take k (rd_remaining repo_stream)")
      case True
      have "n - k \<le> length (fs_rest ?s)" "n - k \<le> length (rd_remaining ?r)" using less.prems by simp_all
      from less.IH [OF k(2) this] obtain left s' where
          R: "compareBlocks blocksize (n - k) ?s ?r =
            Inr (take (n - k) (fs_rest ?s) = take (n - k) (rd_remaining ?r), left, s')"
          "left = 0 \<longrightarrow> fs_rest s' = drop (n - k) (fs_rest ?s)" by (elim exE conjE)
      have eq: "take n (fs_rest stream) = take n (rd_remaining repo_stream) \<longleftrightarrow>
          take (n - k) (fs_rest ?s) = take (n - k) (rd_remaining ?r)"
        using True by (simp only: parts [of "fs_rest stream"] parts [of "rd_remaining repo_stream"]) simp
      have rest: "drop (n - k) (fs_rest ?s) = drop n (fs_rest stream)" using k(1) by simp
      have "compareBlocks blocksize n stream repo_stream =
          Inr (take n (fs_rest stream) = take n (rd_remaining repo_stream), left, s')"
        unfolding eq by (rule trans [OF trans [OF step if_P [OF True]] R(1)])
      then show ?thesis using R(2) unfolding rest by (intro exI conjI)
    next
      case False
      have "take n (fs_rest stream) \<noteq> take n (rd_remaining repo_stream)"
      proof
        assume "take n (fs_rest stream) = take n (rd_remaining repo_stream)"
        then have "take k (take n (fs_rest stream)) = take k (take n (rd_remaining repo_stream))" by (rule arg_cong)
        then show False using False k(1) by (simp add: min_absorb1)
      qed
      then have "compareBlocks blocksize n stream repo_stream =
          Inr (take n (fs_rest stream) = take n (rd_remaining repo_stream), n - k, ?s)"
        using step False by simp
      then show ?thesis using k(1) by (intro exI [of _ "n - k"] exI [of _ ?s]) simp
    qed
  qed
qed

section \<open>Stored files\<close>

text \<open>
  A repository whose stored files have the size that their names tell, and which can be used with the
  given temporary file; and a file of the user that stays as \<open>stat()\<close> has described it.
\<close>

definition repository_ok :: "string \<Rightarrow> string \<Rightarrow> disk \<Rightarrow> bool" where
  "repository_ok repo tmp d \<longleftrightarrow> NUL \<notin> set repo \<and> length repo < 2 ^ 32 \<and>
     (\<forall>info. length (file_hash info) = FILE_HASH_SIZE \<longrightarrow>
        full_path repo info \<noteq> tmp \<and> full_path repo info \<notin> dirs d \<and>
        (\<forall>f. files d (full_path repo info) = Some f \<longrightarrow> length (file_data f) = unat (file_size info)))"

definition stable_file :: "os \<Rightarrow> string \<Rightarrow> file_info \<Rightarrow> string \<Rightarrow> bool" where
  "stable_file sys path info bytes \<longleftrightarrow> os_content sys path = Some bytes \<and>
     length bytes = unat (file_size info) \<and>
     (\<exists>stats. os_stat sys path = Some stats \<and> st_size stats = file_size info \<and>
        st_mtime stats = modification_time info \<and> 0 < st_blksize stats \<and> unat (st_blksize stats) * 2 \<le> SIZE_MAX)"

lemma hex_length: "n < 16 ^ k \<Longrightarrow> 0 < k \<Longrightarrow> length (hex n) \<le> k"
proof (induction n arbitrary: k rule: hex.induct)
  case (1 n)
  show ?case
  proof (cases "n < 16")
    case True
    then show ?thesis using "1.prems"(2) by (subst hex.simps) simp
  next
    case False
    then obtain j where j: "k = Suc j" "0 < j" using "1.prems" by (cases k; cases "k - 1") auto
    have "n div 16 < 16 ^ j" using "1.prems"(1) j(1) by (simp add: less_mult_imp_div_less mult.commute)
    from "1.IH" [OF False this j(2)] False j(1) show ?thesis by (subst hex.simps) simp
  qed
qed

lemma path_fits:
  assumes "length repo < 2 ^ 32"
  shows "getFilePathRequiredCapacity info + 1 + length repo \<le> SIZE_MAX"
proof -
  have "unat (slot info) < 16 ^ 2" using unsigned_less [of "slot info", where ?'a = nat] by simp
  then have "length (hex (unat (slot info))) \<le> 2" by (rule hex_length) simp
  moreover have "unat (file_size info) < 16 ^ 16" using unsigned_less [of "file_size info", where ?'a = nat] by simp
  then have "length (hex (unat (file_size info))) \<le> 16" by (rule hex_length) simp
  ultimately show ?thesis using assms
    by (simp add: getFilePathRequiredCapacity_def FILE_HASH_SIZE_def SIZE_MAX_def)
qed

lemma path_buffer:
  assumes "NUL \<notin> set repo" "length repo < 2 ^ 32" "length (file_hash info) = FILE_HASH_SIZE"
  shows "\<exists>b. fillPathBufferWithInfo garbage buffer repo info = Inr b \<and> c_string b = full_path repo info"
proof -
  obtain rest where "fillPathBufferWithInfo garbage buffer repo info = Inr (full_path repo info @ NUL # rest)"
    using fillPathBufferWithInfo_spec [OF assms(3) path_fits [OF assms(2)], of garbage buffer]
    by (auto simp: full_path_def)
  moreover have "NUL \<notin> set (full_path repo info)" using assms(1) NUL_not_in_stored_path by (simp add: full_path_def)
  ultimately show ?thesis by (simp add: c_string_whole)
qed

lemma exists_stored:
  assumes "repository_ok repo tmp d" "length (file_hash info) = FILE_HASH_SIZE"
  shows "repoRegularFileExists g b repo info d = Inr (files d (full_path repo info) \<noteq> None)"
  using assms path_buffer [of repo info g b]
  by (auto simp: repoRegularFileExists_def repository_ok_def path_exists_def)

text \<open>Comparing with a stored file never fails, and compares the contents.\<close>

lemma equals_stored:
  assumes "repository_ok repo tmp d" "length (file_hash info) = FILE_HASH_SIZE"
    and "files d (full_path repo info) = Some f" "stable_file sys path info bytes"
    and "os_stat sys path = Some stats"
  shows "equalsToStoredFile sys buf repo path info stats d = Inr (file_data f = bytes)"
proof -
  obtain b where b: "fillPathBufferWithInfo (fst buf) (snd buf) repo info = Inr b" "c_string b = full_path repo info"
    using assms(1,2) path_buffer [of repo info "fst buf" "snd buf"] by (auto simp: repository_ok_def)
  let ?s = "\<lparr>fs_path = path, fs_rest = bytes\<rparr>"
  let ?r = "\<lparr>rd_repo_path = repo, rd_source_file_path = path, rd_remaining = file_data f\<rparr>"
  let ?n = "unat (file_size info)" and ?bs = "unat (st_blksize stats)"
  have len: "length (file_data f) = ?n" using assms(1,2,3) by (auto simp: repository_ok_def)
  have stable: "os_content sys path = Some bytes" "length bytes = ?n" "0 < ?bs" "?bs * 2 \<le> SIZE_MAX"
    using assms(4,5) by (auto simp: stable_file_def word_less_nat_alt)
  obtain left s' where C: "compareBlocks ?bs ?n ?s ?r = Inr (bytes = file_data f, left, s')"
      "left = 0 \<longrightarrow> fs_rest s' = []"
    using compareBlocks_ok [OF stable(3), of ?n ?s ?r] len stable(2) by auto
  then show ?thesis
    using stable b assms(3)
    by (auto simp: equalsToStoredFile_def sFopenRead_def size_mul_def repoReaderOpenFile_def sFbytesLeft_def)
qed

lemma searchFromSlot_ok:
  assumes "repository_ok repo tmp d" "length (file_hash info) = FILE_HASH_SIZE"
    and "stable_file sys path info bytes" "os_stat sys path = Some stats"
  shows "case searchFromSlot sys buf repo path stats d info of
      Inr (found, info') \<Rightarrow> (\<exists>s. info' = info\<lparr>slot := s\<rparr>) \<and>
        (if found then \<exists>f. files d (full_path repo info') = Some f \<and> file_data f = bytes
         else files d (full_path repo info') = None)
    | Inl e \<Rightarrow> e = Slot_overflow \<and>
        (\<forall>s \<ge> slot info. \<exists>f. files d (full_path repo (info\<lparr>slot := s\<rparr>)) = Some f \<and> file_data f \<noteq> bytes)"
  using assms
proof (induction sys buf repo path stats d info rule: searchFromSlot.induct)
  case (1 sys buf repo path stats d info)
  note ok = "1.prems"
  note ex = exists_stored [OF ok(1,2), of "fst buf" "snd buf"]
  show ?case
  proof (cases "files d (full_path repo info)")
    case None
    then have "searchFromSlot sys buf repo path stats d info = Inr (False, info)"
      by (simp add: searchFromSlot.simps ex)
    moreover have "\<exists>s. info = info\<lparr>slot := s\<rparr>" by (intro exI [of _ "slot info"]) simp
    ultimately show ?thesis using None by simp
  next
    case (Some f)
    note eq = equals_stored [OF ok(1,2) Some ok(3,4), of buf]
    consider "file_data f = bytes" | "file_data f \<noteq> bytes" "slot info = - 1" | "file_data f \<noteq> bytes" "slot info \<noteq> - 1"
      by blast
    then show ?thesis
    proof cases
      case 1
      then have "searchFromSlot sys buf repo path stats d info = Inr (True, info)"
        by (subst searchFromSlot.simps) (simp add: ex Some eq)
      moreover have "\<exists>s. info = info\<lparr>slot := s\<rparr>" by (intro exI [of _ "slot info"]) simp
      ultimately show ?thesis using Some 1 by auto
    next
      case 2
      then have "searchFromSlot sys buf repo path stats d info = Inl Slot_overflow"
        by (subst searchFromSlot.simps) (simp add: ex Some eq)
      moreover have "info\<lparr>slot := s\<rparr> = info" if "slot info \<le> s" for s
      proof -
        have "s = slot info" using that 2(2) by (simp add: word_order.extremum_unique)
        then show ?thesis by simp
      qed
      ultimately show ?thesis using Some 2(1) by auto
    next
      case 3
      let ?i = "info\<lparr>slot := slot info + 1\<rparr>"
      have step: "searchFromSlot sys buf repo path stats d info = searchFromSlot sys buf repo path stats d ?i"
        using 3 by (subst searchFromSlot.simps) (simp add: ex Some eq)
      have IH: "case searchFromSlot sys buf repo path stats d ?i of
          Inr (found, info') \<Rightarrow> (\<exists>s. info' = ?i\<lparr>slot := s\<rparr>) \<and>
            (if found then \<exists>f. files d (full_path repo info') = Some f \<and> file_data f = bytes
             else files d (full_path repo info') = None)
        | Inl e \<Rightarrow> e = Slot_overflow \<and>
            (\<forall>s \<ge> slot ?i. \<exists>f. files d (full_path repo (?i\<lparr>slot := s\<rparr>)) = Some f \<and> file_data f \<noteq> bytes)"
        using "1.IH" [of True False] 3 ok ex Some eq by (simp add: stable_file_def)
      have next_slot: "s = slot info \<or> slot info + 1 \<le> s" if "slot info \<le> s" for s
        using that slot_increases [OF 3(2)] by (auto simp: word_le_nat_alt word_unat_eq_iff)
      have self: "info\<lparr>slot := slot info\<rparr> = info" by simp
      show ?thesis
      proof (cases "searchFromSlot sys buf repo path stats d ?i")
        case (Inl e)
        with IH have e: "e = Slot_overflow"
            "\<And>s. slot info + 1 \<le> s \<Longrightarrow> \<exists>f. files d (full_path repo (info\<lparr>slot := s\<rparr>)) = Some f \<and> file_data f \<noteq> bytes"
          by auto
        have "\<exists>f. files d (full_path repo (info\<lparr>slot := s\<rparr>)) = Some f \<and> file_data f \<noteq> bytes" if "slot info \<le> s" for s
          using next_slot [OF that]
        proof
          assume "s = slot info"
          then show ?thesis using Some 3(1) self by simp
        qed (rule e(2))
        then show ?thesis unfolding step Inl by (simp add: e(1))
      next
        case (Inr r)
        then show ?thesis using IH unfolding step by (cases r) auto
      qed
    qed
  qed
qed

section \<open>Storing a file\<close>

lemma mkdir_dirs: "dirs (apply_ops ops d) \<subseteq> dirs d \<union> {p. Op_mkdir p \<in> set ops}"
proof (induction ops arbitrary: d)
  case (Cons op ops)
  have "dirs (apply_op op d) \<subseteq> dirs d \<union> {p. op = Op_mkdir p}" by (cases op) (auto split: option.splits)
  with Cons.IH [of "apply_op op d"] show ?case by auto
qed simp

lemma mkdir_ops_paths: "Op_mkdir p \<in> set (mkdir_ops repo info d) \<Longrightarrow> p \<in> {dir2 repo info, dir5 repo info}"
  by (auto simp: mkdir_ops_def split: if_splits)

lemma full_path_not_dir:
  assumes "length (file_hash info) = FILE_HASH_SIZE" "length (file_hash info') = FILE_HASH_SIZE"
  shows "full_path repo info \<noteq> dir2 repo info'" "full_path repo info \<noteq> dir5 repo info'"
proof -
  have "length (dir2 repo info') < length (full_path repo info)" "length (dir5 repo info') < length (full_path repo info)"
    using stored_path_slashes [OF assms(1)] stored_path_slashes [OF assms(2)]
    by (simp_all add: dir2_def dir5_def full_path_def)
  then show "full_path repo info \<noteq> dir2 repo info'" "full_path repo info \<noteq> dir5 repo info'" by auto
qed

lemma full_path_inj:
  assumes "length (file_hash info) = FILE_HASH_SIZE" "length (file_hash info') = FILE_HASH_SIZE"
    and "full_path repo info = full_path repo info'"
  shows "file_size info = file_size info'"
  using assms stored_path_inj by (auto simp: full_path_def)

lemma copy_stores:
  assumes ok: "repository_ok repo tmp d" and hash: "length (file_hash info) = FILE_HASH_SIZE"
    and src: "stable_file sys path info bytes" "os_stat sys path = Some stats"
  shows "\<exists>d'. copyFileIntoRepo sys buf repo tmp path info stats d = Inr d' \<and>
    files d' (full_path repo info) = Some \<lparr>file_data = bytes, synced = True\<rparr> \<and>
    (\<forall>p. p \<noteq> tmp \<longrightarrow> p \<noteq> full_path repo info \<longrightarrow> files d' p = files d p) \<and>
    repository_ok repo tmp d'"
proof -
  obtain w where w: "repoWriterOpenFile repo tmp path info = (w, [Op_open_write tmp])"
    and fields: "repo_path w = repo" "repo_tmp_file_path w = tmp" "rename_to w = Rename_to_info info"
    by (simp add: repoWriterOpenFile_def createRepoWriter_def)
  have nul: "NUL \<notin> set repo" "length repo < 2 ^ 32" using ok by (auto simp: repository_ok_def)
  have final: "final_path w = full_path repo info" using fields by (simp add: final_path_def)
  have w_ok: "writer_ok w"
    using ok hash path_fits [OF nul(2), of info] by (auto simp: writer_ok_def fields final repository_ok_def)
  let ?s = "\<lparr>fs_path = path, fs_rest = bytes\<rparr>" and ?n = "unat (file_size info)" and ?d0 = "apply_ops [Op_open_write tmp] d"
  have stable: "sFopenRead sys path = Inr ?s" "length bytes = ?n" "0 < unat (st_blksize stats)"
    using src by (auto simp: stable_file_def sFopenRead_def word_less_nat_alt)
  obtain chunks where C: "copyBlocks (unat (st_blksize stats)) ?n ?s w ?d0 =
      Inr (?s\<lparr>fs_rest := []\<rparr>, apply_ops (concat (map (\<lambda>c. repoWriterWrite c w) chunks)) ?d0)" "concat chunks = bytes"
    using copyBlocks_ok [OF stable(3), of ?n ?s w ?d0] stable(2) by auto
  let ?written = "[Op_open_write tmp] @ concat (map (\<lambda>c. repoWriterWrite c w) chunks)"
  obtain close where close: "repoWriterClose (fst buf) (snd buf) w (apply_ops ?written d) = Inr close"
      and mk: "{p. Op_mkdir p \<in> set close} \<subseteq> {dir2 repo info, dir5 repo info}"
    using repoWriterClose_info [OF fields(3) hash, of "fst buf" "snd buf" "apply_ops ?written d"] nul(1) path_fits [OF nul(2), of info]
    by (auto simp: fields dest: mkdir_ops_paths)
  have ops: "writeFile (fst buf) (snd buf) (w, [Op_open_write tmp]) chunks d = Inr (?written @ close)"
    unfolding writeFile_def Let_def prod.case close by simp
  define d' where "d' = apply_ops (?written @ close) d"
  have result: "copyFileIntoRepo sys buf repo tmp path info stats d = Inr d'"
    using stable(1) w C(1) close by (simp add: copyFileIntoRepo_def sFbytesLeft_def d'_def)
  have at: "(\<forall>n p. p \<noteq> tmp \<longrightarrow> files (apply_ops (take n (?written @ close)) d) p = files d p \<or>
       (p = full_path repo info \<and> files (apply_ops (take n (?written @ close)) d) p = Some \<lparr>file_data = bytes, synced = True\<rparr>)) \<and>
    files d' (full_path repo info) = Some \<lparr>file_data = bytes, synced = True\<rparr>"
    using writeFile_atomic [OF w_ok, of "fst buf" "snd buf" chunks d]
    unfolding fields ops final C(2) d'_def by blast
  then have files: "files d' (full_path repo info) = Some \<lparr>file_data = bytes, synced = True\<rparr>"
    "\<And>p. p \<noteq> tmp \<Longrightarrow> p \<noteq> full_path repo info \<Longrightarrow> files d' p = files d p"
  proof -
    fix p assume p: "p \<noteq> tmp" "p \<noteq> full_path repo info"
    have "take (length (?written @ close)) (?written @ close) = ?written @ close" by (rule take_all) simp
    with at p show "files d' p = files d p" unfolding d'_def by metis
  qed blast
  have "{p. Op_mkdir p \<in> set (?written @ close)} \<subseteq> {dir2 repo info, dir5 repo info}"
    using mk by (auto simp: repoWriterWrite_def)
  then have dirs: "dirs d' \<subseteq> dirs d \<union> {dir2 repo info, dir5 repo info}"
    using mkdir_dirs [of "?written @ close" d] by (auto simp only: d'_def)
  have "repository_ok repo tmp d'"
    unfolding repository_ok_def
  proof (intro conjI allI impI)
    fix info' :: file_info assume hash': "length (file_hash info') = FILE_HASH_SIZE"
    show "full_path repo info' \<noteq> tmp" using ok hash' by (simp add: repository_ok_def)
    show "full_path repo info' \<notin> dirs d'"
      using ok hash' dirs full_path_not_dir [OF hash' hash] by (auto simp: repository_ok_def)
    fix f assume f: "files d' (full_path repo info') = Some f"
    show "length (file_data f) = unat (file_size info')"
    proof (cases "full_path repo info' = full_path repo info")
      case True
      with f files(1) stable(2) full_path_inj [OF hash' hash True] show ?thesis by auto
    next
      case False
      with f files(2) ok hash' show ?thesis by (auto simp: repository_ok_def)
    qed
  qed (use nul in simp_all)
  with result files show ?thesis by blast
qed

text \<open>Where the contents of a file are: in the repository, or in the hash of a small file.\<close>

definition holds_content :: "os \<Rightarrow> string \<Rightarrow> disk \<Rightarrow> file_info \<Rightarrow> string \<Rightarrow> bool" where
  "holds_content sys repo d info bytes \<longleftrightarrow> unat (file_size info) = length bytes \<and>
     (if length bytes > FILE_HASH_SIZE then file_hash info = os_blake2b sys [bytes] \<and>
        (\<exists>f. files d (full_path repo info) = Some f \<and> file_data f = bytes)
      else file_hash info = map byte_of_char bytes)"

definition untouched :: "string \<Rightarrow> disk \<Rightarrow> disk \<Rightarrow> bool" where
  "untouched tmp d d' \<longleftrightarrow> (\<forall>p f. p \<noteq> tmp \<longrightarrow> files d p = Some f \<longrightarrow> files d' p = Some f)"

definition hash_when_fresh :: "os \<Rightarrow> hint \<Rightarrow> file_info \<Rightarrow> string \<Rightarrow> bool" where
  "hash_when_fresh sys h info bytes \<longleftrightarrow> (hint_has h BH_fresh_hash \<longrightarrow>
     file_hash info = (if length bytes > FILE_HASH_SIZE then os_blake2b sys [bytes] else map byte_of_char bytes))"

lemma hash_field: "info\<lparr>slot := s, file_hash := file_hash info\<rparr> = info\<lparr>slot := s\<rparr>"
  by simp

lemma addFile_stores:
  assumes hash: "hash_of_bytes sys" and ok: "repository_ok repo tmp d"
    and src: "stable_file sys path info bytes" and fresh: "hash_when_fresh sys h info bytes"
  shows "case addFileToRepo sys buf repo tmp path h info d of
      Inr (info', d') \<Rightarrow> (\<exists>hash s. info' = info\<lparr>file_hash := hash, slot := s\<rparr>) \<and>
        holds_content sys repo d' info' bytes \<and> untouched tmp d d' \<and> repository_ok repo tmp d' \<and>
        (d' = d \<or> length bytes > FILE_HASH_SIZE \<and> files d (full_path repo info') = None \<and>
           (\<forall>p. p \<noteq> tmp \<longrightarrow> p \<noteq> full_path repo info' \<longrightarrow> files d' p = files d p))
    | Inl e \<Rightarrow> e = Slot_overflow \<and> length bytes > FILE_HASH_SIZE \<and>
        (\<forall>s. \<exists>f. files d (full_path repo (info\<lparr>file_hash := os_blake2b sys [bytes], slot := s\<rparr>)) = Some f \<and>
           file_data f \<noteq> bytes)"
proof -
  obtain stats where st: "os_stat sys path = Some stats" "st_size stats = file_size info"
      "st_mtime stats = modification_time info" "0 < st_blksize stats"
    and content: "os_content sys path = Some bytes" "length bytes = unat (file_size info)"
    using src by (auto simp: stable_file_def)
  let ?h = "os_blake2b sys [bytes]"
  let ?i = "info\<lparr>file_hash := ?h\<rparr>"
  have same: "info\<lparr>file_hash := file_hash info\<rparr> = info" "info = info\<lparr>slot := slot info\<rparr>" by simp_all
  show ?thesis
  proof (cases "length bytes > FILE_HASH_SIZE")
    case large: True
    have h: "length ?h = FILE_HASH_SIZE" using hash by (simp add: hash_of_bytes_def)
    have hashed: "(if hint_has h BH_fresh_hash then Inr info
        else bindE (fileHash sys path stats) (\<lambda>hash. Inr (info\<lparr>file_hash := hash\<rparr>))) = Inr ?i"
      using fileHash_bytes [OF hash st(4) content(1)] content(2) st(2) fresh large same(1)
      by (auto simp: hash_when_fresh_def)
    have add: "addFileToRepo sys buf repo tmp path h info d =
        bindE (searchFileDuplicates sys buf repo path stats d ?i) (\<lambda>(found, info).
           if found then Inr (info, d)
           else bindE (copyFileIntoRepo sys buf repo tmp path info stats d) (\<lambda>d. Inr (info, d)))"
    proof -
      have "unat (file_size info) > FILE_HASH_SIZE" using large content(2) by simp
      then show ?thesis by (simp only: addFileToRepo_def sStat_def st option.case bindE_simps hashed if_True if_False simp_thms)
    qed
    have stable: "stable_file sys path (info\<lparr>file_hash := ?h, slot := s\<rparr>) bytes" for s
      using src by (simp add: stable_file_def)
    have S: "case searchFileDuplicates sys buf repo path stats d ?i of
        Inr (found, info') \<Rightarrow> (\<exists>s. info' = info\<lparr>file_hash := ?h, slot := s\<rparr>) \<and>
          (if found then \<exists>f. files d (full_path repo info') = Some f \<and> file_data f = bytes
           else files d (full_path repo info') = None)
      | Inl e \<Rightarrow> e = Slot_overflow \<and>
          (\<forall>s. \<exists>f. files d (full_path repo (info\<lparr>file_hash := ?h, slot := s\<rparr>)) = Some f \<and> file_data f \<noteq> bytes)"
      using searchFromSlot_ok [OF ok _ stable st(1), of 0 buf] h
      by (auto simp: searchFileDuplicates_def split: sum.splits prod.splits)
    show ?thesis
    proof (cases "searchFileDuplicates sys buf repo path stats d ?i")
      case (Inl e)
      then show ?thesis using S add large by simp
    next
      case (Inr r)
      obtain found info' where r: "r = (found, info')" by (cases r)
      with S Inr obtain s where info': "info' = info\<lparr>file_hash := ?h, slot := s\<rparr>"
        and F: "if found then \<exists>f. files d (full_path repo info') = Some f \<and> file_data f = bytes
           else files d (full_path repo info') = None" by auto
      have shape: "\<exists>hash s. info' = info\<lparr>file_hash := hash, slot := s\<rparr>" using info' by blast
      show ?thesis
      proof (cases found)
        case True
        then have "addFileToRepo sys buf repo tmp path h info d = Inr (info', d)" using add Inr r by simp
        moreover have "holds_content sys repo d info' bytes"
          using F True info' large content(2) by (simp add: holds_content_def)
        ultimately show ?thesis using shape ok by (simp add: untouched_def)
      next
        case False
        have "length (file_hash info') = FILE_HASH_SIZE" "stable_file sys path info' bytes"
          using info' h stable by simp_all
        from copy_stores [OF ok this st(1), of buf] obtain d' where
            C: "copyFileIntoRepo sys buf repo tmp path info' stats d = Inr d'"
            "files d' (full_path repo info') = Some \<lparr>file_data = bytes, synced = True\<rparr>"
            "\<forall>p. p \<noteq> tmp \<longrightarrow> p \<noteq> full_path repo info' \<longrightarrow> files d' p = files d p" "repository_ok repo tmp d'"
          by blast
        have "addFileToRepo sys buf repo tmp path h info d = Inr (info', d')" using add Inr r False C(1) by simp
        moreover have "holds_content sys repo d' info' bytes"
          using C(2) info' large content(2) by (simp add: holds_content_def)
        moreover have "untouched tmp d d'" using C(3) F False by (auto simp: untouched_def)
        ultimately show ?thesis using shape C(3,4) F False large by simp
      qed
    qed
  next
    case small: False
    have "addFileToRepo sys buf repo tmp path h info d = Inr (info\<lparr>file_hash := map byte_of_char bytes\<rparr>, d)"
      using st small content fresh same(1)
      by (auto simp: addFileToRepo_def sStat_def sFopenRead_def sFread_def sFbytesLeft_def hash_when_fresh_def)
    moreover have "\<exists>hash s. info\<lparr>file_hash := map byte_of_char bytes\<rparr> = info\<lparr>file_hash := hash, slot := s\<rparr>"
      by (intro exI [of _ "map byte_of_char bytes"] exI [of _ "slot info"]) simp
    ultimately show ?thesis using small content(2) ok by (simp add: holds_content_def untouched_def)
  qed
qed


section \<open>A file to store\<close>

text \<open>A file \<open>/f\<close> of 30 bytes and a new repository.\<close>

definition finish_os :: os where
  "finish_os = hash_example_os\<lparr>
     os_stat := (\<lambda>_. Some \<lparr>st_type = Regular_file, st_mode = 0, st_uid = 0, st_gid = 0, st_mtime = 7,
       st_size = 30, st_blksize = 8\<rparr>),
     os_content := (\<lambda>_. Some (replicate 30 (CHR ''x'')))\<rparr>"

definition finish_disk :: disk where
  "finish_disk = \<lparr>files = Map.empty, dirs = {''repo''}\<rparr>"

definition finish_info :: file_info where
  "finish_info = \<lparr>permission_bits = 0, modification_time = 7, file_size = 30, file_hash = [], slot = 0\<rparr>"

lemma long_path:
  assumes "length (file_hash info) = FILE_HASH_SIZE"
  shows "length repo + 30 < length (full_path repo info)"
  using assms by (simp add: full_path_def stored_path_def Let_def FILE_HASH_SIZE_def min_def)

lemma finish_example:
  "hash_of_bytes finish_os" "repository_ok ''repo'' ''repo/tmp'' finish_disk"
  "stable_file finish_os ''/f'' finish_info (replicate 30 (CHR ''x''))"
  "hash_when_fresh finish_os BH_added finish_info bytes"
proof -
  show "hash_of_bytes finish_os" by (auto simp: hash_of_bytes_def finish_os_def hash_example_os_def min_def)
  have "full_path ''repo'' info \<noteq> ''repo/tmp''" "full_path ''repo'' info \<noteq> ''repo''"
    if "length (file_hash info) = FILE_HASH_SIZE" for info :: file_info
    using long_path [OF that, of "''repo''"] by auto
  then show "repository_ok ''repo'' ''repo/tmp'' finish_disk"
    by (auto simp: repository_ok_def finish_disk_def)
  show "stable_file finish_os ''/f'' finish_info (replicate 30 (CHR ''x''))"
    by (simp add: stable_file_def finish_os_def finish_info_def SIZE_MAX_def)
  show "hash_when_fresh finish_os BH_added finish_info bytes"
    by (simp add: hash_when_fresh_def hint_has_def BH_defs)
qed


section \<open>Finishing a backup\<close>

lemma untouched_trans: "untouched tmp d d1 \<Longrightarrow> untouched tmp d1 d2 \<Longrightarrow> untouched tmp d d2"
  by (auto simp: untouched_def)

lemma untouched_refl [simp]: "untouched tmp d d"
  by (simp add: untouched_def)

lemma holds_untouched:
  "holds_content sys repo d info bytes \<Longrightarrow> untouched tmp d d' \<Longrightarrow> repository_ok repo tmp d \<Longrightarrow>
     hash_of_bytes sys \<Longrightarrow> holds_content sys repo d' info bytes"
proof -
  assume A: "holds_content sys repo d info bytes" "untouched tmp d d'" "repository_ok repo tmp d" "hash_of_bytes sys"
  show ?thesis
  proof (cases "length bytes > FILE_HASH_SIZE")
    case True
    with A(1) obtain f where f: "file_hash info = os_blake2b sys [bytes]" "files d (full_path repo info) = Some f" "file_data f = bytes"
      by (auto simp: holds_content_def)
    have "full_path repo info \<noteq> tmp" using A(3,4) f(1) by (simp add: repository_ok_def hash_of_bytes_def)
    then have "files d' (full_path repo info) = Some f" using A(2) f(2) by (simp add: untouched_def)
    with A(1) f True show ?thesis by (simp add: holds_content_def)
  qed (use A(1) in \<open>simp add: holds_content_def\<close>)
qed

text \<open>Whether a node has been finished.\<close>

definition new_file :: "path_node \<Rightarrow> file_info option" where
  "new_file n = (case node_history n of
     point # _ \<Rightarrow> (case state point of
         PST_regular_file _ _ info \<Rightarrow> if needs_adding (node_hint n) info then Some info else None
       | _ \<Rightarrow> None)
   | [] \<Rightarrow> None)"

lemma new_file_subs: "new_file (PathNode path h pol hist subs) = new_file (PathNode path h pol hist subs')"
  by (simp add: new_file_def split: list.split path_state.split)

definition finished :: "os \<Rightarrow> string \<Rightarrow> disk \<Rightarrow> path_node \<Rightarrow> path_node \<Rightarrow> bool" where
  "finished sys repo d old new \<longleftrightarrow>
     node_path new = node_path old \<and> node_hint new = node_hint old \<and> node_policy new = node_policy old \<and>
     (case new_file old of
        None \<Rightarrow> node_history new = node_history old
      | Some info \<Rightarrow> (\<exists>uid gid info' bytes.
          state (hd (node_history old)) = PST_regular_file uid gid info \<and>
          node_history new = (hd (node_history old))\<lparr>state := PST_regular_file uid gid info'\<rparr> # tl (node_history old) \<and>
          (\<exists>hash s. info' = info\<lparr>file_hash := hash, slot := s\<rparr>) \<and>
          os_content sys (node_path old) = Some bytes \<and> holds_content sys repo d info' bytes))"

definition stable_node :: "os \<Rightarrow> path_node \<Rightarrow> bool" where
  "stable_node sys n \<longleftrightarrow> (case new_file n of None \<Rightarrow> True
     | Some info \<Rightarrow> (\<exists>bytes. stable_file sys (node_path n) info bytes \<and> hash_when_fresh sys (node_hint n) info bytes))"

lemma finished_untouched:
  "finished sys repo d old new \<Longrightarrow> untouched tmp d d' \<Longrightarrow> repository_ok repo tmp d \<Longrightarrow> hash_of_bytes sys \<Longrightarrow>
     finished sys repo d' old new"
proof (cases "new_file old")
  case (Some info)
  assume A: "finished sys repo d old new" "untouched tmp d d'" "repository_ok repo tmp d" "hash_of_bytes sys"
  then have "holds_content sys repo d info' bytes \<Longrightarrow> holds_content sys repo d' info' bytes" for info' bytes
    using holds_untouched by blast
  with A(1) show ?thesis unfolding finished_def Some option.case by blast
qed (simp add: finished_def)

lemma storeNewFile_ok:
  assumes "hash_of_bytes sys" "repository_ok repo tmp d" "stable_node sys (PathNode path h pol hist subs)" "hist \<noteq> []"
  shows "case storeNewFile sys buf repo tmp path h hist d of
      Inr (hist', d') \<Rightarrow> untouched tmp d d' \<and> repository_ok repo tmp d' \<and>
        (\<forall>subs subs'. finished sys repo d' (PathNode path h pol hist subs) (PathNode path h pol hist' subs'))
    | Inl e \<Rightarrow> e = Slot_overflow"
proof (cases "new_file (PathNode path h pol hist subs)")
  case None
  then have "storeNewFile sys buf repo tmp path h hist d = Inr (hist, d)"
    using assms(4) by (cases hist) (auto simp: storeNewFile_def new_file_def split: path_state.splits if_splits)
  moreover have "new_file (PathNode path h pol hist subs') = None" for subs'
    using None new_file_subs by metis
  ultimately show ?thesis using assms(2) by (simp add: finished_def)
next
  case (Some info)
  then obtain point older uid gid where hist: "hist = point # older" "state point = PST_regular_file uid gid info"
      "needs_adding h info"
    by (auto simp: new_file_def split: list.splits path_state.splits if_splits)
  obtain bytes where bytes: "stable_file sys path info bytes" "hash_when_fresh sys h info bytes"
    using assms(3) Some by (auto simp: stable_node_def)
  have add: "storeNewFile sys buf repo tmp path h hist d =
      bindE (addFileToRepo sys buf repo tmp path h info d) (\<lambda>(info, d).
        Inr (point\<lparr>state := PST_regular_file uid gid info\<rparr> # older, d))"
    using hist by (simp add: storeNewFile_def)
  have content: "os_content sys path = Some bytes" using bytes(1) by (simp add: stable_file_def)
  from addFile_stores [OF assms(1,2) bytes, of buf] show ?thesis
  proof (cases "addFileToRepo sys buf repo tmp path h info d")
    case (Inr r)
    obtain info' d' where r: "r = (info', d')" by (cases r)
    have new: "new_file (PathNode path h pol hist subs') = Some info" for subs'
      using Some new_file_subs by metis
    from addFile_stores [OF assms(1,2) bytes, of buf] Inr r
    have F: "\<exists>hash s. info' = info\<lparr>file_hash := hash, slot := s\<rparr>" "holds_content sys repo d' info' bytes"
      "untouched tmp d d'" "repository_ok repo tmp d'" by auto
    have "storeNewFile sys buf repo tmp path h hist d = Inr (point\<lparr>state := PST_regular_file uid gid info'\<rparr> # older, d')"
      using add Inr r by simp
    moreover have "finished sys repo d' (PathNode path h pol hist subs)
        (PathNode path h pol (point\<lparr>state := PST_regular_file uid gid info'\<rparr> # older) subs')" for subs subs'
      unfolding finished_def new option.case using hist F(1,2) content by auto
    ultimately show ?thesis using F(3,4) by simp
  qed (simp add: add)
qed

lemma finishRecursively_ok:
  assumes "hash_of_bytes sys"
  shows "repository_ok repo tmp d \<Longrightarrow> list_all (stable_node sys) (flatten nodes) \<Longrightarrow>
     list_all (\<lambda>n. node_history n \<noteq> []) (flatten nodes) \<Longrightarrow>
     case finishBackupRecursively sys buf repo tmp nodes d of
       Inr (nodes', d') \<Rightarrow> untouched tmp d d' \<and> repository_ok repo tmp d' \<and>
         list_all2 (finished sys repo d') (flatten nodes) (flatten nodes')
     | Inl e \<Rightarrow> e = Slot_overflow"
proof (induction nodes arbitrary: d rule: flatten.induct)
  case (2 path h pol hist subs nodes)
  let ?n = "PathNode path h pol hist subs"
  from 2(4,5) have "stable_node sys ?n" "hist \<noteq> []" by simp_all
  note N = storeNewFile_ok [OF assms 2(3) this, of buf]
  show ?case
  proof (cases "storeNewFile sys buf repo tmp path h hist d")
    case (Inr r)
    obtain hist' d1 where r: "r = (hist', d1)" by (cases r)
    with N Inr have d1: "untouched tmp d d1" "repository_ok repo tmp d1"
      and fin: "finished sys repo d1 ?n (PathNode path h pol hist' subs')" for subs' by auto
    have "list_all (stable_node sys) (flatten subs)" "list_all (\<lambda>n. node_history n \<noteq> []) (flatten subs)"
      using 2(4,5) by simp_all
    note S = 2(1) [OF d1(2) this]
    show ?thesis
    proof (cases "finishBackupRecursively sys buf repo tmp subs d1")
      case subs: (Inr r')
      obtain subs' d2 where r': "r' = (subs', d2)" by (cases r')
      with S subs have d2: "untouched tmp d1 d2" "repository_ok repo tmp d2"
          "list_all2 (finished sys repo d2) (flatten subs) (flatten subs')" by auto
      have "list_all (stable_node sys) (flatten nodes)" "list_all (\<lambda>n. node_history n \<noteq> []) (flatten nodes)"
        using 2(4,5) by simp_all
      note R = 2(2) [OF d2(2) this]
      show ?thesis
      proof (cases "finishBackupRecursively sys buf repo tmp nodes d2")
        case rest: (Inr r'')
        obtain nodes' d3 where r'': "r'' = (nodes', d3)" by (cases r'')
        with R rest have d3: "untouched tmp d2 d3" "repository_ok repo tmp d3"
            "list_all2 (finished sys repo d3) (flatten nodes) (flatten nodes')" by auto
        have "list_all2 (finished sys repo d3) (flatten subs) (flatten subs')"
          using d2(3) finished_untouched [OF _ d3(1) d2(2) assms] by (rule list_all2_mono)
        moreover have "finished sys repo d3 ?n (PathNode path h pol hist' subs')"
          using finished_untouched [OF fin untouched_trans [OF d2(1) d3(1)] d1(2) assms] .
        ultimately show ?thesis
          using Inr r subs r' rest r'' d1 d2 d3 by (auto intro: untouched_trans list_all2_appendI)
      qed (use Inr r subs r' R in simp)
    qed (use Inr r S in simp)
  qed (use N in simp)
qed simp

text \<open>
  C7: finishing a backup stores every new or changed regular file. The only way to fail is that all
  slots of a file are taken. Otherwise every node keeps its path, hint, policy and history but for the hash and the slot of a
  file that was to be stored, whose contents the repository then holds; all files that were stored
  before are still there, and the completion time is set.
\<close>

theorem finishBackup_stores:
  assumes "hash_of_bytes sys" and "repository_ok repo tmp d"
    and "list_all (stable_node sys) (flatten (paths md))"
    and "list_all (\<lambda>n. node_history n \<noteq> []) (flatten (paths md))"
  shows "case finishBackup sys buf repo tmp now md d of
      Inr (md', d') \<Rightarrow> untouched tmp d d' \<and> repository_ok repo tmp d' \<and>
        list_all2 (finished sys repo d') (flatten (paths md)) (flatten (paths md')) \<and>
        md' = md\<lparr>paths := paths md', current_backup := (current_backup md)\<lparr>completion_time := now\<rparr>\<rparr>
    | Inl e \<Rightarrow> e = Slot_overflow"
  using finishRecursively_ok [OF assms, of buf]
  by (auto simp: finishBackup_def bindE_def split: sum.splits prod.splits)

definition finish_metadata :: metadata where
  "finish_metadata = metadataNew\<lparr>paths := [PathNode ''/f'' BH_added BPOL_copy
     [\<lparr>point_backup = Current, state = PST_regular_file 0 0 finish_info\<rparr>] []]\<rparr>"

theorem finishBackup_stores_witness:
  "case finishBackup finish_os ([], []) ''repo'' ''repo/tmp'' 9 finish_metadata finish_disk of
     Inr (md', d') \<Rightarrow> completion_time (current_backup md') = 9 \<and>
       (\<exists>node info f. paths md' = [node] \<and>
          state (hd (node_history node)) = PST_regular_file 0 0 info \<and>
          files d' (full_path ''repo'' info) = Some f \<and> file_data f = replicate 30 (CHR ''x''))
   | Inl e \<Rightarrow> e = Slot_overflow"
proof -
  have new: "new_file (PathNode ''/f'' BH_added BPOL_copy
      [\<lparr>point_backup = Current, state = PST_regular_file 0 0 finish_info\<rparr>] subs) = Some finish_info" for subs
    by (simp add: new_file_def needs_adding_def finish_info_def backupHintNoPol_def BH_defs)
  have "list_all (stable_node finish_os) (flatten (paths finish_metadata))"
    using finish_example(3,4) by (auto simp: finish_metadata_def stable_node_def new)
  moreover have "list_all (\<lambda>n. node_history n \<noteq> []) (flatten (paths finish_metadata))"
    by (simp add: finish_metadata_def)
  ultimately have S: "case finishBackup finish_os ([], []) ''repo'' ''repo/tmp'' 9 finish_metadata finish_disk of
      Inr (md', d') \<Rightarrow> untouched ''repo/tmp'' finish_disk d' \<and> repository_ok ''repo'' ''repo/tmp'' d' \<and>
        list_all2 (finished finish_os ''repo'' d') (flatten (paths finish_metadata)) (flatten (paths md')) \<and>
        md' = finish_metadata\<lparr>paths := paths md',
          current_backup := (current_backup finish_metadata)\<lparr>completion_time := 9\<rparr>\<rparr>
    | Inl e \<Rightarrow> e = Slot_overflow"
    by (rule finishBackup_stores [OF finish_example(1,2)])
  show ?thesis
  proof (cases "finishBackup finish_os ([], []) ''repo'' ''repo/tmp'' 9 finish_metadata finish_disk")
    case (Inl e)
    with S show ?thesis by simp
  next
    case (Inr r)
    obtain md' d' where r: "r = (md', d')" by (cases r)
    from S Inr r have md': "md' = finish_metadata\<lparr>paths := paths md',
          current_backup := (current_backup finish_metadata)\<lparr>completion_time := 9\<rparr>\<rparr>"
      and F: "list_all2 (finished finish_os ''repo'' d') (flatten (paths finish_metadata)) (flatten (paths md'))"
      by (simp_all only: sum.case prod.case)
    have one: "\<exists>path h pol hist. nodes = [PathNode path h pol hist []]" if "length (flatten nodes) = 1" for nodes
      using that by (cases nodes rule: flatten.cases) (auto elim: flatten.elims)
    from F have "length (flatten (paths md')) = 1"
      by (simp add: list_all2_lengthD [symmetric] finish_metadata_def)
    then obtain node where node: "paths md' = [node]" "flatten (paths md') = [node]" using one by fastforce
    have "completion_time (current_backup md') = 9" by (subst md') simp
    moreover have "finished finish_os ''repo'' d' (PathNode ''/f'' BH_added BPOL_copy
      [\<lparr>point_backup = Current, state = PST_regular_file 0 0 finish_info\<rparr>] []) node"
      using F node(2) by (simp add: finish_metadata_def)
    then have "\<exists>info f. state (hd (node_history node)) = PST_regular_file 0 0 info \<and>
        files d' (full_path ''repo'' info) = Some f \<and> file_data f = replicate 30 (CHR ''x'')"
      unfolding finished_def new option.case
      by (auto simp: holds_content_def finish_os_def FILE_HASH_SIZE_def)
    ultimately show ?thesis using Inr r node(1) by auto
  qed
qed

end
