(* ===== verification/Integrity.thy ===== *)
theory Integrity
  imports Stored_Files File_Hash
begin

text \<open>
  The integrity check: \<open>src/integrity.c\<close>. The context is a record that the functions give back
  changed; \<open>ic_calls\<close> holds the calls of the progress callback, \<open>ic_broken\<close> the list of broken nodes.
  The two pointers that the code stores in the cache are a truth value. The callback that checks a
  file is a function argument as in the code; what both of them promise is the locale \<open>file_check\<close>.
\<close>

section \<open>The code's data and functions\<close>

record integrity_context =
  ic_broken :: "path_node list"
  ic_buffer :: string
  ic_cache :: "bool string_table"
  ic_total :: u64
  ic_calls :: "(nat \<times> u64) list"

type_synonym check_file = "integrity_context \<Rightarrow> file_info \<Rightarrow> string \<Rightarrow> (bool \<times> integrity_context) result"

definition callProgressCallback :: "nat \<Rightarrow> integrity_context \<Rightarrow> integrity_context" where
  "callProgressCallback processed_block_size ctx =
     ctx\<lparr>ic_calls := ic_calls ctx @ [(processed_block_size, ic_total ctx)]\<rparr>"

definition addToTotalFileSize :: check_file where
  "addToTotalFileSize ctx info ignored =
     bindE (sUint64Add (ic_total ctx) (file_size info)) (\<lambda>total. Inr (True, ctx\<lparr>ic_total := total\<rparr>))"

definition storedFileIsHealthy :: "os \<Rightarrow> string \<Rightarrow> check_file" where
  "storedFileIsHealthy sys repo ctx info unique_subpath =
     bindE (strAppendPath (os_memory sys) (strUnterminated repo (length repo)) (str (unique_subpath @ [NUL]))
       ALT_single_growable_buffer) (\<lambda>path_to_stored_file.
     let path = view path_to_stored_file; broken = (False, callProgressCallback (unat (file_size info)) ctx)
     in bindE (sPathExists sys path) (\<lambda>exists.
       if \<not> exists then Inr broken
       else bindE (sLStat sys path) (\<lambda>stats.
         if st_type stats \<noteq> Regular_file then Inr broken
         else if st_size stats \<noteq> file_size info then Inr broken
         else bindE (fileHashCalls sys path stats) (\<lambda>(hash, sizes).
           Inr (file_hash info = hash, fold callProgressCallback sizes ctx)))))"

definition historyPointIsHealthy ::
  "memory \<Rightarrow> siphash_fun \<Rightarrow> string \<Rightarrow> check_file \<Rightarrow> path_history \<Rightarrow> integrity_context \<Rightarrow>
   (bool \<times> integrity_context) result" where
  "historyPointIsHealthy avail siphash garbage check_file_callback point ctx =
     (case state point of
        PST_regular_file _ _ info \<Rightarrow>
          if unat (file_size info) \<le> FILE_HASH_SIZE then Inr (True, ctx)
          else
            bindE (repoBuildRegularFilePath garbage (ic_buffer ctx) info) (\<lambda>buffer.
              let ctx = ctx\<lparr>ic_buffer := buffer\<rparr>; unique_subpath = view (str buffer)
              in case strTableGet siphash (ic_cache ctx) unique_subpath of
                   Some healthy \<Rightarrow> Inr (healthy, ctx)
                 | None \<Rightarrow>
                     bindE (check_file_callback ctx info unique_subpath) (\<lambda>(is_healthy, ctx).
                     bindE (strCopy avail (str buffer) ALT_region) (\<lambda>key_copy.
                     bindE (strTableMap avail siphash (view key_copy) is_healthy (ic_cache ctx)) (\<lambda>cache.
                       Inr (is_healthy, ctx\<lparr>ic_cache := cache\<rparr>)))))
      | _ \<Rightarrow> Inr (True, ctx))"

text \<open>The loop over the history of a node, which ends at the first broken point.\<close>

fun checkHistory ::
  "memory \<Rightarrow> siphash_fun \<Rightarrow> string \<Rightarrow> check_file \<Rightarrow> path_history list \<Rightarrow> integrity_context \<Rightarrow>
   (bool \<times> integrity_context) result" where
  "checkHistory avail siphash garbage check_file_callback [] ctx = Inr (True, ctx)"
| "checkHistory avail siphash garbage check_file_callback (point # points) ctx =
     bindE (historyPointIsHealthy avail siphash garbage check_file_callback point ctx) (\<lambda>(healthy, ctx).
       if \<not> healthy then Inr (False, ctx)
       else checkHistory avail siphash garbage check_file_callback points ctx)"

fun checkIntegrityRecursively ::
  "memory \<Rightarrow> siphash_fun \<Rightarrow> string \<Rightarrow> check_file \<Rightarrow> path_node list \<Rightarrow> integrity_context \<Rightarrow>
   integrity_context result" where
  "checkIntegrityRecursively avail siphash garbage check_file_callback [] ctx = Inr ctx"
| "checkIntegrityRecursively avail siphash garbage check_file_callback (PathNode path h pol hist subs # nodes) ctx =
     bindE (checkHistory avail siphash garbage check_file_callback hist ctx) (\<lambda>(healthy, ctx).
       let ctx = (if healthy then ctx
                  else ctx\<lparr>ic_broken := PathNode path h pol hist subs # ic_broken ctx\<rparr>)
       in bindE (checkIntegrityRecursively avail siphash garbage check_file_callback subs ctx)
            (checkIntegrityRecursively avail siphash garbage check_file_callback nodes))"

text \<open>The argument holds the random numbers of the new table.\<close>

definition attachDisposableRegion ::
  "memory \<Rightarrow> string \<Rightarrow> nat list \<Rightarrow> integrity_context \<Rightarrow> integrity_context result" where
  "attachDisposableRegion avail garbage rands ctx =
     bindE (strTableNew avail rands) (\<lambda>cache. Inr (ctx\<lparr>ic_buffer := take 1 garbage, ic_cache := cache\<rparr>))"

definition checkIntegrity ::
  "os \<Rightarrow> siphash_fun \<Rightarrow> string \<Rightarrow> nat list \<times> nat list \<Rightarrow> metadata \<Rightarrow> string \<Rightarrow> integrity_context result" where
  "checkIntegrity sys siphash garbage rands md repo =
     (let ctx = \<lparr>ic_broken = [], ic_buffer = [], ic_cache = emptyTable [], ic_total = 0, ic_calls = []\<rparr>
      in bindE (attachDisposableRegion (os_memory sys) garbage (fst rands) ctx) (\<lambda>ctx.
         bindE (checkIntegrityRecursively (os_memory sys) siphash garbage addToTotalFileSize (paths md) ctx) (\<lambda>ctx.
         bindE (attachDisposableRegion (os_memory sys) garbage (snd rands) ctx) (\<lambda>ctx.
           checkIntegrityRecursively (os_memory sys) siphash garbage (storedFileIsHealthy sys repo) (paths md) ctx))))"

section \<open>What a callback promises\<close>

text \<open>The size of the file that a path of the repository belongs to.\<close>

definition size_at :: "string \<Rightarrow> nat" where
  "size_at p = unat (file_size (SOME info :: file_info.
     length (file_hash info) = FILE_HASH_SIZE \<and> stored_path info = p))"

lemma size_at_path:
  assumes "length (file_hash info) = FILE_HASH_SIZE"
  shows "size_at (stored_path info) = unat (file_size info)"
proof -
  let ?i = "SOME i :: file_info. length (file_hash i) = FILE_HASH_SIZE \<and> stored_path i = stored_path info"
  have "length (file_hash ?i) = FILE_HASH_SIZE \<and> stored_path ?i = stored_path info"
    using assms by (intro someI [of "\<lambda>i. length (file_hash i) = FILE_HASH_SIZE \<and> stored_path i = stored_path info" info]) simp
  then have "file_size ?i = file_size info" using stored_path_inj assms by blast
  then show ?thesis by (simp add: size_at_def)
qed

text \<open>
  A callback answers a question about the file that only depends on its path in the repository, and
  accounts for the size of the file. It leaves the cache and the list alone and keeps an invariant.
\<close>

locale file_check =
  fixes check :: check_file
    and good :: "file_info \<Rightarrow> bool"
    and weight :: "integrity_context \<Rightarrow> nat"
    and kept :: "integrity_context \<Rightarrow> bool"
  assumes check_spec: "length (file_hash info) = FILE_HASH_SIZE \<Longrightarrow> kept ctx \<Longrightarrow>
      never internal_errors (\<lambda>(h, ctx'). h = good info \<and> ic_cache ctx' = ic_cache ctx \<and>
          ic_broken ctx' = ic_broken ctx \<and> weight ctx' = weight ctx + unat (file_size info) \<and> kept ctx')
        (check ctx info (stored_path info))"
    and good_path: "stored_path i = stored_path j \<Longrightarrow> length (file_hash i) = FILE_HASH_SIZE \<Longrightarrow>
      length (file_hash j) = FILE_HASH_SIZE \<Longrightarrow> good i = good j"
    and other_fields: "weight (ctx\<lparr>ic_buffer := b\<rparr>) = weight ctx" "weight (ctx\<lparr>ic_cache := c\<rparr>) = weight ctx"
      "weight (ctx\<lparr>ic_broken := l\<rparr>) = weight ctx" "kept (ctx\<lparr>ic_buffer := b\<rparr>) = kept ctx"
      "kept (ctx\<lparr>ic_cache := c\<rparr>) = kept ctx" "kept (ctx\<lparr>ic_broken := l\<rparr>) = kept ctx"
begin

definition visited :: "siphash_fun \<Rightarrow> integrity_context \<Rightarrow> string set" where
  "visited siphash ctx = dom (strTableGet siphash (ic_cache ctx))"

definition cache_ok :: "siphash_fun \<Rightarrow> integrity_context \<Rightarrow> bool" where
  "cache_ok siphash ctx \<longleftrightarrow> table_ok siphash (ic_cache ctx) \<and>
     (\<forall>k h. strTableGet siphash (ic_cache ctx) k = Some h \<longrightarrow>
        (\<exists>info. length (file_hash info) = FILE_HASH_SIZE \<and> k = stored_path info \<and> h = good info))"

text \<open>
  From one context to a later one: the cache has grown by some of the paths of \<open>S\<close>, by all of them
  if \<open>all\<close> holds, and every new path has been accounted for once.
\<close>

definition grows :: "siphash_fun \<Rightarrow> integrity_context \<Rightarrow> integrity_context \<Rightarrow> string set \<Rightarrow> bool \<Rightarrow> bool" where
  "grows siphash ctx ctx' S all \<longleftrightarrow> cache_ok siphash ctx' \<and> kept ctx' \<and>
     visited siphash ctx \<subseteq> visited siphash ctx' \<and> visited siphash ctx' \<subseteq> visited siphash ctx \<union> S \<and>
     (all \<longrightarrow> S \<subseteq> visited siphash ctx') \<and>
     weight ctx' + sum size_at (visited siphash ctx) = weight ctx + sum size_at (visited siphash ctx')"

lemma grows_refl: "cache_ok siphash ctx \<Longrightarrow> kept ctx \<Longrightarrow> grows siphash ctx ctx {} True"
  by (simp add: grows_def)

lemma grows_trans:
  "grows siphash ctx ctx1 S a \<Longrightarrow> grows siphash ctx1 ctx2 T b \<Longrightarrow> grows siphash ctx ctx2 (S \<union> T) (a \<and> b)"
  unfolding grows_def by auto

lemma grows_part: "grows siphash ctx ctx' S a \<Longrightarrow> (b \<Longrightarrow> T = S \<and> a) \<Longrightarrow> S \<subseteq> T \<Longrightarrow> grows siphash ctx ctx' T b"
  unfolding grows_def by auto

lemma grows_broken:
  "grows siphash ctx ctx' S a \<Longrightarrow> grows siphash ctx (ctx'\<lparr>ic_broken := l\<rparr>) S a"
  by (simp add: grows_def cache_ok_def visited_def other_fields)

lemma point_spec:
  assumes "cache_ok siphash ctx" "kept ctx" "hashes_ok [point]"
  shows "never internal_errors
    (\<lambda>(healthy, ctx'). healthy = list_all good (stored_infos [point]) \<and> ic_broken ctx' = ic_broken ctx \<and>
       grows siphash ctx ctx' (stored_path ` set (stored_infos [point])) True)
    (historyPointIsHealthy avail siphash garbage check point ctx)"
proof (cases "stored_info point")
  case None
  then have "historyPointIsHealthy avail siphash garbage check point ctx = Inr (True, ctx)"
    by (auto simp: historyPointIsHealthy_def stored_info_def split: path_state.splits if_splits)
  then show ?thesis using None grows_refl [OF assms(1,2)] by simp
next
  case (Some info)
  with assms(3) have hash: "length (file_hash info) = FILE_HASH_SIZE" by simp
  obtain uid gid where st: "state point = PST_regular_file uid gid info" "\<not> unat (file_size info) \<le> FILE_HASH_SIZE"
    using Some by (auto simp: stored_info_def split: path_state.splits if_splits)
  obtain b where b: "repoBuildRegularFilePath garbage (ic_buffer ctx) info = Inr b" "c_string b = stored_path info"
    using unique_path [OF hash] by blast
  let ?ctx = "ctx\<lparr>ic_buffer := b\<rparr>" and ?p = "stored_path info"
  have run: "historyPointIsHealthy avail siphash garbage check point ctx =
      (case strTableGet siphash (ic_cache ctx) ?p of
         Some healthy \<Rightarrow> Inr (healthy, ?ctx)
       | None \<Rightarrow> bindE (check ?ctx info ?p) (\<lambda>(h, ctx).
           bindE (strCopy avail (str b) ALT_region) (\<lambda>key_copy.
           bindE (strTableMap avail siphash (view key_copy) h (ic_cache ctx)) (\<lambda>cache.
             Inr (h, ctx\<lparr>ic_cache := cache\<rparr>)))))"
    using st b by (simp add: historyPointIsHealthy_def Let_def c_string_def split: option.split)
  show ?thesis
  proof (cases "strTableGet siphash (ic_cache ctx) ?p")
    case (Some h)
    with assms(1) obtain i where "length (file_hash i) = FILE_HASH_SIZE" "?p = stored_path i" "h = good i"
      unfolding cache_ok_def by blast
    then have "h = good info" using good_path hash by blast
    moreover have "grows siphash ctx ?ctx {?p} True"
      using assms(1,2) Some by (auto simp: grows_def cache_ok_def visited_def other_fields)
    ultimately show ?thesis using run Some \<open>stored_info point = Some info\<close> by simp
  next
    case None
    have kept: "kept ?ctx" using assms(2) by (simp add: other_fields)
    have "never internal_errors
      (\<lambda>(healthy, ctx'). healthy = good info \<and> ic_broken ctx' = ic_broken ctx \<and> grows siphash ctx ctx' {?p} True)
      (bindE (check ?ctx info ?p) (\<lambda>(h, ctx).
           bindE (strCopy avail (str b) ALT_region) (\<lambda>key_copy.
           bindE (strTableMap avail siphash (view key_copy) h (ic_cache ctx)) (\<lambda>cache.
             Inr (h, ctx\<lparr>ic_cache := cache\<rparr>)))))"
    proof (rule never_bind [OF check_spec [OF hash kept]], clarify)
      fix h ctx1
      assume C: "ic_cache ctx1 = ic_cache ?ctx" "ic_broken ctx1 = ic_broken ?ctx"
        "weight ctx1 = weight ?ctx + unat (file_size info)" "kept ctx1"
      show "never internal_errors
          (\<lambda>(healthy, ctx'). healthy = good info \<and> ic_broken ctx' = ic_broken ctx \<and> grows siphash ctx ctx' {?p} True)
          (bindE (strCopy avail (str b) ALT_region) (\<lambda>key_copy.
           bindE (strTableMap avail siphash (view key_copy) (good info) (ic_cache ctx1)) (\<lambda>cache.
             Inr (good info, ctx1\<lparr>ic_cache := cache\<rparr>))))"
      proof (rule never_bind [OF strCopy_key])
        fix key :: string_view assume "view key = c_string b"
        with b(2) have key: "view key = ?p" by simp
        show "never internal_errors
            (\<lambda>(healthy, ctx'). healthy = good info \<and> ic_broken ctx' = ic_broken ctx \<and> grows siphash ctx ctx' {?p} True)
            (bindE (strTableMap avail siphash (view key) (good info) (ic_cache ctx1)) (\<lambda>cache.
               Inr (good info, ctx1\<lparr>ic_cache := cache\<rparr>)))"
        proof (rule never_bind)
          have ok: "table_ok siphash (ic_cache ctx)" using assms(1) by (simp add: cache_ok_def)
          show "never internal_errors (\<lambda>t. table_ok siphash t \<and>
              strTableGet siphash t = (strTableGet siphash (ic_cache ctx))(?p \<mapsto> good info))
            (strTableMap avail siphash (view key) (good info) (ic_cache ctx1))"
            using strTableMap_key [OF ok None] key C(1) by simp
          fix t assume t: "table_ok siphash t \<and>
              strTableGet siphash t = (strTableGet siphash (ic_cache ctx))(?p \<mapsto> good info)"
          have dom: "visited siphash (ctx1\<lparr>ic_cache := t\<rparr>) = insert ?p (visited siphash ctx)"
            using t by (auto simp: visited_def)
          have new: "?p \<notin> visited siphash ctx" using None by (simp add: visited_def domIff)
          have "finite (visited siphash ctx)"
            using st.entries_card [OF ok] by (simp add: visited_def)
          then have sum: "sum size_at (visited siphash (ctx1\<lparr>ic_cache := t\<rparr>)) =
              unat (file_size info) + sum size_at (visited siphash ctx)"
            using new by (simp add: dom size_at_path [OF hash])
          have "cache_ok siphash (ctx1\<lparr>ic_cache := t\<rparr>)"
            using t assms(1) hash by (auto simp: cache_ok_def split: if_splits)
          then have "grows siphash ctx (ctx1\<lparr>ic_cache := t\<rparr>) {?p} True"
            using C(3,4) sum by (auto simp: grows_def dom other_fields)
          then show "never internal_errors
            (\<lambda>(healthy, ctx'). healthy = good info \<and> ic_broken ctx' = ic_broken ctx \<and> grows siphash ctx ctx' {?p} True)
            (Inr (good info, ctx1\<lparr>ic_cache := t\<rparr>))" using C(2) by simp
        qed
      qed
    qed
    then show ?thesis using run None Some by simp
  qed
qed

text \<open>The paths of the files of a list of nodes, and whether a node has only good ones.\<close>

definition node_files :: "path_node list \<Rightarrow> string set" where
  "node_files nodes = (\<Union>n \<in> set nodes. stored_path ` set (stored_infos (node_history n)))"

definition good_node :: "path_node \<Rightarrow> bool" where
  "good_node n \<longleftrightarrow> list_all good (stored_infos (node_history n))"

lemma history_spec:
  assumes "cache_ok siphash ctx" "kept ctx" "hashes_ok hist"
  shows "never internal_errors
    (\<lambda>(healthy, ctx'). healthy = list_all good (stored_infos hist) \<and> ic_broken ctx' = ic_broken ctx \<and>
       grows siphash ctx ctx' (stored_path ` set (stored_infos hist)) healthy)
    (checkHistory avail siphash garbage check hist ctx)"
  using assms
proof (induction hist arbitrary: ctx)
  case Nil
  then show ?case using grows_refl by simp
next
  case (Cons point points)
  have one: "hashes_ok [point]" and rest: "hashes_ok points" using Cons.prems(3) by simp_all
  have parts: "stored_infos (point # points) = stored_infos [point] @ stored_infos points"
    by (simp split: option.split)
  show ?case
    unfolding checkHistory.simps
  proof (rule never_bind [OF point_spec [OF Cons.prems(1,2) one]], clarify)
    fix healthy ctx1
    let ?S = "stored_path ` set (stored_infos [point])" and ?T = "stored_path ` set (stored_infos points)"
    assume H: "ic_broken ctx1 = ic_broken ctx" and G: "grows siphash ctx ctx1 ?S True"
    show "never internal_errors
      (\<lambda>(healthy, ctx'). healthy = list_all good (stored_infos (point # points)) \<and> ic_broken ctx' = ic_broken ctx \<and>
         grows siphash ctx ctx' (stored_path ` set (stored_infos (point # points))) healthy)
      (if \<not> list_all good (stored_infos [point]) then Inr (False, ctx1)
       else checkHistory avail siphash garbage check points ctx1)"
    proof (cases "list_all good (stored_infos [point])")
      case True
      have "cache_ok siphash ctx1" "kept ctx1" using G by (simp_all add: grows_def)
      note R = Cons.IH [OF this rest]
      have "never internal_errors
        (\<lambda>(healthy, ctx'). healthy = list_all good (stored_infos (point # points)) \<and> ic_broken ctx' = ic_broken ctx \<and>
           grows siphash ctx ctx' (stored_path ` set (stored_infos (point # points))) healthy)
        (checkHistory avail siphash garbage check points ctx1)"
      proof (rule never_mono [OF R], clarify)
        fix ctx2
        assume "ic_broken ctx2 = ic_broken ctx1"
          and "grows siphash ctx1 ctx2 ?T (list_all good (stored_infos points))"
        with grows_trans [OF G this(2)] True H
        show "list_all good (stored_infos points) = list_all good (stored_infos (point # points)) \<and>
            ic_broken ctx2 = ic_broken ctx \<and>
            grows siphash ctx ctx2 (stored_path ` set (stored_infos (point # points)))
              (list_all good (stored_infos points))"
          unfolding parts by (simp add: image_Un)
      qed
      then show ?thesis using True by simp
    next
      case False
      then have "grows siphash ctx ctx1 (stored_path ` set (stored_infos (point # points))) False"
        using grows_part [OF G, of False] unfolding parts by (simp add: image_Un)
      moreover have "\<not> list_all good (stored_infos (point # points))" using False unfolding parts by simp
      ultimately show ?thesis using False H by simp
    qed
  qed
qed

lemma recursion_spec:
  assumes "cache_ok siphash ctx" "kept ctx" "list_all (\<lambda>n. hashes_ok (node_history n)) (flatten nodes)"
  shows "never internal_errors
    (\<lambda>ctx'. ic_broken ctx' = rev (filter (\<lambda>n. \<not> good_node n) (flatten nodes)) @ ic_broken ctx \<and>
       grows siphash ctx ctx' (node_files (flatten nodes)) (list_all good_node (flatten nodes)))
    (checkIntegrityRecursively avail siphash garbage check nodes ctx)"
  using assms
proof (induction nodes arbitrary: ctx rule: flatten.induct)
  case 1
  then show ?case using grows_refl by (simp add: node_files_def)
next
  case (2 path h pol hist subs nodes)
  let ?n = "PathNode path h pol hist subs"
  have hist: "hashes_ok hist" using "2.prems"(3) by simp
  have files: "node_files (flatten (?n # nodes)) =
      (stored_path ` set (stored_infos hist) \<union> node_files (flatten subs)) \<union> node_files (flatten nodes)"
    by (auto simp: node_files_def)
  have good: "good_node ?n \<longleftrightarrow> list_all good (stored_infos hist)" by (simp add: good_node_def)
  show ?case
    unfolding checkIntegrityRecursively.simps
  proof (rule never_bind [OF history_spec [OF "2.prems"(1,2) hist]], clarify)
    fix ctx1
    assume B: "ic_broken ctx1 = ic_broken ctx"
      and G: "grows siphash ctx ctx1 (stored_path ` set (stored_infos hist)) (list_all good (stored_infos hist))"
    define ctx2 where "ctx2 = (if list_all good (stored_infos hist) then ctx1
      else ctx1\<lparr>ic_broken := ?n # ic_broken ctx1\<rparr>)"
    have G2: "grows siphash ctx ctx2 (stored_path ` set (stored_infos hist)) (good_node ?n)"
      using G grows_broken [OF G] by (cases "list_all good (stored_infos hist)") (simp_all add: ctx2_def good)
    have B2: "ic_broken ctx2 = rev (filter (\<lambda>n. \<not> good_node n) [?n]) @ ic_broken ctx"
      by (simp add: ctx2_def B good)
    have "cache_ok siphash ctx2" "kept ctx2" using G2 by (simp_all add: grows_def)
    moreover have "list_all (\<lambda>n. hashes_ok (node_history n)) (flatten subs)" using "2.prems"(3) by simp
    ultimately have S: "never internal_errors
      (\<lambda>ctx'. ic_broken ctx' = rev (filter (\<lambda>n. \<not> good_node n) (flatten subs)) @ ic_broken ctx2 \<and>
         grows siphash ctx2 ctx' (node_files (flatten subs)) (list_all good_node (flatten subs)))
      (checkIntegrityRecursively avail siphash garbage check subs ctx2)" by (rule "2.IH"(1))
    show "never internal_errors
      (\<lambda>ctx'. ic_broken ctx' = rev (filter (\<lambda>n. \<not> good_node n) (flatten (?n # nodes))) @ ic_broken ctx \<and>
         grows siphash ctx ctx' (node_files (flatten (?n # nodes))) (list_all good_node (flatten (?n # nodes))))
      (let ctx' = if list_all good (stored_infos hist) then ctx1 else ctx1\<lparr>ic_broken := ?n # ic_broken ctx1\<rparr>
       in bindE (checkIntegrityRecursively avail siphash garbage check subs ctx')
            (checkIntegrityRecursively avail siphash garbage check nodes))"
      unfolding Let_def ctx2_def [symmetric]
    proof (rule never_bind [OF S])
      fix ctx3
      assume R3: "ic_broken ctx3 = rev (filter (\<lambda>n. \<not> good_node n) (flatten subs)) @ ic_broken ctx2 \<and>
         grows siphash ctx2 ctx3 (node_files (flatten subs)) (list_all good_node (flatten subs))"
      then have "cache_ok siphash ctx3" "kept ctx3" by (simp_all add: grows_def)
      moreover have "list_all (\<lambda>n. hashes_ok (node_history n)) (flatten nodes)" using "2.prems"(3) by simp
      ultimately have T: "never internal_errors
        (\<lambda>ctx'. ic_broken ctx' = rev (filter (\<lambda>n. \<not> good_node n) (flatten nodes)) @ ic_broken ctx3 \<and>
           grows siphash ctx3 ctx' (node_files (flatten nodes)) (list_all good_node (flatten nodes)))
        (checkIntegrityRecursively avail siphash garbage check nodes ctx3)" by (rule "2.IH"(2))
      show "never internal_errors
        (\<lambda>ctx'. ic_broken ctx' = rev (filter (\<lambda>n. \<not> good_node n) (flatten (?n # nodes))) @ ic_broken ctx \<and>
           grows siphash ctx ctx' (node_files (flatten (?n # nodes))) (list_all good_node (flatten (?n # nodes))))
        (checkIntegrityRecursively avail siphash garbage check nodes ctx3)"
      proof (rule never_mono [OF T])
        fix ctx4
        assume R4: "ic_broken ctx4 = rev (filter (\<lambda>n. \<not> good_node n) (flatten nodes)) @ ic_broken ctx3 \<and>
           grows siphash ctx3 ctx4 (node_files (flatten nodes)) (list_all good_node (flatten nodes))"
        have "grows siphash ctx ctx4 (node_files (flatten (?n # nodes))) (list_all good_node (flatten (?n # nodes)))"
          using grows_trans [OF grows_trans [OF G2 conjunct2 [OF R3]] conjunct2 [OF R4]]
          unfolding files by (simp add: conj_assoc)
        then show "ic_broken ctx4 = rev (filter (\<lambda>n. \<not> good_node n) (flatten (?n # nodes))) @ ic_broken ctx \<and>
           grows siphash ctx ctx4 (node_files (flatten (?n # nodes))) (list_all good_node (flatten (?n # nodes)))"
          using R3 R4 B2 by simp
      qed
    qed
  qed
qed

end

section \<open>The two callbacks\<close>

lemma fold_calls:
  "fold callProgressCallback sizes ctx = ctx\<lparr>ic_calls := ic_calls ctx @ map (\<lambda>n. (n, ic_total ctx)) sizes\<rparr>"
  by (induction sizes arbitrary: ctx) (simp_all add: callProgressCallback_def)

definition stored_at :: "string \<Rightarrow> file_info \<Rightarrow> string" where
  "stored_at repo info = append_path repo (stored_path info)"

text \<open>A stored file is healthy when it is there, has its size, and has its hash.\<close>

definition stored_ok :: "os \<Rightarrow> string \<Rightarrow> file_info \<Rightarrow> bool" where
  "stored_ok sys repo info \<longleftrightarrow>
     (case os_lstat sys (stored_at repo info) of
        Lstat_ok stats \<Rightarrow> st_type stats = Regular_file \<and> st_size stats = file_size info \<and>
          (case os_content sys (stored_at repo info) of
             Some bytes \<Rightarrow> os_blake2b sys [bytes] = file_hash info
           | None \<Rightarrow> False)
      | _ \<Rightarrow> False)"

text \<open>\<open>BLAKE2\<close> hashes bytes, and no file has the block size 0.\<close>

definition sane :: "os \<Rightarrow> bool" where
  "sane sys \<longleftrightarrow> hash_of_bytes sys \<and>
     (\<forall>path stats. os_lstat sys path = Lstat_ok stats \<longrightarrow> 0 < st_blksize stats)"

lemma append_never:
  "never internal_errors (\<lambda>r. view r = append_path repo (stored_path info))
     (strAppendPath avail (strUnterminated repo (length repo)) (str (stored_path info @ [NUL])) a)"
proof (cases "strAppendPath avail (strUnterminated repo (length repo)) (str (stored_path info @ [NUL])) a")
  case (Inl e)
  then show ?thesis
    by (auto simp: strAppendPath_def bindE_eq_Inl size_add_def allocate_def internal_errors_def split: if_splits allocator.splits)
next
  case (Inr r)
  then have "view r = append_path repo (view (str (stored_path info @ [NUL])))"
    using NUL_not_in_stored_path [of info]
    by (auto simp: strAppendPath_Inr strUnterminated_def view_def append_path_def str_def strlen_def)
  moreover have "view (str (stored_path info @ [NUL])) = stored_path info"
    using c_string_whole [OF NUL_not_in_stored_path, of info "[]"] by (simp add: c_string_def)
  ultimately show ?thesis using Inr by simp
qed

lemma storedFileIsHealthy_spec:
  assumes "sane sys"
  shows "never internal_errors
    (\<lambda>(h, ctx'). h = stored_ok sys repo info \<and>
       (\<exists>sizes. sum_list sizes = unat (file_size info) \<and>
          ctx' = ctx\<lparr>ic_calls := ic_calls ctx @ map (\<lambda>n. (n, ic_total ctx)) sizes\<rparr>))
    (storedFileIsHealthy sys repo ctx info (stored_path info))"
    (is "never _ ?P _")
proof -
  let ?path = "stored_at repo info"
  have broken: "?P (False, callProgressCallback (unat (file_size info)) ctx)" if "\<not> stored_ok sys repo info"
    using that by (auto simp: callProgressCallback_def intro!: exI [of _ "[unat (file_size info)]"])
  show ?thesis
    unfolding storedFileIsHealthy_def Let_def
  proof (rule never_bind [OF append_never])
    fix r :: string_view assume "view r = append_path repo (stored_path info)"
    then have r: "view r = ?path" by (simp add: stored_at_def)
    show "never internal_errors ?P
        (bindE (sPathExists sys (view r)) (\<lambda>exists.
          if \<not> exists then Inr (False, callProgressCallback (unat (file_size info)) ctx)
          else bindE (sLStat sys (view r)) (\<lambda>stats.
            if st_type stats \<noteq> Regular_file then Inr (False, callProgressCallback (unat (file_size info)) ctx)
            else if st_size stats \<noteq> file_size info
              then Inr (False, callProgressCallback (unat (file_size info)) ctx)
            else bindE (fileHashCalls sys (view r) stats) (\<lambda>(hash, sizes).
              Inr (file_hash info = hash, fold callProgressCallback sizes ctx)))))"
    proof (cases "os_lstat sys ?path")
      case (Lstat_ok stats)
      then have ex: "sPathExists sys ?path = Inr True" "sLStat sys ?path = Inr stats"
        by (simp_all add: sPathExists_def sLStat_def)
      have bs: "0 < st_blksize stats" and hash: "hash_of_bytes sys"
        using assms Lstat_ok by (auto simp: sane_def)
      show ?thesis
      proof (cases "st_type stats = Regular_file \<and> st_size stats = file_size info")
        case False
        then have "\<not> stored_ok sys repo info" using Lstat_ok by (auto simp: stored_ok_def)
        from broken [OF this] show ?thesis using False ex by (auto simp: r)
      next
        case True
        show ?thesis
        proof (cases "os_content sys ?path")
          case None
          then have "fileHashCalls sys ?path stats = Inl (File_access_failed ?path)"
            by (simp add: fileHashCalls_def sFopenRead_def)
          then show ?thesis using True ex by (auto simp: r internal_errors_def)
        next
          case (Some bytes)
          obtain sizes where F: "sum_list sizes = unat (st_size stats)" "fileHashCalls sys ?path stats =
              (if length bytes < unat (st_size stats) then Inl (End_of_file ?path)
               else if length bytes > unat (st_size stats) then Inl (File_changed ?path)
               else Inr (os_blake2b sys [bytes], sizes))"
            using fileHashCalls_bytes [OF hash bs Some] by blast
          have "stored_ok sys repo info \<longleftrightarrow> file_hash info = os_blake2b sys [bytes]"
            using True Lstat_ok Some by (auto simp: stored_ok_def)
          then show ?thesis using True ex F by (auto simp: r internal_errors_def fold_calls)
        qed
      qed
    next
      case Lstat_missing
      then have "\<not> stored_ok sys repo info" by (simp add: stored_ok_def)
      from broken [OF this] show ?thesis using Lstat_missing by (simp add: r sPathExists_def)
    next
      case Lstat_failed
      then show ?thesis by (auto simp: r sPathExists_def internal_errors_def)
    qed
  qed
qed

interpretation dry: file_check addToTotalFileSize "\<lambda>info. True" "\<lambda>ctx. unat (ic_total ctx)" "\<lambda>ctx. ic_calls ctx = []"
proof unfold_locales
  fix info :: file_info and ctx :: integrity_context
  assume "ic_calls ctx = []"
  then show "never internal_errors (\<lambda>(h, ctx'). h = True \<and> ic_cache ctx' = ic_cache ctx \<and> ic_broken ctx' = ic_broken ctx \<and>
      unat (ic_total ctx') = unat (ic_total ctx) + unat (file_size info) \<and> ic_calls ctx' = [])
    (addToTotalFileSize ctx info (stored_path info))"
    using sUint64Add_Inr [of "ic_total ctx" "file_size info"]
    by (cases "sUint64Add (ic_total ctx) (file_size info)")
      (auto simp: addToTotalFileSize_def internal_errors_def unat_add_u64 sUint64Add_def split: if_splits)
qed simp_all

text \<open>The real check, for an environment that is sane, and while the total does not change.\<close>

definition progress :: "integrity_context \<Rightarrow> nat" where
  "progress ctx = sum_list (map fst (ic_calls ctx))"

interpretation real: file_check "storedFileIsHealthy sys repo" "stored_ok sys repo" progress
  "\<lambda>ctx. sane sys \<and> ic_total ctx = total \<and> (\<forall>c \<in> set (ic_calls ctx). snd c = total)"
  for sys repo total
proof unfold_locales
  fix info :: file_info and ctx :: integrity_context
  assume K: "sane sys \<and> ic_total ctx = total \<and> (\<forall>c \<in> set (ic_calls ctx). snd c = total)"
  then have "sane sys" by simp
  from K show "never internal_errors (\<lambda>(h, ctx'). h = stored_ok sys repo info \<and> ic_cache ctx' = ic_cache ctx \<and>
      ic_broken ctx' = ic_broken ctx \<and> progress ctx' = progress ctx + unat (file_size info) \<and>
      sane sys \<and> ic_total ctx' = total \<and> (\<forall>c \<in> set (ic_calls ctx'). snd c = total))
    (storedFileIsHealthy sys repo ctx info (stored_path info))"
    by (intro never_mono [OF storedFileIsHealthy_spec [OF \<open>sane sys\<close>]]) (auto simp: progress_def comp_def)
next
  fix i j :: file_info
  assume "stored_path i = stored_path j" "length (file_hash i) = FILE_HASH_SIZE" "length (file_hash j) = FILE_HASH_SIZE"
  then have "file_hash i = file_hash j" "file_size i = file_size j" using stored_path_inj by blast+
  moreover have "stored_at repo i = stored_at repo j"
    using \<open>stored_path i = stored_path j\<close> by (simp add: stored_at_def)
  ultimately show "stored_ok sys repo i = stored_ok sys repo j"
    unfolding stored_ok_def by (simp split: lstat_result.split option.split)
qed (simp_all add: progress_def)

section \<open>The check\<close>

definition node_healthy :: "os \<Rightarrow> string \<Rightarrow> path_node \<Rightarrow> bool" where
  "node_healthy sys repo n \<longleftrightarrow> list_all (stored_ok sys repo) (stored_infos (node_history n))"

definition attached :: "string \<Rightarrow> nat list \<Rightarrow> integrity_context \<Rightarrow> integrity_context" where
  "attached garbage rands ctx = ctx\<lparr>ic_buffer := take 1 garbage, ic_cache := emptyTable rands\<rparr>"

lemma attach_fields:
  "ic_total (attached garbage r ctx) = ic_total ctx"
  "ic_calls (attached garbage r ctx) = ic_calls ctx"
  "ic_broken (attached garbage r ctx) = ic_broken ctx"
  "ic_cache (attached garbage r ctx) = emptyTable r"
  by (simp_all add: attached_def)

lemma attach_then:
  assumes "never internal_errors P (f (attached garbage r ctx))"
  shows "never internal_errors P (bindE (attachDisposableRegion avail garbage r ctx) f)"
proof (rule never_bind)
  show "never internal_errors (\<lambda>c. c = attached garbage r ctx) (attachDisposableRegion avail garbage r ctx)"
    unfolding attachDisposableRegion_def
    by (rule never_bind [OF strTableNew_empty]) (simp add: attached_def)
qed (use assms in simp)

text \<open>
  C8: the integrity check lists exactly the nodes that refer to a stored file that is missing, has
  another size or another hash, whatever the cache holds, and never writes behind the path buffer.
  Every call of the progress callback reports the same total. The reported blocks never add up to
  more than this total, and to exactly this total if no node is broken.
\<close>

theorem checkIntegrity_exact:
  assumes "sane sys" and "list_all (\<lambda>n. hashes_ok (node_history n)) (flatten (paths md))"
  shows "never internal_errors
    (\<lambda>ctx. ic_broken ctx = rev (filter (\<lambda>n. \<not> node_healthy sys repo n) (flatten (paths md))) \<and>
       (\<forall>c \<in> set (ic_calls ctx). snd c = ic_total ctx) \<and>
       sum_list (map fst (ic_calls ctx)) \<le> unat (ic_total ctx) \<and>
       (ic_broken ctx = [] \<longrightarrow> sum_list (map fst (ic_calls ctx)) = unat (ic_total ctx)))
    (checkIntegrity sys siphash garbage rands md repo)"
proof -
  let ?ctx = "attached garbage (fst rands)
    \<lparr>ic_broken = [], ic_buffer = [], ic_cache = emptyTable [], ic_total = 0, ic_calls = []\<rparr>"
  let ?F = "dry.node_files (flatten (paths md))"
  have fresh: "table_ok siphash (emptyTable r :: bool string_table)"
    "strTableGet siphash (emptyTable r :: bool string_table) k = None" for r k
    using emptyTable_ok by blast+
  then have new: "dom (strTableGet siphash (emptyTable r :: bool string_table)) = {}" for r by auto
  have dry: "dry.cache_ok siphash ?ctx"
    by (simp add: dry.cache_ok_def attach_fields fresh)
  have kept: "ic_calls ?ctx = []" by (simp add: attach_fields)
  show ?thesis
    unfolding checkIntegrity_def Let_def
  proof (rule attach_then, rule never_bind [OF dry.recursion_spec [OF dry kept assms(2)]])
    fix ctx
    assume D: "ic_broken ctx = rev (filter (\<lambda>n. \<not> dry.good_node n) (flatten (paths md))) @ ic_broken ?ctx \<and>
      dry.grows siphash ?ctx ctx ?F (list_all dry.good_node (flatten (paths md)))"
    have all: "dry.good_node n" for n by (simp add: dry.good_node_def list_all_iff)
    then have "list_all dry.good_node (flatten (paths md))" by (simp add: list_all_iff)
    with D all have total: "unat (ic_total ctx) = sum size_at ?F" and ctx: "ic_broken ctx = []" "ic_calls ctx = []"
      by (auto simp: dry.grows_def dry.visited_def new attach_fields)
    let ?real = "attached garbage (snd rands) ctx"
    have R: "real.cache_ok sys repo siphash ?real"
      by (simp add: real.cache_ok_def attach_fields fresh)
    have K: "sane sys \<and> ic_total ?real = ic_total ctx \<and> (\<forall>c \<in> set (ic_calls ?real). snd c = ic_total ctx)"
      using assms(1) ctx by (simp add: attach_fields)
    show "never internal_errors
      (\<lambda>ctx. ic_broken ctx = rev (filter (\<lambda>n. \<not> node_healthy sys repo n) (flatten (paths md))) \<and>
         (\<forall>c \<in> set (ic_calls ctx). snd c = ic_total ctx) \<and>
         sum_list (map fst (ic_calls ctx)) \<le> unat (ic_total ctx) \<and>
         (ic_broken ctx = [] \<longrightarrow> sum_list (map fst (ic_calls ctx)) = unat (ic_total ctx)))
      (bindE (attachDisposableRegion (os_memory sys) garbage (snd rands) ctx)
        (checkIntegrityRecursively (os_memory sys) siphash garbage (storedFileIsHealthy sys repo) (paths md)))"
    proof (rule attach_then, rule never_mono [OF real.recursion_spec [OF R K assms(2)]])
      fix ctx'
      assume C: "ic_broken ctx' = rev (filter (\<lambda>n. \<not> real.good_node sys repo n) (flatten (paths md))) @ ic_broken ?real \<and>
        real.grows sys repo (ic_total ctx) siphash ?real ctx' ?F (list_all (real.good_node sys repo) (flatten (paths md)))"
      have good: "real.good_node sys repo n = node_healthy sys repo n" for n
        by (simp add: real.good_node_def node_healthy_def)
      have G: "ic_total ctx' = ic_total ctx" "\<forall>c \<in> set (ic_calls ctx'). snd c = ic_total ctx"
        "real.visited siphash ctx' \<subseteq> ?F" "progress ctx' = sum size_at (real.visited siphash ctx')"
        "list_all (node_healthy sys repo) (flatten (paths md)) \<Longrightarrow> real.visited siphash ctx' = ?F"
        using conjunct2 [OF C] unfolding real.grows_def good
        by (auto simp: real.visited_def new attach_fields progress_def ctx)
      have "finite ?F" by (simp add: dry.node_files_def)
      then have "progress ctx' \<le> unat (ic_total ctx)" using G(3,4) by (simp add: total sum_mono2)
      moreover have "progress ctx' = unat (ic_total ctx)" if "ic_broken ctx' = []"
      proof -
        have "filter (\<lambda>n. \<not> node_healthy sys repo n) (flatten (paths md)) = []"
          using that conjunct1 [OF C] by (simp add: good)
        then have "list_all (node_healthy sys repo) (flatten (paths md))"
          by (simp add: filter_empty_conv list_all_iff)
        then show ?thesis using G(4,5) by (simp add: total)
      qed
      moreover have "ic_broken ctx' = rev (filter (\<lambda>n. \<not> node_healthy sys repo n) (flatten (paths md)))"
        using conjunct1 [OF C] by (simp add: good attach_fields ctx)
      ultimately show "ic_broken ctx' = rev (filter (\<lambda>n. \<not> node_healthy sys repo n) (flatten (paths md))) \<and>
         (\<forall>c \<in> set (ic_calls ctx'). snd c = ic_total ctx') \<and>
         sum_list (map fst (ic_calls ctx')) \<le> unat (ic_total ctx') \<and>
         (ic_broken ctx' = [] \<longrightarrow> sum_list (map fst (ic_calls ctx')) = unat (ic_total ctx'))"
        using G(1,2) by (simp add: progress_def)
    qed
  qed
qed

section \<open>A repository with a broken file\<close>

text \<open>Two files of 30 bytes, of which one has been overwritten in the repository.\<close>

definition integrity_info :: "char \<Rightarrow> file_info" where
  "integrity_info c = \<lparr>permission_bits = 0, modification_time = 0, file_size = 30,
     file_hash = replicate 20 (byte_of_char c), slot = 0\<rparr>"

definition integrity_os :: os where
  "integrity_os = hash_example_os\<lparr>
     os_lstat := (\<lambda>_. Lstat_ok \<lparr>st_type = Regular_file, st_mode = 0, st_uid = 0, st_gid = 0, st_mtime = 0,
       st_size = 30, st_blksize = 16\<rparr>),
     os_content := (\<lambda>_. Some (replicate 30 (CHR ''x'')))\<rparr>"

definition integrity_node :: "char \<Rightarrow> path_node" where
  "integrity_node c = PathNode [CHR ''/'', c] BH_none BPOL_copy
     [\<lparr>point_backup = Hist 0, state = PST_regular_file 0 0 (integrity_info c)\<rparr>] []"

definition integrity_metadata :: metadata where
  "integrity_metadata = metadataNew\<lparr>paths := [integrity_node (CHR ''x''), integrity_node (CHR ''y'')]\<rparr>"

lemma integrity_files:
  "stored_infos (node_history (integrity_node c)) = [integrity_info c]"
  by (simp add: integrity_node_def stored_info_def integrity_info_def FILE_HASH_SIZE_def)

lemma integrity_flat: "flatten (paths integrity_metadata) = [integrity_node (CHR ''x''), integrity_node (CHR ''y'')]"
  by (simp add: integrity_metadata_def integrity_node_def)

lemma integrity_stored: "stored_ok integrity_os repo (integrity_info c) \<longleftrightarrow> c = CHR ''x''"
proof -
  have "os_blake2b integrity_os [replicate 30 (CHR ''x'')] = replicate 20 (byte_of_char (CHR ''x''))"
    by (simp add: integrity_os_def hash_example_os_def FILE_HASH_SIZE_def)
  moreover have "byte_of_char (CHR ''x'') = byte_of_char c \<longleftrightarrow> c = CHR ''x''" by auto
  ultimately show ?thesis
    by (auto simp: stored_ok_def integrity_os_def integrity_info_def hash_example_os_def)
qed

theorem checkIntegrity_exact_witness:
  "never internal_errors (\<lambda>ctx. ic_broken ctx = [integrity_node (CHR ''y'')])
     (checkIntegrity integrity_os (\<lambda>_ _. 0) [] ([], []) integrity_metadata ''repo'')"
proof -
  have "sane integrity_os"
    by (auto simp: sane_def hash_of_bytes_def integrity_os_def hash_example_os_def min_def)
  moreover have "list_all (\<lambda>n. hashes_ok (node_history n)) (flatten (paths integrity_metadata))"
    by (simp add: integrity_flat hashes_ok_def integrity_files) (simp add: integrity_info_def FILE_HASH_SIZE_def)
  ultimately show ?thesis
    by (rule never_mono [OF checkIntegrity_exact])
      (simp add: integrity_flat node_healthy_def integrity_files integrity_stored)
qed

end
