(* ===== verification/Directory_Trees.thy ===== *)
theory Directory_Trees
  imports Str File_System "HOL-Library.Sublist"
begin

text \<open>
  Removing directories recursively: \<open>sRemoveRecursivelyIf()\<close> of \<open>src/safe-wrappers.c\<close>. A directory is
  the list of its entries in the order of \<open>readdir()\<close>, without \<open>.\<close> and \<open>..\<close>, each with what \<open>lstat()\<close>
  says of it. A function gives back what is left. The callback that decides what is removed is an
  argument, with its user data as state; its contract is the locale \<open>removal\<close>.
\<close>

section \<open>The code's functions\<close>

datatype fs_entry =
    File_entry (entry_name: string) (entry_stat: file_stat)
  | Dir_entry (entry_name: string) (entry_stat: file_stat) (entry_list: "fs_entry list")

type_synonym 'c should_remove = "string \<Rightarrow> file_stat \<Rightarrow> 'c \<Rightarrow> (bool \<times> 'c) result"

text \<open>
  \<open>remove()\<close> fails for a directory that is not empty; for everything else the parameter \<open>removable\<close>
  says whether the system allows it. The result is what is left.
\<close>

type_synonym removable = "string \<Rightarrow> bool"

definition sRemove_entry :: "removable \<Rightarrow> string \<Rightarrow> fs_entry \<Rightarrow> fs_entry list result" where
  "sRemove_entry removable path e =
     (case e of Dir_entry _ _ (_ # _) \<Rightarrow> Inl (Remove_failed path)
      | _ \<Rightarrow> if removable path then Inr [] else Inl (Remove_failed path))"

definition alwaysReturnTrue :: "'c should_remove" where
  "alwaysReturnTrue path stats user_data = Inr (True, user_data)"

text \<open>
  Whether the entry has been removed, and what is left of it. The loop over a directory also gives
  back whether the directory is still needed.
\<close>

fun removeRecursivelyIf ::
  "removable \<Rightarrow> 'c should_remove \<Rightarrow> string \<Rightarrow> fs_entry \<Rightarrow> 'c \<Rightarrow> (bool \<times> fs_entry list \<times> 'c) result"
  and removeEntries ::
  "removable \<Rightarrow> 'c should_remove \<Rightarrow> string \<Rightarrow> bool \<Rightarrow> fs_entry list \<Rightarrow> 'c \<Rightarrow> (bool \<times> fs_entry list \<times> 'c) result" where
  "removeRecursivelyIf removable should_remove path (File_entry n stats) ctx =
     bindE (should_remove path stats ctx) (\<lambda>(remove, ctx).
       if remove then
         bindE (sRemove_entry removable path (File_entry n stats)) (\<lambda>left. Inr (True, left, ctx))
       else Inr (False, [File_entry n stats], ctx))"
| "removeRecursivelyIf removable should_remove path (Dir_entry n stats entries) ctx =
     bindE (removeEntries removable should_remove path False entries ctx) (\<lambda>(current_path_is_needed, entries, ctx).
       if current_path_is_needed then Inr (False, [Dir_entry n stats entries], ctx)
       else bindE (should_remove path stats ctx) (\<lambda>(remove, ctx).
         if remove then
           bindE (sRemove_entry removable path (Dir_entry n stats entries)) (\<lambda>left. Inr (True, left, ctx))
         else Inr (False, [Dir_entry n stats entries], ctx)))"
| "removeEntries removable should_remove path needed [] ctx = Inr (needed, [], ctx)"
| "removeEntries removable should_remove path needed (e # es) ctx =
     bindE (removeRecursivelyIf removable should_remove (append_path path (entry_name e)) e ctx) (\<lambda>(removed, left, ctx).
     bindE (removeEntries removable should_remove path (if removed then needed else True) es ctx) (\<lambda>(needed, rest, ctx).
       Inr (needed, left @ rest, ctx)))"

definition sRemoveRecursivelyIf ::
  "removable \<Rightarrow> 'c should_remove \<Rightarrow> string \<Rightarrow> fs_entry \<Rightarrow> 'c \<Rightarrow> (fs_entry list \<times> 'c) result" where
  "sRemoveRecursivelyIf removable should_remove path e ctx =
     bindE (removeRecursivelyIf removable should_remove path e ctx) (\<lambda>(removed, left, ctx). Inr (left, ctx))"

definition sRemoveRecursively :: "removable \<Rightarrow> string \<Rightarrow> fs_entry \<Rightarrow> fs_entry list result" where
  "sRemoveRecursively removable path e =
     bindE (sRemoveRecursivelyIf removable alwaysReturnTrue path e ()) (\<lambda>(left, ctx). Inr left)"

section \<open>What is left\<close>

text \<open>The items below a directory: the names on the way to them, and what \<open>lstat()\<close> says.\<close>

fun items :: "string list \<Rightarrow> fs_entry list \<Rightarrow> (string list \<times> file_stat) list" where
  "items at [] = []"
| "items at (File_entry n stats # es) = (at @ [n], stats) # items at es"
| "items at (Dir_entry n stats entries # es) =
     (at @ [n], stats) # items (at @ [n]) entries @ items at es"

text \<open>No name occurs twice in a directory.\<close>

fun entries_ok :: "fs_entry list \<Rightarrow> bool" where
  "entries_ok [] \<longleftrightarrow> True"
| "entries_ok (File_entry n stats # es) \<longleftrightarrow> n \<notin> entry_name ` set es \<and> entries_ok es"
| "entries_ok (Dir_entry n stats entries # es) \<longleftrightarrow>
     n \<notin> entry_name ` set es \<and> entries_ok entries \<and> entries_ok es"

text \<open>A directory without everything that is neither wanted nor contains something wanted.\<close>

fun prune :: "(string list \<Rightarrow> bool) \<Rightarrow> string list \<Rightarrow> fs_entry list \<Rightarrow> fs_entry list" where
  "prune wanted at [] = []"
| "prune wanted at (File_entry n stats # es) =
     (if wanted (at @ [n]) then [File_entry n stats] else []) @ prune wanted at es"
| "prune wanted at (Dir_entry n stats entries # es) =
     (let left = prune wanted (at @ [n]) entries
      in (if left \<noteq> [] \<or> wanted (at @ [n]) then [Dir_entry n stats left] else [])) @ prune wanted at es"

lemma prune_append: "prune wanted at (es @ es') = prune wanted at es @ prune wanted at es'"
  by (induction wanted at es rule: prune.induct) simp_all

lemma items_append: "items at (es @ es') = items at es @ items at es'"
  by (induction at es rule: items.induct) simp_all

lemma items_below: "(p, stats) \<in> set (items at es) \<Longrightarrow> \<exists>n \<in> entry_name ` set es. \<exists>q. p = at @ n # q"
proof (induction at es rule: items.induct)
  case (3 at n st entries es)
  then show ?case by fastforce
qed auto

lemma prefix_other:
  assumes "(p, s) \<in> set (items (at @ [n]) es) \<or> p = at @ [n]" "(q, t) \<in> set (items at es')" "n \<notin> entry_name ` set es'"
  shows "\<not> prefix p q" "\<not> prefix q p"
proof -
  obtain p' where p: "p = at @ n # p'" using assms(1) items_below [of p s "at @ [n]" es] by auto
  obtain m q' where "m \<in> entry_name ` set es'" "q = at @ m # q'" using items_below [OF assms(2)] by blast
  then have "m \<noteq> n" "q = at @ m # q'" using assms(3) by auto
  with p show "\<not> prefix p q" "\<not> prefix q p" by auto
qed

text \<open>The items that are wanted, or that lead to a wanted one.\<close>

definition needed_items :: "(string list \<Rightarrow> bool) \<Rightarrow> (string list \<times> file_stat) set \<Rightarrow> (string list \<times> file_stat) set" where
  "needed_items wanted A = {(p, s) \<in> A. \<exists>q t. (q, t) \<in> A \<and> prefix p q \<and> wanted q}"

lemma needed_iff:
  "(p, s) \<in> needed_items wanted A \<longleftrightarrow> (p, s) \<in> A \<and> (\<exists>q. (\<exists>t. (q, t) \<in> A) \<and> prefix p q \<and> wanted q)"
  unfolding needed_items_def by blast

lemma needed_union:
  assumes "\<And>p s q t. (p, s) \<in> A \<Longrightarrow> (q, t) \<in> B \<Longrightarrow> \<not> prefix p q \<and> \<not> prefix q p"
  shows "needed_items wanted (A \<union> B) = needed_items wanted A \<union> needed_items wanted B"
  using assms unfolding needed_items_def by blast

lemma needed_top:
  assumes "\<And>q t. (q, t) \<in> A \<Longrightarrow> prefix p q \<and> \<not> prefix q p"
  shows "needed_items wanted (insert (p, s) A) =
    (if needed_items wanted A \<noteq> {} \<or> wanted p then insert (p, s) (needed_items wanted A) else {})"
proof -
  have some: "needed_items wanted A \<noteq> {} \<longleftrightarrow> (\<exists>q t. (q, t) \<in> A \<and> wanted q)"
    unfolding needed_items_def by blast
  show ?thesis
  proof (cases "needed_items wanted A \<noteq> {} \<or> wanted p")
    case True
    then have "(p, s) \<in> needed_items wanted (insert (p, s) A)"
      using some assms unfolding needed_items_def by blast
    moreover have "needed_items wanted (insert (p, s) A) - {(p, s)} = needed_items wanted A - {(p, s)}"
    proof (rule set_eqI)
      fix x :: "string list \<times> file_stat"
      obtain q t where x: "x = (q, t)" by (cases x)
      show "x \<in> needed_items wanted (insert (p, s) A) - {(p, s)} \<longleftrightarrow> x \<in> needed_items wanted A - {(p, s)}"
      proof (cases "(q, t) \<in> A")
        case True
        then have "\<not> prefix q p" using assms by blast
        then have "(\<exists>r. (\<exists>u. (r, u) \<in> insert (p, s) A) \<and> prefix q r \<and> wanted r) \<longleftrightarrow>
            (\<exists>r. (\<exists>u. (r, u) \<in> A) \<and> prefix q r \<and> wanted r)" by blast
        then show ?thesis using True by (simp only: x needed_iff Diff_iff insert_iff) simp
      qed (simp add: x needed_iff)
    qed
    moreover have "needed_items wanted A \<subseteq> A" by (auto simp: needed_items_def)
    ultimately have "needed_items wanted (insert (p, s) A) = insert (p, s) (needed_items wanted A)" by blast
    then show ?thesis using True by simp
  next
    case False
    then have "needed_items wanted (insert (p, s) A) = {}" using some unfolding needed_items_def by blast
    then show ?thesis using False by simp
  qed
qed

lemma items_empty: "items at es = [] \<longleftrightarrow> es = []"
  by (cases "(at, es)" rule: items.cases) simp_all

lemma prune_items:
  "entries_ok es \<Longrightarrow> set (items at (prune wanted at es)) = needed_items wanted (set (items at es))"
proof (induction wanted at es rule: prune.induct)
  case (1 wanted at)
  then show ?case by (simp add: needed_items_def)
next
  case (2 wanted at n st es)
  have ok: "entries_ok es" "n \<notin> entry_name ` set es" using 2(2) by auto
  have "set (items at (prune wanted at (File_entry n st # es))) =
      needed_items wanted {(at @ [n], st)} \<union> needed_items wanted (set (items at es))"
    using 2(1) [OF ok(1)] by (auto simp: items_append needed_items_def)
  also have "\<dots> = needed_items wanted ({(at @ [n], st)} \<union> set (items at es))"
    by (rule needed_union [symmetric]) (use prefix_other [of _ st at n "[]" _ _ es] ok(2) in auto)
  finally show ?case by simp
next
  case (3 wanted at n st entries es)
  let ?I = "set (items (at @ [n]) entries)" and ?left = "prune wanted (at @ [n]) entries"
  have ok: "entries_ok entries" "entries_ok es" "n \<notin> entry_name ` set es" using "3.prems" by auto
  have left: "?left \<noteq> [] \<longleftrightarrow> needed_items wanted ?I \<noteq> {}"
    using items_empty [of "at @ [n]" ?left] by (simp flip: "3.IH"(1) [OF ok(1)])
  have "set (items at (prune wanted at (Dir_entry n st entries # es))) =
      (if needed_items wanted ?I \<noteq> {} \<or> wanted (at @ [n])
       then insert (at @ [n], st) (needed_items wanted ?I) else {}) \<union> needed_items wanted (set (items at es))"
    by (simp only: prune.simps Let_def items_append left if_distrib [of "items at"] if_distrib [of set]
        items.simps set_append list.set "3.IH"(1) [OF ok(1)] "3.IH"(2) [OF ok(2)] append_Nil2 sup_bot_right)
  also have "\<dots> = needed_items wanted (insert (at @ [n], st) ?I) \<union> needed_items wanted (set (items at es))"
    by (subst needed_top) (auto dest: items_below)
  also have "\<dots> = needed_items wanted (insert (at @ [n], st) ?I \<union> set (items at es))"
  proof (rule needed_union [symmetric])
    fix p s q t assume "(p, s) \<in> insert (at @ [n], st) ?I" and B: "(q, t) \<in> set (items at es)"
    then have "(p, s) \<in> ?I \<or> p = at @ [n]" by auto
    from prefix_other [OF this B ok(3)] show "\<not> prefix p q \<and> \<not> prefix q p" by blast
  qed
  finally show ?case by simp
qed

section \<open>What a callback promises\<close>

text \<open>The path of an item, as the callback gets it.\<close>

definition item_path :: "string \<Rightarrow> string list \<Rightarrow> string" where
  "item_path dir names = dir @ join_path names"

lemma item_path_snoc [simp]: "item_path dir (names @ [n]) = append_path (item_path dir names) n"
  by (simp add: item_path_def join_path_snoc) (simp add: append_path_def)

definition weight :: "(file_stat \<Rightarrow> nat) \<Rightarrow> (string list \<times> file_stat) list \<Rightarrow> nat" where
  "weight weigh xs = sum_list (map (weigh \<circ> snd) xs)"

lemma weight_simps [simp]:
  "weight weigh [] = 0" "weight weigh ((p, s) # xs) = weigh s + weight weigh xs"
  "weight weigh (xs @ ys) = weight weigh xs + weight weigh ys"
  by (simp_all add: weight_def)

text \<open>
  The callback decides by the path whether something is wanted. Whatever is not is added to a total,
  by its weight. The errors of \<open>E\<close> never occur.
\<close>

text \<open>The errors that do not occur: a failing \<open>remove()\<close> only where the system does not allow it.\<close>

definition avoided :: "removable \<Rightarrow> nb_error set \<Rightarrow> nb_error set" where
  "avoided removable E = (E \<union> range Remove_failed) - Remove_failed ` {path. \<not> removable path}"

locale removal =
  fixes ask :: "'c should_remove"
    and wanted :: "string \<Rightarrow> bool"
    and total :: "'c \<Rightarrow> nat"
    and weigh :: "file_stat \<Rightarrow> nat"
    and E :: "nb_error set"
  assumes ask_spec: "never (E \<union> range Remove_failed) (\<lambda>(remove, ctx').
      remove = (\<not> wanted path) \<and> total ctx' = total ctx + (if remove then weigh stats else 0)) (ask path stats ctx)"
begin

lemma sRemove_entry_never:
  "never (avoided removable E) (\<lambda>left. left = []) (sRemove_entry removable path (File_entry n stats))"
  "never (avoided removable E) (\<lambda>left. left = []) (sRemove_entry removable path (Dir_entry n stats []))"
  by (simp_all add: sRemove_entry_def avoided_def)

lemma ask_never:
  "never (avoided removable E) (\<lambda>(remove, ctx').
      remove = (\<not> wanted path) \<and> total ctx' = total ctx + (if remove then weigh stats else 0)) (ask path stats ctx)"
  using ask_spec [of path ctx stats] by (auto simp: never_def avoided_def split: sum.splits)

lemma entries_spec:
  "never (avoided removable E) (\<lambda>(needed', left, ctx').
      left = prune (\<lambda>names. wanted (item_path dir names)) at es \<and> needed' = (needed \<or> left \<noteq> []) \<and>
      total ctx' + weight weigh (items at left) = total ctx + weight weigh (items at es))
    (removeEntries removable ask (item_path dir at) needed es ctx)"
proof (induction at es arbitrary: needed ctx rule: items.induct)
  case (2 at n stats es)
  have "never (avoided removable E) (\<lambda>(removed, left, ctx').
      left = prune (\<lambda>names. wanted (item_path dir names)) at [File_entry n stats] \<and> removed = (left = []) \<and>
      total ctx' + weight weigh (items at left) = total ctx + weigh stats)
    (removeRecursivelyIf removable ask (append_path (item_path dir at) n) (File_entry n stats) ctx)"
    unfolding removeRecursivelyIf.simps
    by (rule never_bind [OF ask_never]) (auto intro!: never_bind [OF sRemove_entry_never(1)])
  then show ?case
    unfolding removeEntries.simps fs_entry.sel
    by (rule never_bind) (force intro!: never_bind [OF 2] simp: items_append)
next
  case (3 at n stats entries es)
  have D: "never (avoided removable E) (\<lambda>(removed, left, ctx').
      left = prune (\<lambda>names. wanted (item_path dir names)) at [Dir_entry n stats entries] \<and> removed = (left = []) \<and>
      total ctx' + weight weigh (items at left) = total ctx + weight weigh (items at [Dir_entry n stats entries]))
    (removeRecursivelyIf removable ask (append_path (item_path dir at) n) (Dir_entry n stats entries) ctx)"
    unfolding removeRecursivelyIf.simps
  proof (rule never_bind [OF "3.IH"(1) [of False ctx, unfolded item_path_snoc]], clarify)
    fix ctx1
    let ?left = "prune (\<lambda>names. wanted (item_path dir names)) (at @ [n]) entries"
    assume T: "total ctx1 + weight weigh (items (at @ [n]) ?left) = total ctx + weight weigh (items (at @ [n]) entries)"
    show "never (avoided removable E) (\<lambda>(removed, left, ctx').
        left = prune (\<lambda>names. wanted (item_path dir names)) at [Dir_entry n stats entries] \<and> removed = (left = []) \<and>
        total ctx' + weight weigh (items at left) = total ctx + weight weigh (items at [Dir_entry n stats entries]))
      (if False \<or> ?left \<noteq> [] then Inr (False, [Dir_entry n stats ?left], ctx1)
       else bindE (ask (append_path (item_path dir at) n) stats ctx1) (\<lambda>(remove, ctx).
         if remove then bindE (sRemove_entry removable (append_path (item_path dir at) n) (Dir_entry n stats ?left))
           (\<lambda>left. Inr (True, left, ctx))
         else Inr (False, [Dir_entry n stats ?left], ctx)))"
    proof (cases "?left = []")
      case True
      then show ?thesis
        using T by (auto simp: Let_def intro!: never_bind [OF ask_never] never_bind [OF sRemove_entry_never(2)])
    qed (use T in \<open>simp add: Let_def\<close>)
  qed
  then show ?case
    unfolding removeEntries.simps fs_entry.sel
    by (rule never_bind) (force intro!: never_bind [OF "3.IH"(2)] simp: items_append Let_def)
qed simp

lemma remove_spec:
  "never (avoided removable E) (\<lambda>(left, ctx').
      left = prune (\<lambda>names. wanted (item_path dir names)) at [e] \<and>
      total ctx' + weight weigh (items at left) = total ctx + weight weigh (items at [e]))
    (sRemoveRecursivelyIf removable ask (append_path (item_path dir at) (entry_name e)) e ctx)"
  using entries_spec [where dir = dir and at = at and es = "[e]" and needed = False and ctx = ctx and removable = removable]
  by (cases "removeRecursivelyIf removable ask (append_path (item_path dir at) (entry_name e)) e ctx")
    (auto simp: sRemoveRecursivelyIf_def split: prod.splits)

end

section \<open>Removing everything\<close>

interpretation everything: removal alwaysReturnTrue "\<lambda>_. False" "\<lambda>_. 0" "\<lambda>_. 0" UNIV
  by unfold_locales (simp add: alwaysReturnTrue_def)

lemma prune_nothing: "prune (\<lambda>_. False) at es = []"
  by (induction "\<lambda>_ :: string list. False" at es rule: prune.induct) simp_all

lemma sRemoveRecursively_all: "sRemoveRecursively (\<lambda>_. True) (append_path dir (entry_name e)) e = Inr []"
proof -
  have "item_path dir [] = dir" by (simp add: item_path_def join_path_def)
  then show ?thesis
    using everything.remove_spec [where removable = "\<lambda>_. True" and at = "[]" and e = e and dir = dir and ctx = "()"]
    by (cases "sRemoveRecursivelyIf (\<lambda>_. True) alwaysReturnTrue (append_path dir (entry_name e)) e ()")
      (auto simp: avoided_def sRemoveRecursively_def prune_nothing)
qed

end
