(* ===== verification/Garbage_Collector.thy ===== *)
theory Garbage_Collector
  imports Stored_Files Directory_Trees
begin

text \<open>
  The garbage collector: \<open>src/garbage-collector.c\<close>. The repository is the list of the entries of its
  directory; the result is what is left of it, with the statistics.
\<close>

section \<open>The code's functions\<close>

text \<open>
  The table with the static path buffer; the data of the table is a pointer that is not \<open>NULL\<close>.
\<close>

type_synonym gc_table = "string \<times> unit string_table"

text \<open>The loop over the history of a node.\<close>

fun populatePoints ::
  "memory \<Rightarrow> siphash_fun \<Rightarrow> string \<Rightarrow> path_history list \<Rightarrow> gc_table \<Rightarrow> gc_table result" where
  "populatePoints avail siphash garbage [] table = Inr table"
| "populatePoints avail siphash garbage (point # points) (buffer, table) =
     bindE (case state point of
        PST_regular_file _ _ info \<Rightarrow>
          if unat (file_size info) \<le> FILE_HASH_SIZE then Inr (buffer, table)
          else
            bindE (repoBuildRegularFilePath garbage buffer info) (\<lambda>buffer.
              if strTableGet siphash table (view (str buffer)) = None then
                bindE (strCopy avail (str buffer) ALT_region) (\<lambda>key.
                bindE (strTableMap avail siphash (view key) () table) (\<lambda>table. Inr (buffer, table)))
              else Inr (buffer, table))
      | _ \<Rightarrow> Inr (buffer, table))
     (populatePoints avail siphash garbage points)"

fun populateTableRecursively ::
  "memory \<Rightarrow> siphash_fun \<Rightarrow> string \<Rightarrow> path_node list \<Rightarrow> gc_table \<Rightarrow> gc_table result" where
  "populateTableRecursively avail siphash garbage [] table = Inr table"
| "populateTableRecursively avail siphash garbage (PathNode path h pol hist subs # nodes) table =
     (if backupHintNoPol h = BH_not_part_of_repository
      then populateTableRecursively avail siphash garbage nodes table
      else
        bindE (populatePoints avail siphash garbage hist table) (\<lambda>table.
        bindE (populateTableRecursively avail siphash garbage subs table)
          (populateTableRecursively avail siphash garbage nodes)))"

record gc_context =
  deleted_items_count :: nat
  deleted_items_total_size :: nat
  gc_calls :: "(nat \<times> nat) list"

definition shouldBeRemoved :: "siphash_fun \<Rightarrow> unit string_table \<Rightarrow> string \<Rightarrow> gc_context should_remove" where
  "shouldBeRemoved siphash table repo path stats ctx =
     (if strTableGet siphash table (drop (length repo + 1) path) \<noteq> None then
        Inr (False, ctx\<lparr>gc_calls := gc_calls ctx @ [(deleted_items_total_size ctx, strTableCountMappings table)]\<rparr>)
      else
        bindE (size_add (deleted_items_count ctx) 1) (\<lambda>n.
          let ctx = ctx\<lparr>deleted_items_count := n\<rparr>
          in if st_type stats = Regular_file then
               bindE (size_add (deleted_items_total_size ctx) (unat (st_size stats))) (\<lambda>n.
                 Inr (True, ctx\<lparr>deleted_items_total_size := n\<rparr>))
             else Inr (True, ctx)))"

text \<open>The loop over the entries of the repository.\<close>

fun collectEntries ::
  "removable \<Rightarrow> 'c should_remove \<Rightarrow> string \<Rightarrow> fs_entry list \<Rightarrow> 'c \<Rightarrow> (fs_entry list \<times> 'c) result" where
  "collectEntries removable should_remove repo [] ctx = Inr ([], ctx)"
| "collectEntries removable should_remove repo (e # es) ctx =
     bindE (sRemoveRecursivelyIf removable should_remove (append_path repo (entry_name e)) e ctx) (\<lambda>(left, ctx).
     bindE (collectEntries removable should_remove repo es ctx) (\<lambda>(rest, ctx). Inr (left @ rest, ctx)))"

definition collectGarbageProgress ::
  "memory \<Rightarrow> removable \<Rightarrow> siphash_fun \<Rightarrow> string \<times> string \<Rightarrow> nat list \<Rightarrow> metadata \<Rightarrow> string \<Rightarrow> fs_entry list \<Rightarrow>
   (fs_entry list \<times> gc_context) result" where
  "collectGarbageProgress avail removable siphash buf rands md repo entries =
     bindE (strTableNew avail rands) (\<lambda>table.
     bindE (strTableMap avail siphash ''config'' () table) (\<lambda>table.
     bindE (strTableMap avail siphash ''metadata'' () table) (\<lambda>table.
     bindE (strTableMap avail siphash ''lockfile'' () table) (\<lambda>table.
     bindE (populateTableRecursively avail siphash (fst buf) (paths md) (snd buf, table)) (\<lambda>(buffer, table).
       collectEntries removable (shouldBeRemoved siphash table repo) repo entries
         \<lparr>deleted_items_count = 0, deleted_items_total_size = 0, gc_calls = []\<rparr>)))))"

text \<open>
  What removing does to the disk: the entries are what \<open>readdir()\<close> and \<open>lstat()\<close> show of the directory
  of the repository, and each of them that is not left has been removed by its path.
\<close>

definition removed_paths :: "string \<Rightarrow> fs_entry list \<Rightarrow> fs_entry list \<Rightarrow> string set" where
  "removed_paths repo entries left =
     item_path repo ` (fst ` set (items [] entries) - fst ` set (items [] left))"

definition removeFromDisk :: "string \<Rightarrow> fs_entry list \<Rightarrow> fs_entry list \<Rightarrow> disk \<Rightarrow> disk" where
  "removeFromDisk repo entries left d =
     d\<lparr>files := (\<lambda>p. if p \<in> removed_paths repo entries left then None else files d p),
       dirs := dirs d - removed_paths repo entries left\<rparr>"

section \<open>The paths to preserve\<close>

text \<open>All nodes that are not wiped and not below a wiped one.\<close>

fun kept_nodes :: "path_node list \<Rightarrow> path_node list" where
  "kept_nodes [] = []"
| "kept_nodes (PathNode path h pol hist subs # nodes) =
     (if backupHintNoPol h = BH_not_part_of_repository then kept_nodes nodes
      else PathNode path h pol hist subs # kept_nodes subs @ kept_nodes nodes)"

definition files_of :: "path_history list \<Rightarrow> string set" where
  "files_of hist = stored_path ` set (stored_infos hist)"

definition preserved :: "metadata \<Rightarrow> string set" where
  "preserved md = {''config'', ''metadata'', ''lockfile''} \<union> (\<Union>n \<in> set (kept_nodes (paths md)). files_of (node_history n))"

lemma files_of_simps [simp]:
  "files_of [] = {}"
  "files_of (point # hist) =
     (case stored_info point of None \<Rightarrow> files_of hist | Some info \<Rightarrow> insert (stored_path info) (files_of hist))"
  by (auto simp: files_of_def split: option.split)

definition holds :: "siphash_fun \<Rightarrow> string set \<Rightarrow> gc_table \<Rightarrow> bool" where
  "holds siphash S table \<longleftrightarrow> table_ok siphash (snd table) \<and> dom (strTableGet siphash (snd table)) = S"

lemma points_spec:
  assumes "holds siphash S table" "hashes_ok hist"
  shows "never internal_errors (holds siphash (S \<union> files_of hist)) (populatePoints avail siphash garbage hist table)"
  using assms
proof (induction hist arbitrary: S table)
  case (Cons point points)
  obtain buffer t where table: "table = (buffer, t)" by (cases table)
  from Cons.prems have ok: "table_ok siphash t" "dom (strTableGet siphash t) = S" and rest: "hashes_ok points"
    by (auto simp: holds_def table)
  let ?S = "S \<union> (case stored_info point of None \<Rightarrow> {} | Some info \<Rightarrow> {stored_path info})"
  have "never internal_errors (holds siphash ?S) (case state point of
        PST_regular_file _ _ info \<Rightarrow>
          if unat (file_size info) \<le> FILE_HASH_SIZE then Inr (buffer, t)
          else
            bindE (repoBuildRegularFilePath garbage buffer info) (\<lambda>buffer.
              if strTableGet siphash t (view (str buffer)) = None then
                bindE (strCopy avail (str buffer) ALT_region) (\<lambda>key.
                bindE (strTableMap avail siphash (view key) () t) (\<lambda>table. Inr (buffer, table)))
              else Inr (buffer, t))
      | _ \<Rightarrow> Inr (buffer, t))"
  proof (cases "stored_info point")
    case None
    then show ?thesis using ok
      by (auto simp: stored_info_def holds_def split: path_state.splits if_splits)
  next
    case (Some info)
    then obtain uid gid where st: "state point = PST_regular_file uid gid info" "\<not> unat (file_size info) \<le> FILE_HASH_SIZE"
      by (auto simp: stored_info_def split: path_state.splits if_splits)
    obtain b where b: "repoBuildRegularFilePath garbage buffer info = Inr b" "c_string b = stored_path info"
      using unique_path Cons.prems(2) Some by fastforce
    show ?thesis
    proof (cases "strTableGet siphash t (stored_path info)")
      case None
      have "never internal_errors (holds siphash ?S) (bindE (strCopy avail (str b) ALT_region) (\<lambda>key.
                bindE (strTableMap avail siphash (view key) () t) (\<lambda>table. Inr (b, table))))"
      proof (rule never_bind [OF strCopy_key])
        fix key :: string_view assume "view key = c_string b"
        then show "never internal_errors (holds siphash ?S)
            (bindE (strTableMap avail siphash (view key) () t) (\<lambda>table. Inr (b, table)))"
          using strTableMap_key [OF ok(1) None, of "()" avail] b(2) ok(2) Some
          by (auto simp: holds_def intro: never_bind)
      qed
      then show ?thesis using st b None by (simp add: c_string_def)
    next
      case (Some u)
      then have "stored_path info \<in> S" using ok(2) by auto
      then have "holds siphash ?S (b, t)" using ok \<open>stored_info point = Some info\<close> by (auto simp: holds_def)
      then show ?thesis using st b Some by (simp add: c_string_def)
    qed
  qed
  then show ?case
    unfolding table populatePoints.simps
  proof (rule never_bind)
    fix table' assume "holds siphash ?S table'"
    from Cons.IH [OF this rest] show "never internal_errors (holds siphash (S \<union> files_of (point # points)))
        (populatePoints avail siphash garbage points table')"
      by (simp add: Un_assoc split: option.splits)
  qed
qed simp

lemma populate_spec:
  assumes "holds siphash S table" "list_all (\<lambda>n. hashes_ok (node_history n)) (kept_nodes nodes)"
  shows "never internal_errors (holds siphash (S \<union> (\<Union>n \<in> set (kept_nodes nodes). files_of (node_history n))))
    (populateTableRecursively avail siphash garbage nodes table)"
  using assms
proof (induction nodes arbitrary: S table rule: kept_nodes.induct)
  case (2 path h pol hist subs nodes)
  show ?case
  proof (cases "backupHintNoPol h = BH_not_part_of_repository")
    case True
    then show ?thesis using 2(1) "2.prems" by simp
  next
    case False
    let ?U = "\<lambda>ns. \<Union>n \<in> set (kept_nodes ns). files_of (node_history n)"
    have ok: "hashes_ok hist" "list_all (\<lambda>n. hashes_ok (node_history n)) (kept_nodes subs)"
      "list_all (\<lambda>n. hashes_ok (node_history n)) (kept_nodes nodes)"
      using "2.prems"(2) False by simp_all
    have "never internal_errors (holds siphash (S \<union> files_of hist \<union> ?U subs \<union> ?U nodes))
       (bindE (populatePoints avail siphash garbage hist table) (\<lambda>table.
        bindE (populateTableRecursively avail siphash garbage subs table)
          (populateTableRecursively avail siphash garbage nodes)))"
      by (intro never_bind [OF points_spec [OF "2.prems"(1) ok(1)]]) (intro never_bind [OF "2.IH"(2)] "2.IH"(3) False ok)
    then show ?thesis using False by (simp add: Un_assoc)
  qed
qed simp

section \<open>What is removed\<close>

lemma drop_repo: "drop (Suc (length repo)) (item_path repo names) = tl (join_path names)"
  by (simp add: item_path_def drop_Suc)

definition regular_size :: "file_stat \<Rightarrow> nat" where
  "regular_size stats = (if st_type stats = Regular_file then unat (st_size stats) else 0)"

interpretation counted: removal "shouldBeRemoved siphash table repo"
  "\<lambda>path. strTableGet siphash table (drop (length repo + 1) path) \<noteq> None" deleted_items_count "\<lambda>_. 1" internal_errors
  for siphash table repo
  by unfold_locales
    (auto simp: shouldBeRemoved_def never_def bindE_def size_add_def Let_def internal_errors_def split: sum.splits)

interpretation measured: removal "shouldBeRemoved siphash table repo"
  "\<lambda>path. strTableGet siphash table (drop (length repo + 1) path) \<noteq> None" deleted_items_total_size regular_size
  internal_errors
  for siphash table repo
  by unfold_locales
    (auto simp: shouldBeRemoved_def never_def bindE_def size_add_def Let_def internal_errors_def regular_size_def
      split: sum.splits)

context removal
begin

lemma collect_spec:
  "never (avoided removable E) (\<lambda>(left, ctx').
      left = prune (\<lambda>names. wanted (item_path dir names)) [] es \<and>
      total ctx' + weight weigh (items [] left) = total ctx + weight weigh (items [] es))
    (collectEntries removable ask dir es ctx)"
proof (induction es arbitrary: ctx)
  case (Cons e es)
  have dir: "item_path dir [] = dir" by (simp add: item_path_def join_path_def)
  have parts: "prune w [] (e # es) = prune w [] [e] @ prune w [] es" "items [] (e # es) = items [] [e] @ items [] es" for w
    using prune_append [of w "[]" "[e]" es] items_append [of "[]" "[e]" es] by simp_all
  show ?case
    unfolding collectEntries.simps parts
    by (rule never_bind [OF remove_spec [where at = "[]" and dir = dir, unfolded dir]], clarify,
        rule never_bind [OF Cons.IH]) (auto simp: items_append)
qed simp

end

lemma map_key:
  assumes "holds siphash S (b, t)" "k \<notin> S"
  shows "never internal_errors (\<lambda>t'. holds siphash (insert k S) (b, t')) (strTableMap avail siphash k () t)"
proof -
  have ok: "table_ok siphash t" "strTableGet siphash t k = None" using assms by (auto simp: holds_def)
  show ?thesis by (rule never_mono [OF strTableMap_key [OF ok, of "()" avail]]) (use assms in \<open>auto simp: holds_def\<close>)
qed

lemma never_avoided: "never internal_errors P r \<Longrightarrow> never (avoided removable internal_errors) P r"
  by (auto simp: never_def avoided_def internal_errors_def split: sum.splits)

lemma collectGarbage_prune:
  assumes "list_all (\<lambda>n. hashes_ok (node_history n)) (kept_nodes (paths md))"
  shows "never (avoided removable internal_errors) (\<lambda>(left, ctx).
      left = prune (\<lambda>names. tl (join_path names) \<in> preserved md) [] entries \<and>
      deleted_items_count ctx + length (items [] left) = length (items [] entries) \<and>
      deleted_items_total_size ctx + sum_list (map (regular_size \<circ> snd) (items [] left)) =
        sum_list (map (regular_size \<circ> snd) (items [] entries)))
    (collectGarbageProgress avail removable siphash buf rands md repo entries)"
    (is "never _ ?P _")
proof -
  have new: "holds siphash {} (b, emptyTable rands)" for b
    using emptyTable_ok [of siphash rands] by (auto simp: holds_def)
  have run: "never (avoided removable internal_errors) ?P (collectEntries removable (shouldBeRemoved siphash table repo) repo entries
         \<lparr>deleted_items_count = 0, deleted_items_total_size = 0, gc_calls = []\<rparr>)"
    if H: "holds siphash (preserved md) (buffer, table)" for buffer table
  proof -
    let ?ctx = "\<lparr>deleted_items_count = 0, deleted_items_total_size = 0, gc_calls = []\<rparr>"
    have wanted: "strTableGet siphash table (drop (length repo + 1) (item_path repo names)) \<noteq> None \<longleftrightarrow>
        tl (join_path names) \<in> preserved md" for names
      using H by (auto simp: holds_def drop_repo)
    note C = counted.collect_spec [of removable siphash table repo repo entries ?ctx, unfolded wanted]
      and M = measured.collect_spec [of removable siphash table repo repo entries ?ctx, unfolded wanted]
    show ?thesis
    proof (cases "collectEntries removable (shouldBeRemoved siphash table repo) repo entries ?ctx")
      case (Inl e)
      then show ?thesis using C by simp
    next
      case (Inr r)
      obtain left ctx where r: "r = (left, ctx)" by (cases r)
      have left: "left = prune (\<lambda>names. tl (join_path names) \<in> preserved md) [] entries"
        and totals: "deleted_items_count ctx + weight (\<lambda>_. 1) (items [] left) = weight (\<lambda>_. 1) (items [] entries)"
          "deleted_items_total_size ctx + weight regular_size (items [] left) = weight regular_size (items [] entries)"
        using C M unfolding Inr r never_simps prod.case gc_context.simps add_0 by blast+
      have "weight (\<lambda>_. 1) xs = length xs" for xs by (induction xs) (auto simp: weight_def)
      with totals have "deleted_items_count ctx + length (items [] left) = length (items [] entries)" by simp
      then show ?thesis using left totals(2) by (simp add: Inr r weight_def)
    qed
  qed
  show ?thesis
    unfolding collectGarbageProgress_def
  proof (rule never_bind [OF never_avoided [OF strTableNew_empty]], hypsubst, intro never_bind [OF never_avoided [OF map_key [OF new [of "snd buf"]]]])
    fix t1 assume 1: "holds siphash {''config''} (snd buf, t1)"
    show "never (avoided removable internal_errors) ?P
      (bindE (strTableMap avail siphash ''metadata'' () t1) (\<lambda>table.
       bindE (strTableMap avail siphash ''lockfile'' () table) (\<lambda>table.
       bindE (populateTableRecursively avail siphash (fst buf) (paths md) (snd buf, table)) (\<lambda>(buffer, table).
         collectEntries removable (shouldBeRemoved siphash table repo) repo entries
           \<lparr>deleted_items_count = 0, deleted_items_total_size = 0, gc_calls = []\<rparr>))))"
    proof (rule never_bind [OF never_avoided [OF map_key [OF 1]]])
      fix t2 assume 2: "holds siphash {''metadata'', ''config''} (snd buf, t2)"
      show "never (avoided removable internal_errors) ?P
        (bindE (strTableMap avail siphash ''lockfile'' () t2) (\<lambda>table.
         bindE (populateTableRecursively avail siphash (fst buf) (paths md) (snd buf, table)) (\<lambda>(buffer, table).
           collectEntries removable (shouldBeRemoved siphash table repo) repo entries
             \<lparr>deleted_items_count = 0, deleted_items_total_size = 0, gc_calls = []\<rparr>)))"
      proof (rule never_bind [OF never_avoided [OF map_key [OF 2]]])
        fix t3 assume 3: "holds siphash {''lockfile'', ''metadata'', ''config''} (snd buf, t3)"
        show "never (avoided removable internal_errors) ?P
          (bindE (populateTableRecursively avail siphash (fst buf) (paths md) (snd buf, t3)) (\<lambda>(buffer, table).
             collectEntries removable (shouldBeRemoved siphash table repo) repo entries
               \<lparr>deleted_items_count = 0, deleted_items_total_size = 0, gc_calls = []\<rparr>))"
        proof (rule never_bind [OF never_avoided [OF populate_spec [OF 3 assms]]], clarify)
          fix buffer table
          assume "holds siphash ({''lockfile'', ''metadata'', ''config''} \<union>
            (\<Union>n \<in> set (kept_nodes (paths md)). files_of (node_history n))) (buffer, table)"
          moreover have "{''lockfile'', ''metadata'', ''config''} = {''config'', ''metadata'', ''lockfile''}" by blast
          ultimately show "never (avoided removable internal_errors) ?P (collectEntries removable (shouldBeRemoved siphash table repo) repo entries
               \<lparr>deleted_items_count = 0, deleted_items_total_size = 0, gc_calls = []\<rparr>)"
            using run unfolding preserved_def by simp
        qed
      qed simp
    qed simp
  qed simp
qed

text \<open>
  C5: collecting garbage. What is left of the repository are exactly the files and directories that
  are preserved or lead to something preserved: the files that some history point of a node of the
  repository refers to, the configuration, the metadata and the lockfile, untouched. No directory is
  removed that is not empty, so removing fails only where the system does not allow it, and the statistics
  count what has been removed.
\<close>

theorem collectGarbage_exact:
  assumes "entries_ok entries" and "list_all (\<lambda>n. hashes_ok (node_history n)) (kept_nodes (paths md))"
  shows "never (avoided removable internal_errors) (\<lambda>(left, ctx).
      set (items [] left) = {(p, s) \<in> set (items [] entries).
        \<exists>q t. (q, t) \<in> set (items [] entries) \<and> prefix p q \<and> tl (join_path q) \<in> preserved md} \<and>
      deleted_items_count ctx + length (items [] left) = length (items [] entries) \<and>
      deleted_items_total_size ctx + sum_list (map (regular_size \<circ> snd) (items [] left)) =
        sum_list (map (regular_size \<circ> snd) (items [] entries)))
    (collectGarbageProgress avail removable siphash buf rands md repo entries)"
proof (rule never_mono [OF collectGarbage_prune [OF assms(2)]], clarify, intro conjI)
  show "set (items [] (prune (\<lambda>names. tl (join_path names) \<in> preserved md) [] entries)) = {(p, s) \<in> set (items [] entries).
      \<exists>q t. (q, t) \<in> set (items [] entries) \<and> prefix p q \<and> tl (join_path q) \<in> preserved md}"
    unfolding prune_items [OF assms(1)] by (simp add: needed_items_def)
qed assumption+

text \<open>Whatever the entries are, nothing that is preserved is taken from the disk.\<close>

lemma prune_wanted: "(p, st) \<in> set (items at es) \<Longrightarrow> wanted p \<Longrightarrow> (p, st) \<in> set (items at (prune wanted at es))"
proof (induction wanted at es rule: prune.induct)
  case (3 wanted at n stats entries es)
  let ?left = "prune wanted (at @ [n]) entries"
  consider "p = at @ [n]" "st = stats" | "(p, st) \<in> set (items (at @ [n]) entries)" | "(p, st) \<in> set (items at es)"
    using "3.prems"(1) by auto
  then show ?case
  proof cases
    case 2
    then have "(p, st) \<in> set (items (at @ [n]) ?left)" using "3.IH"(1) "3.prems"(2) by blast
    moreover from this have "?left \<noteq> []" by auto
    ultimately show ?thesis by (simp add: items_append Let_def)
  qed (use "3.IH"(2) "3.prems"(2) in \<open>auto simp: items_append Let_def\<close>)
qed (auto simp: items_append)

lemma collectGarbage_keeps:
  assumes "collectGarbageProgress avail removable siphash buf rands md repo entries = Inr (left, ctx)"
    and "list_all (\<lambda>n. hashes_ok (node_history n)) (kept_nodes (paths md))" and "r \<in> preserved md"
  shows "files (removeFromDisk repo entries left d) (append_path repo r) = files d (append_path repo r)"
proof -
  have left: "left = prune (\<lambda>names. tl (join_path names) \<in> preserved md) [] entries"
    using collectGarbage_prune [OF assms(2), of removable entries avail siphash buf rands repo] unfolding assms(1) by simp
  have "append_path repo r \<notin> removed_paths repo entries left"
  proof
    assume "append_path repo r \<in> removed_paths repo entries left"
    then obtain p st where p: "append_path repo r = item_path repo p" "(p, st) \<in> set (items [] entries)"
        "p \<notin> fst ` set (items [] left)" by (auto simp: removed_paths_def)
    then have "join_path p = CHR ''/'' # r" by (simp add: append_path_def item_path_def)
    then have "tl (join_path p) = r" by simp
    then have "(p, st) \<in> set (items [] left)" unfolding left by (intro prune_wanted p(2)) (simp add: assms(3))
    then show False using p(3) by force
  qed
  then show ?thesis by (simp add: removeFromDisk_def)
qed

text \<open>A repository with a configuration file, two files that nothing refers to, and a directory.\<close>

definition gc_entries :: "fs_entry list" where
  "gc_entries = (let stats = \<lparr>st_type = Regular_file, st_mode = 0, st_uid = 0, st_gid = 0, st_mtime = 0,
       st_size = 7, st_blksize = 8\<rparr>
     in [File_entry ''config'' stats,
         Dir_entry ''0'' (stats\<lparr>st_type := Directory_file\<rparr>) [File_entry ''f'' stats],
         File_entry ''tmp'' stats])"

theorem collectGarbage_exact_witness:
  "never (avoided (\<lambda>_. True) internal_errors) (\<lambda>(left, ctx). fst ` set (items [] left) = {[''config'']})
     (collectGarbageProgress (\<lambda>_ _. True) (\<lambda>_. True) (\<lambda>_ _. 0) ([], []) [] metadataNew ''repo'' gc_entries)"
proof -
  have filter: "{(p, s) \<in> set xs. \<exists>q t. (q, t) \<in> set xs \<and> prefix p q \<and> tl (join_path q) \<in> P} =
      set (filter (\<lambda>x. list_ex (\<lambda>y. prefix (fst x) (fst y) \<and> tl (join_path (fst y)) \<in> P) xs) xs)"
    for xs :: "(string list \<times> file_stat) list" and P
    by (auto simp: list_ex_iff) force+
  have "preserved metadataNew = {''config'', ''metadata'', ''lockfile''}"
    by (simp add: preserved_def metadataNew_def)
  then have kept: "map fst (filter (\<lambda>x. list_ex (\<lambda>y. prefix (fst x) (fst y) \<and> tl (join_path (fst y)) \<in> preserved metadataNew)
      (items [] gc_entries)) (items [] gc_entries)) = [[''config'']]"
    by (simp add: gc_entries_def Let_def join_path_def)
  have "entries_ok gc_entries" by (simp add: gc_entries_def Let_def)
  moreover have "list_all (\<lambda>n. hashes_ok (node_history n)) (kept_nodes (paths metadataNew))"
    by (simp add: metadataNew_def)
  ultimately show ?thesis
  proof (rule never_mono [OF collectGarbage_exact], clarify)
    fix left :: "fs_entry list"
    assume "set (items [] left) = {(p, s) \<in> set (items [] gc_entries).
        \<exists>q t. (q, t) \<in> set (items [] gc_entries) \<and> prefix p q \<and> tl (join_path q) \<in> preserved metadataNew}"
    then show "fst ` set (items [] left) = {[''config'']}"
      unfolding filter by (simp only: set_map [symmetric] kept list.set)
  qed
qed

end
