(* ===== verification/User_Files.thy ===== *)
theory User_Files
  imports File_System "HOL-Library.AList" "HOL-Library.Sublist"
begin

unbundle bit_operations_syntax

text \<open>
  The file system of the user that a restore writes to, and the wrappers of \<open>src/safe-wrappers.c\<close> that
  change it. It is an association list from canonical paths, lists of names from the root, to inodes.
  Paths are resolved as POSIX says: name by name, following symbolic links but for the last name when
  the call does not follow it. Hard links, access rights and failing devices are not modelled: every
  call is allowed that the structure of the file system allows. What writing and changing the owner do to
  the set-ID bits of the mode is.
\<close>

section \<open>Files and paths\<close>

datatype inode_kind = Reg_data string | Link_to string | Dir_data | Other_data

record inode =
  ino_kind :: inode_kind
  ino_mode :: u32
  ino_uid :: u32
  ino_gid :: u32
  ino_mtime :: u64

type_synonym user_files = "(string list \<times> inode) list"

text \<open>
  What a new file gets: the time of the change, the owner of the process, and the modes of a new
  file, a new directory and a symbolic link; and whether the process has the right to keep the set-user-ID
  and set-group-ID bits of a file that it writes to (\<open>CAP_FSETID\<close>).
\<close>

record process =
  pr_now :: u64
  pr_uid :: u32
  pr_gid :: u32
  pr_file_mode :: u32
  pr_dir_mode :: u32
  pr_link_mode :: u32
  pr_keeps_set_id :: bool

fun split_names :: "string \<Rightarrow> string \<Rightarrow> string list" where
  "split_names cur [] = (if cur = [] then [] else [cur])"
| "split_names cur (c # cs) =
     (if c = CHR ''/'' then (if cur = [] then [] else [cur]) @ split_names [] cs
      else split_names (cur @ [c]) cs)"

definition names_of :: "string \<Rightarrow> string list" where
  "names_of path = split_names [] path"

text \<open>The place that a path leads to: a file or a free name in a directory, nowhere, or an error.\<close>

datatype place = At "string list" | Nowhere | Not_resolvable

function resolve :: "nat \<Rightarrow> user_files \<Rightarrow> bool \<Rightarrow> string list \<Rightarrow> string list \<Rightarrow> place" where
  "resolve links fs follow cur [] = At cur"
| "resolve links fs follow cur (n # ns) =
     (if n = ''.'' then resolve links fs follow cur ns
      else if n = ''..'' then resolve links fs follow (butlast cur) ns
      else case map_of fs (cur @ [n]) of
          None \<Rightarrow> if ns = [] then At (cur @ [n]) else Nowhere
        | Some i \<Rightarrow>
            (case ino_kind i of
               Link_to target \<Rightarrow>
                 if ns = [] \<and> \<not> follow then At (cur @ [n])
                 else if links = 0 then Not_resolvable
                 else resolve (links - 1) fs follow (if take 1 target = ''/'' then [] else cur) (names_of target @ ns)
             | Dir_data \<Rightarrow> resolve links fs follow (cur @ [n]) ns
             | _ \<Rightarrow> if ns = [] then At (cur @ [n]) else Not_resolvable))"
  by pat_completeness auto
termination by (relation "(\<lambda>(links, fs, follow, cur, ns). links) <*mlex*>
    measure (\<lambda>(links, fs, follow, cur, ns). length ns)")
  (auto simp: wf_mlex mlex_less mlex_leq)

definition link_limit :: nat where
  "link_limit = 40"

definition locate :: "user_files \<Rightarrow> bool \<Rightarrow> string \<Rightarrow> place" where
  "locate fs follow path = resolve link_limit fs follow [] (names_of path)"

section \<open>Reading\<close>

definition size_of_kind :: "inode_kind \<Rightarrow> u64" where
  "size_of_kind k = (case k of Reg_data bytes \<Rightarrow> word_of_nat (length bytes) | Link_to target \<Rightarrow> word_of_nat (length target)
     | _ \<Rightarrow> 0)"

definition stat_of :: "inode \<Rightarrow> file_stat" where
  "stat_of i = \<lparr>st_type = (case ino_kind i of Reg_data _ \<Rightarrow> Regular_file | Link_to _ \<Rightarrow> Symlink_file
       | Dir_data \<Rightarrow> Directory_file | Other_data \<Rightarrow> Other_file),
     st_mode = ino_mode i, st_uid = ino_uid i, st_gid = ino_gid i, st_mtime = ino_mtime i,
     st_size = size_of_kind (ino_kind i), st_blksize = 4096\<rparr>"

definition inode_at :: "user_files \<Rightarrow> bool \<Rightarrow> string \<Rightarrow> inode option" where
  "inode_at fs follow path = (case locate fs follow path of At p \<Rightarrow> map_of fs p | _ \<Rightarrow> None)"

text \<open>The system calls that read the file system, put into a record of the other ones.\<close>

definition reading :: "user_files \<Rightarrow> os \<Rightarrow> os" where
  "reading fs sys = sys\<lparr>
     os_stat := (\<lambda>path. map_option stat_of (inode_at fs True path)),
     os_lstat := (\<lambda>path. case locate fs False path of
         At p \<Rightarrow> (case map_of fs p of Some i \<Rightarrow> Lstat_ok (stat_of i) | None \<Rightarrow> Lstat_missing)
       | Nowhere \<Rightarrow> Lstat_missing
       | Not_resolvable \<Rightarrow> Lstat_failed),
     os_readlink := (\<lambda>path n. case map_option ino_kind (inode_at fs False path) of
         Some (Link_to target) \<Rightarrow> Some (take (unat n) target) | _ \<Rightarrow> None),
     os_content := (\<lambda>path. case map_option ino_kind (inode_at fs True path) of
         Some (Reg_data bytes) \<Rightarrow> Some bytes | _ \<Rightarrow> None)\<rparr>"

section \<open>Writing\<close>

text \<open>
  Changing the owner of an executable regular file clears its set-user-ID bit, and its set-group-ID bit if
  it is executable for the group, whoever calls \<open>chown()\<close>; writing to a file does the same, unless the
  process has the right to keep these bits.
\<close>

definition without_set_id :: "u32 \<Rightarrow> u32" where
  "without_set_id mode =
     (let mode = (if mode AND 73 \<noteq> 0 then mode AND NOT 2048 else mode)
      in if mode AND 8 \<noteq> 0 then mode AND NOT 1024 else mode)"

definition drop_set_id :: "bool \<Rightarrow> inode \<Rightarrow> inode" where
  "drop_set_id kept i =
     (case ino_kind i of
        Reg_data _ \<Rightarrow> if kept then i else i\<lparr>ino_mode := without_set_id (ino_mode i)\<rparr>
      | _ \<Rightarrow> i)"

text \<open>A change of the entries of the directory that holds \<open>p\<close>.\<close>

definition touch_parent :: "process \<Rightarrow> string list \<Rightarrow> user_files \<Rightarrow> user_files" where
  "touch_parent pr p fs =
     (case map_of fs (butlast p) of
        None \<Rightarrow> fs
      | Some i \<Rightarrow> AList.update (butlast p) (i\<lparr>ino_mtime := pr_now pr\<rparr>) fs)"

definition create :: "process \<Rightarrow> inode_kind \<Rightarrow> u32 \<Rightarrow> string list \<Rightarrow> user_files \<Rightarrow> user_files" where
  "create pr k mode p fs = AList.update p
     \<lparr>ino_kind = k, ino_mode = mode, ino_uid = pr_uid pr, ino_gid = pr_gid pr, ino_mtime = pr_now pr\<rparr>
     (touch_parent pr p fs)"

definition sMkdir :: "process \<Rightarrow> string \<Rightarrow> user_files \<Rightarrow> user_files result" where
  "sMkdir pr path fs =
     (case locate fs False path of
        At p \<Rightarrow> if map_of fs p = None then Inr (create pr Dir_data (pr_dir_mode pr) p fs) else Inl (Write_failed path)
      | _ \<Rightarrow> Inl (Write_failed path))"

definition sSymlink :: "process \<Rightarrow> string \<Rightarrow> string \<Rightarrow> user_files \<Rightarrow> user_files result" where
  "sSymlink pr target path fs =
     (case locate fs False path of
        At p \<Rightarrow> if map_of fs p = None then Inr (create pr (Link_to target) (pr_link_mode pr) p fs)
                else Inl (Write_failed path)
      | _ \<Rightarrow> Inl (Write_failed path))"

text \<open>An open file is the place it was found at.\<close>

definition sFopenWrite :: "process \<Rightarrow> string \<Rightarrow> user_files \<Rightarrow> (string list \<times> user_files) result" where
  "sFopenWrite pr path fs =
     (case locate fs True path of
        At p \<Rightarrow>
          (case map_of fs p of
             None \<Rightarrow> Inr (p, create pr (Reg_data []) (without_set_id (pr_file_mode pr)) p fs)
           | Some i \<Rightarrow>
               (case ino_kind i of
                  Reg_data _ \<Rightarrow> Inr (p, AList.update p
                    ((drop_set_id (pr_keeps_set_id pr) i)\<lparr>ino_kind := Reg_data [], ino_mtime := pr_now pr\<rparr>) fs)
                | _ \<Rightarrow> Inl (Write_failed path)))
      | _ \<Rightarrow> Inl (Write_failed path))"

definition sFwrite :: "process \<Rightarrow> string \<Rightarrow> string list \<Rightarrow> user_files \<Rightarrow> user_files" where
  "sFwrite pr bytes p fs =
     (case map_of fs p of
        None \<Rightarrow> fs
      | Some i \<Rightarrow>
          (case ino_kind i of
             Reg_data old \<Rightarrow> AList.update p
               ((drop_set_id (pr_keeps_set_id pr) i)\<lparr>ino_kind := Reg_data (old @ bytes), ino_mtime := pr_now pr\<rparr>) fs
           | _ \<Rightarrow> fs))"

definition change_inode :: "bool \<Rightarrow> (inode \<Rightarrow> inode) \<Rightarrow> string \<Rightarrow> user_files \<Rightarrow> user_files result" where
  "change_inode follow f path fs =
     (case locate fs follow path of
        At p \<Rightarrow> (case map_of fs p of Some i \<Rightarrow> Inr (AList.update p (f i) fs) | None \<Rightarrow> Inl (Write_failed path))
      | _ \<Rightarrow> Inl (Write_failed path))"

definition sChmod :: "string \<Rightarrow> u32 \<Rightarrow> user_files \<Rightarrow> user_files result" where
  "sChmod path mode = change_inode True (\<lambda>i. i\<lparr>ino_mode := mode\<rparr>) path"

definition sChown :: "string \<Rightarrow> u32 \<Rightarrow> u32 \<Rightarrow> user_files \<Rightarrow> user_files result" where
  "sChown path uid gid =
     change_inode True (\<lambda>i. (drop_set_id False i)\<lparr>ino_uid := uid, ino_gid := gid\<rparr>) path"

definition sLChown :: "string \<Rightarrow> u32 \<Rightarrow> u32 \<Rightarrow> user_files \<Rightarrow> user_files result" where
  "sLChown path uid gid = change_inode False (\<lambda>i. i\<lparr>ino_uid := uid, ino_gid := gid\<rparr>) path"

definition sUtime :: "string \<Rightarrow> u64 \<Rightarrow> user_files \<Rightarrow> user_files result" where
  "sUtime path time = change_inode True (\<lambda>i. i\<lparr>ino_mtime := time\<rparr>) path"

lemma without_set_id_idem [simp]: "without_set_id (without_set_id mode) = without_set_id mode"
proof -
  have "m AND NOT 2048 AND 73 = m AND 73" "m AND NOT 1024 AND 8 = m AND 8" "m AND NOT 2048 AND 8 = m AND 8"
    "m AND NOT 1024 AND 73 = m AND 73" for m :: u32
    by (simp_all add: and.assoc)
  then show ?thesis by (simp add: without_set_id_def Let_def and.assoc)
qed

lemma drop_set_id_fields [simp]:
  "ino_kind (drop_set_id k i) = ino_kind i" "ino_uid (drop_set_id k i) = ino_uid i"
  "ino_gid (drop_set_id k i) = ino_gid i" "ino_mtime (drop_set_id k i) = ino_mtime i"
  by (simp_all add: drop_set_id_def split: inode_kind.split)

lemma drop_set_id_regular:
  "ino_kind i = Reg_data old \<Longrightarrow> drop_set_id k i = i\<lparr>ino_mode := (if k then ino_mode i else without_set_id (ino_mode i))\<rparr>"
  by (cases i) (simp add: drop_set_id_def)

definition remove_place :: "process \<Rightarrow> string list \<Rightarrow> user_files \<Rightarrow> user_files" where
  "remove_place pr p fs = filter (\<lambda>e. \<not> prefix p (fst e)) (touch_parent pr p fs)"

text \<open>\<open>remove()\<close> refuses a directory that is not empty.\<close>

definition sRemove :: "process \<Rightarrow> string \<Rightarrow> user_files \<Rightarrow> user_files result" where
  "sRemove pr path fs =
     (case locate fs False path of
        At p \<Rightarrow>
          if map_of fs p = None \<or> p = [] \<or> list_ex (\<lambda>e. strict_prefix p (fst e)) fs then Inl (Remove_failed path)
          else Inr (remove_place pr p fs)
      | _ \<Rightarrow> Inl (Remove_failed path))"

text \<open>
  Removing a whole tree; that the recursion of the code reaches everything is shown for directory
  trees in the theory \<open>Directory_Trees\<close>.
\<close>

definition removeTree :: "process \<Rightarrow> string \<Rightarrow> user_files \<Rightarrow> user_files result" where
  "removeTree pr path fs =
     (case locate fs False path of
        At p \<Rightarrow> if map_of fs p = None \<or> p = [] then Inl (Remove_failed path) else Inr (remove_place pr p fs)
      | _ \<Rightarrow> Inl (Remove_failed path))"

end
