(* ===== verification/Restore.thy ===== *)
theory Restore
  imports Backup_Nodes Repo_Writer User_Files
begin

text \<open>
  Restoring: \<open>src/restore.c\<close>. The first half marks the nodes that have to be changed by setting their
  hints, the second half changes the files of the user. The system calls that read are a record
  \<open>sys\<close>; the theory \<open>User_Files\<close> gives it for the file system that is restored to.
\<close>

section \<open>States of nodes\<close>

definition searchPathState :: "metadata \<Rightarrow> path_node \<Rightarrow> u64 \<Rightarrow> path_state option result" where
  "searchPathState md node i =
     (if node_policy node \<noteq> BPOL_track then
        (case node_history node of [] \<Rightarrow> Inl Null_pointer | point # _ \<Rightarrow> Inr (Some (state point)))
      else Inr (map_option state
        (find (\<lambda>point. backup_id (backup_of md (point_backup point)) \<ge> i) (node_history node))))"

definition searchExistingPathState :: "metadata \<Rightarrow> path_node \<Rightarrow> u64 \<Rightarrow> path_state option result" where
  "searchExistingPathState md node i =
     bindE (searchPathState md node i) (\<lambda>st.
       Inr (if st = Some PST_non_existing then None else st))"

definition findExistingPathState :: "metadata \<Rightarrow> path_node \<Rightarrow> u64 \<Rightarrow> path_state result" where
  "findExistingPathState md node i =
     bindE (searchExistingPathState md node i) (\<lambda>st.
       case st of None \<Rightarrow> Inl (Path_not_existing_then (node_path node)) | Some st \<Rightarrow> Inr st)"

section \<open>Initiating\<close>

definition restoreFiletypeChanges :: "path_state \<Rightarrow> file_type \<Rightarrow> hint \<Rightarrow> hint" where
  "restoreFiletypeChanges st t h =
     (case st of
        PST_regular_file _ _ _ \<Rightarrow>
          (case t of Symlink_file \<Rightarrow> backupHintSet h BH_symlink_to_regular
           | Directory_file \<Rightarrow> backupHintSet h BH_directory_to_regular
           | Regular_file \<Rightarrow> h
           | Other_file \<Rightarrow> backupHintSet h BH_other_to_regular)
      | PST_symlink _ _ _ \<Rightarrow>
          (case t of Regular_file \<Rightarrow> backupHintSet h BH_regular_to_symlink
           | Directory_file \<Rightarrow> backupHintSet h BH_directory_to_symlink
           | Symlink_file \<Rightarrow> h
           | Other_file \<Rightarrow> backupHintSet h BH_other_to_symlink)
      | PST_directory _ _ _ \<Rightarrow>
          (case t of Regular_file \<Rightarrow> backupHintSet h BH_regular_to_directory
           | Symlink_file \<Rightarrow> backupHintSet h BH_symlink_to_directory
           | Directory_file \<Rightarrow> h
           | Other_file \<Rightarrow> backupHintSet h BH_other_to_directory)
      | PST_non_existing \<Rightarrow> h)"

definition is_symlink_state :: "path_state \<Rightarrow> bool" where
  "is_symlink_state st \<longleftrightarrow> (case st of PST_symlink _ _ _ \<Rightarrow> True | _ \<Rightarrow> False)"

text \<open>The changes of the state that \<open>applyNodeChanges()\<close> makes go into a copy and are dropped.\<close>

definition checkAndHandleChanges ::
  "os \<Rightarrow> string \<Rightarrow> path_state \<Rightarrow> bool \<Rightarrow> hint \<Rightarrow> hint result" where
  "checkAndHandleChanges sys path st could_exist h =
     bindE (if could_exist then sPathExists sys path else Inr False) (\<lambda>exists.
       if exists then
         bindE (if is_symlink_state st then sLStat sys path else sStat sys path) (\<lambda>stats.
           let h = restoreFiletypeChanges st (st_type stats) h
           in if backupHintNoPol h = BH_none then
                bindE (applyNodeChanges sys path stats (h, st)) (\<lambda>(h, dummy_state). Inr h)
              else Inr h)
       else Inr (backupHintSet h BH_added))"

text \<open>A path with such a hint does not exist in the form that its subnodes need.\<close>

definition replaced_hint :: "hint \<Rightarrow> bool" where
  "replaced_hint h \<longleftrightarrow> BH_added \<le> backupHintNoPol h \<and> backupHintNoPol h \<le> BH_other_to_directory"

text \<open>The recursion over a node, and the loop over a list of nodes.\<close>

fun checkAndHandleChangesRecursively ::
  "metadata \<Rightarrow> os \<Rightarrow> u64 \<Rightarrow> path_node \<Rightarrow> path_state \<Rightarrow> bool \<Rightarrow> path_node result"
  and checkNodes :: "metadata \<Rightarrow> os \<Rightarrow> u64 \<Rightarrow> path_node list \<Rightarrow> bool \<Rightarrow> path_node list result" where
  "checkAndHandleChangesRecursively md sys i (PathNode path h pol hist subs) st could_exist =
     bindE (checkAndHandleChanges sys path st could_exist h) (\<lambda>h.
       if \<not> is_dir_state st then Inr (PathNode path h pol hist subs)
       else bindE (checkNodes md sys i subs (if replaced_hint h then False else could_exist)) (\<lambda>subs.
         Inr (PathNode path h pol hist subs)))"
| "checkNodes md sys i [] could_exist = Inr []"
| "checkNodes md sys i (n # ns) could_exist =
     bindE (searchExistingPathState md n i) (\<lambda>st.
     bindE (case st of None \<Rightarrow> Inr n | Some st \<Rightarrow> checkAndHandleChangesRecursively md sys i n st could_exist) (\<lambda>n.
     bindE (checkNodes md sys i ns could_exist) (\<lambda>ns. Inr (n # ns))))"

fun initiateRestoreRecursively ::
  "metadata \<Rightarrow> os \<Rightarrow> u64 \<Rightarrow> string \<Rightarrow> bool \<Rightarrow> path_node list \<Rightarrow> path_node list result" where
  "initiateRestoreRecursively md sys i path could_exist [] = Inl (Path_not_in_repository path)"
| "initiateRestoreRecursively md sys i path could_exist (PathNode npath h pol hist subs # nodes) =
     (let node = PathNode npath h pol hist subs
      in if npath = path then
           bindE (findExistingPathState md node i) (\<lambda>st.
           bindE (checkAndHandleChangesRecursively md sys i node st could_exist) (\<lambda>node. Inr (node # nodes)))
         else if is_parent_path npath path then
           bindE (findExistingPathState md node i) (\<lambda>st.
             if \<not> is_dir_state st then Inl (Path_not_directory_then npath)
             else bindE (checkAndHandleChanges sys npath st could_exist h) (\<lambda>h.
                  bindE (initiateRestoreRecursively md sys i path (could_exist \<and> \<not> replaced_hint h) subs) (\<lambda>subs.
                    Inr (PathNode npath h pol hist subs # nodes))))
         else bindE (initiateRestoreRecursively md sys i path could_exist nodes) (\<lambda>nodes. Inr (node # nodes)))"

definition initiateRestore :: "os \<Rightarrow> metadata \<Rightarrow> u64 \<Rightarrow> string \<Rightarrow> metadata result" where
  "initiateRestore sys md i path =
     bindE (if path = [] then checkNodes md sys i (paths md) True
            else initiateRestoreRecursively md sys i path True (paths md)) (\<lambda>nodes.
       Inr (md\<lparr>paths := nodes\<rparr>))"

section \<open>Restoring a file\<close>

text \<open>
  The second half of a restore has the process, the path buffer of \<open>src/repository.c\<close>, and the
  repository with its disk.
\<close>

record restore_context =
  rc_process :: process
  rc_buffer :: "string \<times> string"
  rc_repo :: string
  rc_disk :: disk

function restoreBlocks ::
  "process \<Rightarrow> nat \<Rightarrow> repo_reader \<Rightarrow> string list \<Rightarrow> user_files \<Rightarrow> user_files result" where
  "restoreBlocks pr bytes_left reader writer fs =
     (if bytes_left > 0 then
        let bytes_to_read = (if bytes_left > 4096 then 4096 else bytes_left)
        in bindE (repoReaderRead bytes_to_read reader) (\<lambda>(buffer, reader).
             restoreBlocks pr (bytes_left - bytes_to_read) reader writer (sFwrite pr buffer writer fs))
      else Inr fs)"
  by pat_completeness auto
termination by (relation "measure (\<lambda>(pr, bytes_left, reader, writer, fs). bytes_left)") auto

declare restoreBlocks.simps [simp del]

definition restoreFile :: "restore_context \<Rightarrow> string \<Rightarrow> file_info \<Rightarrow> user_files \<Rightarrow> user_files result" where
  "restoreFile rc path info fs =
     (if unat (file_size info) > FILE_HASH_SIZE then
        bindE (repoReaderOpenFile (fst (rc_buffer rc)) (snd (rc_buffer rc)) (rc_repo rc) path info (rc_disk rc)) (\<lambda>reader.
        bindE (sFopenWrite (rc_process rc) path fs) (\<lambda>(writer, fs).
          restoreBlocks (rc_process rc) (unat (file_size info)) reader writer fs))
      else
        bindE (sFopenWrite (rc_process rc) path fs) (\<lambda>(writer, fs).
          Inr (sFwrite (rc_process rc) (map char_of_byte (take (unat (file_size info)) (file_hash info))) writer fs)))"

definition restorePath :: "restore_context \<Rightarrow> string \<Rightarrow> path_state \<Rightarrow> user_files \<Rightarrow> user_files result" where
  "restorePath rc path st fs =
     (case st of
        PST_regular_file uid gid info \<Rightarrow>
          bindE (restoreFile rc path info fs) (\<lambda>fs.
          bindE (sChown path uid gid fs) (\<lambda>fs.
          bindE (sChmod path (permission_bits info) fs) (\<lambda>fs.
            sUtime path (modification_time info) fs)))
      | PST_symlink uid gid target \<Rightarrow>
          bindE (sSymlink (rc_process rc) target path fs) (\<lambda>fs. sLChown path uid gid fs)
      | PST_directory uid gid info \<Rightarrow>
          bindE (sMkdir (rc_process rc) path fs) (\<lambda>fs.
          bindE (sChown path uid gid fs) (\<lambda>fs.
          bindE (sChmod path (dir_permission_bits info) fs) (\<lambda>fs.
            sUtime path (dir_modification_time info) fs)))
      | PST_non_existing \<Rightarrow> Inr fs)"

section \<open>Finishing\<close>

definition restoreOwner :: "string \<Rightarrow> path_state \<Rightarrow> user_files \<Rightarrow> user_files result" where
  "restoreOwner path st fs =
     (case st of
        PST_symlink uid gid _ \<Rightarrow> sLChown path uid gid fs
      | PST_regular_file uid gid _ \<Rightarrow> sChown path uid gid fs
      | PST_directory uid gid _ \<Rightarrow> sChown path uid gid fs
      | PST_non_existing \<Rightarrow> Inr fs)"

definition restorePermissions :: "string \<Rightarrow> path_state \<Rightarrow> user_files \<Rightarrow> user_files result" where
  "restorePermissions path st fs =
     (case st of
        PST_regular_file _ _ info \<Rightarrow> sChmod path (permission_bits info) fs
      | PST_directory _ _ info \<Rightarrow> sChmod path (dir_permission_bits info) fs
      | _ \<Rightarrow> Inr fs)"

definition restoreTimestamp :: "string \<Rightarrow> path_state \<Rightarrow> user_files \<Rightarrow> user_files result" where
  "restoreTimestamp path st fs =
     (case st of
        PST_regular_file _ _ info \<Rightarrow> sUtime path (modification_time info) fs
      | PST_directory _ _ info \<Rightarrow> sUtime path (dir_modification_time info) fs
      | _ \<Rightarrow> Inr fs)"

text \<open>Whether the timestamp of the parent directory is affected, too.\<close>

definition restoreContent ::
  "restore_context \<Rightarrow> string \<Rightarrow> path_state \<Rightarrow> user_files \<Rightarrow> (bool \<times> user_files) result" where
  "restoreContent rc path st fs =
     (case st of
        PST_regular_file _ _ info \<Rightarrow>
          bindE (restoreFile rc path info fs) (\<lambda>fs.
          bindE (sUtime path (modification_time info) fs) (\<lambda>fs. Inr (False, fs)))
      | PST_symlink _ _ _ \<Rightarrow>
          bindE (sRemove (rc_process rc) path fs) (\<lambda>fs.
          bindE (restorePath rc path st fs) (\<lambda>fs. Inr (True, fs)))
      | _ \<Rightarrow> Inr (False, fs))"

definition restoreNode ::
  "restore_context \<Rightarrow> string \<Rightarrow> hint \<Rightarrow> backup_policy \<Rightarrow> path_state \<Rightarrow> user_files \<Rightarrow> (bool \<times> user_files) result" where
  "restoreNode rc path h pol st fs =
     (if backupHintNoPol h = BH_added then
        bindE (restorePath rc path st fs) (\<lambda>fs. Inr (True, fs))
      else if BH_regular_to_symlink \<le> backupHintNoPol h \<and> backupHintNoPol h \<le> BH_other_to_directory then
        bindE (if backupHintNoPol h = BH_directory_to_regular \<or> backupHintNoPol h = BH_directory_to_symlink
               then removeTree (rc_process rc) path fs else sRemove (rc_process rc) path fs) (\<lambda>fs.
        bindE (restorePath rc path st fs) (\<lambda>fs. Inr (True, fs)))
      else if pol \<noteq> BPOL_none then
        bindE (if hint_has h BH_owner_changed then restoreOwner path st fs else Inr fs) (\<lambda>fs.
        bindE (if hint_has h BH_permissions_changed then restorePermissions path st fs else Inr fs) (\<lambda>fs.
          if hint_has h BH_content_changed then restoreContent rc path st fs
          else if hint_has h BH_timestamp_changed then
            bindE (restoreTimestamp path st fs) (\<lambda>fs. Inr (False, fs))
          else Inr (False, fs)))
      else Inr (False, fs))"

fun finishRestoreRecursively ::
  "metadata \<Rightarrow> u64 \<Rightarrow> restore_context \<Rightarrow> path_node \<Rightarrow> user_files \<Rightarrow> (bool \<times> user_files) result"
  and finishNodes ::
  "metadata \<Rightarrow> u64 \<Rightarrow> restore_context \<Rightarrow> path_node list \<Rightarrow> user_files \<Rightarrow> (bool \<times> user_files) result" where
  "finishRestoreRecursively md i rc (PathNode path h pol hist subs) fs =
     bindE (searchExistingPathState md (PathNode path h pol hist subs) i) (\<lambda>st.
       case st of
         None \<Rightarrow> Inr (False, fs)
       | Some st \<Rightarrow>
           bindE (restoreNode rc path h pol st fs) (\<lambda>(affects_parent_timestamp, fs).
             case st of
               PST_directory uid gid info \<Rightarrow>
                 bindE (finishNodes md i rc subs fs) (\<lambda>(subnode_changes_timestamp, fs).
                   if subnode_changes_timestamp \<and> pol \<noteq> BPOL_none then
                     bindE (sUtime path (dir_modification_time info) fs) (\<lambda>fs. Inr (affects_parent_timestamp, fs))
                   else Inr (affects_parent_timestamp, fs))
             | _ \<Rightarrow> Inr (affects_parent_timestamp, fs)))"
| "finishNodes md i rc [] fs = Inr (False, fs)"
| "finishNodes md i rc (n # ns) fs =
     bindE (finishRestoreRecursively md i rc n fs) (\<lambda>(affected, fs).
     bindE (finishNodes md i rc ns fs) (\<lambda>(affected', fs). Inr (affected \<or> affected', fs)))"

definition finishRestore ::
  "restore_context \<Rightarrow> metadata \<Rightarrow> u64 \<Rightarrow> user_files \<Rightarrow> user_files result" where
  "finishRestore rc md i fs = bindE (finishNodes md i rc (paths md) fs) (\<lambda>(affected, fs). Inr fs)"

end
