(* ===== verification/Restore_Snapshot.thy ===== *)
theory Restore_Snapshot
  imports Restore Backup_Finish
begin

text \<open>
  What a restore achieves: the bytes of a stored file come back, and restoring into a place where
  nothing is left recreates the files as they were at the time of the backup.
\<close>

section \<open>Names and places\<close>

lemma split_names_slash:
  "CHR ''/'' \<notin> set cs \<Longrightarrow> split_names cur (cs @ CHR ''/'' # ds) =
     (if cur @ cs = [] then [] else [cur @ cs]) @ split_names [] ds"
  by (induction cs arbitrary: cur) auto

lemma split_names_end: "CHR ''/'' \<notin> set cs \<Longrightarrow> split_names cur cs = (if cur @ cs = [] then [] else [cur @ cs])"
  by (induction cs arbitrary: cur) auto

lemma names_of_join: "list_all name_ok es \<Longrightarrow> names_of (join_path es) = es"
proof -
  have "list_all name_ok es \<Longrightarrow> e \<noteq> [] \<Longrightarrow> CHR ''/'' \<notin> set e \<Longrightarrow> split_names [] (e @ join_path es) = e # es" for e es
  proof (induction es arbitrary: e)
    case Nil
    then show ?case by (simp add: join_path_def split_names_end)
  next
    case (Cons a es)
    then have "split_names [] (a @ join_path es) = a # es" by (simp add: name_ok_def)
    with Cons.prems show ?case by (simp add: join_path_def split_names_slash)
  qed
  note step = this
  assume "list_all name_ok es"
  then show ?thesis
    using step by (cases es) (auto simp: names_of_def join_path_def name_ok_def)
qed

text \<open>A place whose way from the root consists of directories.\<close>

definition plain :: "user_files \<Rightarrow> string list \<Rightarrow> bool" where
  "plain fs p \<longleftrightarrow> list_all name_ok p \<and>
     (\<forall>q. strict_prefix q p \<longrightarrow> q \<noteq> [] \<longrightarrow> map_option ino_kind (map_of fs q) = Some Dir_data)"

lemma resolve_plain:
  assumes "list_all name_ok ns"
    and "\<And>q. strict_prefix q ns \<Longrightarrow> q \<noteq> [] \<Longrightarrow> map_option ino_kind (map_of fs (cur @ q)) = Some Dir_data"
    and "follow \<Longrightarrow> ns \<noteq> [] \<Longrightarrow> \<forall>target. map_option ino_kind (map_of fs (cur @ ns)) \<noteq> Some (Link_to target)"
  shows "resolve links fs follow cur ns = At (cur @ ns)"
  using assms
proof (induction ns arbitrary: cur)
  case (Cons n ns)
  have n: "n \<noteq> ''.''" "n \<noteq> ''..''" using Cons.prems(1) by (auto simp: name_ok_def is_dot_element_def)
  show ?case
  proof (cases "ns = []")
    case True
    then show ?thesis using n Cons.prems(3) by (auto split: option.split inode_kind.split)
  next
    case False
    then have "strict_prefix [n] (n # ns)" by (cases ns) auto
    then obtain i where i: "map_of fs (cur @ [n]) = Some i" "ino_kind i = Dir_data"
      using Cons.prems(2) [of "[n]"] by auto
    have "resolve links fs follow (cur @ [n]) ns = At ((cur @ [n]) @ ns)"
    proof (rule Cons.IH)
      show "list_all name_ok ns" using Cons.prems(1) by simp
      show "map_option ino_kind (map_of fs ((cur @ [n]) @ q)) = Some Dir_data" if "strict_prefix q ns" "q \<noteq> []" for q
        using Cons.prems(2) [of "n # q"] that by simp
      show "\<forall>target. map_option ino_kind (map_of fs ((cur @ [n]) @ ns)) \<noteq> Some (Link_to target)" if follow "ns \<noteq> []"
        using Cons.prems(3) that by simp
    qed
    then show ?thesis using n i by simp
  qed
qed simp

lemma locate_plain:
  assumes "plain fs p"
    and "follow \<Longrightarrow> \<forall>target. map_option ino_kind (map_of fs p) \<noteq> Some (Link_to target)"
  shows "locate fs follow (join_path p) = At p"
  using assms resolve_plain [of p fs "[]" follow link_limit]
  by (auto simp: locate_def plain_def names_of_join)

section \<open>Single files\<close>

text \<open>The contents that are kept for a file, and what has to hold for them to be readable.\<close>

definition stored_data :: "string \<Rightarrow> disk \<Rightarrow> file_info \<Rightarrow> string option" where
  "stored_data repo d info =
     (if unat (file_size info) > FILE_HASH_SIZE then map_option file_data (files d (full_path repo info))
      else Some (map char_of_byte (file_hash info)))"

definition repo_usable :: "string \<Rightarrow> bool" where
  "repo_usable repo \<longleftrightarrow> NUL \<notin> set repo \<and> length repo < 2 ^ 32"

definition data_ok :: "restore_context \<Rightarrow> file_info \<Rightarrow> string \<Rightarrow> bool" where
  "data_ok rc info bytes \<longleftrightarrow> stored_data (rc_repo rc) (rc_disk rc) info = Some bytes \<and>
     length bytes = unat (file_size info) \<and>
     (unat (file_size info) > FILE_HASH_SIZE \<longrightarrow> length (file_hash info) = FILE_HASH_SIZE)"

text \<open>A file that has been opened for writing: its time and its set-ID bits do not change any more.\<close>

definition opened :: "process \<Rightarrow> inode \<Rightarrow> bool" where
  "opened pr i \<longleftrightarrow> ino_mtime i = pr_now pr \<and> drop_set_id (pr_keeps_set_id pr) i = i"

lemma opened_content: "opened pr i \<Longrightarrow> ino_kind i = Reg_data old \<Longrightarrow> opened pr (i\<lparr>ino_kind := Reg_data bytes\<rparr>)"
  by (cases i) (auto simp: opened_def drop_set_id_def)

lemma sFopenWrite_opened:
  assumes "sFopenWrite pr path fs = Inr (p, fs1)"
  shows "\<exists>i. map_of fs1 p = Some i \<and> ino_kind i = Reg_data [] \<and> opened pr i"
proof (cases "map_of fs p")
  case None
  with assms have "fs1 = create pr (Reg_data []) (without_set_id (pr_file_mode pr)) p fs"
    by (auto simp: sFopenWrite_def split: place.splits option.splits inode_kind.splits)
  then show ?thesis by (simp add: create_def update_conv' opened_def drop_set_id_def)
next
  case (Some i)
  let ?i = "(drop_set_id (pr_keeps_set_id pr) i)\<lparr>ino_kind := Reg_data [], ino_mtime := pr_now pr\<rparr>"
  from Some assms obtain old where "ino_kind i = Reg_data old" "fs1 = AList.update p ?i fs"
    by (auto simp: sFopenWrite_def split: place.splits option.splits inode_kind.splits)
  moreover from this(1) have "opened pr ?i" by (cases i) (simp add: opened_def drop_set_id_def)
  ultimately show ?thesis by (simp add: update_conv')
qed

lemma sFwrite_map:
  assumes "map_of fs p = Some i" "ino_kind i = Reg_data old" "opened pr i"
  shows "map_of (sFwrite pr bytes p fs) = (map_of fs)(p \<mapsto> i\<lparr>ino_kind := Reg_data (old @ bytes)\<rparr>)"
proof -
  have "ino_mtime i = pr_now pr" "drop_set_id (pr_keeps_set_id pr) i = i" using assms(3) by (simp_all add: opened_def)
  moreover from this(1) have "i\<lparr>ino_kind := k, ino_mtime := pr_now pr\<rparr> = i\<lparr>ino_kind := k\<rparr>" for k by (cases i) simp
  ultimately show ?thesis by (simp only: sFwrite_def assms(1,2) option.case inode_kind.case update_conv')
qed

lemma restoreBlocks_ok:
  assumes "n \<le> length (rd_remaining reader)"
    and "map_of fs p = Some i" "ino_kind i = Reg_data old" "opened pr i"
  shows "\<exists>fs'. restoreBlocks pr n reader p fs = Inr fs' \<and>
    map_of fs' = (map_of fs)(p \<mapsto> i\<lparr>ino_kind := Reg_data (old @ take n (rd_remaining reader))\<rparr>)"
  using assms
proof (induction n arbitrary: reader fs i old rule: less_induct)
  case (less n)
  show ?case
  proof (cases "n = 0")
    case True
    have "i\<lparr>ino_kind := Reg_data old\<rparr> = i" using less.prems(3) by (cases i) simp
    then show ?thesis using True less.prems(2) by (simp add: restoreBlocks.simps fun_upd_idem)
  next
    case False
    define k where "k = (if n > 4096 then 4096 else n)"
    have k: "k \<le> n" "n - k < n" using False by (auto simp: k_def)
    let ?r = "reader\<lparr>rd_remaining := drop k (rd_remaining reader)\<rparr>" and ?b = "take k (rd_remaining reader)"
    let ?fs = "sFwrite pr ?b p fs" and ?i = "i\<lparr>ino_kind := Reg_data (old @ ?b)\<rparr>"
    have rd: "repoReaderRead k reader = Inr (?b, ?r)" using less.prems(1) k by (simp add: repoReaderRead_def)
    have fs: "map_of ?fs = (map_of fs)(p \<mapsto> ?i)" by (rule sFwrite_map [OF less.prems(2-4)])
    have "n - k \<le> length (rd_remaining ?r)" using less.prems(1) by simp
    moreover have "map_of ?fs p = Some ?i" by (simp add: fs)
    moreover have "ino_kind ?i = Reg_data (old @ ?b)" "opened pr ?i"
      using opened_content [OF less.prems(4,3)] by simp_all
    ultimately obtain fs' where fs': "restoreBlocks pr (n - k) ?r p ?fs = Inr fs'"
        "map_of fs' = (map_of ?fs)(p \<mapsto> ?i\<lparr>ino_kind := Reg_data ((old @ ?b) @ take (n - k) (rd_remaining ?r))\<rparr>)"
      using less.IH [OF k(2)] by blast
    have "?b @ take (n - k) (drop k (rd_remaining reader)) = take n (rd_remaining reader)"
      using k(1) by (metis le_add_diff_inverse take_add)
    then have "map_of fs' = (map_of fs)(p \<mapsto> i\<lparr>ino_kind := Reg_data (old @ take n (rd_remaining reader))\<rparr>)"
      using fs'(2) by (simp add: fs)
    moreover have "restoreBlocks pr n reader p fs = Inr fs'"
      using False rd fs'(1) by (subst restoreBlocks.simps) (simp add: Let_def flip: k_def)
    ultimately show ?thesis by blast
  qed
qed

text \<open>Opening a file for writing, at a place that is free or a regular file.\<close>

lemma restoreFile_ok:
  assumes "repo_usable (rc_repo rc)" "data_ok rc info bytes"
    and "sFopenWrite (rc_process rc) path fs = Inr (p, fs1)"
  shows "\<exists>i fs'. map_of fs1 p = Some i \<and> ino_kind i = Reg_data [] \<and> restoreFile rc path info fs = Inr fs' \<and>
    map_of fs' = (map_of fs1)(p \<mapsto> i\<lparr>ino_kind := Reg_data bytes\<rparr>)"
proof -
  let ?pr = "rc_process rc"
  obtain i where i: "map_of fs1 p = Some i" "ino_kind i = Reg_data []" "opened ?pr i"
    using sFopenWrite_opened [OF assms(3)] by blast
  show ?thesis
  proof (cases "unat (file_size info) > FILE_HASH_SIZE")
    case True
    have hash: "length (file_hash info) = FILE_HASH_SIZE" using assms(2) True by (simp add: data_ok_def)
    obtain b where b: "fillPathBufferWithInfo (fst (rc_buffer rc)) (snd (rc_buffer rc)) (rc_repo rc) info = Inr b"
        "c_string b = full_path (rc_repo rc) info"
      using path_buffer [OF _ _ hash] assms(1) unfolding repo_usable_def by blast
    obtain f where f: "files (rc_disk rc) (full_path (rc_repo rc) info) = Some f" "file_data f = bytes"
      using assms(2) True by (auto simp: data_ok_def stored_data_def)
    let ?r = "\<lparr>rd_repo_path = rc_repo rc, rd_source_file_path = path, rd_remaining = bytes\<rparr>"
    have "repoReaderOpenFile (fst (rc_buffer rc)) (snd (rc_buffer rc)) (rc_repo rc) path info (rc_disk rc) = Inr ?r"
      using b f by (simp add: repoReaderOpenFile_def)
    moreover have "length bytes = unat (file_size info)" using assms(2) by (simp add: data_ok_def)
    moreover obtain fs' where "restoreBlocks ?pr (unat (file_size info)) ?r p fs1 = Inr fs'"
        "map_of fs' = (map_of fs1)(p \<mapsto> i\<lparr>ino_kind := Reg_data ([] @ take (unat (file_size info)) bytes)\<rparr>)"
      using restoreBlocks_ok [OF _ i, of "unat (file_size info)" ?r] calculation(2) by auto
    ultimately show ?thesis using True assms(3) i by (simp add: restoreFile_def)
  next
    case False
    then have "bytes = map char_of_byte (take (unat (file_size info)) (file_hash info))"
      using assms(2) by (auto simp: data_ok_def stored_data_def)
    then show ?thesis using False assms(3) i sFwrite_map [OF i, of bytes] by (simp add: restoreFile_def)
  qed
qed

text \<open>
  C15: a file that a backup has stored comes back byte by byte, whether it is kept in the repository
  or in the metadata; besides the file itself, restoring it changes nothing that opening it for
  writing has not changed.
\<close>

theorem backup_restore_file:
  assumes "hash_of_bytes sys" and "repository_ok repo tmp d" and "stable_file sys path info bytes"
    and "hash_when_fresh sys h info bytes"
    and "addFileToRepo sys buf repo tmp path h info d = Inr (info', d')"
    and "sFopenWrite pr target fs = Inr (p, fs1)"
  shows "\<exists>i fs'. restoreFile \<lparr>rc_process = pr, rc_buffer = buf', rc_repo = repo, rc_disk = d'\<rparr> target info' fs = Inr fs' \<and>
    map_of fs1 p = Some i \<and> map_of fs' = (map_of fs1)(p \<mapsto> i\<lparr>ino_kind := Reg_data bytes\<rparr>)"
proof -
  let ?rc = "\<lparr>rc_process = pr, rc_buffer = buf', rc_repo = repo, rc_disk = d'\<rparr>"
  have "holds_content sys repo d' info' bytes"
    using addFile_stores [OF assms(1-4), of buf] assms(5) by simp
  moreover have "length (os_blake2b sys [bytes]) = FILE_HASH_SIZE" using assms(1) by (simp add: hash_of_bytes_def)
  ultimately have "data_ok ?rc info' bytes"
    by (auto simp: data_ok_def stored_data_def holds_content_def split: if_splits)
  moreover have "repo_usable (rc_repo ?rc)" using assms(2) by (simp add: repo_usable_def repository_ok_def)
  ultimately show ?thesis using restoreFile_ok [of ?rc info' bytes target fs p fs1] assms(6) by auto
qed

definition restore_context_example :: restore_context where
  "restore_context_example = \<lparr>rc_process = \<lparr>pr_now = 50, pr_uid = 0, pr_gid = 0, pr_file_mode = 420, pr_dir_mode = 493,
     pr_link_mode = 511, pr_keeps_set_id = True\<rparr>, rc_buffer = ([], []), rc_repo = ''repo'', rc_disk = finish_disk\<rparr>"

lemma finish_example_stored:
  "\<exists>info' d'. addFileToRepo finish_os ([], []) ''repo'' ''repo/tmp'' ''/f'' BH_added finish_info finish_disk = Inr (info', d')"
  using addFile_stores [OF finish_example, of "([], [])"]
  by (cases "addFileToRepo finish_os ([], []) ''repo'' ''repo/tmp'' ''/f'' BH_added finish_info finish_disk")
    (auto simp: finish_disk_def)

theorem backup_restore_file_witness:
  "\<exists>info' d' fs'. addFileToRepo finish_os ([], []) ''repo'' ''repo/tmp'' ''/f'' BH_added finish_info finish_disk = Inr (info', d') \<and>
     restoreFile (restore_context_example\<lparr>rc_disk := d'\<rparr>) ''/f'' info' [] = Inr fs' \<and>
     map_option ino_kind (map_of fs' [''f'']) = Some (Reg_data (replicate 30 (CHR ''x'')))"
proof -
  obtain info' d' where stored: "addFileToRepo finish_os ([], []) ''repo'' ''repo/tmp'' ''/f'' BH_added finish_info finish_disk = Inr (info', d')"
    using finish_example_stored by blast
  let ?pr = "rc_process restore_context_example"
  have rc: "restore_context_example\<lparr>rc_disk := d'\<rparr> = \<lparr>rc_process = ?pr, rc_buffer = ([], []), rc_repo = ''repo'', rc_disk = d'\<rparr>"
    by (simp add: restore_context_example_def)
  have "sFopenWrite ?pr ''/f'' [] = Inr ([''f''], create ?pr (Reg_data []) (without_set_id (pr_file_mode ?pr)) [''f''] [])"
    by (simp add: sFopenWrite_def locate_def names_of_def)
  from backup_restore_file [OF finish_example(1,2,3) finish_example(4) stored this, of "([], [])"] stored
  show ?thesis by (intro exI [of _ info'] exI [of _ d']) (auto simp: rc)
qed

section \<open>Restored trees\<close>

definition state_then :: "metadata \<Rightarrow> u64 \<Rightarrow> path_node \<Rightarrow> path_state option" where
  "state_then md i n = (case searchExistingPathState md n i of Inr st \<Rightarrow> st | Inl _ \<Rightarrow> None)"

definition last_name :: "path_node \<Rightarrow> string" where
  "last_name n = snd (split_path (node_path n))"

text \<open>Nodes whose paths are made of the names on the way to them, no name twice in a directory.\<close>

fun placed :: "string list \<Rightarrow> path_node list \<Rightarrow> bool" where
  "placed at [] \<longleftrightarrow> True"
| "placed at (PathNode path h pol hist subs # nodes) \<longleftrightarrow>
     (let name = snd (split_path path)
      in path = join_path (at @ [name]) \<and> name_ok name \<and> name \<notin> last_name ` set nodes \<and>
         placed (at @ [name]) subs \<and> placed at nodes)"

text \<open>The inode that a state describes; of a link, the time cannot be restored.\<close>

definition inode_of :: "process \<Rightarrow> (file_info \<Rightarrow> string) \<Rightarrow> path_state \<Rightarrow> inode option" where
  "inode_of pr data st =
     (case st of
        PST_regular_file uid gid info \<Rightarrow>
          Some \<lparr>ino_kind = Reg_data (data info), ino_mode = permission_bits info, ino_uid = uid, ino_gid = gid,
            ino_mtime = modification_time info\<rparr>
      | PST_symlink uid gid target \<Rightarrow>
          Some \<lparr>ino_kind = Link_to target, ino_mode = pr_link_mode pr, ino_uid = uid, ino_gid = gid, ino_mtime = pr_now pr\<rparr>
      | PST_directory uid gid info \<Rightarrow>
          Some \<lparr>ino_kind = Dir_data, ino_mode = dir_permission_bits info, ino_uid = uid, ino_gid = gid,
            ino_mtime = dir_modification_time info\<rparr>
      | PST_non_existing \<Rightarrow> None)"

definition any_restored :: "metadata \<Rightarrow> u64 \<Rightarrow> path_node list \<Rightarrow> bool" where
  "any_restored md i nodes \<longleftrightarrow> list_ex (\<lambda>n. state_then md i n \<noteq> None) nodes"

text \<open>
  The files of a list of nodes as they were. The time of a directory is not restored if it has no
  policy of its own and something in it has been restored.
\<close>

fun snapshot ::
  "metadata \<Rightarrow> u64 \<Rightarrow> process \<Rightarrow> (file_info \<Rightarrow> string) \<Rightarrow> string list \<Rightarrow> path_node list \<Rightarrow> (string list \<Rightarrow> inode option)" where
  "snapshot md i pr data at [] = Map.empty"
| "snapshot md i pr data at (PathNode path h pol hist subs # nodes) =
     (case state_then md i (PathNode path h pol hist subs) of
        None \<Rightarrow> Map.empty
      | Some st \<Rightarrow>
          let p = at @ [snd (split_path path)]
          in (if is_dir_state st then snapshot md i pr data p subs else Map.empty)
               (p := map_option (\<lambda>inode. if is_dir_state st \<and> any_restored md i subs \<and> pol = BPOL_none
                       then inode\<lparr>ino_mtime := pr_now pr\<rparr> else inode) (inode_of pr data st))) ++
     snapshot md i pr data at nodes"

lemma existing: "node_history n \<noteq> [] \<Longrightarrow> searchExistingPathState md n i = Inr (state_then md i n)"
  by (cases "node_history n") (auto simp: state_then_def searchExistingPathState_def searchPathState_def)

lemma state_then_not_gone: "state_then md i n \<noteq> Some PST_non_existing"
  by (cases "searchPathState md n i") (auto simp: state_then_def searchExistingPathState_def)

lemma backup_of_paths: "backup_of (md\<lparr>paths := ns\<rparr>) r = backup_of md r"
  by (cases r) (simp_all add: backup_of_def)

lemma search_paths: "searchExistingPathState (md\<lparr>paths := ns\<rparr>) n i = searchExistingPathState md n i"
  by (simp add: searchExistingPathState_def searchPathState_def backup_of_paths)

lemma search_same:
  "searchExistingPathState md (PathNode path h pol hist subs) i = searchExistingPathState md (PathNode path h' pol hist subs') i"
  by (simp add: searchExistingPathState_def searchPathState_def)

lemma state_same: "state_then md i (PathNode path h pol hist subs) = state_then md i (PathNode path h' pol hist subs')"
  unfolding state_then_def using search_same by metis

lemma snapshot_below:
  "snapshot md i pr data at nodes q \<noteq> None \<Longrightarrow> \<exists>n \<in> set nodes. \<exists>r. q = at @ last_name n # r"
proof (induction nodes arbitrary: at rule: flatten.induct)
  case (2 path h pol hist subs nodes)
  let ?n = "PathNode path h pol hist subs" and ?p = "at @ [snd (split_path path)]"
  have name: "last_name ?n = snd (split_path path)" by (simp add: last_name_def)
  consider "snapshot md i pr data at nodes q \<noteq> None" | "q = ?p" | "snapshot md i pr data ?p subs q \<noteq> None"
    using "2.prems" by (auto simp: map_add_def Let_def split: option.splits if_splits)
  then show ?case
  proof cases
    case 1
    then show ?thesis using "2.IH"(2) by fastforce
  next
    case 2
    then show ?thesis using name by (intro bexI [of _ ?n]) auto
  next
    case 3
    then obtain n r where "q = ?p @ last_name n # r" using "2.IH"(1) by blast
    then show ?thesis using name by (intro bexI [of _ ?n]) auto
  qed
qed simp

section \<open>Creating one path\<close>

lemma plain_kinds:
  assumes "plain fs p"
    and "\<And>q. strict_prefix q p \<Longrightarrow> q \<noteq> [] \<Longrightarrow> map_option ino_kind (map_of fs' q) = map_option ino_kind (map_of fs q)"
  shows "plain fs' p"
  using assms by (simp add: plain_def)

lemma change_inode_plain:
  assumes "plain fs p" "map_of fs p = Some i" "follow \<Longrightarrow> \<forall>target. ino_kind i \<noteq> Link_to target"
  shows "change_inode follow f (join_path p) fs = Inr (AList.update p (f i) fs)"
proof -
  have "locate fs follow (join_path p) = At p" using locate_plain [OF assms(1)] assms(2,3) by simp
  then show ?thesis using assms(2) by (simp add: change_inode_def)
qed

lemma plain_update: "plain fs p \<Longrightarrow> plain (AList.update p i fs) p"
  by (rule plain_kinds) (auto simp: update_conv')

lemma attributes:
  assumes "plain fs p" "map_of fs p = Some i" "\<forall>target. ino_kind i \<noteq> Link_to target"
  shows "\<exists>fs'. bindE (sChown (join_path p) uid gid fs) (\<lambda>fs. bindE (sChmod (join_path p) mode fs) (sUtime (join_path p) time)) = Inr fs' \<and>
    map_of fs' = (map_of fs)(p \<mapsto> i\<lparr>ino_uid := uid, ino_gid := gid, ino_mode := mode, ino_mtime := time\<rparr>)"
proof -
  let ?i1 = "(drop_set_id False i)\<lparr>ino_uid := uid, ino_gid := gid\<rparr>" and ?i2 = "i\<lparr>ino_uid := uid, ino_gid := gid, ino_mode := mode\<rparr>"
  have i2: "?i1\<lparr>ino_mode := mode\<rparr> = ?i2" by (cases i) (simp add: drop_set_id_def split: inode_kind.split)
  let ?f1 = "AList.update p ?i1 fs"
  let ?f2 = "AList.update p ?i2 ?f1"
  have 1: "sChown (join_path p) uid gid fs = Inr ?f1"
    unfolding sChown_def by (rule change_inode_plain) (use assms in auto)
  have p1: "plain ?f1 p" "plain ?f2 p" using assms(1) by (intro plain_update; assumption)+
  have 2: "sChmod (join_path p) mode ?f1 = Inr ?f2"
    unfolding sChmod_def using change_inode_plain [OF p1(1), of ?i1 True "\<lambda>i. i\<lparr>ino_mode := mode\<rparr>"] assms(3)
    by (simp add: update_conv' i2)
  have 3: "sUtime (join_path p) time ?f2 = Inr (AList.update p (?i2\<lparr>ino_mtime := time\<rparr>) ?f2)"
    unfolding sUtime_def using change_inode_plain [OF p1(2), of ?i2 True "\<lambda>i. i\<lparr>ino_mtime := time\<rparr>"] assms(3)
    by (simp add: update_conv')
  show ?thesis using 1 2 3 by (simp add: update_conv')
qed

lemma create_map:
  assumes "map_of fs at = Some dir"
  shows "map_of (create pr k mode (at @ [n]) fs) = (map_of fs)(at \<mapsto> dir\<lparr>ino_mtime := pr_now pr\<rparr>, at @ [n] \<mapsto>
    \<lparr>ino_kind = k, ino_mode = mode, ino_uid = pr_uid pr, ino_gid = pr_gid pr, ino_mtime = pr_now pr\<rparr>)"
  using assms by (simp add: create_def touch_parent_def update_conv')

lemma restorePath_new:
  assumes "plain fs (at @ [n])" "map_of fs (at @ [n]) = None" "map_of fs at = Some dir" "ino_kind dir = Dir_data"
    and "repo_usable (rc_repo rc)" "\<And>uid gid info. st = PST_regular_file uid gid info \<Longrightarrow> data_ok rc info (data info)"
    and "inode_of (rc_process rc) data st = Some inode"
  shows "\<exists>fs'. restorePath rc (join_path (at @ [n])) st fs = Inr fs' \<and>
    map_of fs' = (map_of fs)(at \<mapsto> dir\<lparr>ino_mtime := pr_now (rc_process rc)\<rparr>, at @ [n] \<mapsto> inode)"
proof -
  let ?p = "at @ [n]" and ?pr = "rc_process rc"
  have there: "locate fs follow (join_path ?p) = At ?p" for follow
    using locate_plain [OF assms(1)] assms(2) by simp
  have plain: "plain (create ?pr k mode ?p fs) ?p" for k mode
    by (rule plain_kinds [OF assms(1)]) (use assms(3,4) in \<open>auto simp: create_map [OF assms(3)]\<close>)
  show ?thesis
  proof (cases st)
    case (PST_regular_file uid gid info)
    let ?f1 = "create ?pr (Reg_data []) (without_set_id (pr_file_mode ?pr)) ?p fs"
    have "sFopenWrite ?pr (join_path ?p) fs = Inr (?p, ?f1)" using there assms(2) by (simp add: sFopenWrite_def)
    then obtain i f2 where f2: "map_of ?f1 ?p = Some i" "restoreFile rc (join_path ?p) info fs = Inr f2"
        "map_of f2 = (map_of ?f1)(?p \<mapsto> i\<lparr>ino_kind := Reg_data (data info)\<rparr>)"
      using restoreFile_ok [OF assms(5) assms(6) [OF PST_regular_file]] by blast
    have "plain f2 ?p" by (rule plain_kinds [OF plain [of "Reg_data []" "without_set_id (pr_file_mode ?pr)"]]) (auto simp: f2(3))
    then obtain f3 where f3: "bindE (sChown (join_path ?p) uid gid f2) (\<lambda>fs. bindE (sChmod (join_path ?p) (permission_bits info) fs)
          (sUtime (join_path ?p) (modification_time info))) = Inr f3"
        "map_of f3 = (map_of f2)(?p \<mapsto> i\<lparr>ino_kind := Reg_data (data info), ino_uid := uid, ino_gid := gid,
          ino_mode := permission_bits info, ino_mtime := modification_time info\<rparr>)"
      using attributes [of f2 ?p "i\<lparr>ino_kind := Reg_data (data info)\<rparr>" uid gid "permission_bits info" "modification_time info"]
      by (auto simp: f2(3))
    have "i\<lparr>ino_kind := Reg_data (data info), ino_uid := uid, ino_gid := gid,
          ino_mode := permission_bits info, ino_mtime := modification_time info\<rparr> = inode"
      using f2(1) assms(7) PST_regular_file by (auto simp: create_map [OF assms(3)] inode_of_def)
    then have "map_of f3 = (map_of fs)(at \<mapsto> dir\<lparr>ino_mtime := pr_now ?pr\<rparr>, ?p \<mapsto> inode)"
      using f3(2) f2(3) by (simp add: create_map [OF assms(3)])
    then show ?thesis using f2(2) f3(1) PST_regular_file by (simp add: restorePath_def)
  next
    case (PST_symlink uid gid target)
    let ?f1 = "create ?pr (Link_to target) (pr_link_mode ?pr) ?p fs"
    have 1: "sSymlink ?pr target (join_path ?p) fs = Inr ?f1" using there assms(2) by (simp add: sSymlink_def)
    have "sLChown (join_path ?p) uid gid ?f1 = Inr (AList.update ?p inode ?f1)"
      unfolding sLChown_def
      by (subst change_inode_plain [OF plain]) (use assms(7) PST_symlink in \<open>auto simp: create_map [OF assms(3)] inode_of_def\<close>)
    then show ?thesis using 1 PST_symlink by (simp add: restorePath_def update_conv' create_map [OF assms(3)])
  next
    case (PST_directory uid gid info)
    let ?f1 = "create ?pr Dir_data (pr_dir_mode ?pr) ?p fs"
    have 1: "sMkdir ?pr (join_path ?p) fs = Inr ?f1" using there assms(2) by (simp add: sMkdir_def)
    have "map_of ?f1 ?p = Some \<lparr>ino_kind = Dir_data, ino_mode = pr_dir_mode ?pr, ino_uid = pr_uid ?pr, ino_gid = pr_gid ?pr,
        ino_mtime = pr_now ?pr\<rparr>" by (simp add: create_map [OF assms(3)])
    from attributes [OF plain this, of uid gid "dir_permission_bits info" "dir_modification_time info"]
    show ?thesis using 1 PST_directory assms(7)
      by (auto simp: restorePath_def create_map [OF assms(3)] inode_of_def)
  next
    case PST_non_existing
    then show ?thesis using assms(7) by (simp add: inode_of_def)
  qed
qed

section \<open>Restoring a whole tree\<close>

text \<open>The nodes after initiating, if no path exists: everything that is to be restored is added.\<close>

fun marked :: "metadata \<Rightarrow> u64 \<Rightarrow> path_node list \<Rightarrow> path_node list" where
  "marked md i [] = []"
| "marked md i (PathNode path h pol hist subs # nodes) =
     (case state_then md i (PathNode path h pol hist subs) of
        None \<Rightarrow> PathNode path h pol hist subs
      | Some st \<Rightarrow> PathNode path (backupHintSet h BH_added) pol hist (if is_dir_state st then marked md i subs else subs)) #
     marked md i nodes"

lemma replaced_added: "replaced_hint (backupHintSet h BH_added)"
  by (simp add: replaced_hint_def) (simp add: BH_defs)

lemma checkNodes_added:
  assumes "list_all (\<lambda>n. node_history n \<noteq> []) (flatten nodes)"
    and "could_exist \<Longrightarrow> list_all (\<lambda>n. os_lstat sys (node_path n) = Lstat_missing) nodes"
  shows "checkNodes md sys i nodes could_exist = Inr (marked md i nodes)"
  using assms
proof (induction nodes arbitrary: could_exist rule: flatten.induct)
  case (2 path h pol hist subs nodes)
  let ?n = "PathNode path h pol hist subs"
  have E: "searchExistingPathState md ?n i = Inr (state_then md i ?n)" using "2.prems"(1) by (intro existing) simp
  have check: "checkAndHandleChanges sys path st could_exist h = Inr (backupHintSet h BH_added)" for st
    using "2.prems"(2) by (cases could_exist) (simp_all add: checkAndHandleChanges_def sPathExists_def)
  have subs: "checkNodes md sys i subs False = Inr (marked md i subs)"
    by (rule "2.IH"(1)) (use "2.prems"(1) in simp_all)
  have rest: "checkNodes md sys i nodes could_exist = Inr (marked md i nodes)"
    by (rule "2.IH"(2)) (use "2.prems" in simp_all)
  show ?case
    by (simp add: E check subs rest replaced_added split: option.split)
qed simp

lemma strict_prefix_snoc: "strict_prefix q (at @ [n]) \<longleftrightarrow> q = at \<or> strict_prefix q at"
  by (auto simp: strict_prefix_def)

lemma plain_snoc:
  assumes "plain fs at" "map_of fs at = Some dir" "ino_kind dir = Dir_data" "name_ok n"
  shows "plain fs (at @ [n])"
  using assms unfolding plain_def strict_prefix_snoc by auto

lemma not_below: "strict_prefix q p \<or> q = p \<Longrightarrow> q \<noteq> p @ n # r"
  by (auto simp: strict_prefix_def prefix_def)

lemma snapshot_above:
  assumes "strict_prefix q p \<or> q = p"
  shows "snapshot md i pr data p nodes q = None"
  using snapshot_below [of md i pr data p nodes q] not_below [OF assms] by blast

lemma finish_directory:
  assumes rec: "\<exists>fs'. finishNodes md' i rc subs fs1 = Inr (any, fs') \<and>
      map_of fs' = (map_of fs1)(p \<mapsto> if any then inode\<lparr>ino_mtime := now\<rparr> else inode) ++ snap"
    and plain: "plain fs1 p" and kind: "ino_kind inode = Dir_data" and time: "ino_mtime inode = time"
    and snap: "\<And>q. strict_prefix q p \<or> q = p \<Longrightarrow> snap q = None"
  shows "\<exists>fs'. bindE (finishNodes md' i rc subs fs1) (\<lambda>(affected, fs).
      if affected \<and> pol \<noteq> BPOL_none then bindE (sUtime (join_path p) time fs) (\<lambda>fs. Inr (True, fs)) else Inr (True, fs)) =
      Inr (True, fs') \<and>
    map_of fs' = map_of fs1 ++ snap(p \<mapsto> if any \<and> pol = BPOL_none then inode\<lparr>ino_mtime := now\<rparr> else inode)"
proof -
  obtain fs2 where fs2: "finishNodes md' i rc subs fs1 = Inr (any, fs2)"
      "map_of fs2 = (map_of fs1)(p \<mapsto> if any then inode\<lparr>ino_mtime := now\<rparr> else inode) ++ snap"
    using rec by blast
  show ?thesis
  proof (cases "any \<and> pol \<noteq> BPOL_none")
    case True
    let ?i = "inode\<lparr>ino_mtime := now\<rparr>"
    have "plain fs2 p"
    proof (rule plain_kinds [OF plain])
      fix q assume "strict_prefix q p" "q \<noteq> []"
      then show "map_option ino_kind (map_of fs2 q) = map_option ino_kind (map_of fs1 q)"
        using snap [of q] by (auto simp: fs2(2) map_add_def)
    qed
    moreover have "map_of fs2 p = Some ?i" using snap [of p] True by (simp add: fs2(2) map_add_def)
    ultimately have "sUtime (join_path p) time fs2 = Inr (AList.update p (?i\<lparr>ino_mtime := time\<rparr>) fs2)"
      unfolding sUtime_def by (rule change_inode_plain) (simp add: kind)
    moreover have "?i\<lparr>ino_mtime := time\<rparr> = inode" using time by (cases inode) simp
    moreover have "(map_of fs2)(p \<mapsto> inode) = map_of fs1 ++ snap(p \<mapsto> inode)"
      by (auto simp: fs2(2) map_add_def fun_eq_iff split: option.split)
    ultimately show ?thesis using True fs2(1) by (simp add: update_conv')
  next
    case False
    have "map_of fs2 = map_of fs1 ++ snap(p \<mapsto> if any \<and> pol = BPOL_none then inode\<lparr>ino_mtime := now\<rparr> else inode)"
      using False snap [of p] by (auto simp: fs2(2) map_add_def fun_eq_iff split: option.split)
    then show ?thesis using False fs2(1) by auto
  qed
qed

text \<open>The files that are needed are kept, and nothing is left of any node.\<close>

definition contents_ok :: "metadata \<Rightarrow> u64 \<Rightarrow> restore_context \<Rightarrow> (file_info \<Rightarrow> string) \<Rightarrow> path_node list \<Rightarrow> bool" where
  "contents_ok md i rc data nodes \<longleftrightarrow> (\<forall>n \<in> set nodes. \<forall>uid gid info.
     state_then md i n = Some (PST_regular_file uid gid info) \<longrightarrow> data_ok rc info (data info))"

definition nothing_left :: "user_files \<Rightarrow> string list \<Rightarrow> path_node list \<Rightarrow> bool" where
  "nothing_left fs at nodes \<longleftrightarrow> (\<forall>n \<in> set nodes. \<forall>r. map_of fs (at @ last_name n # r) = None)"

text \<open>Restoring one node that is to be added, given how its subnodes are restored.\<close>

lemma finish_added:
  assumes usable: "repo_usable (rc_repo rc)"
    and E: "\<And>h' subs'. searchExistingPathState md' (PathNode path h' pol hist subs') i = Inr (Some st)"
    and "st \<noteq> PST_non_existing" and path: "path = join_path (at @ [n])"
    and plain: "plain fs (at @ [n])" and at: "map_of fs at = Some dir" "ino_kind dir = Dir_data"
    and free: "\<And>r. map_of fs ((at @ [n]) @ r) = None"
    and data: "\<And>uid gid info. st = PST_regular_file uid gid info \<Longrightarrow> data_ok rc info (data info)"
    and rec: "\<And>fs1 inode. plain fs1 (at @ [n]) \<Longrightarrow> map_of fs1 (at @ [n]) = Some inode \<Longrightarrow> ino_kind inode = Dir_data \<Longrightarrow>
      nothing_left fs1 (at @ [n]) subs \<Longrightarrow>
      \<exists>fs'. finishNodes md' i rc (marked md i subs) fs1 = Inr (any_restored md i subs, fs') \<and>
        map_of fs' = (map_of fs1)(at @ [n] \<mapsto> if any_restored md i subs then inode\<lparr>ino_mtime := pr_now (rc_process rc)\<rparr> else inode) ++
          snapshot md i (rc_process rc) data (at @ [n]) subs"
  shows "\<exists>inode fs3. inode_of (rc_process rc) data st = Some inode \<and>
    finishRestoreRecursively md' i rc
      (PathNode path (backupHintSet h BH_added) pol hist (if is_dir_state st then marked md i subs else subs)) fs = Inr (True, fs3) \<and>
    map_of fs3 = (map_of fs)(at \<mapsto> dir\<lparr>ino_mtime := pr_now (rc_process rc)\<rparr>) ++
      (if is_dir_state st then snapshot md i (rc_process rc) data (at @ [n]) subs else Map.empty)
        (at @ [n] \<mapsto> if is_dir_state st \<and> any_restored md i subs \<and> pol = BPOL_none
           then inode\<lparr>ino_mtime := pr_now (rc_process rc)\<rparr> else inode)"
proof -
  let ?p = "at @ [n]" and ?now = "pr_now (rc_process rc)" and ?snap = "snapshot md i (rc_process rc) data"
  let ?dir = "dir\<lparr>ino_mtime := ?now\<rparr>"
  let ?new = "PathNode path (backupHintSet h BH_added) pol hist (if is_dir_state st then marked md i subs else subs)"
  obtain inode where inode: "inode_of (rc_process rc) data st = Some inode"
    using assms(3) by (cases st) (auto simp: inode_of_def)
  have "\<exists>fs'. restorePath rc (join_path ?p) st fs = Inr fs' \<and> map_of fs' = (map_of fs)(at \<mapsto> ?dir, ?p \<mapsto> inode)"
    using restorePath_new [OF plain _ at usable data inode] free [of "[]"] by simp
  then obtain fs1 where fs1: "restorePath rc path st fs = Inr fs1" "map_of fs1 = (map_of fs)(at \<mapsto> ?dir, ?p \<mapsto> inode)"
    using path by auto
  have node: "restoreNode rc path (backupHintSet h BH_added) pol st fs = Inr (True, fs1)"
    using fs1(1) by (simp add: restoreNode_def)
  show ?thesis
  proof (cases "is_dir_state st")
    case True
    then obtain uid gid info where st: "st = PST_directory uid gid info" by (cases st) (auto simp: is_dir_state_def)
    have dir: "ino_kind inode = Dir_data" "ino_mtime inode = dir_modification_time info"
      using inode by (auto simp: st inode_of_def)
    have p1: "plain fs1 ?p" by (rule plain_kinds [OF plain]) (auto simp: fs1(2) at)
    have "\<exists>fs'. finishNodes md' i rc (marked md i subs) fs1 = Inr (any_restored md i subs, fs') \<and>
      map_of fs' = (map_of fs1)(?p \<mapsto> if any_restored md i subs then inode\<lparr>ino_mtime := ?now\<rparr> else inode) ++ ?snap ?p subs"
      by (rule rec [OF p1 _ dir(1)]) (use free in \<open>auto simp: fs1(2) nothing_left_def\<close>)
    from finish_directory [OF this p1 dir snapshot_above, of pol]
    obtain fs3 where fs3: "bindE (finishNodes md' i rc (marked md i subs) fs1) (\<lambda>(affected, fs).
          if affected \<and> pol \<noteq> BPOL_none
          then bindE (sUtime (join_path ?p) (dir_modification_time info) fs) (\<lambda>fs. Inr (True, fs)) else Inr (True, fs)) =
          Inr (True, fs3)"
        "map_of fs3 = map_of fs1 ++ (?snap ?p subs)(?p \<mapsto> if any_restored md i subs \<and> pol = BPOL_none
           then inode\<lparr>ino_mtime := ?now\<rparr> else inode)"
      by blast
    moreover have "finishRestoreRecursively md' i rc ?new fs = Inr (True, fs3)"
      using fs3(1) [folded path] node True unfolding st by (simp add: E st)
    moreover have "map_of fs1 ++ m(?p \<mapsto> y) = (map_of fs)(at \<mapsto> ?dir) ++ m(?p \<mapsto> y)" for m y
      by (auto simp: fs1(2) map_add_def fun_eq_iff split: option.split)
    ultimately show ?thesis using True inode by auto
  next
    case False
    then have "finishRestoreRecursively md' i rc ?new fs = Inr (True, fs1)"
      by (auto simp: E node is_dir_state_def split: path_state.splits)
    then show ?thesis using False fs1(2) inode by auto
  qed
qed

lemma finish_spec:
  assumes usable: "repo_usable (rc_repo rc)"
    and same: "\<And>n. searchExistingPathState md' n i = searchExistingPathState md n i"
  shows "placed at nodes \<Longrightarrow> list_all (\<lambda>n. node_history n \<noteq> []) (flatten nodes) \<Longrightarrow>
    contents_ok md i rc data (flatten nodes) \<Longrightarrow>
    plain fs at \<Longrightarrow> map_of fs at = Some dir \<Longrightarrow> ino_kind dir = Dir_data \<Longrightarrow>
    nothing_left fs at nodes \<Longrightarrow>
    \<exists>fs'. finishNodes md' i rc (marked md i nodes) fs = Inr (any_restored md i nodes, fs') \<and>
      map_of fs' = (map_of fs)(at \<mapsto> if any_restored md i nodes then dir\<lparr>ino_mtime := pr_now (rc_process rc)\<rparr> else dir) ++
        snapshot md i (rc_process rc) data at nodes"
proof (induction nodes arbitrary: at fs dir rule: flatten.induct)
  case 1
  have "(map_of fs)(at \<mapsto> dir) = map_of fs" using 1 by (simp add: fun_upd_idem)
  then show ?case by (simp add: any_restored_def)
next
  case (2 path h pol hist subs nodes)
  let ?n = "PathNode path h pol hist subs" and ?name = "snd (split_path path)" and ?now = "pr_now (rc_process rc)"
  let ?p = "at @ [?name]" and ?dir = "dir\<lparr>ino_mtime := ?now\<rparr>"
  let ?snap = "snapshot md i (rc_process rc) data"
  have placed: "path = join_path ?p" "name_ok ?name" "?name \<notin> last_name ` set nodes" "placed ?p subs" "placed at nodes"
    using "2.prems"(1) by (auto simp: Let_def)
  have name: "last_name ?n = ?name" by (simp add: last_name_def)
  have hists: "list_all (\<lambda>n. node_history n \<noteq> []) (flatten subs)" "list_all (\<lambda>n. node_history n \<noteq> []) (flatten nodes)"
    using "2.prems"(2) by simp_all
  have data: "contents_ok md i rc data (flatten subs)" "contents_ok md i rc data (flatten nodes)"
    and data_node: "\<And>uid gid info. state_then md i ?n = Some (PST_regular_file uid gid info) \<Longrightarrow> data_ok rc info (data info)"
    using "2.prems"(3) unfolding contents_ok_def flatten.simps list.set set_append by blast+
  have E: "searchExistingPathState md' (PathNode path h' pol hist subs') i = Inr (state_then md i ?n)" for h' subs'
    using existing [of ?n md i] "2.prems"(2) same [of "PathNode path h' pol hist subs'"] search_same [of md path h' pol hist subs' i h subs]
    by simp
  show ?case
  proof (cases "state_then md i ?n")
    case None
    have one: "finishRestoreRecursively md' i rc ?n fs = Inr (False, fs)" by (simp add: E None)
    have "nothing_left fs at nodes" using "2.prems"(7) by (simp add: nothing_left_def)
    then obtain fs' where fs': "finishNodes md' i rc (marked md i nodes) fs = Inr (any_restored md i nodes, fs')"
        "map_of fs' = (map_of fs)(at \<mapsto> if any_restored md i nodes then ?dir else dir) ++ ?snap at nodes"
      using "2.IH"(2) [OF placed(5) hists(2) data(2) "2.prems"(4-6)] by blast
    have skip: "any_restored md i (?n # nodes) = any_restored md i nodes" "marked md i (?n # nodes) = ?n # marked md i nodes"
      "?snap at (?n # nodes) = ?snap at nodes"
      using None by (simp_all add: any_restored_def)
    show ?thesis
      unfolding skip by (rule exI [of _ fs']) (simp only: finishNodes.simps one fs' bindE_simps prod.case simp_thms)
  next
    case (Some st)
    have plain: "plain fs ?p" by (rule plain_snoc [OF "2.prems"(4-6) placed(2)])
    have free: "map_of fs (?p @ r) = None" for r using "2.prems"(7) name by (simp add: nothing_left_def)
    let ?final = "\<lambda>inode. if is_dir_state st \<and> any_restored md i subs \<and> pol = BPOL_none then inode\<lparr>ino_mtime := ?now\<rparr> else inode"
    let ?inner = "if is_dir_state st then ?snap ?p subs else Map.empty"
    let ?new = "PathNode path (backupHintSet h BH_added) pol hist (if is_dir_state st then marked md i subs else subs)"
    have "\<exists>inode fs3. inode_of (rc_process rc) data st = Some inode \<and>
      finishRestoreRecursively md' i rc ?new fs = Inr (True, fs3) \<and> map_of fs3 = (map_of fs)(at \<mapsto> ?dir) ++ ?inner(?p \<mapsto> ?final inode)"
    proof (rule finish_added [OF usable _ _ placed(1) plain "2.prems"(5,6) free])
      show "searchExistingPathState md' (PathNode path h' pol hist subs') i = Inr (Some st)" for h' subs'
        using E Some by simp
      show "st \<noteq> PST_non_existing" using Some state_then_not_gone by blast
      show "data_ok rc info (data info)" if "st = PST_regular_file uid gid info" for uid gid info
        using data_node [of uid gid info] Some that by simp
      show "\<exists>fs'. finishNodes md' i rc (marked md i subs) fs1 = Inr (any_restored md i subs, fs') \<and>
        map_of fs' = (map_of fs1)(?p \<mapsto> if any_restored md i subs then inode\<lparr>ino_mtime := ?now\<rparr> else inode) ++ ?snap ?p subs"
        if "plain fs1 ?p" "map_of fs1 ?p = Some inode" "ino_kind inode = Dir_data" "nothing_left fs1 ?p subs" for fs1 inode
        by (rule "2.IH"(1) [OF placed(4) hists(1) data(1) that])
    qed
    then obtain inode fs3 where inode: "inode_of (rc_process rc) data st = Some inode"
      and fs3: "finishRestoreRecursively md' i rc ?new fs = Inr (True, fs3)"
        "map_of fs3 = (map_of fs)(at \<mapsto> ?dir) ++ ?inner(?p \<mapsto> ?final inode)" by blast
    have inner: "(?inner(?p \<mapsto> ?final inode)) q = None" if "\<nexists>r. q = ?p @ r" for q
      using that snapshot_below [of md i "rc_process rc" data ?p subs q] by (cases "?snap ?p subs q") auto
    have above: "\<nexists>r. q = ?p @ r" if "strict_prefix q at \<or> q = at" for q
      using not_below [OF that] by simp
    have "plain fs3 at"
    proof (rule plain_kinds [OF "2.prems"(4)])
      fix q assume "strict_prefix q at" "q \<noteq> []"
      then have "q \<noteq> at" "(?inner(?p \<mapsto> ?final inode)) q = None" using inner [OF above] by auto
      then show "map_option ino_kind (map_of fs3 q) = map_option ino_kind (map_of fs q)"
        unfolding fs3(2) map_add_def by simp
    qed
    moreover have at3: "map_of fs3 at = Some ?dir"
      using inner [OF above, of at] unfolding fs3(2) map_add_def by simp
    moreover have "nothing_left fs3 at nodes"
      unfolding nothing_left_def
    proof (intro ballI allI)
      fix n r assume that: "n \<in> set nodes"
      have "last_name n \<noteq> ?name" using that placed(3) by force
      then have "(?inner(?p \<mapsto> ?final inode)) (at @ last_name n # r) = None" using inner [of "at @ last_name n # r"] by simp
      then show "map_of fs3 (at @ last_name n # r) = None"
        using "2.prems"(7) that unfolding fs3(2) map_add_def nothing_left_def by simp
    qed
    moreover have "ino_kind ?dir = Dir_data" using "2.prems"(6) by simp
    ultimately obtain fs4 where fs4: "finishNodes md' i rc (marked md i nodes) fs3 = Inr (any_restored md i nodes, fs4)"
        "map_of fs4 = (map_of fs3)(at \<mapsto> if any_restored md i nodes then ?dir\<lparr>ino_mtime := ?now\<rparr> else ?dir) ++ ?snap at nodes"
      using "2.IH"(2) [OF placed(5) hists(2) data(2), of fs3 ?dir] by blast
    have "(map_of fs3)(at \<mapsto> if any_restored md i nodes then ?dir\<lparr>ino_mtime := ?now\<rparr> else ?dir) = map_of fs3"
      using at3 by (auto simp: fun_eq_iff)
    with fs4(2) fs3(2) have "map_of fs4 = (map_of fs)(at \<mapsto> ?dir) ++ ?snap at (?n # nodes)"
      by (simp add: Some inode Let_def)
    moreover have "finishNodes md' i rc (marked md i (?n # nodes)) fs = Inr (True, fs4)"
      using fs3(1) fs4(1) by (simp add: Some)
    moreover have any: "any_restored md i (?n # nodes) = True" by (simp add: any_restored_def Some)
    ultimately show ?thesis by (intro exI [of _ fs4]) (simp only: any if_True simp_thms)
  qed
qed

text \<open>A tree is restored in two steps, which agree on the states of its nodes.\<close>

lemma initiate_nothing_left:
  assumes "placed [] (paths md)" and "list_all (\<lambda>n. node_history n \<noteq> []) (flatten (paths md))"
    and "nothing_left fs [] (paths md)"
  shows "initiateRestore (reading fs sys) md i [] = Inr (md\<lparr>paths := marked md i (paths md)\<rparr>)"
proof -
  have place: "placed [] nodes \<Longrightarrow> n \<in> set nodes \<Longrightarrow> node_path n = join_path [last_name n] \<and> name_ok (last_name n)" for nodes n
    by (induction nodes rule: flatten.induct) (auto simp: Let_def last_name_def)
  have "os_lstat (reading fs sys) (node_path n) = Lstat_missing" if n: "n \<in> set (paths md)" for n
  proof -
    have free: "map_of fs [last_name n] = None" using assms(3) n by (simp add: nothing_left_def)
    have "plain fs [last_name n]" using place [OF assms(1) n] by (auto simp: plain_def strict_prefix_def prefix_Cons)
    then have "locate fs False (node_path n) = At [last_name n]"
      using locate_plain [of fs "[last_name n]" False] place [OF assms(1) n] by simp
    then show ?thesis using free by (simp add: reading_def)
  qed
  then have "checkNodes md (reading fs sys) i (paths md) True = Inr (marked md i (paths md))"
    by (intro checkNodes_added assms(2)) (simp add: list_all_iff)
  then show ?thesis by (simp add: initiateRestore_def)
qed

lemma restore_tree:
  assumes "repo_usable (rc_repo rc)" "placed [] (paths md)" "list_all (\<lambda>n. node_history n \<noteq> []) (flatten (paths md))"
    and "contents_ok md i rc data (flatten (paths md))" "nothing_left fs [] (paths md)"
    and "map_of fs [] = Some root" "ino_kind root = Dir_data"
  shows "\<exists>fs'. bindE (initiateRestore (reading fs sys) md i []) (\<lambda>md. finishRestore rc md i fs) = Inr fs' \<and>
    map_of fs' = (map_of fs)([] \<mapsto> if any_restored md i (paths md) then root\<lparr>ino_mtime := pr_now (rc_process rc)\<rparr> else root) ++
      snapshot md i (rc_process rc) data [] (paths md)"
proof -
  have "plain fs []" by (simp add: plain_def)
  from finish_spec [OF assms(1) search_paths assms(2-4) this assms(6,7,5), of "marked md i (paths md)"]
  obtain fs' where fs': "finishNodes (md\<lparr>paths := marked md i (paths md)\<rparr>) i rc (marked md i (paths md)) fs =
      Inr (any_restored md i (paths md), fs')"
    "map_of fs' = (map_of fs)([] \<mapsto> if any_restored md i (paths md) then root\<lparr>ino_mtime := pr_now (rc_process rc)\<rparr> else root) ++
      snapshot md i (rc_process rc) data [] (paths md)" by blast
  show ?thesis
    by (rule exI [of _ fs']) (simp add: initiate_nothing_left [OF assms(2,3,5)] finishRestore_def fs')
qed

text \<open>
  C9: restoring a backup into a place where nothing is left of its files recreates all of them, with
  their kinds, contents, targets, owners, permissions and times, and changes nothing else but the time
  of the root directory. The only attributes that are not brought back are the time of a symbolic
  link and that of a directory without a policy that something has been restored into.
\<close>

theorem restore_snapshot:
  assumes "repo_usable (rc_repo rc)" "placed [] (paths md)" "list_all (\<lambda>n. node_history n \<noteq> []) (flatten (paths md))"
    and "contents_ok md i rc data (flatten (paths md))" "nothing_left fs [] (paths md)"
    and "map_of fs [] = Some root" "ino_kind root = Dir_data"
  shows "\<exists>fs'. bindE (initiateRestore (reading fs sys) md i []) (\<lambda>md. finishRestore rc md i fs) = Inr fs' \<and>
    map_of fs' = (map_of fs)([] \<mapsto> if any_restored md i (paths md) then root\<lparr>ino_mtime := pr_now (rc_process rc)\<rparr> else root) ++
      snapshot md i (rc_process rc) data [] (paths md)"
  by (rule restore_tree [OF assms])

definition restore_file_example :: file_info where
  "restore_file_example = \<lparr>permission_bits = 384, modification_time = 8, file_size = 2, file_hash = [104, 105], slot = 0\<rparr>"

definition restore_metadata_example :: metadata where
  "restore_metadata_example = metadataNew\<lparr>paths := [PathNode ''/d'' BH_none BPOL_copy
     [\<lparr>point_backup = Current, state = PST_directory 1 2 \<lparr>dir_permission_bits = 448, dir_modification_time = 9\<rparr>\<rparr>]
     [PathNode ''/d/f'' BH_none BPOL_copy
        [\<lparr>point_backup = Current, state = PST_regular_file 3 4 restore_file_example\<rparr>] [],
      PathNode ''/d/l'' BH_none BPOL_copy
        [\<lparr>point_backup = Current, state = PST_symlink 5 6 ''f''\<rparr>] []]]\<rparr>"

definition root_example :: inode where
  "root_example = \<lparr>ino_kind = Dir_data, ino_mode = 493, ino_uid = 0, ino_gid = 0, ino_mtime = 1\<rparr>"

theorem restore_snapshot_witness:
  "\<exists>fs'. bindE (initiateRestore (reading [([], root_example)] finish_os) restore_metadata_example 0 [])
       (\<lambda>md. finishRestore restore_context_example md 0 [([], root_example)]) = Inr fs' \<and>
     map_of fs' [''d''] = Some \<lparr>ino_kind = Dir_data, ino_mode = 448, ino_uid = 1, ino_gid = 2, ino_mtime = 9\<rparr> \<and>
     map_of fs' [''d'', ''f''] = Some \<lparr>ino_kind = Reg_data ''hi'', ino_mode = 384, ino_uid = 3, ino_gid = 4, ino_mtime = 8\<rparr> \<and>
     map_of fs' [''d'', ''l''] = Some \<lparr>ino_kind = Link_to ''f'', ino_mode = 511, ino_uid = 5, ino_gid = 6, ino_mtime = 50\<rparr>"
proof -
  let ?fs = "[([], root_example)]" and ?md = restore_metadata_example and ?data = "\<lambda>_. ''hi''" and ?rc = restore_context_example
  have names: "split_path ''/d'' = ([], ''d'')" "split_path ''/d/f'' = (''/d'', ''f'')" "split_path ''/d/l'' = (''/d'', ''l'')"
    by code_simp+
  have bytes: "char_of_byte 104 = CHR ''h''" "char_of_byte 105 = CHR ''i''" by code_simp+
  note defs = bytes restore_metadata_example_def restore_context_example_def last_name_def names state_then_def
    searchExistingPathState_def searchPathState_def
  have "repo_usable (rc_repo ?rc)" by (simp add: repo_usable_def defs)
  moreover have "placed [] (paths ?md)" by (simp add: defs join_path_def name_ok_def is_dot_element_def)
  moreover have "list_all (\<lambda>n. node_history n \<noteq> []) (flatten (paths ?md))" by (simp add: defs)
  moreover have "contents_ok ?md 0 ?rc ?data (flatten (paths ?md))"
    by (simp add: contents_ok_def defs data_ok_def stored_data_def restore_file_example_def FILE_HASH_SIZE_def)
  moreover have "nothing_left ?fs [] (paths ?md)" by (simp add: nothing_left_def defs)
  moreover have "map_of ?fs [] = Some root_example" "ino_kind root_example = Dir_data" by (simp_all add: root_example_def)
  ultimately obtain fs' where fs':
    "bindE (initiateRestore (reading ?fs finish_os) ?md 0 []) (\<lambda>md. finishRestore ?rc md 0 ?fs) = Inr fs'"
    "map_of fs' = (map_of ?fs)([] \<mapsto> if any_restored ?md 0 (paths ?md) then root_example\<lparr>ino_mtime := pr_now (rc_process ?rc)\<rparr> else root_example) ++
      snapshot ?md 0 (rc_process ?rc) ?data [] (paths ?md)"
    using restore_snapshot [of ?rc ?md 0 ?data ?fs root_example finish_os] by blast
  have "snapshot ?md 0 (rc_process ?rc) ?data [] (paths ?md) = [
      [''d''] \<mapsto> \<lparr>ino_kind = Dir_data, ino_mode = 448, ino_uid = 1, ino_gid = 2, ino_mtime = 9\<rparr>,
      [''d'', ''f''] \<mapsto> \<lparr>ino_kind = Reg_data ''hi'', ino_mode = 384, ino_uid = 3, ino_gid = 4, ino_mtime = 8\<rparr>,
      [''d'', ''l''] \<mapsto> \<lparr>ino_kind = Link_to ''f'', ino_mode = 511, ino_uid = 5, ino_gid = 6, ino_mtime = 50\<rparr>]"
    by (auto simp: defs inode_of_def is_dir_state_def restore_file_example_def map_add_def fun_eq_iff Let_def)
  with fs' show ?thesis by (intro exI [of _ fs']) (simp add: map_add_def)
qed

section \<open>Files that exist\<close>

text \<open>What the resolution of paths depends on.\<close>

definition inode_shape :: "inode \<Rightarrow> inode_kind" where
  "inode_shape i = (case ino_kind i of Reg_data _ \<Rightarrow> Reg_data [] | k \<Rightarrow> k)"

definition same_shape :: "user_files \<Rightarrow> user_files \<Rightarrow> bool" where
  "same_shape fs fs' \<longleftrightarrow> (\<forall>p. map_option inode_shape (map_of fs' p) = map_option inode_shape (map_of fs p))"

lemma resolve_same_shape:
  assumes "same_shape fs fs'"
  shows "resolve links fs' follow cur ns = resolve links fs follow cur ns"
  using assms
proof (induction links fs follow cur ns rule: resolve.induct)
  case (1 links fs follow cur)
  then show ?case by simp
next
  case (2 links fs follow cur n ns)
  have same: "map_option inode_shape (map_of fs' (cur @ [n])) = map_option inode_shape (map_of fs (cur @ [n]))"
    using "2.prems" by (simp add: same_shape_def)
  show ?case
  proof (cases "map_of fs (cur @ [n])")
    case None
    then have "map_of fs' (cur @ [n]) = None" using same by simp
    with None show ?thesis using "2.IH"(1,2) "2.prems" by simp
  next
    case (Some i)
    then obtain i' where i': "map_of fs' (cur @ [n]) = Some i'" "inode_shape i' = inode_shape i" using same by auto
    show ?thesis
    proof (cases "n = ''.'' \<or> n = ''..''")
      case True
      then show ?thesis using "2.IH"(1,2) "2.prems" by auto
    next
      case False
      then show ?thesis using i' Some "2.IH"(3,4) "2.prems"
        by (cases "ino_kind i"; cases "ino_kind i'") (auto simp: inode_shape_def)
    qed
  qed
qed

lemma locate_same_shape: "same_shape fs fs' \<Longrightarrow> locate fs' follow path = locate fs follow path"
  by (simp add: locate_def resolve_same_shape)

lemma same_shape_update:
  assumes "same_shape fs fs1" "map_of fs q = Some i" "map_of fs2 = (map_of fs1)(q \<mapsto> i')" "inode_shape i' = inode_shape i"
  shows "same_shape fs fs2"
  using assms by (simp add: same_shape_def)

text \<open>A file that a path leads to is changed through that path.\<close>

lemma change_there:
  assumes "locate fs True path = At q" "map_of fs q = Some i" "same_shape fs fs1" "map_of fs1 q = Some i1" "inode_shape (f i1) = inode_shape i"
  shows "\<exists>fs2. change_inode True f path fs1 = Inr fs2 \<and> same_shape fs fs2 \<and> map_of fs2 = (map_of fs1)(q \<mapsto> f i1)"
proof -
  have "locate fs1 True path = At q" using locate_same_shape [OF assms(3)] assms(1) by simp
  then have "change_inode True f path fs1 = Inr (AList.update q (f i1) fs1)" using assms(4) by (simp add: change_inode_def)
  then show ?thesis using same_shape_update [OF assms(3,2) _ assms(5), of "AList.update q (f i1) fs1"] by (simp add: update_conv')
qed

text \<open>The hint of a regular file whose size has changed.\<close>

definition size_hint :: "bool \<Rightarrow> bool \<Rightarrow> bool \<Rightarrow> hint" where
  "size_hint owner perms time = backupHintSet (set_if time BH_timestamp_changed
     (set_if perms BH_permissions_changed (set_if owner BH_owner_changed BH_none))) BH_content_changed"

lemma size_hint_flags:
  "backupHintNoPol (size_hint a b c) \<noteq> BH_added"
  "\<not> (BH_regular_to_symlink \<le> backupHintNoPol (size_hint a b c) \<and> backupHintNoPol (size_hint a b c) \<le> BH_other_to_directory)"
  "hint_has (size_hint a b c) BH_owner_changed \<longleftrightarrow> a"
  "hint_has (size_hint a b c) BH_permissions_changed \<longleftrightarrow> b"
  "hint_has (size_hint a b c) BH_content_changed"
  by (cases a; cases b; cases c;
      simp add: size_hint_def set_if_def backupHintSet_def backupHintNoPol_def hint_has_def BH_defs)+

lemma check_size_changed:
  assumes "locate fs True path = At q" "map_of fs q = Some i" "ino_kind i = Reg_data old"
    and "os_lstat (reading fs sys) path = Lstat_ok l" "word_of_nat (length old) \<noteq> file_size info"
  shows "checkAndHandleChanges (reading fs sys) path (PST_regular_file uid gid info) True BH_none =
    Inr (size_hint (uid \<noteq> ino_uid i \<or> gid \<noteq> ino_gid i) (permission_bits info \<noteq> ino_mode i) (modification_time info \<noteq> ino_mtime i))"
proof -
  have stat: "os_stat (reading fs sys) path = Some (stat_of i)" using assms(1,2) by (simp add: reading_def inode_at_def)
  have st: "st_type (stat_of i) = Regular_file" "st_size (stat_of i) = word_of_nat (length old)" "st_mode (stat_of i) = ino_mode i"
    "st_uid (stat_of i) = ino_uid i" "st_gid (stat_of i) = ino_gid i" "st_mtime (stat_of i) = ino_mtime i"
    using assms(3) by (simp_all add: stat_of_def size_of_kind_def)
  have "sPathExists (reading fs sys) path = Inr True" by (simp add: sPathExists_def assms(4))
  moreover have "sStat (reading fs sys) path = Inr (stat_of i)" by (simp add: sStat_def stat)
  ultimately show ?thesis using assms(5)
    by (simp add: checkAndHandleChanges_def is_symlink_state_def restoreFiletypeChanges_def st applyNodeChanges_def
        applyRegularChanges_def Let_def size_hint_def backupHintNoPol_def BH_none_def)
qed

text \<open>What restoring leaves of the mode of an existing file whose contents are written again.\<close>

definition restored_mode :: "process \<Rightarrow> inode \<Rightarrow> u32 \<Rightarrow> u32 \<Rightarrow> file_info \<Rightarrow> u32" where
  "restored_mode pr i uid gid info =
     (let mode = (if permission_bits info \<noteq> ino_mode i then permission_bits info
        else if uid \<noteq> ino_uid i \<or> gid \<noteq> ino_gid i then without_set_id (permission_bits info) else permission_bits info)
      in if pr_keeps_set_id pr then mode else without_set_id mode)"

text \<open>
  C39: a path that leads to a regular file of another size, through symbolic links or not, is brought
  back in its contents, its owner and its time. It is the file at the end of the links
  that is changed: a link that has replaced the file since the backup is neither noticed nor removed,
  and whatever file it points to is overwritten. The permissions are brought back except for the set-ID
  bits of an executable: these are lost when only the owner had changed, as the permissions are restored
  only when they differed before the owner was restored, and when the process has no right to keep them
  while it writes the contents.
\<close>

theorem restore_existing_file:
  assumes "repo_usable (rc_repo rc)" "data_ok rc info bytes"
    and "locate fs True path = At q" "map_of fs q = Some i" "ino_kind i = Reg_data old"
    and "os_lstat (reading fs sys) path = Lstat_ok l" "word_of_nat (length old) \<noteq> file_size info" "pol \<noteq> BPOL_none"
  shows "\<exists>fs'. bindE (checkAndHandleChanges (reading fs sys) path (PST_regular_file uid gid info) True BH_none) (\<lambda>h.
      restoreNode rc path h pol (PST_regular_file uid gid info) fs) = Inr (False, fs') \<and>
    map_of fs' = (map_of fs)(q \<mapsto> \<lparr>ino_kind = Reg_data bytes, ino_mode = restored_mode (rc_process rc) i uid gid info,
      ino_uid = uid, ino_gid = gid, ino_mtime = modification_time info\<rparr>) \<and>
    (without_set_id (permission_bits info) = permission_bits info \<or>
       pr_keeps_set_id (rc_process rc) \<and> (permission_bits info \<noteq> ino_mode i \<or> uid = ino_uid i \<and> gid = ino_gid i) \<longleftrightarrow>
     restored_mode (rc_process rc) i uid gid info = permission_bits info)"
proof -
  let ?st = "PST_regular_file uid gid info" and ?pr = "rc_process rc"
  let ?a = "uid \<noteq> ino_uid i \<or> gid \<noteq> ino_gid i" and ?b = "permission_bits info \<noteq> ino_mode i"
  let ?h = "size_hint ?a ?b (modification_time info \<noteq> ino_mtime i)"
  define m1 where "m1 = (if ?a then without_set_id (ino_mode i) else ino_mode i)"
  define m2 where "m2 = (if ?b then permission_bits info else m1)"
  let ?i1 = "i\<lparr>ino_uid := uid, ino_gid := gid, ino_mode := m1\<rparr>" and ?i2 = "i\<lparr>ino_uid := uid, ino_gid := gid, ino_mode := m2\<rparr>"
  have shapes: "inode_shape ?i1 = inode_shape i" "inode_shape ?i2 = inode_shape i" by (simp_all add: inode_shape_def)
  have refl: "same_shape fs fs" by (simp add: same_shape_def)
  have "\<exists>fs1. (if ?a then restoreOwner path ?st fs else Inr fs) = Inr fs1 \<and> same_shape fs fs1 \<and> map_of fs1 = (map_of fs)(q \<mapsto> ?i1)"
  proof (cases ?a)
    case True
    let ?f = "\<lambda>i. (drop_set_id False i)\<lparr>ino_uid := uid, ino_gid := gid\<rparr>"
    have f: "?f i = ?i1" unfolding drop_set_id_regular [OF assms(5)] using True by (cases i) (simp add: m1_def)
    show ?thesis
      using change_there [where f = ?f, OF assms(3,4) refl assms(4)] True shapes(1)
      unfolding f by (simp add: restoreOwner_def sChown_def)
  next
    case False
    then have "?i1 = i" by (cases i) (simp add: m1_def)
    then show ?thesis using False refl assms(4) by (simp add: fun_upd_idem)
  qed
  then obtain fs1 where fs1: "(if ?a then restoreOwner path ?st fs else Inr fs) = Inr fs1" "same_shape fs fs1"
      "map_of fs1 = (map_of fs)(q \<mapsto> ?i1)" by blast
  have "\<exists>fs2. (if ?b then restorePermissions path ?st fs1 else Inr fs1) = Inr fs2 \<and> same_shape fs fs2 \<and>
      map_of fs2 = (map_of fs)(q \<mapsto> ?i2)"
  proof (cases ?b)
    case True
    have "map_of fs1 q = Some ?i1" by (simp add: fs1(3))
    from change_there [where f = "\<lambda>i. i\<lparr>ino_mode := permission_bits info\<rparr>", OF assms(3,4) fs1(2) this] True shapes(2)
    show ?thesis by (auto simp: restorePermissions_def sChmod_def fs1(3) m2_def)
  next
    case False
    then have "?i2 = ?i1" by (cases i) (simp add: m2_def)
    then show ?thesis using False fs1 by simp
  qed
  then obtain fs2 where fs2: "(if ?b then restorePermissions path ?st fs1 else Inr fs1) = Inr fs2" "same_shape fs fs2"
      "map_of fs2 = (map_of fs)(q \<mapsto> ?i2)" by blast
  let ?m = "restored_mode ?pr i uid gid info"
  have m: "?m = (if pr_keeps_set_id ?pr then m2 else without_set_id m2)"
    by (auto simp: restored_mode_def m1_def m2_def Let_def)
  let ?i3 = "i\<lparr>ino_uid := uid, ino_gid := gid, ino_mode := ?m\<rparr>"
  have "drop_set_id (pr_keeps_set_id ?pr) ?i2 = ?i3"
    unfolding m using assms(5) by (simp add: drop_set_id_def)
  moreover let ?open = "AList.update q (?i3\<lparr>ino_kind := Reg_data [], ino_mtime := pr_now ?pr\<rparr>) fs2"
  have "locate fs2 True path = At q" using locate_same_shape [OF fs2(2)] assms(3) by simp
  ultimately have "sFopenWrite ?pr path fs2 = Inr (q, ?open)" using assms(5) by (simp add: sFopenWrite_def fs2(3))
  from restoreFile_ok [OF assms(1,2) this]
  obtain fs3 where fs3: "restoreFile rc path info fs2 = Inr fs3"
      "map_of fs3 = (map_of fs)(q \<mapsto> ?i3\<lparr>ino_mtime := pr_now ?pr, ino_kind := Reg_data bytes\<rparr>)"
    by (auto simp: update_conv' fs2(3))
  have "inode_shape (?i3\<lparr>ino_mtime := t, ino_kind := Reg_data bytes\<rparr>) = inode_shape i" for t using assms(5) by (simp add: inode_shape_def)
  then have "same_shape fs fs3" using same_shape_update [OF refl assms(4) fs3(2)] by simp
  from change_there [where f = "\<lambda>i. i\<lparr>ino_mtime := modification_time info\<rparr>", OF assms(3,4) this] fs3(2) assms(5)
  obtain fs4 where fs4: "sUtime path (modification_time info) fs3 = Inr fs4"
      "map_of fs4 = (map_of fs)(q \<mapsto> ?i3\<lparr>ino_kind := Reg_data bytes, ino_mtime := modification_time info\<rparr>)"
    by (auto simp: sUtime_def inode_shape_def)
  have inode: "?i3\<lparr>ino_kind := Reg_data bytes, ino_mtime := modification_time info\<rparr> =
    \<lparr>ino_kind = Reg_data bytes, ino_mode = ?m, ino_uid = uid, ino_gid = gid,
      ino_mtime = modification_time info\<rparr>" by (cases i) simp
  have content: "restoreContent rc path ?st fs2 = Inr (False, fs4)"
    by (simp add: restoreContent_def fs3(1) fs4(1))
  have "restoreNode rc path ?h pol ?st fs = Inr (False, fs4)"
    using assms(8) by (simp only: restoreNode_def size_hint_flags fs1(1) fs2(1) bindE_simps if_False if_True content simp_thms)
  moreover have "without_set_id (permission_bits info) = permission_bits info \<or>
      pr_keeps_set_id ?pr \<and> (?b \<or> uid = ino_uid i \<and> gid = ino_gid i) \<longleftrightarrow> ?m = permission_bits info"
    by (auto simp: restored_mode_def Let_def)
  ultimately show ?thesis
    using check_size_changed [OF assms(3-7)] fs4(2) inode by (intro exI [of _ fs4]) simp
qed

text \<open>
  A file \<open>/f\<close> with the set-user-ID bit that was replaced by a link to another one with the same permissions
  and another owner.
\<close>

definition linked_target :: inode where
  "linked_target = \<lparr>ino_kind = Reg_data ''precious'', ino_mode = 2541, ino_uid = 0, ino_gid = 0, ino_mtime = 3\<rparr>"

definition linked_files :: user_files where
  "linked_files =
     [([], root_example),
      ([''f''], \<lparr>ino_kind = Link_to ''other'', ino_mode = 511, ino_uid = 0, ino_gid = 0, ino_mtime = 2\<rparr>),
      ([''other''], linked_target)]"

definition set_id_example :: file_info where
  "set_id_example = restore_file_example\<lparr>permission_bits := 2541\<rparr>"

theorem restore_existing_file_witness:
  "\<exists>fs'. bindE (checkAndHandleChanges (reading linked_files finish_os) ''/f'' (PST_regular_file 3 4 set_id_example) True BH_none)
       (\<lambda>h. restoreNode restore_context_example ''/f'' h BPOL_mirror (PST_regular_file 3 4 set_id_example) linked_files) =
     Inr (False, fs') \<and>
     map_option ino_kind (map_of fs' [''f'']) = Some (Link_to ''other'') \<and>
     map_option ino_kind (map_of fs' [''other'']) = Some (Reg_data ''hi'') \<and>
     permission_bits set_id_example = 2541 \<and> map_option ino_mode (map_of fs' [''other'']) = Some 493"
proof -
  let ?info = set_id_example and ?rc = restore_context_example
  let ?link = "\<lparr>ino_kind = Link_to ''other'', ino_mode = 511, ino_uid = 0, ino_gid = 0, ino_mtime = 2\<rparr>"
  have bytes: "char_of_byte 104 = CHR ''h''" "char_of_byte 105 = CHR ''i''" by code_simp+
  have usable: "repo_usable (rc_repo ?rc)" by (simp add: repo_usable_def restore_context_example_def)
  have data: "data_ok ?rc ?info ''hi''"
    by (simp add: data_ok_def stored_data_def set_id_example_def restore_file_example_def FILE_HASH_SIZE_def bytes)
  have at: "locate linked_files True ''/f'' = At [''other'']"
    by (simp add: linked_files_def linked_target_def locate_def names_of_def link_limit_def)
  have there: "map_of linked_files [''other''] = Some linked_target" by (simp add: linked_files_def)
  have kind: "ino_kind linked_target = Reg_data ''precious''" by (simp add: linked_target_def)
  have lstat: "os_lstat (reading linked_files finish_os) ''/f'' = Lstat_ok (stat_of ?link)"
    by (simp add: reading_def linked_files_def locate_def names_of_def link_limit_def)
  have size: "word_of_nat (length ''precious'') \<noteq> file_size ?info"
    by (simp add: set_id_example_def restore_file_example_def)
  obtain fs' where fs':
    "bindE (checkAndHandleChanges (reading linked_files finish_os) ''/f'' (PST_regular_file 3 4 ?info) True BH_none)
       (\<lambda>h. restoreNode ?rc ''/f'' h BPOL_mirror (PST_regular_file 3 4 ?info) linked_files) = Inr (False, fs')"
    "map_of fs' = (map_of linked_files)([''other''] \<mapsto> \<lparr>ino_kind = Reg_data ''hi'',
       ino_mode = restored_mode (rc_process ?rc) linked_target 3 4 ?info, ino_uid = 3, ino_gid = 4,
       ino_mtime = modification_time ?info\<rparr>)"
    using restore_existing_file [OF usable data at there kind lstat size, of BPOL_mirror 3 4] by auto
  have "restored_mode (rc_process ?rc) linked_target 3 4 ?info = 493"
    by (simp add: restored_mode_def linked_target_def set_id_example_def restore_context_example_def without_set_id_def)
  then show ?thesis using fs'(1) by (intro exI [of _ fs']) (simp add: fs'(2) linked_files_def set_id_example_def)
qed

end
