(* ===== verification/Output.thy ===== *)
theory Output
  imports Safe_Math
begin

text \<open>
  What the program writes to the terminal: \<open>src/colors.c\<close>, the messages of \<open>src/error-handling.c\<close>,
  and the sizes of \<open>src/informations.c\<close>. Output is a string. Whether a stream belongs to a terminal
  is a parameter.
\<close>

section \<open>Colours\<close>

datatype text_color =
    TC_none | TC_bold | TC_red | TC_red_bold | TC_green | TC_green_bold | TC_yellow | TC_yellow_bold
  | TC_blue | TC_blue_bold | TC_magenta | TC_magenta_bold | TC_cyan | TC_cyan_bold

definition color_codes :: "text_color \<Rightarrow> string" where
  "color_codes color =
     (case color of
        TC_none \<Rightarrow> ''0'' | TC_bold \<Rightarrow> ''1''
      | TC_red \<Rightarrow> ''0;31'' | TC_red_bold \<Rightarrow> ''1;31''
      | TC_green \<Rightarrow> ''0;32'' | TC_green_bold \<Rightarrow> ''1;32''
      | TC_yellow \<Rightarrow> ''0;33'' | TC_yellow_bold \<Rightarrow> ''1;33''
      | TC_blue \<Rightarrow> ''0;34'' | TC_blue_bold \<Rightarrow> ''1;34''
      | TC_magenta \<Rightarrow> ''0;35'' | TC_magenta_bold \<Rightarrow> ''1;35''
      | TC_cyan \<Rightarrow> ''0;36'' | TC_cyan_bold \<Rightarrow> ''1;36'')"

definition ESC :: char where
  "ESC = CHR 0x1B"

definition colorPrintf :: "bool \<Rightarrow> text_color \<Rightarrow> string \<Rightarrow> string" where
  "colorPrintf colorize color text =
     (if colorize then ESC # ''['' @ color_codes color @ ''m'' else []) @ text @
     (if colorize then ESC # ''[0m'' else [])"

section \<open>Numbers\<close>

text \<open>The conversions \<open>%zu\<close> and \<open>%3zu\<close> of \<open>printf()\<close>.\<close>

definition digit_char :: "nat \<Rightarrow> char" where
  "digit_char d = char_of (48 + d)"

fun dec :: "nat \<Rightarrow> string" where
  "dec n = (if n < 10 then [digit_char n] else dec (n div 10) @ [digit_char (n mod 10)])"

declare dec.simps [simp del]

definition pad_left :: "nat \<Rightarrow> string \<Rightarrow> string" where
  "pad_left width text = replicate (width - length text) (CHR '' '') @ text"

section \<open>Double precision\<close>

text \<open>
  Natural numbers as values of \<open>double\<close>: the nearest multiple of the unit in the last place of 53
  bits, the even one of two that are as near. All other values that the code computes are such a
  number divided by a power of 1024, which is exact.
\<close>

fun surplus_bits :: "nat \<Rightarrow> nat" where
  "surplus_bits n = (if n < 2 ^ 53 then 0 else Suc (surplus_bits (n div 2)))"

declare surplus_bits.simps [simp del]

definition round_even :: "nat \<Rightarrow> nat \<Rightarrow> nat" where
  "round_even n e =
     (let q = n div 2 ^ e; r = n mod 2 ^ e
      in if 2 * r > 2 ^ e \<or> 2 * r = 2 ^ e \<and> odd q then q + 1 else q)"

definition to_double :: "nat \<Rightarrow> nat" where
  "to_double n = (let e = surplus_bits n in round_even n e * 2 ^ e)"

text \<open>The number 999.9 is this one divided by \<open>2 ^ 43\<close>.\<close>

definition unit_limit :: nat where
  "unit_limit = 8795213412905779"

text \<open>\<open>n / 1024 ^ u > 999.9\<close>, and the loop that divides by 1024.\<close>

definition above_limit :: "nat \<Rightarrow> nat \<Rightarrow> bool" where
  "above_limit n u \<longleftrightarrow> n * 2 ^ 43 > unit_limit * 1024 ^ u"

definition units :: string where
  "units = ''bKMGT''"

function unitLoop :: "nat \<Rightarrow> nat \<Rightarrow> nat" where
  "unitLoop n u = (if above_limit n u \<and> u + 2 < length units + 1 then unitLoop n (u + 1) else u)"
  by pat_completeness auto
termination by (relation "measure (\<lambda>(n, u). length units - u)") auto

declare unitLoop.simps [simp del]

definition printHumanReadableSize :: "u64 \<Rightarrow> string" where
  "printHumanReadableSize bytes =
     (let n = to_double (unat bytes); u = unitLoop n 0
      in if u = 0 then dec n @ '' b''
         else dec (n div 1024 ^ u) @ ''.'' @ dec ((to_double (10 * n) div 1024 ^ u) mod 10) @ '' '' @ [units ! u] @ ''iB'')"

section \<open>Sizes\<close>

lemma to_double_small: "n < 2 ^ 53 \<Longrightarrow> to_double n = n"
  by (simp add: to_double_def round_even_def surplus_bits.simps)

lemma units_length [simp]: "length units = 5"
  by (simp add: units_def)

text \<open>The loop ends at the first unit in which the number is small enough, at the latest at the last unit.\<close>

lemma unitLoop_result:
  "u \<le> 4 \<Longrightarrow> u \<le> unitLoop n u \<and> unitLoop n u \<le> 4 \<and> (unitLoop n u < 4 \<longrightarrow> \<not> above_limit n (unitLoop n u)) \<and>
     (\<forall>k. u \<le> k \<longrightarrow> k < unitLoop n u \<longrightarrow> above_limit n k)"
proof (induction n u rule: unitLoop.induct)
  case (1 n u)
  show ?case
  proof (cases "above_limit n u \<and> u < 4")
    case True
    then have e: "unitLoop n u = unitLoop n (u + 1)" by (simp add: unitLoop.simps [of n u])
    have "u + 1 \<le> unitLoop n (u + 1) \<and> unitLoop n (u + 1) \<le> 4 \<and>
        (unitLoop n (u + 1) < 4 \<longrightarrow> \<not> above_limit n (unitLoop n (u + 1))) \<and>
        (\<forall>k. u + 1 \<le> k \<longrightarrow> k < unitLoop n (u + 1) \<longrightarrow> above_limit n k)"
      by (rule "1.IH") (use True in simp_all)
    then show ?thesis
      unfolding e
    proof (elim conjE, intro conjI allI impI)
      fix k assume k: "u \<le> k" "k < unitLoop n (u + 1)"
        and later: "\<forall>k. u + 1 \<le> k \<longrightarrow> k < unitLoop n (u + 1) \<longrightarrow> above_limit n k"
      show "above_limit n k"
      proof (cases "k = u")
        case False
        then have "u + 1 \<le> k" using k(1) by simp
        then show ?thesis using later k(2) by blast
      qed (use True in simp)
    qed simp_all
  next
    case False
    then have "unitLoop n u = u" by (auto simp: unitLoop.simps [of n u])
    then show ?thesis using False "1.prems" by auto
  qed
qed

lemma not_above_limit: "\<not> above_limit n u \<Longrightarrow> n div 1024 ^ u < 1000"
proof -
  assume "\<not> above_limit n u"
  then have "n * 2 ^ 43 \<le> unit_limit * 1024 ^ u" by (simp add: above_limit_def)
  also have "\<dots> < (1000 * 1024 ^ u) * 2 ^ 43" by (simp add: unit_limit_def)
  finally have "n < 1000 * 1024 ^ u" by simp
  then show ?thesis by (simp add: div_less_iff_less_mult)
qed

lemma above_limit_large: "above_limit n u \<Longrightarrow> 999 * 1024 ^ u < n"
proof -
  assume "above_limit n u"
  then have "unit_limit * 1024 ^ u < n * 2 ^ 43" by (simp add: above_limit_def)
  moreover have "(999 * 1024 ^ u) * 2 ^ 43 \<le> unit_limit * 1024 ^ u" by (simp add: unit_limit_def)
  ultimately have "(999 * 1024 ^ u) * 2 ^ 43 < n * 2 ^ (43::nat)" by linarith
  then show ?thesis by (rule mult_right_less_imp_less) simp
qed

text \<open>
  C40: a size below 512 TiB is printed in the first unit in which it is less than a thousand, at the
  latest in TiB, with its tenths rounded down, in spite of the arithmetic on floating-point numbers.
  The name of the unit is always read inside the array of units.
\<close>

theorem printHumanReadableSize_correct:
  assumes "unat bytes < 2 ^ 49"
  shows "\<exists>u \<le> 4. (u < 4 \<longrightarrow> unat bytes < 1000 * 1024 ^ u) \<and> (0 < u \<longrightarrow> 999 * 1024 ^ (u - 1) < unat bytes) \<and>
    printHumanReadableSize bytes =
      (if u = 0 then dec (unat bytes) @ '' b''
       else let tenths = 10 * unat bytes div 1024 ^ u
            in dec (tenths div 10) @ ''.'' @ dec (tenths mod 10) @ '' '' @ [units ! u] @ ''iB'')"
proof -
  let ?n = "unat bytes" and ?u = "unitLoop (unat bytes) 0"
  have d: "to_double ?n = ?n" "to_double (10 * ?n) = 10 * ?n" using assms by (simp_all add: to_double_small)
  have U: "?u \<le> 4" "?u < 4 \<Longrightarrow> \<not> above_limit ?n ?u" "\<And>k. k < ?u \<Longrightarrow> above_limit ?n k"
    using unitLoop_result [of 0 ?n] by auto
  have tenths: "10 * ?n div 1024 ^ ?u div 10 = ?n div 1024 ^ ?u"
    by (metis div_mult2_eq mult.commute nonzero_mult_div_cancel_left zero_neq_numeral div_mult_mult1)
  have "?u < 4 \<Longrightarrow> ?n < 1000 * 1024 ^ ?u"
    using not_above_limit [OF U(2)] by (simp add: div_less_iff_less_mult)
  moreover have "0 < ?u \<Longrightarrow> 999 * 1024 ^ (?u - 1) < ?n"
    using above_limit_large [OF U(3)] by simp
  ultimately show ?thesis
    using U(1) by (intro exI [of _ ?u]) (auto simp: printHumanReadableSize_def d Let_def tenths)
qed

theorem printHumanReadableSize_correct_witness: "printHumanReadableSize 1536 = ''1.5 KiB''"
proof -
  have n: "unat (1536 :: u64) = 1536" by simp
  have "unat (1536 :: u64) < 2 ^ 49" by simp
  from printHumanReadableSize_correct [OF this, unfolded n] obtain u where u: "u \<le> 4"
      "u < 4 \<longrightarrow> 1536 < 1000 * (1024 :: nat) ^ u" "0 < u \<longrightarrow> 999 * 1024 ^ (u - 1) < (1536 :: nat)"
      "printHumanReadableSize 1536 =
        (if u = 0 then dec 1536 @ '' b''
         else let tenths = 10 * 1536 div 1024 ^ u
              in dec (tenths div 10) @ ''.'' @ dec (tenths mod 10) @ '' '' @ [units ! u] @ ''iB'')"
    by (elim exE conjE) (rule that)
  have "u \<in> {0, 1, 2, 3, 4}" using u(1) by auto
  then have "u = 1" using u(2,3) by auto
  moreover have "dec 1 = ''1''" "dec 5 = ''5''" "units ! 1 = CHR ''K''" by code_simp+
  ultimately show ?thesis using u(4) by simp
qed

end
