(* ===== verification/Informations.thy ===== *)
theory Informations
  imports Output Backup_Nodes Search
begin

text \<open>
  The summary of the changes and what is printed about them: \<open>src/informations.c\<close>. A function that
  prints returns its text; \<open>tty\<close> says whether the stream belongs to a terminal. What was printed
  before the program dies is not modelled.
\<close>

section \<open>Counting changes\<close>

record change_detail =
  affected_items_count :: u64
  affected_items_total_size :: u64

record change_summary =
  new_items :: change_detail
  removed_items :: change_detail
  lost_items :: change_detail
  changed_items :: change_detail
  changed_attributes :: u64
  other_changes_exist :: bool
  affects_parent_timestamp :: bool

definition no_items :: change_detail where
  "no_items = \<lparr>affected_items_count = 0, affected_items_total_size = 0\<rparr>"

definition no_changes :: change_summary where
  "no_changes = \<lparr>new_items = no_items, removed_items = no_items, lost_items = no_items, changed_items = no_items,
     changed_attributes = 0, other_changes_exist = False, affects_parent_timestamp = False\<rparr>"

definition changeDetailAdd :: "change_detail \<Rightarrow> u64 \<Rightarrow> u64 \<Rightarrow> change_detail result" where
  "changeDetailAdd details items bytes =
     bindE (sSizeAdd (affected_items_count details) items) (\<lambda>items.
     bindE (sUint64Add (affected_items_total_size details) bytes) (\<lambda>bytes.
       Inr \<lparr>affected_items_count = items, affected_items_total_size = bytes\<rparr>))"

definition addDetail :: "change_detail \<Rightarrow> change_detail \<Rightarrow> change_detail result" where
  "addDetail a b = changeDetailAdd a (affected_items_count b) (affected_items_total_size b)"

definition changeSummaryAdd :: "change_summary \<Rightarrow> change_summary \<Rightarrow> change_summary result" where
  "changeSummaryAdd a b =
     bindE (addDetail (new_items a) (new_items b)) (\<lambda>new.
     bindE (addDetail (removed_items a) (removed_items b)) (\<lambda>removed.
     bindE (addDetail (lost_items a) (lost_items b)) (\<lambda>lost.
     bindE (addDetail (changed_items a) (changed_items b)) (\<lambda>changed.
     bindE (sSizeAdd (changed_attributes a) (changed_attributes b)) (\<lambda>attributes.
       Inr (a\<lparr>new_items := new, removed_items := removed, lost_items := lost, changed_items := changed,
              changed_attributes := attributes,
              other_changes_exist := other_changes_exist a \<or> other_changes_exist b\<rparr>))))))"

definition getExistingState :: "path_node \<Rightarrow> path_state result" where
  "getExistingState node =
     (case node_history node of
        [] \<Rightarrow> Inl Null_pointer
      | point # points \<Rightarrow>
          Inr (if state point = PST_non_existing \<and> points \<noteq> [] then state (hd points) else state point))"

definition countAttribute :: "bool \<Rightarrow> change_summary \<Rightarrow> change_summary result" where
  "countAttribute changed changes =
     (if changed then bindE (sSizeAdd (changed_attributes changes) 1) (\<lambda>n. Inr (changes\<lparr>changed_attributes := n\<rparr>))
      else Inr changes)"

definition incrementExtraChangedAttributes :: "change_summary \<Rightarrow> hint \<Rightarrow> change_summary result" where
  "incrementExtraChangedAttributes changes h =
     bindE (countAttribute (hint_has h BH_owner_changed) changes) (\<lambda>changes.
       countAttribute (hint_has h BH_permissions_changed) changes)"

definition file_size_of :: "path_state \<Rightarrow> u64" where
  "file_size_of st = (case st of PST_regular_file _ _ info \<Rightarrow> file_size info | _ \<Rightarrow> 0)"

definition type_change :: "hint \<Rightarrow> bool" where
  "type_change h \<longleftrightarrow> BH_regular_to_symlink \<le> h \<and> h \<le> BH_other_to_directory"

text \<open>The last branch of \<open>addNode()\<close>, and the whole function.\<close>

definition addOtherChange :: "hint \<Rightarrow> bool \<Rightarrow> change_summary \<Rightarrow> change_summary result" where
  "addOtherChange h timestamp_changed_by_subnodes changes =
     (let changes = changes\<lparr>other_changes_exist := True,
            affects_parent_timestamp := affects_parent_timestamp changes \<or> type_change (backupHintNoPol h)\<rparr>
      in bindE (incrementExtraChangedAttributes changes h) (\<lambda>changes.
           countAttribute (h = BH_timestamp_changed \<and> \<not> timestamp_changed_by_subnodes) changes))"

definition addNode ::
  "path_node \<Rightarrow> change_summary \<Rightarrow> bool \<Rightarrow> change_summary result" where
  "addNode node changes timestamp_changed_by_subnodes =
     bindE (getExistingState node) (\<lambda>st.
       let h = backupHintNoPol (node_hint node); bytes = file_size_of st
       in if h = BH_added then
            bindE (changeDetailAdd (new_items changes) 1 bytes) (\<lambda>details.
              Inr (changes\<lparr>new_items := details, affects_parent_timestamp := True\<rparr>))
          else if h = BH_removed then
            bindE (changeDetailAdd (removed_items changes) 1 bytes) (\<lambda>details.
              Inr (changes\<lparr>removed_items := details, affects_parent_timestamp := True\<rparr>))
          else if h = BH_not_part_of_repository then
            bindE (changeDetailAdd (lost_items changes) 1 bytes) (\<lambda>details.
              Inr (changes\<lparr>lost_items := details, affects_parent_timestamp := affects_parent_timestamp changes \<or>
                     node_policy node = BPOL_mirror \<and> \<not> hint_has (node_hint node) BH_policy_changed\<rparr>))
          else if hint_has h BH_content_changed then
            bindE (changeDetailAdd (changed_items changes) 1 bytes) (\<lambda>details.
              incrementExtraChangedAttributes (changes\<lparr>changed_items := details, affects_parent_timestamp := True\<rparr>) h)
          else if node_hint node > BH_unchanged \<and>
            (node_policy node \<noteq> BPOL_none \<or> node_hint node < BH_owner_changed \<or> node_hint node > BH_timestamp_changed) then
            addOtherChange (node_hint node) timestamp_changed_by_subnodes changes
          else Inr changes)"

definition containsContentChanges :: "change_summary \<Rightarrow> bool" where
  "containsContentChanges changes \<longleftrightarrow>
     affected_items_count (new_items changes) > 0 \<or> affected_items_count (removed_items changes) > 0 \<or>
     affected_items_count (lost_items changes) > 0 \<or> affected_items_count (changed_items changes) > 0"

definition containsChanges :: "change_summary \<Rightarrow> bool" where
  "containsChanges changes \<longleftrightarrow>
     containsContentChanges changes \<or> changed_attributes changes > 0 \<or> other_changes_exist changes"

section \<open>Printing a node\<close>

definition printChangeDetail :: "change_detail \<Rightarrow> string \<Rightarrow> string" where
  "printChangeDetail details prefix =
     (if affected_items_count details > 0 then prefix else []) @ dec (unat (affected_items_count details)) @ '' item'' @
     (if affected_items_count details = 1 then [] else ''s'') @
     (if affected_items_total_size details > 0
      then '', '' @ prefix @ printHumanReadableSize (affected_items_total_size details) else [])"

text \<open>The details in parentheses: whether one was printed, and their text.\<close>

type_synonym printed = "bool \<times> string"

definition printPrefix :: "printed \<Rightarrow> printed" where
  "printPrefix p = (case p of (printed_prefix, out) \<Rightarrow> (True, out @ (if printed_prefix then '', '' else '' ('')))"

definition printDetail :: "bool \<Rightarrow> string \<Rightarrow> printed \<Rightarrow> printed" where
  "printDetail wanted text p =
     (if wanted then case printPrefix p of (b, out) \<Rightarrow> (b, out @ text) else p)"

definition printSummarizedDetail :: "change_summary \<Rightarrow> printed \<Rightarrow> printed result" where
  "printSummarizedDetail summary p =
     (let p = printDetail (affected_items_count (new_items summary) > 0) (printChangeDetail (new_items summary) ''+'') p
      in bindE (addDetail (removed_items summary) (lost_items summary)) (\<lambda>deleted_items.
           let p = printDetail (affected_items_count deleted_items > 0) (printChangeDetail deleted_items ''-'') p;
               p = printDetail (affected_items_count (changed_items summary) > 0)
                     (dec (unat (affected_items_count (changed_items summary))) @ '' changed'') p
           in Inr (printDetail (changed_attributes summary > 0)
                (dec (unat (changed_attributes summary)) @ '' metadata change'' @
                 (if changed_attributes summary = 1 then [] else ''s'')) p)))"

definition printNodePath :: "bool \<Rightarrow> path_node \<Rightarrow> text_color \<Rightarrow> string result" where
  "printNodePath tty node color =
     bindE (getExistingState node) (\<lambda>st.
       Inr (colorPrintf tty color
         ((case st of PST_symlink _ _ _ \<Rightarrow> ''^'' | _ \<Rightarrow> []) @ node_path node @ (if is_dir_state st then ''/'' else []))))"

text \<open>The mark and the path at the beginning of a line.\<close>

definition printMark :: "bool \<Rightarrow> path_node \<Rightarrow> text_color \<Rightarrow> string \<Rightarrow> text_color \<Rightarrow> string \<Rightarrow> string result" where
  "printMark tty node mark_color mark color after =
     bindE (printNodePath tty node color) (\<lambda>path. Inr (colorPrintf tty mark_color mark @ path @ after))"

definition printNodeHead :: "bool \<Rightarrow> path_node \<Rightarrow> change_summary \<Rightarrow> bool \<Rightarrow> string result" where
  "printNodeHead tty node summary summarize =
     (let h = backupHintNoPol (node_hint node)
      in if h = BH_added then printMark tty node TC_green_bold ''++ '' TC_green []
         else if h = BH_removed then printMark tty node TC_red_bold ''-- '' TC_red []
         else if h = BH_not_part_of_repository then
           (if node_policy node = BPOL_mirror then printMark tty node TC_red_bold ''xx '' TC_red []
            else printMark tty node TC_blue_bold ''?? '' TC_blue [])
         else if type_change h then printMark tty node TC_cyan_bold ''<> '' TC_cyan []
         else if hint_has h BH_content_changed then printMark tty node TC_yellow_bold ''!! '' TC_yellow []
         else if summarize \<and> containsContentChanges summary then printMark tty node TC_yellow_bold ''!! '' TC_yellow ''...''
         else if h \<noteq> BH_none then
           printMark tty node TC_magenta_bold ''@@ '' TC_magenta
             (if summarize \<and> changed_attributes summary > 0 then ''...'' else [])
         else printMark tty node TC_blue_bold '':: '' TC_blue [])"

definition type_change_text :: "hint \<Rightarrow> string" where
  "type_change_text h =
     (if h = BH_regular_to_symlink then ''File -> Symlink''
      else if h = BH_regular_to_directory then ''File -> Directory''
      else if h = BH_symlink_to_regular then ''Symlink -> File''
      else if h = BH_symlink_to_directory then ''Symlink -> Directory''
      else if h = BH_directory_to_regular then ''Directory -> File''
      else if h = BH_directory_to_symlink then ''Directory -> Symlink''
      else if h = BH_other_to_regular then ''Other -> File''
      else if h = BH_other_to_symlink then ''Other -> Symlink''
      else if h = BH_other_to_directory then ''Other -> Directory''
      else [])"

definition printNodeFlags :: "path_node \<Rightarrow> change_summary \<Rightarrow> printed result" where
  "printNodeFlags node summary =
     (case node_history node of
        [] \<Rightarrow> Inl Null_pointer
      | point # _ \<Rightarrow>
          let h = node_hint node;
              is_symlink = (case state point of PST_symlink _ _ _ \<Rightarrow> True | _ \<Rightarrow> False);
              p = printDetail (type_change (backupHintNoPol h)) (type_change_text (backupHintNoPol h)) (False, []);
              p = printDetail (hint_has h BH_owner_changed) ''owner'' p;
              p = printDetail (hint_has h BH_permissions_changed) ''permissions'' p;
              p = printDetail (\<not> is_symlink \<and> hint_has h BH_timestamp_changed \<noteq> hint_has h BH_content_changed \<and>
                    \<not> affects_parent_timestamp summary)
                    ((if hint_has h BH_timestamp_changed then [] else ''same '') @ ''timestamp'') p;
              p = printDetail (hint_has h BH_policy_changed) ''policy changed'' p
          in Inr (printDetail (hint_has h BH_loses_history) ''looses history'' p))"

definition printNodeCounts :: "path_node \<Rightarrow> path_state \<Rightarrow> change_summary \<Rightarrow> bool \<Rightarrow> printed \<Rightarrow> printed result" where
  "printNodeCounts node st summary summarize p =
     (let h = backupHintNoPol (node_hint node)
      in if is_dir_state st then
           if h = BH_added \<or> h = BH_regular_to_directory \<or> h = BH_symlink_to_directory then
             Inr (printDetail True (printChangeDetail (new_items summary) ''+'') p)
           else if h = BH_removed then Inr (printDetail True (printChangeDetail (removed_items summary) ''-'') p)
           else if h = BH_not_part_of_repository then Inr (printDetail True (printChangeDetail (lost_items summary) ''-'') p)
           else if summarize then printSummarizedDetail summary p
           else Inr p
         else if h = BH_directory_to_regular \<or> h = BH_directory_to_symlink then
           bindE (addDetail no_items (removed_items summary)) (\<lambda>lost_files.
           bindE (addDetail lost_files (lost_items summary)) (\<lambda>lost_files.
             Inr (printDetail True (printChangeDetail lost_files ''-'') p)))
         else Inr p)"

definition printNode :: "bool \<Rightarrow> path_node \<Rightarrow> change_summary \<Rightarrow> bool \<Rightarrow> string result" where
  "printNode tty node summary summarize =
     bindE (printNodeHead tty node summary summarize) (\<lambda>head.
     bindE (printNodeFlags node summary) (\<lambda>p.
     bindE (getExistingState node) (\<lambda>existing_state.
     bindE (printNodeCounts node existing_state summary summarize p) (\<lambda>(has_printed_details, details).
       Inr (head @ details @ (if has_printed_details then '')'' else []) @
            (case existing_state of
               PST_symlink _ _ target \<Rightarrow> colorPrintf tty TC_magenta '' -> '' @ colorPrintf tty TC_cyan target
             | _ \<Rightarrow> []) @ [CHR 0x0A])))))"

section \<open>Printing a tree\<close>

text \<open>Whether an expression matches, and the list with the first one that does marked.\<close>

fun matchesRegexList :: "os \<Rightarrow> string \<Rightarrow> regex_entry list \<Rightarrow> bool \<times> regex_entry list" where
  "matchesRegexList sys path [] = (False, [])"
| "matchesRegexList sys path (e # es) =
     (if os_regexec sys (expression e) path then (True, e\<lparr>has_matched := True\<rparr> # es)
      else case matchesRegexList sys path es of (found, es) \<Rightarrow> (found, e # es))"

definition summarizes :: "os \<Rightarrow> path_node \<Rightarrow> regex_entry list \<Rightarrow> (bool \<times> regex_entry list) result" where
  "summarizes sys node es =
     (if node_policy node = BPOL_none then Inr (False, es)
      else bindE (getExistingState node) (\<lambda>st.
        Inr (if is_dir_state st then matchesRegexList sys (node_path node) es else (False, es))))"

text \<open>The nodes that are printed on their own.\<close>

definition printed_hint :: "hint \<Rightarrow> backup_policy \<Rightarrow> bool" where
  "printed_hint h pol \<longleftrightarrow> h > BH_unchanged \<and>
     \<not> (pol = BPOL_none \<and> (h = BH_added \<or> BH_owner_changed \<le> h \<and> h \<le> BH_timestamp_changed))"

text \<open>
  The loop over a list of nodes with its accumulator \<open>changes\<close>. A list of expressions that is \<open>NULL\<close> in
  the code is empty.
\<close>

fun recursePrintOverTree ::
  "os \<Rightarrow> bool \<Rightarrow> bool \<Rightarrow> change_summary \<Rightarrow> regex_entry list \<Rightarrow> path_node list \<Rightarrow>
   (change_summary \<times> regex_entry list \<times> string) result" where
  "recursePrintOverTree sys tty print changes es [] = Inr (changes, es, [])"
| "recursePrintOverTree sys tty print changes es (PathNode path h pol hist subs # nodes) =
     (let node = PathNode path h pol hist subs
      in bindE (summarizes sys node es) (\<lambda>(summarize, es).
         bindE (let down = (if summarize then [] else es)
                in if print \<and> summarize then
                     bindE (recursePrintOverTree sys tty False no_changes down subs) (\<lambda>(summary, down, out).
                       if h > BH_unchanged \<or> containsChanges summary then
                         bindE (printNode tty node summary summarize) (\<lambda>line. Inr (summary, es, out @ line))
                       else Inr (summary, es, out))
                   else if print \<and> printed_hint h pol then
                     bindE (recursePrintOverTree sys tty (backupHintNoPol h > BH_other_to_directory) no_changes down subs)
                       (\<lambda>(summary, down, out).
                         if \<not> (h = BH_timestamp_changed \<and> affects_parent_timestamp summary) then
                           bindE (printNode tty node summary summarize) (\<lambda>line.
                             Inr (summary, if summarize then es else down, out @ line))
                         else Inr (summary, if summarize then es else down, out))
                   else
                     bindE (recursePrintOverTree sys tty print no_changes down subs) (\<lambda>(summary, down, out).
                       Inr (summary, if summarize then es else down, out)))
           (\<lambda>(summary, es, out).
         bindE (addNode node changes (affects_parent_timestamp summary)) (\<lambda>changes.
         bindE (changeSummaryAdd changes summary) (\<lambda>changes.
         bindE (recursePrintOverTree sys tty print changes es nodes) (\<lambda>(changes, es, rest).
           Inr (changes, es, out @ rest)))))))"

definition printMetadataChanges ::
  "os \<Rightarrow> bool \<Rightarrow> metadata \<Rightarrow> regex_entry list \<Rightarrow> (change_summary \<times> regex_entry list \<times> string) result" where
  "printMetadataChanges sys tty md es = recursePrintOverTree sys tty True no_changes es (paths md)"

section \<open>Warnings about the configuration\<close>

definition warnConfigLineNr :: "bool \<Rightarrow> nat \<Rightarrow> string" where
  "warnConfigLineNr tty line_nr =
     colorPrintf tty TC_yellow ''config'' @ '': '' @ colorPrintf tty TC_blue ''line '' @
     colorPrintf tty TC_red (dec line_nr) @ '': ''"

definition warnPath :: "bool \<Rightarrow> string \<Rightarrow> string" where
  "warnPath tty path = [CHR 0x22] @ colorPrintf tty TC_red path @ [CHR 0x22]"

definition warnPathNewline :: "bool \<Rightarrow> string \<Rightarrow> string" where
  "warnPathNewline tty path = warnPath tty path @ [CHR 0x0A]"

fun warnUnmatchedExpressions :: "bool \<Rightarrow> string \<Rightarrow> regex_entry list \<Rightarrow> string" where
  "warnUnmatchedExpressions tty target_name [] = []"
| "warnUnmatchedExpressions tty target_name (e # es) =
     (if \<not> has_matched e then
        warnConfigLineNr tty (re_line_nr e) @ ''regex never matched a '' @ target_name @ '': '' @
        warnPathNewline tty (expression e)
      else []) @ warnUnmatchedExpressions tty target_name es"

definition typeOf :: "search_node \<Rightarrow> string" where
  "typeOf node = (if sn_regex node \<noteq> None then ''regex'' else ''string'')"

definition warnNode :: "bool \<Rightarrow> search_node \<Rightarrow> string \<Rightarrow> string" where
  "warnNode tty node text =
     warnConfigLineNr tty (sn_line_nr node) @ typeOf node @ text @ warnPathNewline tty (sn_name node)"

text \<open>The loop over the subnodes of a node, with the depth of the stack as its first argument.\<close>

fun printSearchNodeInfos :: "nat \<Rightarrow> bool \<Rightarrow> search_node list \<Rightarrow> nat list \<Rightarrow> string result" where
  "printSearchNodeInfos depth tty ns [] = Inr []"
| "printSearchNodeInfos 0 tty ns (i # is) = Inl Endless_recursion"
| "printSearchNodeInfos (Suc depth) tty ns (i # is) =
     (let node = ns ! i
      in bindE (if sn_search_match node = SRT_none then
                  Inr (warnNode tty node ('' never matched a '' @ (if sn_subnodes node \<noteq> [] then ''directory'' else ''file'') @ '': ''))
                else if sn_subnodes node \<noteq> [] then
                  if sn_search_match node AND SRT_directory = 0 then
                    Inr (warnNode tty node '' matches, but not a directory: '')
                  else bindE (printSearchNodeInfos depth tty ns (sn_subnodes node)) (\<lambda>rest.
                    Inr ((if sn_search_match node AND NOT SRT_directory \<noteq> 0
                          then warnNode tty node '' matches not only directories: '' else []) @ rest))
                else Inr []) (\<lambda>out.
         bindE (printSearchNodeInfos (Suc depth) tty ns is) (\<lambda>rest. Inr (out @ rest))))"

definition printSearchTreeInfos :: "bool \<Rightarrow> search_tree \<Rightarrow> string result" where
  "printSearchTreeInfos tty tree =
     bindE (printSearchNodeInfos (length (tree_nodes tree)) tty (tree_nodes tree) (sn_subnodes (tree_nodes tree ! 0))) (\<lambda>out.
       Inr (out @ warnUnmatchedExpressions tty ''path'' (ignore_expressions tree) @
            warnUnmatchedExpressions tty ''directory'' (summarize_expressions tree)))"

definition warnNodeMatches :: "bool \<Rightarrow> search_node \<Rightarrow> string \<Rightarrow> string" where
  "warnNodeMatches tty node text =
     warnConfigLineNr tty (sn_line_nr node) @ typeOf node @ '' '' @ warnPath tty (sn_name node) @ '' matches '' @
     [CHR 0x22] @ colorPrintf tty TC_yellow text @ [CHR 0x22, CHR 0x0A]"

end
