(* ===== verification/Informations_Counts.thy ===== *)
theory Informations_Counts
  imports Informations Stored_Files
begin

text \<open>
  What the summary of the changes says: the counters of \<open>src/informations.c\<close> against the nodes of the
  metadata, whatever is printed or summarized.
\<close>

section \<open>The changes of nodes\<close>

datatype item_change = New_item | Removed_item | Lost_item | Changed_item | Other_change

text \<open>What has happened to a node, and the state that tells its size.\<close>

definition change_of :: "path_node \<Rightarrow> item_change option" where
  "change_of n =
     (let h = backupHintNoPol (node_hint n)
      in if h = BH_added then Some New_item
         else if h = BH_removed then Some Removed_item
         else if h = BH_not_part_of_repository then Some Lost_item
         else if hint_has h BH_content_changed then Some Changed_item
         else if node_hint n > BH_unchanged \<and>
           (node_policy n \<noteq> BPOL_none \<or> node_hint n < BH_owner_changed \<or> node_hint n > BH_timestamp_changed)
         then Some Other_change
         else None)"

definition last_state :: "path_node \<Rightarrow> path_state" where
  "last_state n =
     (case node_history n of
        [] \<Rightarrow> PST_non_existing
      | [point] \<Rightarrow> state point
      | point # point' # _ \<Rightarrow> if state point = PST_non_existing then state point' else state point)"

lemma getExistingState_last: "node_history n \<noteq> [] \<Longrightarrow> getExistingState n = Inr (last_state n)"
  by (cases "node_history n") (auto simp: getExistingState_def last_state_def split: list.split)

definition node_bytes :: "path_node \<Rightarrow> nat" where
  "node_bytes n = unat (file_size_of (last_state n))"

text \<open>The sizes of the nodes with a change.\<close>

definition sizes :: "item_change \<Rightarrow> path_node list \<Rightarrow> nat list" where
  "sizes c nodes = map node_bytes (filter (\<lambda>n. change_of n = Some c) nodes)"

lemma sizes_simps [simp]:
  "sizes c [] = []"
  "sizes c (n # nodes) = (if change_of n = Some c then node_bytes n # sizes c nodes else sizes c nodes)"
  "sizes c (nodes @ nodes') = sizes c nodes @ sizes c nodes'"
  by (simp_all add: sizes_def)

lemma sizes_two:
  "c \<noteq> d \<Longrightarrow> length (sizes c nodes) + length (sizes d nodes) \<le> length nodes"
  "c \<noteq> d \<Longrightarrow> sum_list (sizes c nodes) + sum_list (sizes d nodes) \<le> sum_list (map node_bytes nodes)"
  by (induction nodes) auto

lemma sizes_le:
  "length (sizes c nodes) \<le> length nodes" "sum_list (sizes c nodes) \<le> sum_list (map node_bytes nodes)"
  by (induction nodes) auto

definition fits :: "path_node list \<Rightarrow> bool" where
  "fits nodes \<longleftrightarrow> 3 * length nodes \<le> SIZE_MAX \<and> sum_list (map node_bytes nodes) \<le> SIZE_MAX"

lemma fits_parts: "fits (xs @ ys) \<Longrightarrow> fits xs \<and> fits ys"
  by (auto simp: fits_def)

section \<open>Exact counters\<close>

definition detail_exact :: "change_detail \<Rightarrow> nat list \<Rightarrow> bool" where
  "detail_exact details ns \<longleftrightarrow>
     unat (affected_items_count details) = length ns \<and> unat (affected_items_total_size details) = sum_list ns"

lemma changeDetailAdd_exact:
  assumes "detail_exact a xs" "unat items = length ys" "unat bytes = sum_list ys"
    and "length xs + length ys \<le> SIZE_MAX" "sum_list xs + sum_list ys \<le> SIZE_MAX"
  shows "\<exists>d. changeDetailAdd a items bytes = Inr d \<and> detail_exact d (xs @ ys)"
proof -
  have c: "unat (affected_items_count a) + unat items \<le> SIZE_MAX" "unat (affected_items_total_size a) + unat bytes \<le> SIZE_MAX"
    using assms by (simp_all add: detail_exact_def)
  then have "sSizeAdd (affected_items_count a) items = Inr (affected_items_count a + items)"
    using add_guard [of items "affected_items_count a"] by (auto simp: sSizeAdd_def)
  moreover have "sUint64Add (affected_items_total_size a) bytes = Inr (affected_items_total_size a + bytes)"
    using c by (simp add: sUint64Add_Inr)
  ultimately show ?thesis using assms c by (simp add: changeDetailAdd_def detail_exact_def unat_add_u64)
qed

lemma addDetail_exact:
  assumes "detail_exact a xs" "detail_exact b ys" "length xs + length ys \<le> SIZE_MAX" "sum_list xs + sum_list ys \<le> SIZE_MAX"
  shows "\<exists>d. addDetail a b = Inr d \<and> detail_exact d (xs @ ys)"
  unfolding addDetail_def by (rule changeDetailAdd_exact) (use assms in \<open>simp_all add: detail_exact_def\<close>)

definition counted :: "change_summary \<Rightarrow> path_node list \<Rightarrow> bool" where
  "counted s nodes \<longleftrightarrow>
     detail_exact (new_items s) (sizes New_item nodes) \<and> detail_exact (removed_items s) (sizes Removed_item nodes) \<and>
     detail_exact (lost_items s) (sizes Lost_item nodes) \<and> detail_exact (changed_items s) (sizes Changed_item nodes) \<and>
     unat (changed_attributes s) \<le> 3 * length nodes \<and>
     (other_changes_exist s \<longleftrightarrow> sizes Other_change nodes \<noteq> []) \<and>
     (changed_attributes s \<noteq> 0 \<longrightarrow> sizes Changed_item nodes \<noteq> [] \<or> sizes Other_change nodes \<noteq> [])"

lemma counted_nothing: "counted no_changes []"
  by (simp add: counted_def no_changes_def no_items_def detail_exact_def)

lemma countAttribute_ok:
  assumes "unat (changed_attributes s) + 1 \<le> SIZE_MAX"
  shows "\<exists>k. countAttribute c s = Inr (s\<lparr>changed_attributes := k\<rparr>) \<and> unat k \<le> unat (changed_attributes s) + 1"
proof -
  have "sSizeAdd (changed_attributes s) 1 = Inr (changed_attributes s + 1)"
    using add_guard [of 1 "changed_attributes s"] assms by (auto simp: sSizeAdd_def)
  then show ?thesis using assms unat_add_u64 [of "changed_attributes s" 1]
    by (cases c) (auto simp: countAttribute_def intro: exI [of _ "changed_attributes s"])
qed

lemma incrementExtra_ok:
  assumes "unat (changed_attributes s) + 2 \<le> SIZE_MAX"
  shows "\<exists>k. incrementExtraChangedAttributes s h = Inr (s\<lparr>changed_attributes := k\<rparr>) \<and> unat k \<le> unat (changed_attributes s) + 2"
proof -
  obtain k1 where k1: "countAttribute (hint_has h BH_owner_changed) s = Inr (s\<lparr>changed_attributes := k1\<rparr>)"
      "unat k1 \<le> unat (changed_attributes s) + 1"
    using countAttribute_ok [of s "hint_has h BH_owner_changed"] assms by auto
  obtain k2 where "countAttribute (hint_has h BH_permissions_changed) (s\<lparr>changed_attributes := k1\<rparr>) =
      Inr (s\<lparr>changed_attributes := k2\<rparr>)" "unat k2 \<le> unat k1 + 1"
    using countAttribute_ok [of "s\<lparr>changed_attributes := k1\<rparr>" "hint_has h BH_permissions_changed"] assms k1(2) by auto
  then show ?thesis using k1 by (auto simp: incrementExtraChangedAttributes_def)
qed

lemma addOtherChange_ok:
  assumes "unat (changed_attributes s) + 3 \<le> SIZE_MAX"
  shows "\<exists>k p. addOtherChange h b s = Inr (s\<lparr>other_changes_exist := True, affects_parent_timestamp := p, changed_attributes := k\<rparr>) \<and>
    unat k \<le> unat (changed_attributes s) + 3"
proof -
  let ?s = "s\<lparr>other_changes_exist := True,
    affects_parent_timestamp := affects_parent_timestamp s \<or> type_change (backupHintNoPol h)\<rparr>"
  obtain k1 where k1: "incrementExtraChangedAttributes ?s h = Inr (?s\<lparr>changed_attributes := k1\<rparr>)"
      "unat k1 \<le> unat (changed_attributes s) + 2"
    using incrementExtra_ok [of ?s h] assms by auto
  obtain k2 where k2: "countAttribute (h = BH_timestamp_changed \<and> \<not> b) (?s\<lparr>changed_attributes := k1\<rparr>) =
      Inr (?s\<lparr>changed_attributes := k2\<rparr>)" "unat k2 \<le> unat k1 + 1"
    using countAttribute_ok [of "?s\<lparr>changed_attributes := k1\<rparr>" "h = BH_timestamp_changed \<and> \<not> b"] assms k1(2) by auto
  have "addOtherChange h b s = Inr (?s\<lparr>changed_attributes := k2\<rparr>)"
    by (simp only: addOtherChange_def Let_def k1 k2 bindE_simps)
  moreover have "unat k2 \<le> unat (changed_attributes s) + 3" using k1(2) k2(2) by simp
  ultimately show ?thesis by (intro exI conjI) assumption+
qed

lemma one_item:
  assumes "detail_exact d (sizes c nodes)" "fits (nodes @ [n])"
  shows "\<exists>d'. changeDetailAdd d 1 (file_size_of (last_state n)) = Inr d' \<and> detail_exact d' (sizes c nodes @ [node_bytes n])"
proof (rule changeDetailAdd_exact [OF assms(1)])
  have "length nodes + 1 \<le> SIZE_MAX" "sum_list (map node_bytes nodes) + node_bytes n \<le> SIZE_MAX"
    using assms(2) by (simp_all add: fits_def)
  then show "length (sizes c nodes) + length [node_bytes n] \<le> SIZE_MAX"
    "sum_list (sizes c nodes) + sum_list [node_bytes n] \<le> SIZE_MAX"
    using sizes_le [of c nodes] by simp_all
qed (simp_all add: node_bytes_def)

lemma addNode_counted:
  assumes "counted s nodes" "fits (nodes @ [n])" "node_history n \<noteq> []"
  shows "\<exists>s'. addNode n s b = Inr s' \<and> counted s' (nodes @ [n])"
proof -
  note st = getExistingState_last [OF assms(3)]
  have attrs: "unat (changed_attributes s) \<le> 3 * length nodes" "3 * length nodes + 3 \<le> SIZE_MAX"
    using assms(1,2) by (simp_all add: counted_def fits_def)
  note d = assms(1) [unfolded counted_def]
  show ?thesis
  proof (cases "change_of n")
    case None
    then have "addNode n s b = Inr s"
      by (auto simp: change_of_def addNode_def st Let_def split: if_splits)
    then show ?thesis using None assms(1) by (simp add: counted_def)
  next
    case (Some c)
    show ?thesis
    proof (cases c)
      case New_item
      then obtain d' where "changeDetailAdd (new_items s) 1 (file_size_of (last_state n)) = Inr d'"
          "detail_exact d' (sizes New_item nodes @ [node_bytes n])" using one_item [OF _ assms(2)] d by blast
      then show ?thesis using Some New_item d
        by (auto simp: change_of_def addNode_def st Let_def counted_def split: if_splits)
    next
      case Removed_item
      then obtain d' where "changeDetailAdd (removed_items s) 1 (file_size_of (last_state n)) = Inr d'"
          "detail_exact d' (sizes Removed_item nodes @ [node_bytes n])" using one_item [OF _ assms(2)] d by blast
      then show ?thesis using Some Removed_item d
        by (auto simp: change_of_def addNode_def st Let_def counted_def split: if_splits)
    next
      case Lost_item
      then obtain d' where "changeDetailAdd (lost_items s) 1 (file_size_of (last_state n)) = Inr d'"
          "detail_exact d' (sizes Lost_item nodes @ [node_bytes n])" using one_item [OF _ assms(2)] d by blast
      then show ?thesis using Some Lost_item d
        by (auto simp: change_of_def addNode_def st Let_def counted_def split: if_splits)
    next
      case Changed_item
      then obtain d' where d': "changeDetailAdd (changed_items s) 1 (file_size_of (last_state n)) = Inr d'"
          "detail_exact d' (sizes Changed_item nodes @ [node_bytes n])" using one_item [OF _ assms(2)] d by blast
      obtain k where k: "incrementExtraChangedAttributes (s\<lparr>changed_items := d', affects_parent_timestamp := True\<rparr>)
            (backupHintNoPol (node_hint n)) =
          Inr (s\<lparr>changed_items := d', affects_parent_timestamp := True, changed_attributes := k\<rparr>)"
          "unat k \<le> unat (changed_attributes s) + 2"
        using incrementExtra_ok [of "s\<lparr>changed_items := d', affects_parent_timestamp := True\<rparr>"] attrs by auto
      then show ?thesis using Some Changed_item d d'
        by (auto simp: change_of_def addNode_def st Let_def counted_def split: if_splits)
    next
      case Other_change
      obtain k p where "addOtherChange (node_hint n) b s =
          Inr (s\<lparr>other_changes_exist := True, affects_parent_timestamp := p, changed_attributes := k\<rparr>)"
          "unat k \<le> unat (changed_attributes s) + 3"
        using addOtherChange_ok [of s "node_hint n" b] attrs by auto
      then show ?thesis using Some Other_change d
        by (auto simp: change_of_def addNode_def st Let_def counted_def split: if_splits)
    qed
  qed
qed

lemma changeSummaryAdd_counted:
  assumes "counted a xs" "counted b ys" "fits (xs @ ys)"
  shows "\<exists>s. changeSummaryAdd a b = Inr s \<and> counted s (xs @ ys)"
proof -
  have ab: "\<exists>d. addDetail d1 d2 = Inr d \<and> detail_exact d (sizes c xs @ sizes c ys)"
    if "detail_exact d1 (sizes c xs)" "detail_exact d2 (sizes c ys)" for c d1 d2
  proof (rule addDetail_exact [OF that])
    show "length (sizes c xs) + length (sizes c ys) \<le> SIZE_MAX" "sum_list (sizes c xs) + sum_list (sizes c ys) \<le> SIZE_MAX"
      using sizes_le [of c xs] sizes_le [of c ys] assms(3) by (simp_all add: fits_def)
  qed
  note A = assms(1) [unfolded counted_def] and B = assms(2) [unfolded counted_def]
  obtain d1 where 1: "addDetail (new_items a) (new_items b) = Inr d1" "detail_exact d1 (sizes New_item (xs @ ys))"
    using ab A B by fastforce
  obtain d2 where 2: "addDetail (removed_items a) (removed_items b) = Inr d2" "detail_exact d2 (sizes Removed_item (xs @ ys))"
    using ab A B by fastforce
  obtain d3 where 3: "addDetail (lost_items a) (lost_items b) = Inr d3" "detail_exact d3 (sizes Lost_item (xs @ ys))"
    using ab A B by fastforce
  obtain d4 where 4: "addDetail (changed_items a) (changed_items b) = Inr d4" "detail_exact d4 (sizes Changed_item (xs @ ys))"
    using ab A B by fastforce
  have n: "unat (changed_attributes a) + unat (changed_attributes b) \<le> SIZE_MAX"
    using A B assms(3) by (simp add: fits_def)
  then have "sSizeAdd (changed_attributes a) (changed_attributes b) = Inr (changed_attributes a + changed_attributes b)"
    using add_guard [of "changed_attributes b" "changed_attributes a"] by (auto simp: sSizeAdd_def)
  then show ?thesis using 1 2 3 4 A B n by (auto simp: changeSummaryAdd_def counted_def unat_add_u64)
qed

lemma containsChanges_iff:
  assumes "counted s nodes"
  shows "containsChanges s \<longleftrightarrow> (\<exists>n \<in> set nodes. change_of n \<noteq> None)"
proof -
  have none: "sizes c nodes \<noteq> [] \<longleftrightarrow> (\<exists>n \<in> set nodes. change_of n = Some c)" for c
    by (auto simp: sizes_def filter_empty_conv)
  have pos: "affected_items_count d > 0 \<longleftrightarrow> ns \<noteq> []" if "detail_exact d ns" for d ns
    using that unat_eq_zero [of "affected_items_count d"] by (auto simp: detail_exact_def word_gt_0)
  note s = assms [unfolded counted_def]
  have counts: "affected_items_count (new_items s) > 0 \<longleftrightarrow> sizes New_item nodes \<noteq> []"
    "affected_items_count (removed_items s) > 0 \<longleftrightarrow> sizes Removed_item nodes \<noteq> []"
    "affected_items_count (lost_items s) > 0 \<longleftrightarrow> sizes Lost_item nodes \<noteq> []"
    "affected_items_count (changed_items s) > 0 \<longleftrightarrow> sizes Changed_item nodes \<noteq> []"
    using s by (simp_all only: pos)
  have other: "other_changes_exist s \<longleftrightarrow> sizes Other_change nodes \<noteq> []"
    "changed_attributes s > 0 \<Longrightarrow> sizes Changed_item nodes \<noteq> [] \<or> sizes Other_change nodes \<noteq> []"
    using s by auto
  have "containsChanges s \<longleftrightarrow> (\<exists>c. sizes c nodes \<noteq> [])"
  proof
    assume "containsChanges s"
    then show "\<exists>c. sizes c nodes \<noteq> []"
      unfolding containsChanges_def containsContentChanges_def counts other(1) using other(2) by blast
  next
    assume "\<exists>c. sizes c nodes \<noteq> []"
    then obtain c where "sizes c nodes \<noteq> []" by blast
    then show "containsChanges s"
      unfolding containsChanges_def containsContentChanges_def counts other(1) by (cases c) simp_all
  qed
  then show ?thesis by (auto simp: none)
qed

section \<open>The whole tree\<close>

text \<open>Printing a node only fails if the counters of what was removed and what was lost overflow together.\<close>

lemma deleted_ok:
  assumes "counted s nodes" "fits nodes"
  shows "\<exists>d. addDetail (removed_items s) (lost_items s) = Inr d"
proof -
  have "length (sizes Removed_item nodes) + length (sizes Lost_item nodes) \<le> SIZE_MAX"
    "sum_list (sizes Removed_item nodes) + sum_list (sizes Lost_item nodes) \<le> SIZE_MAX"
    using sizes_two [of Removed_item Lost_item nodes] assms(2) by (simp_all add: fits_def)
  then show ?thesis using addDetail_exact assms(1) unfolding counted_def by blast
qed

lemma lost_ok:
  assumes "counted s nodes" "fits nodes"
  shows "\<exists>d d'. addDetail no_items (removed_items s) = Inr d \<and> addDetail d (lost_items s) = Inr d'"
proof -
  have b: "length (sizes Removed_item nodes) + length (sizes Lost_item nodes) \<le> SIZE_MAX"
    "sum_list (sizes Removed_item nodes) + sum_list (sizes Lost_item nodes) \<le> SIZE_MAX"
    using sizes_two [of Removed_item Lost_item nodes] assms(2) by (simp_all add: fits_def)
  have s: "detail_exact (removed_items s) (sizes Removed_item nodes)" "detail_exact (lost_items s) (sizes Lost_item nodes)"
    "detail_exact no_items []"
    using assms(1) by (simp_all add: counted_def detail_exact_def no_items_def)
  obtain d where "addDetail no_items (removed_items s) = Inr d" "detail_exact d (sizes Removed_item nodes)"
    using addDetail_exact [OF s(3,1)] b by auto
  then show ?thesis using addDetail_exact [OF _ s(2) b] by blast
qed

lemma printNode_ok:
  assumes "counted s nodes" "fits nodes" "node_history n \<noteq> []"
  shows "\<exists>line. printNode tty n s summarize = Inr line"
proof -
  note st = getExistingState_last [OF assms(3)]
  obtain d where d: "addDetail (removed_items s) (lost_items s) = Inr d" using deleted_ok [OF assms(1,2)] by blast
  obtain d' d'' where d': "addDetail no_items (removed_items s) = Inr d'" "addDetail d' (lost_items s) = Inr d''"
    using lost_ok [OF assms(1,2)] by blast
  have mark: "printMark tty n c m c' a = Inr (colorPrintf tty c m @ colorPrintf tty c'
      ((case last_state n of PST_symlink _ _ _ \<Rightarrow> ''^'' | _ \<Rightarrow> []) @ node_path n @ (if is_dir_state (last_state n) then ''/'' else [])) @ a)"
    for c m c' a
    by (simp add: printMark_def printNodePath_def st)
  have "\<exists>head. printNodeHead tty n s summarize = Inr head"
    unfolding printNodeHead_def Let_def mark by (simp only: if_distrib [where f = "\<lambda>x. \<exists>head. x = Inr head"]) simp
  moreover have "\<exists>p. printNodeFlags n s = Inr p" using assms(3) by (cases "node_history n") (simp_all add: printNodeFlags_def Let_def)
  moreover have "\<exists>p'. printNodeCounts n (last_state n) s summarize p = Inr p'" for p
    by (simp add: printNodeCounts_def printSummarizedDetail_def d d' Let_def)
  ultimately obtain head p b details where
    "printNodeHead tty n s summarize = Inr head" "printNodeFlags n s = Inr p"
    "printNodeCounts n (last_state n) s summarize p = Inr (b, details)" by (metis surj_pair)
  then show ?thesis by (simp add: printNode_def st)
qed

lemma summarizes_ok:
  assumes "node_history n \<noteq> []"
  shows "\<exists>b es'. summarizes sys n es = Inr (b, es')"
proof -
  obtain b es' where "matchesRegexList sys (node_path n) es = (b, es')" by (cases "matchesRegexList sys (node_path n) es")
  then show ?thesis using getExistingState_last [OF assms]
    by (cases "node_policy n = BPOL_none"; cases "is_dir_state (last_state n)") (auto simp: summarizes_def)
qed

lemma recursePrintOverTree_counted:
  "counted changes before \<Longrightarrow> fits (before @ flatten nodes) \<Longrightarrow> list_all (\<lambda>n. node_history n \<noteq> []) (flatten nodes) \<Longrightarrow>
   \<exists>changes' es' out. recursePrintOverTree sys tty print changes es nodes = Inr (changes', es', out) \<and>
     counted changes' (before @ flatten nodes)"
proof (induction nodes arbitrary: changes before es print rule: flatten.induct)
  case (2 path h pol hist subs nodes)
  let ?n = "PathNode path h pol hist subs"
  have n: "node_history ?n \<noteq> []" "list_all (\<lambda>n. node_history n \<noteq> []) (flatten subs)"
    "list_all (\<lambda>n. node_history n \<noteq> []) (flatten nodes)" using "2.prems"(3) by simp_all
  have fits: "fits (before @ [?n])" "fits (flatten subs)" "fits ((before @ [?n]) @ flatten subs)"
    "fits ((before @ ?n # flatten subs) @ flatten nodes)"
    using "2.prems"(2) by (auto simp: fits_def)
  obtain b es1 where b: "summarizes sys ?n es = Inr (b, es1)" using summarizes_ok [OF n(1)] by blast
  have subs: "\<exists>summary es' out. recursePrintOverTree sys tty p no_changes es subs = Inr (summary, es', out) \<and>
      counted summary (flatten subs)" for p es
    using "2.IH"(1) [OF counted_nothing, of p es] fits(2) n(2) by simp
  have line: "\<exists>line. printNode tty ?n s b = Inr line" if "counted s (flatten subs)" for s
    using printNode_ok [OF that fits(2) n(1)] by blast
  note step = recursePrintOverTree.simps(2) [of sys tty print changes es path h pol hist subs nodes, unfolded Let_def b bindE_simps prod.case]
  let ?inner = "if print \<and> b then
         bindE (recursePrintOverTree sys tty False no_changes (if b then [] else es1) subs) (\<lambda>(summary, down, out).
           if h > BH_unchanged \<or> containsChanges summary then
             bindE (printNode tty ?n summary b) (\<lambda>line. Inr (summary, es1, out @ line))
           else Inr (summary, es1, out))
       else if print \<and> printed_hint h pol then
         bindE (recursePrintOverTree sys tty (backupHintNoPol h > BH_other_to_directory) no_changes (if b then [] else es1) subs)
           (\<lambda>(summary, down, out).
             if \<not> (h = BH_timestamp_changed \<and> affects_parent_timestamp summary) then
               bindE (printNode tty ?n summary b) (\<lambda>line.
                 Inr (summary, if b then es1 else down, out @ line))
             else Inr (summary, if b then es1 else down, out))
       else
         bindE (recursePrintOverTree sys tty print no_changes (if b then [] else es1) subs) (\<lambda>(summary, down, out).
           Inr (summary, if b then es1 else down, out))"
  have "\<exists>summary es' out. ?inner = Inr (summary, es', out) \<and> counted summary (flatten subs)"
  proof -
    obtain p where p: "p = (if print \<and> b then False else if print \<and> printed_hint h pol
      then backupHintNoPol h > BH_other_to_directory else print)" by blast
    obtain summary down out where s: "recursePrintOverTree sys tty p no_changes (if b then [] else es1) subs = Inr (summary, down, out)"
        "counted summary (flatten subs)" using subs by blast
    obtain line where "printNode tty ?n summary b = Inr line" using line [OF s(2)] by blast
    then show ?thesis using s p by (cases "print \<and> b"; cases "print \<and> printed_hint h pol") auto
  qed
  then obtain summary es2 out where inner: "?inner = Inr (summary, es2, out)" "counted summary (flatten subs)" by blast
  obtain c1 where c1: "addNode ?n changes (affects_parent_timestamp summary) = Inr c1" "counted c1 (before @ [?n])"
    using addNode_counted [OF "2.prems"(1) fits(1) n(1)] by blast
  obtain c2 where c2: "changeSummaryAdd c1 summary = Inr c2" "counted c2 (before @ ?n # flatten subs)"
    using changeSummaryAdd_counted [OF c1(2) inner(2) fits(3)] by auto
  obtain c3 es3 rest where "recursePrintOverTree sys tty print c2 es2 nodes = Inr (c3, es3, rest)"
      "counted c3 (before @ flatten (?n # nodes))"
    using "2.IH"(2) [OF c2(2) fits(4) n(3), of print es2] by auto
  then show ?case
    unfolding step inner(1) bindE_simps prod.case c1(1) c2(1) by auto
qed simp

text \<open>
  C12: printing the changes always ends with a summary, which counts every new, removed, lost and
  changed node of the whole tree once and adds up their sizes, whatever is printed or summarized; and
  it contains changes if and only if a node has changed, so that a backup is skipped exactly when
  there is nothing to do.
\<close>

theorem printMetadataChanges_counts:
  assumes "list_all (\<lambda>n. node_history n \<noteq> []) (flatten (paths md))" and "fits (flatten (paths md))"
  shows "\<exists>changes es' out. printMetadataChanges sys tty md es = Inr (changes, es', out) \<and>
    detail_exact (new_items changes) (sizes New_item (flatten (paths md))) \<and>
    detail_exact (removed_items changes) (sizes Removed_item (flatten (paths md))) \<and>
    detail_exact (lost_items changes) (sizes Lost_item (flatten (paths md))) \<and>
    detail_exact (changed_items changes) (sizes Changed_item (flatten (paths md))) \<and>
    (containsChanges changes \<longleftrightarrow> (\<exists>n \<in> set (flatten (paths md)). change_of n \<noteq> None))"
proof -
  obtain changes es' out where c: "printMetadataChanges sys tty md es = Inr (changes, es', out)"
      "counted changes (flatten (paths md))"
    using recursePrintOverTree_counted [OF counted_nothing, of "paths md" sys tty True es] assms
    by (auto simp: printMetadataChanges_def)
  then show ?thesis using containsChanges_iff [OF c(2)] c(2) by (auto simp: counted_def)
qed

text \<open>Going through the search tree for the warnings ends: subnodes come later in the list of nodes.\<close>

lemma printSearchNodeInfos_returns:
  assumes "forest ns"
  shows "(\<forall>i \<in> set is. i < length ns \<and> length ns \<le> i + depth) \<Longrightarrow> \<exists>out. printSearchNodeInfos depth tty ns is = Inr out"
proof (induction depth arbitrary: "is")
  case 0
  then show ?case by (cases "is") auto
next
  case (Suc depth)
  have subs: "\<exists>out. printSearchNodeInfos depth tty ns (sn_subnodes (ns ! i)) = Inr out"
    if "i < length ns" "length ns \<le> i + Suc depth" for i
  proof (rule Suc.IH)
    show "\<forall>j \<in> set (sn_subnodes (ns ! i)). j < length ns \<and> length ns \<le> j + depth"
    proof
      fix j assume "j \<in> set (sn_subnodes (ns ! i))"
      then have "edge ns i j" using that(1) by (simp add: edge_def)
      then have "i < j \<and> j < length ns" using assms by (simp add: forest_def)
      then show "j < length ns \<and> length ns \<le> j + depth" using that(2) by simp
    qed
  qed
  from Suc.prems show ?case
  proof (induction "is")
    case (Cons i "is")
    obtain out where "printSearchNodeInfos depth tty ns (sn_subnodes (ns ! i)) = Inr out"
      using subs Cons.prems by auto
    moreover obtain rest where "printSearchNodeInfos (Suc depth) tty ns is = Inr rest" using Cons.IH Cons.prems by auto
    ultimately show ?case by (simp add: Let_def)
  qed simp
qed

text \<open>A new directory with a new file of three bytes, and a file that was removed.\<close>

definition changes_example :: metadata where
  "changes_example = metadataNew\<lparr>paths :=
     [PathNode ''/d'' BH_added BPOL_copy
        [\<lparr>point_backup = Current, state = PST_directory 0 0 \<lparr>dir_permission_bits = 0, dir_modification_time = 0\<rparr>\<rparr>]
        [PathNode ''/d/f'' BH_added BPOL_copy
           [\<lparr>point_backup = Current, state = PST_regular_file 0 0
              \<lparr>permission_bits = 0, modification_time = 0, file_size = 3, file_hash = [], slot = 0\<rparr>\<rparr>] []],
      PathNode ''/g'' BH_removed BPOL_mirror
        [\<lparr>point_backup = Current, state = PST_non_existing\<rparr>,
         \<lparr>point_backup = Current, state = PST_regular_file 0 0
              \<lparr>permission_bits = 0, modification_time = 0, file_size = 5, file_hash = [], slot = 0\<rparr>\<rparr>] []]\<rparr>"

theorem printMetadataChanges_counts_witness:
  "\<exists>changes es' out. printMetadataChanges hash_example_os True changes_example [] = Inr (changes, es', out) \<and>
    detail_exact (new_items changes) [0, 3] \<and> detail_exact (removed_items changes) [5] \<and>
    detail_exact (lost_items changes) [] \<and> detail_exact (changed_items changes) [] \<and> containsChanges changes"
proof -
  let ?nodes = "flatten (paths changes_example)"
  have "list_all (\<lambda>n. node_history n \<noteq> []) ?nodes" by (simp add: changes_example_def)
  moreover have "fits ?nodes"
    by (simp add: changes_example_def fits_def SIZE_MAX_def node_bytes_def last_state_def file_size_of_def)
  moreover have "sizes New_item ?nodes = [0, 3]" "sizes Removed_item ?nodes = [5]" "sizes Lost_item ?nodes = []"
    "sizes Changed_item ?nodes = []" "\<exists>n \<in> set ?nodes. change_of n \<noteq> None"
    by (simp_all add: changes_example_def change_of_def backupHintNoPol_def BH_defs node_bytes_def last_state_def file_size_of_def)
  ultimately show ?thesis using printMetadataChanges_counts [of changes_example hash_example_os True "[]"] by simp
qed

end
