(* ===== verification/Console.thy ===== *)
theory Console
  imports Output Allocator
begin

text \<open>
  The wrappers of \<open>src/safe-wrappers.c\<close> for standard input, numbers, the clock and the current
  directory, and the question to the user of \<open>src/nb.c\<close>. The input is the string of the characters
  that are still to be read; at its end \<open>fgetc()\<close> returns \<open>EOF\<close>. That the stream has no error is
  assumed.
\<close>

section \<open>Reading a line\<close>

abbreviation LF :: char where "LF \<equiv> CHR 0x0A"
abbreviation CR :: char where "CR \<equiv> CHR 0x0D"

definition ends_line :: "char \<Rightarrow> bool" where
  "ends_line c \<longleftrightarrow> c = LF \<or> c = CR \<or> c = NUL"

text \<open>
  The loop of \<open>sReadLine()\<close>. The buffer holds the characters that were read and has room for
  \<open>capacity\<close> ones; writing behind its end is an error of the model.
\<close>

fun readLineLoop :: "memory \<Rightarrow> nat \<Rightarrow> string \<Rightarrow> string \<Rightarrow> (string \<times> string) option result" where
  "readLineLoop avail capacity buffer [] = Inr (if buffer = [] then None else Some (buffer, []))"
| "readLineLoop avail capacity buffer (c # input) =
     (if ends_line c then Inr (Some (buffer, input))
      else if \<not> length buffer < capacity then Inl Buffer_overrun
      else
        let buffer = buffer @ [c]
        in if length buffer = capacity then
             bindE (size_mul capacity 2) (\<lambda>capacity.
             bindE (allocate avail ALT_single_growable_buffer capacity) (\<lambda>_.
               readLineLoop avail capacity buffer input))
           else readLineLoop avail capacity buffer input)"

text \<open>The line and the remaining input, or \<open>None\<close> at the end of the input.\<close>

definition sReadLine :: "memory \<Rightarrow> string \<Rightarrow> (string \<times> string) option result" where
  "sReadLine avail input =
     bindE (allocate avail ALT_single_growable_buffer 4) (\<lambda>_.
     bindE (readLineLoop avail 4 [] input) (\<lambda>result.
       case result of
         None \<Rightarrow> Inr None
       | Some (line, rest) \<Rightarrow>
           bindE (allocate avail ALT_single_growable_buffer (length line + 1)) (\<lambda>_. Inr (Some (line, rest)))))"

definition line_read :: "string \<Rightarrow> string \<Rightarrow> (string \<times> string) option result \<Rightarrow> bool" where
  "line_read buffer input r \<longleftrightarrow>
     (case r of
        Inl e \<Rightarrow> e \<noteq> Buffer_overrun
      | Inr None \<Rightarrow> input = [] \<and> buffer = []
      | Inr (Some (line, rest)) \<Rightarrow>
          (input \<noteq> [] \<or> buffer \<noteq> []) \<and> line = buffer @ takeWhile (\<lambda>c. \<not> ends_line c) input \<and>
          rest = drop 1 (dropWhile (\<lambda>c. \<not> ends_line c) input))"

lemma line_read_step: "\<not> ends_line c \<Longrightarrow> line_read (buffer @ [c]) input r \<Longrightarrow> line_read buffer (c # input) r"
  by (auto simp: line_read_def split: sum.splits option.splits)

lemma line_read_bind:
  assumes "\<And>e. r = Inl e \<Longrightarrow> e \<noteq> Buffer_overrun" "\<And>x. r = Inr x \<Longrightarrow> line_read buffer input (f x)"
  shows "line_read buffer input (bindE r f)"
  using assms by (cases r) (auto simp: line_read_def)

lemma no_overrun: "size_mul a b = Inl e \<Longrightarrow> e \<noteq> Buffer_overrun" "allocate avail alloc n = Inl e \<Longrightarrow> e \<noteq> Buffer_overrun"
  by (auto simp: size_mul_def allocate_def split: if_splits option.splits)

lemma readLineLoop_result: "length buffer < capacity \<Longrightarrow> line_read buffer input (readLineLoop avail capacity buffer input)"
proof (induction input arbitrary: buffer capacity)
  case (Cons c input)
  show ?case
  proof (cases "ends_line c")
    case False
    have "line_read (buffer @ [c]) input (if length (buffer @ [c]) = capacity then
        bindE (size_mul capacity 2) (\<lambda>capacity. bindE (allocate avail ALT_single_growable_buffer capacity) (\<lambda>_.
          readLineLoop avail capacity (buffer @ [c]) input))
      else readLineLoop avail capacity (buffer @ [c]) input)"
    proof (cases "length (buffer @ [c]) = capacity")
      case True
      then show ?thesis
        by (auto intro!: line_read_bind Cons.IH dest: no_overrun)
    next
      case False
      then show ?thesis using Cons.IH [of "buffer @ [c]" capacity] Cons.prems by simp
    qed
    then show ?thesis using False Cons.prems line_read_step [OF False] by (simp add: Let_def)
  qed (auto simp: line_read_def)
qed (simp add: line_read_def)

text \<open>Reading a line never writes behind the buffer, and returns the text before the first end of a line.\<close>

lemma sReadLine_line:
  "sReadLine avail input \<noteq> Inl Buffer_overrun"
  "sReadLine avail input = Inr line \<Longrightarrow>
     line = (if input = [] then None else Some (takeWhile (\<lambda>c. \<not> ends_line c) input, drop 1 (dropWhile (\<lambda>c. \<not> ends_line c) input)))"
proof -
  have R: "line_read [] input (readLineLoop avail 4 [] input)" by (rule readLineLoop_result) simp
  show "sReadLine avail input \<noteq> Inl Buffer_overrun"
    using R no_overrun(2) by (auto simp: sReadLine_def bindE_eq_Inl line_read_def split: option.splits)
  show "sReadLine avail input = Inr line \<Longrightarrow>
     line = (if input = [] then None else Some (takeWhile (\<lambda>c. \<not> ends_line c) input, drop 1 (dropWhile (\<lambda>c. \<not> ends_line c) input)))"
    using R by (auto simp: sReadLine_def bindE_eq_Inr line_read_def split: option.splits)
qed

lemma sReadLine_shorter:
  assumes "sReadLine avail input = Inr (Some (line, rest))"
  shows "length rest < length input"
proof -
  have "input \<noteq> []" "rest = drop 1 (dropWhile (\<lambda>c. \<not> ends_line c) input)"
    using sReadLine_line(2) [OF assms] by (auto split: if_splits)
  moreover have "length (dropWhile (\<lambda>c. \<not> ends_line c) input) \<le> length input" by (rule length_dropWhile_le)
  ultimately show ?thesis by (cases "dropWhile (\<lambda>c. \<not> ends_line c) input") auto
qed

section \<open>Asking the user\<close>

text \<open>Whether the user has agreed, the remaining input, and what was printed.\<close>

function ensureUserConsent :: "memory \<Rightarrow> bool \<Rightarrow> string \<Rightarrow> string \<Rightarrow> (bool \<times> string \<times> string) result" where
  "ensureUserConsent avail stdin_tty question input =
     (let out = question @ '' (y/n) '' @ (if stdin_tty then [] else [LF])
      in bindE (sReadLine avail input) (\<lambda>result.
           case result of
             None \<Rightarrow> Inr (False, [], out)
           | Some (line, rest) \<Rightarrow>
               if line = ''n'' \<or> line = ''no'' then Inr (False, rest, out)
               else if line = ''y'' \<or> line = ''yes'' then Inr (True, rest, out)
               else bindE (ensureUserConsent avail stdin_tty question rest) (\<lambda>(consent, rest, out').
                 Inr (consent, rest, out @ out'))))"
  by pat_completeness auto
termination
  by (relation "measure (\<lambda>(avail, stdin_tty, question, input). length input)") (auto dest: sReadLine_shorter)

declare ensureUserConsent.simps [simp del]

text \<open>The lines of the input.\<close>

function input_lines :: "string \<Rightarrow> string list" where
  "input_lines [] = []"
| "input_lines (c # cs) =
     takeWhile (\<lambda>c. \<not> ends_line c) (c # cs) # input_lines (drop 1 (dropWhile (\<lambda>c. \<not> ends_line c) (c # cs)))"
  by pat_completeness auto
termination
proof (relation "measure length", simp, goal_cases)
  case (1 c cs)
  show ?case using length_dropWhile_le [of "\<lambda>c. \<not> ends_line c" cs] by auto
qed

lemma consent_line:
  "ensureUserConsent avail tty question input = Inr (True, rest, out) \<Longrightarrow>
     ''y'' \<in> set (input_lines input) \<or> ''yes'' \<in> set (input_lines input)"
proof (induction avail tty question input arbitrary: rest out rule: ensureUserConsent.induct)
  case (1 avail tty question input)
  from "1.prems" obtain line where line: "sReadLine avail input = Inr line"
    by (subst (asm) ensureUserConsent.simps) (auto simp: Let_def bindE_eq_Inr)
  show ?case
  proof (cases line)
    case None
    then show ?thesis using "1.prems" line by (subst (asm) ensureUserConsent.simps) (simp add: Let_def)
  next
    case (Some r)
    obtain l rest' where r: "r = (l, rest')" by (cases r)
    have i: "input_lines input = l # input_lines rest'"
      using sReadLine_line(2) [OF line] Some r by (cases input) (auto split: if_splits)
    show ?thesis
    proof (cases "l = ''n'' \<or> l = ''no'' \<or> l = ''y'' \<or> l = ''yes''")
      case True
      then show ?thesis using "1.prems" line Some r i by (subst (asm) ensureUserConsent.simps) (auto simp: Let_def)
    next
      case False
      then obtain out' where "ensureUserConsent avail tty question rest' = Inr (True, rest, out')"
        using "1.prems" line Some r by (subst (asm) ensureUserConsent.simps) (auto simp: Let_def bindE_eq_Inr)
      then show ?thesis using "1.IH" [OF refl line Some r [symmetric]] False i by auto
    qed
  qed
qed

section \<open>Numbers\<close>

definition LLONG_MAX :: int where
  "LLONG_MAX = 2 ^ 63 - 1"

definition is_space :: "char \<Rightarrow> bool" where
  "is_space c \<longleftrightarrow> c = CHR '' '' \<or> 9 \<le> (of_char c :: nat) \<and> (of_char c :: nat) \<le> 13"

definition is_digit :: "char \<Rightarrow> bool" where
  "is_digit c \<longleftrightarrow> 48 \<le> (of_char c :: nat) \<and> (of_char c :: nat) \<le> 57"

definition digits_value :: "string \<Rightarrow> nat" where
  "digits_value ds = foldl (\<lambda>n c. 10 * n + (of_char c - 48)) 0 ds"

text \<open>
  \<open>strtoll()\<close> for base ten: the value, whether it was out of range, and whether a number was found.
\<close>

definition strtoll :: "string \<Rightarrow> int \<times> bool \<times> bool" where
  "strtoll s =
     (let s = dropWhile is_space s;
          negative = (s \<noteq> [] \<and> hd s = CHR ''-'');
          s = (if s \<noteq> [] \<and> (hd s = CHR ''-'' \<or> hd s = CHR ''+'') then tl s else s);
          ds = takeWhile is_digit s;
          value = (if negative then - int (digits_value ds) else int (digits_value ds))
      in if ds = [] then (0, False, False)
         else if value > LLONG_MAX then (LLONG_MAX, True, True)
         else if value < - LLONG_MAX - 1 then (- LLONG_MAX - 1, True, True)
         else (value, False, True))"

definition sStringToSize :: "string \<Rightarrow> nat result" where
  "sStringToSize raw_string =
     (case strtoll (takeWhile (\<lambda>c. c \<noteq> NUL) raw_string) of
        (value, range_error, converted) \<Rightarrow>
          if \<not> converted then Inl (Not_a_number raw_string)
          else if value < 0 then Inl (Negative_size raw_string)
          else if value = LLONG_MAX \<and> range_error \<or> nat value > SIZE_MAX then Inl (Size_too_large raw_string)
          else Inr (nat value))"

lemma is_digit_not_space: "is_digit c \<Longrightarrow> \<not> is_space c \<and> c \<noteq> CHR ''-'' \<and> c \<noteq> CHR ''+'' \<and> c \<noteq> NUL"
  by (auto simp: is_digit_def is_space_def)

text \<open>A string of digits is converted to its value, unless this is too large.\<close>

lemma sStringToSize_digits:
  assumes "s \<noteq> []" "list_all is_digit s"
  shows "sStringToSize s = (if int (digits_value s) \<le> LLONG_MAX then Inr (digits_value s) else Inl (Size_too_large s))"
proof -
  obtain c cs where s: "s = c # cs" using assms(1) by (cases s) auto
  have c: "is_digit c" using assms(2) s by simp
  have all: "takeWhile is_digit s = s" "takeWhile (\<lambda>c. c \<noteq> NUL) s = s" "dropWhile is_space s = s"
    using assms(2) is_digit_not_space [OF c] is_digit_not_space
    by (auto simp: takeWhile_eq_all_conv list_all_iff s)
  have "hd s \<noteq> CHR ''-''" "hd s \<noteq> CHR ''+''" using is_digit_not_space [OF c] by (simp_all add: s)
  then have "strtoll s = (if int (digits_value s) > LLONG_MAX then (LLONG_MAX, True, True) else (int (digits_value s), False, True))"
    using assms(1) by (simp add: strtoll_def all Let_def LLONG_MAX_def)
  moreover have "int (digits_value s) \<le> LLONG_MAX \<Longrightarrow> digits_value s \<le> SIZE_MAX"
    by (simp add: LLONG_MAX_def SIZE_MAX_def)
  ultimately show ?thesis by (auto simp: sStringToSize_def all LLONG_MAX_def)
qed

section \<open>The clock and the current directory\<close>

definition sTimeMilliseconds :: "u64 \<Rightarrow> u64 \<Rightarrow> u64 result" where
  "sTimeMilliseconds seconds nanoseconds =
     bindE (sUint64Mul seconds 1000) (\<lambda>ms. sUint64Add ms (nanoseconds div 1000000))"

text \<open>
  The loop of \<open>sGetCurrentDir()\<close>. \<open>getcwd()\<close> knows the directory or fails; it refuses a buffer that is
  too small with \<open>ERANGE\<close>, and one of size zero with another error.
\<close>

function getCwdLoop :: "memory \<Rightarrow> string option \<Rightarrow> nat \<Rightarrow> string result" where
  "getCwdLoop avail cwd capacity =
     (case cwd of
        None \<Rightarrow> Inl (Die ''failed to determine current working directory'')
      | Some path \<Rightarrow>
          if length path < capacity then Inr path
          else if capacity = 0 then Inl (Die ''failed to determine current working directory'')
          else bindE (size_mul capacity 2) (\<lambda>capacity.
               bindE (allocate avail ALT_single_growable_buffer capacity) (\<lambda>_. getCwdLoop avail cwd capacity)))"
  by pat_completeness auto
termination by (relation "measure (\<lambda>(avail, cwd, capacity). SIZE_MAX - capacity)") auto

declare getCwdLoop.simps [simp del]

definition sGetCurrentDir :: "memory \<Rightarrow> string option \<Rightarrow> string result" where
  "sGetCurrentDir avail cwd =
     bindE (allocate avail ALT_single_growable_buffer 4) (\<lambda>_. getCwdLoop avail cwd 4)"

lemma getCwdLoop_result: "getCwdLoop avail cwd capacity = Inr path \<Longrightarrow> cwd = Some path"
proof (induction avail cwd capacity rule: getCwdLoop.induct)
  case (1 avail cwd capacity)
  then show ?case
    by (subst (asm) getCwdLoop.simps) (auto simp: bindE_eq_Inr split: option.splits if_splits)
qed

lemma sGetCurrentDir_result: "sGetCurrentDir avail cwd = Inr path \<Longrightarrow> cwd = Some path"
  by (auto simp: sGetCurrentDir_def bindE_eq_Inr dest: getCwdLoop_result)

end
