(* ===== verification/Main_Program.thy ===== *)
theory Main_Program
  imports Console Informations Restore Backup_Finish Integrity Garbage_Collector Repo_Lock Search_Tree
begin

text \<open>
  The program: \<open>src/nb.c\<close>, with the command for each list of arguments. What it reads comes from the
  environment, a record of the operating system and of everything else that is not the program's.
  What it changes is the state: the files of the repository, the files of the user, the input that is
  left, and what was printed. While the repository or the files of the user are being changed, an
  error leaves them in a state between the old and the new one, which is not modelled further.
\<close>

section \<open>Environment and state\<close>

record nb_env =
  env_os :: os
  env_regcomp :: regcomp
  env_host :: host
  env_stdin_tty :: bool
  env_stdout_tty :: bool
  env_stderr_tty :: bool
  env_lock :: "open_outcome \<times> lockf_outcome"
  env_now :: u64
  env_clock :: "nat \<Rightarrow> u64"
  env_cwd :: "string option"
  env_fuel :: nat
  env_siphash :: siphash_fun
  env_rands :: "nat list \<times> nat list"
  env_garbage :: string
  env_buffer :: "string \<times> string"
  env_process :: process
  env_listing :: "disk \<Rightarrow> fs_entry list"
  env_removable :: removable

record nb_state =
  nb_disk :: disk
  nb_files :: user_files
  nb_input :: string
  nb_out :: string
  nb_err :: string

datatype nb_end = Exit_success | Exit_failure | Died nb_error

datatype nb_outcome = Ended nb_end nb_state | Interrupted nb_error

text \<open>A step that may die without having changed anything, and one that may die in between.\<close>

definition orDie :: "'a result \<Rightarrow> nb_state \<Rightarrow> ('a \<Rightarrow> nb_outcome) \<Rightarrow> nb_outcome" where
  "orDie r s f = (case r of Inl e \<Rightarrow> Ended (Died e) s | Inr x \<Rightarrow> f x)"

definition changing :: "'a result \<Rightarrow> ('a \<Rightarrow> nb_outcome) \<Rightarrow> nb_outcome" where
  "changing r f = (case r of Inl e \<Rightarrow> Interrupted e | Inr x \<Rightarrow> f x)"

definition put_out :: "string \<Rightarrow> nb_state \<Rightarrow> nb_state" where
  "put_out out s = s\<lparr>nb_out := nb_out s @ out\<rparr>"

section \<open>Statistics and progress\<close>

definition printStats :: "bool \<Rightarrow> string \<Rightarrow> text_color \<Rightarrow> change_detail \<Rightarrow> bool \<times> string \<Rightarrow> bool \<times> string" where
  "printStats tty summary color details p =
     (case p of (printed_stats, out) \<Rightarrow>
        (True, out @ (if printed_stats then '', '' else []) @ summary @ '': '' @
           colorPrintf tty color (dec (unat (affected_items_count details))) @ '' ('' @
           printHumanReadableSize (affected_items_total_size details) @ '')''))"

definition startOverprintingPreviousLine :: "bool \<Rightarrow> string" where
  "startOverprintingPreviousLine tty = (if tty then ESC # ''[1F'' @ ESC # ''[2K'' else [])"

definition shouldUpdateProgressLine :: "u64 \<Rightarrow> u64 \<Rightarrow> bool \<times> u64" where
  "shouldUpdateProgressLine now last_print_timestamp =
     (if sUint64GetDifference last_print_timestamp now > 50 then (True, now) else (False, last_print_timestamp))"

definition printProgress :: "bool \<Rightarrow> bool \<Rightarrow> u64 \<Rightarrow> u64 \<Rightarrow> u64 \<Rightarrow> string \<Rightarrow> string \<Rightarrow> string result" where
  "printProgress tty assume_is_finished processed_amount total_amount amount_to_format info_text action_suffix =
     (let start = startOverprintingPreviousLine tty @ info_text @ ''... '';
          amount = '' ('' @ printHumanReadableSize amount_to_format @ '' '' @ action_suffix @ '')'' @ [LF]
      in if assume_is_finished then Inr (start @ colorPrintf tty TC_bold ''100.0%'' @ amount)
         else if processed_amount \<ge> total_amount then Inr (start @ ''99.9%'' @ amount)
         else if processed_amount > 0 then
           bindE (sUint64Mul processed_amount 1000) (\<lambda>product.
             let permille = unat (product div total_amount)
             in Inr (start @ pad_left 3 (dec (permille div 10)) @ ''.'' @ dec (permille mod 10) @ ''%'' @ amount))
         else Inr (start @ [LF]))"

definition printGCProgress :: "bool \<Rightarrow> bool \<Rightarrow> u64 \<Rightarrow> u64 \<Rightarrow> u64 \<Rightarrow> string result" where
  "printGCProgress tty is_finished items_visited max_call_limit deleted_items_size =
     printProgress tty is_finished items_visited max_call_limit deleted_items_size ''Discarding unreferenced data'' ''deleted''"

text \<open>The callbacks, with their context and what they have printed; a call reads the clock once.\<close>

definition gcProgressCallback :: "nb_env \<Rightarrow> nat \<times> nat \<Rightarrow> u64 \<times> u64 \<times> string \<Rightarrow> (u64 \<times> u64 \<times> string) result" where
  "gcProgressCallback env call ctx =
     (case (call, ctx) of ((deleted_items_size, max_call_limit), (items_visited, last_time, out)) \<Rightarrow>
        case shouldUpdateProgressLine (env_clock env (unat items_visited)) last_time of (update, last_time) \<Rightarrow>
          bindE (if update then printGCProgress (env_stdout_tty env) False items_visited (word_of_nat max_call_limit)
                   (word_of_nat deleted_items_size) else Inr [])
            (\<lambda>line. Inr (items_visited + 1, last_time, out @ line)))"

definition printIntegrityProgress :: "bool \<Rightarrow> bool \<Rightarrow> u64 \<Rightarrow> u64 \<Rightarrow> string result" where
  "printIntegrityProgress tty is_finished bytes_processed total_bytes_to_process =
     printProgress tty is_finished bytes_processed total_bytes_to_process bytes_processed ''Checking integrity'' ''processed''"

definition integrityProgressCallback ::
  "nb_env \<Rightarrow> nat \<times> u64 \<Rightarrow> u64 \<times> u64 \<times> nat \<times> string \<Rightarrow> (u64 \<times> u64 \<times> nat \<times> string) result" where
  "integrityProgressCallback env call ctx =
     (case (call, ctx) of ((processed_block_size, total_bytes), (bytes_processed, last_time, readings, out)) \<Rightarrow>
        bindE (sUint64Add bytes_processed (word_of_nat processed_block_size)) (\<lambda>bytes_processed.
          if \<not> env_stdout_tty env then Inr (bytes_processed, last_time, readings, out)
          else
            case shouldUpdateProgressLine (env_clock env readings) last_time of (update, last_time) \<Rightarrow>
              bindE (if update then printIntegrityProgress True False bytes_processed total_bytes else Inr [])
                (\<lambda>line. Inr (bytes_processed, last_time, readings + 1, out @ line))))"

section \<open>Garbage collection and the integrity check\<close>

definition runGC :: "nb_env \<Rightarrow> metadata \<Rightarrow> string \<Rightarrow> bool \<Rightarrow> nb_state \<Rightarrow> nb_outcome" where
  "runGC env md repo prepend_newline s =
     (let tty = env_stdout_tty env;
          entries = env_listing env (nb_disk s)
      in changing (if tty then bindE (printGCProgress tty False 0 100 0) (\<lambda>line. Inr ([LF] @ line)) else Inr []) (\<lambda>start.
         changing (collectGarbageProgress (os_memory (env_os env)) (env_removable env) (env_siphash env) (env_buffer env) (fst (env_rands env))
             md repo entries) (\<lambda>(left, gc_stats).
         changing (if tty then foldE (gcProgressCallback env) (gc_calls gc_stats) (0, 0, []) else Inr (0, 0, []))
           (\<lambda>(items_visited, last_time, progress).
         changing (printGCProgress tty True 0 100 (word_of_nat (deleted_items_total_size gc_stats))) (\<lambda>finish.
           Ended Exit_success (put_out ((if prepend_newline then [LF] else []) @ start @ progress @ finish)
             (s\<lparr>nb_disk := removeFromDisk repo entries left (nb_disk s)\<rparr>)))))))"

definition printBroken :: "bool \<Rightarrow> path_node \<Rightarrow> string" where
  "printBroken tty n =
     colorPrintf tty TC_red_bold ''?? '' @ colorPrintf tty TC_red (node_path n @ '' '') @ ''(corrupted)'' @ [LF]"

definition runIntegrityCheck :: "nb_env \<Rightarrow> metadata \<Rightarrow> string \<Rightarrow> nb_state \<Rightarrow> nb_outcome" where
  "runIntegrityCheck env md repo s =
     (let tty = env_stdout_tty env
      in orDie (if tty then bindE (printIntegrityProgress tty False 0 100) (\<lambda>line. Inr ([LF] @ line)) else Inr []) s (\<lambda>start.
         orDie (checkIntegrity (env_os env) (env_siphash env) (env_garbage env) (env_rands env) md repo) s (\<lambda>result.
         orDie (foldE (integrityProgressCallback env) (ic_calls result) (0, 0, 0, [])) s
           (\<lambda>(bytes_processed, last_time, readings, progress).
         orDie (printIntegrityProgress tty True bytes_processed bytes_processed) s (\<lambda>finish.
           let broken_nodes = ic_broken result;
               s = put_out (start @ progress @ finish @ ''Status of repository: '' @
                     (if broken_nodes = [] then colorPrintf tty TC_green_bold (''Healthy'' @ [LF])
                      else colorPrintf tty TC_red_bold (''Incomplete'' @ [LF, LF])) @
                     concat (map (printBroken tty) broken_nodes) @ (if broken_nodes \<noteq> [] then [LF] else [])) s
           in if broken_nodes \<noteq> [] then
                Ended (Died (Die (''found '' @ dec (length broken_nodes) @ '' item'' @
                  (if length broken_nodes = 1 then [] else ''s'') @ '' with corrupted backup history''))) s
              else Ended Exit_success s)))))"

section \<open>The lock\<close>

text \<open>
  Opening the lockfile creates it if there is none. It is given up when the region of \<open>main()\<close> is released,
  at the end of the program, also when it dies; only the holder of the lock removes the file then.
\<close>

definition openLockfile :: "open_outcome \<Rightarrow> string \<Rightarrow> disk \<Rightarrow> disk" where
  "openLockfile opened file_path d =
     (if opened = Open_ok \<and> files d file_path = None
      then d\<lparr>files := (files d)(file_path \<mapsto> \<lparr>file_data = [], synced = False\<rparr>)\<rparr> else d)"

definition releaseLock :: "lock_outcome \<Rightarrow> string \<Rightarrow> disk \<Rightarrow> disk" where
  "releaseLock lock file_path d =
     (case lock of
        Not_attached \<Rightarrow> d
      | Attached is_locked \<Rightarrow>
          if Remove_lockfile \<in> set (cleanupLockfile is_locked) then d\<lparr>files := (files d)(file_path := None)\<rparr> else d)"

definition at_exit :: "(disk \<Rightarrow> disk) \<Rightarrow> nb_outcome \<Rightarrow> nb_outcome" where
  "at_exit cleanup r =
     (case r of Ended e s \<Rightarrow> Ended e (s\<lparr>nb_disk := cleanup (nb_disk s)\<rparr>) | Interrupted e \<Rightarrow> Interrupted e)"

text \<open>The rest of the program, under the lock.\<close>

definition with_lock :: "nb_env \<Rightarrow> lock_hint \<Rightarrow> string \<Rightarrow> nb_state \<Rightarrow> (nb_state \<Rightarrow> nb_outcome) \<Rightarrow> nb_outcome" where
  "with_lock env lock_hint repo_dir s f =
     (let file_path = append_path repo_dir ''lockfile'';
          s = s\<lparr>nb_disk := openLockfile (fst (env_lock env)) file_path (nb_disk s)\<rparr>
      in case repoLock lock_hint (fst (env_lock env)) (snd (env_lock env)) file_path of
           Inl e \<Rightarrow> at_exit (releaseLock (Attached False) file_path) (Ended (Died e) s)
         | Inr lock \<Rightarrow> at_exit (releaseLock lock file_path) (f s))"

section \<open>Backing up\<close>

definition loadMetadata :: "nb_env \<Rightarrow> string \<Rightarrow> metadata result" where
  "loadMetadata env metadata_path =
     bindE (sGetFilesContent (env_os env) metadata_path) (metadataLoad (env_host env) metadata_path)"

text \<open>The bytes of the metadata go through a writer to their place in the repository.\<close>

definition storeMetadata :: "nb_env \<Rightarrow> metadata \<Rightarrow> string \<Rightarrow> string \<Rightarrow> string \<Rightarrow> disk \<Rightarrow> (metadata \<times> disk) result" where
  "storeMetadata env md repo tmp metadata_path d =
     bindE (metadataWrite (env_host env) md) (\<lambda>(bytes, md).
       case repoWriterOpenRaw repo tmp ''metadata'' metadata_path of (writer, ops) \<Rightarrow>
         let d = apply_ops (repoWriterWrite bytes writer) (apply_ops ops d)
         in bindE (repoWriterClose (fst (env_buffer env)) (snd (env_buffer env)) writer d) (\<lambda>ops.
              Inr (md, apply_ops ops d)))"

definition printAllStats :: "bool \<Rightarrow> change_summary \<Rightarrow> string" where
  "printAllStats tty changes =
     (let p = (False, []);
          p = (if affected_items_count (new_items changes) > 0
               then printStats tty ''New'' TC_green_bold (new_items changes) p else p);
          p = (if affected_items_count (removed_items changes) > 0
               then printStats tty ''Removed'' TC_red_bold (removed_items changes) p else p);
          p = (if affected_items_count (lost_items changes) > 0
               then printStats tty ''Lost'' TC_blue_bold (lost_items changes) p else p)
      in [LF] @ snd p @ (if fst p then [LF, LF] else []))"

text \<open>Waiting for the answer of the user.\<close>

definition withConsent :: "nb_env \<Rightarrow> string \<Rightarrow> nb_state \<Rightarrow> (nb_state \<Rightarrow> nb_outcome) \<Rightarrow> nb_outcome" where
  "withConsent env question s f =
     orDie (ensureUserConsent (os_memory (env_os env)) (env_stdin_tty env) question (nb_input s)) s
       (\<lambda>(consent, rest, out).
         let s = put_out out (s\<lparr>nb_input := rest\<rparr>)
         in if consent then f s else Ended Exit_failure s)"

definition finishAll :: "nb_env \<Rightarrow> metadata \<Rightarrow> string \<Rightarrow> nb_state \<Rightarrow> nb_outcome" where
  "finishAll env md repo_arg s =
     (let repo_dir = strip_slashes repo_arg;
          metadata_path = append_path repo_dir ''metadata'';
          tmp_file_path = append_path repo_dir ''tmp-file''
      in changing (finishBackup (env_os env) (env_buffer env) repo_arg tmp_file_path (env_now env) md (nb_disk s)) (\<lambda>(md, d).
         changing (storeMetadata env md repo_arg tmp_file_path metadata_path d) (\<lambda>(md, d).
           runGC env md repo_arg True (s\<lparr>nb_disk := d\<rparr>))))"

definition backupChanges :: "nb_env \<Rightarrow> metadata \<Rightarrow> search_tree \<Rightarrow> string \<Rightarrow> nb_state \<Rightarrow> nb_outcome" where
  "backupChanges env md tree repo_arg s =
     orDie (initiateBackup (env_fuel env) (env_os env) md tree) s (\<lambda>(md, nodes, ignore).
     orDie (printMetadataChanges (env_os env) (env_stdout_tty env) md (summarize_expressions tree)) s
       (\<lambda>(changes, summarize, out).
     orDie (printSearchTreeInfos (env_stderr_tty env)
         \<lparr>tree_nodes = nodes, ignore_expressions = ignore, summarize_expressions = summarize\<rparr>) (put_out out s) (\<lambda>warnings.
       let s = put_out out (s\<lparr>nb_err := nb_err s @ warnings\<rparr>)
       in if containsChanges changes then
            withConsent env ''proceed?'' (put_out (printAllStats (env_stdout_tty env) changes) s) (finishAll env md repo_arg)
          else Ended Exit_success s)))"

definition backup_command :: "nb_env \<Rightarrow> string \<Rightarrow> nb_state \<Rightarrow> nb_outcome" where
  "backup_command env repo_arg s =
     (let sys = env_os env;
          repo_dir = strip_slashes repo_arg;
          config_path = append_path repo_dir ''config'';
          metadata_path = append_path repo_dir ''metadata''
      in orDie (sPathExists sys config_path) s (\<lambda>config_exists.
         if \<not> config_exists then Ended (Died (Die (''repository has no config file: '' @ repo_arg))) s
         else
           with_lock env RLH_readwrite repo_dir s (\<lambda>s.
           orDie (searchTreeLoad (env_regcomp env) (sGetFilesContent sys) config_path) s (\<lambda>tree.
           orDie (sPathExists sys metadata_path) s (\<lambda>metadata_exists.
           orDie (if metadata_exists then loadMetadata env metadata_path else Inr metadataNew) s (\<lambda>md.
             backupChanges env md tree repo_arg s))))))"

section \<open>Restoring\<close>

definition metadataLoadFromRepo ::
  "nb_env \<Rightarrow> string \<Rightarrow> lock_hint \<Rightarrow> nb_state \<Rightarrow> (metadata \<Rightarrow> nb_state \<Rightarrow> nb_outcome) \<Rightarrow> nb_outcome" where
  "metadataLoadFromRepo env repo_arg lock_hint s f =
     (let repo_dir = strip_slashes repo_arg; metadata_path = append_path repo_dir ''metadata''
      in orDie (sPathExists (env_os env) metadata_path) s (\<lambda>exists.
         if \<not> exists then Ended (Died (Die (''repository has no metadata: '' @ repo_arg))) s
         else with_lock env lock_hint repo_dir s (\<lambda>s. orDie (loadMetadata env metadata_path) s (\<lambda>md. f md s))))"

definition buildFullPath :: "nb_env \<Rightarrow> string \<Rightarrow> string result" where
  "buildFullPath env path =
     (if take 1 path = ''/'' then Inr path
      else bindE (sGetCurrentDir (os_memory (env_os env)) (env_cwd env)) (\<lambda>cwd.
        Inr (append_path (strip_slashes cwd) path)))"

definition restore_command :: "nb_env \<Rightarrow> string \<Rightarrow> nat \<Rightarrow> string \<Rightarrow> nb_state \<Rightarrow> nb_outcome" where
  "restore_command env repo_arg i path s =
     (let sys = reading (nb_files s) (env_os env)
      in metadataLoadFromRepo env repo_arg RLH_readonly s (\<lambda>md s.
         orDie (buildFullPath env path) s (\<lambda>full_path.
         orDie (initiateRestore sys md (word_of_nat i) (strip_slashes full_path)) s (\<lambda>md.
         orDie (printMetadataChanges sys (env_stdout_tty env) md []) s (\<lambda>(changes, expressions, out).
           if containsChanges changes then
             withConsent env ''restore?'' (put_out (out @ [LF]) s) (\<lambda>s.
               let rc = \<lparr>rc_process = env_process env, rc_buffer = env_buffer env, rc_repo = repo_arg, rc_disk = nb_disk s\<rparr>
               in changing (finishRestore rc md (word_of_nat i) (nb_files s)) (\<lambda>fs.
                 Ended Exit_success (s\<lparr>nb_files := fs\<rparr>)))
           else Ended Exit_success (put_out out s))))))"

section \<open>The arguments\<close>

text \<open>The arguments of the program without its name.\<close>

definition nb_main :: "nb_env \<Rightarrow> string list \<Rightarrow> nb_state \<Rightarrow> nb_outcome" where
  "nb_main env args s =
     (case args of
        [] \<Rightarrow> Ended (Died (Die ''no repository specified'')) s
      | repo # rest \<Rightarrow>
          orDie (sPathExists (env_os env) repo) s (\<lambda>exists.
          if \<not> exists then Ended (Died (Die (''repository doesn't exist: '' @ repo))) s
          else orDie (sStat (env_os env) repo) s (\<lambda>details.
          if st_type details \<noteq> Directory_file then Ended (Died (Die (''not a directory: '' @ repo))) s
          else
            case rest of
              [] \<Rightarrow> backup_command env repo s
            | cmd # more_args \<Rightarrow>
                if cmd = ''gc'' then
                  if more_args \<noteq> [] then Ended (Died (Die ''too many arguments for gc command'')) s
                  else metadataLoadFromRepo env repo RLH_readwrite s (\<lambda>md. runGC env md repo False)
                else if cmd = ''integrity'' then
                  if more_args \<noteq> [] then Ended (Died (Die ''too many arguments for integrity command'')) s
                  else metadataLoadFromRepo env repo RLH_readonly s (\<lambda>md. runIntegrityCheck env md repo)
                else
                  orDie (sRegexCompile (env_regcomp env) ''^[0-9]+$'' ''src/nb.c'' 406) s (\<lambda>_.
                  if os_regexec (env_os env) ''^[0-9]+$'' cmd then
                    if length more_args > 1 then Ended (Died (Die ''too many paths to restore'')) s
                    else orDie (sStringToSize cmd) s (\<lambda>i.
                         restore_command env repo i (if more_args = [] then ''/'' else hd more_args) s)
                  else Ended (Died (Die ''invalid arguments'')) s))))"

section \<open>What needs the consent of the user\<close>

text \<open>
  What a run may leave of the lockfile: nothing changes if it cannot be opened, a holder of the lock removes
  it, and who does not get the lock leaves it, or a new and empty one.
\<close>

definition lockfile_left :: "nb_env \<Rightarrow> stored_file option \<Rightarrow> stored_file option \<Rightarrow> bool" where
  "lockfile_left env before after \<longleftrightarrow> after = before \<or> fst (env_lock env) = Open_ok \<and>
     (if snd (env_lock env) = Lockf_ok then after = None
      else before = None \<and> after = Some \<lparr>file_data = [], synced = False\<rparr>)"

definition only_lockfile :: "nb_env \<Rightarrow> string \<Rightarrow> nb_state \<Rightarrow> nb_state \<Rightarrow> bool" where
  "only_lockfile env repo s s' \<longleftrightarrow>
     (let lockfile = append_path (strip_slashes repo) ''lockfile''
      in nb_files s' = nb_files s \<and> dirs (nb_disk s') = dirs (nb_disk s) \<and>
         (\<forall>p. p \<noteq> lockfile \<longrightarrow> files (nb_disk s') p = files (nb_disk s) p) \<and>
         lockfile_left env (files (nb_disk s) lockfile) (files (nb_disk s') lockfile))"

text \<open>Under the lock: the files of the repository and of the user are as before, unless something allows a change.\<close>

definition same_files :: "nb_state \<Rightarrow> nb_state \<Rightarrow> bool" where
  "same_files s s' \<longleftrightarrow> nb_disk s' = nb_disk s \<and> nb_files s' = nb_files s"

definition unless :: "bool \<Rightarrow> nb_state \<Rightarrow> nb_state \<Rightarrow> bool" where
  "unless allowed s s' \<longleftrightarrow> same_files s s' \<or> allowed"

definition agreed :: "string \<Rightarrow> bool" where
  "agreed input \<longleftrightarrow> ''y'' \<in> set (input_lines input) \<or> ''yes'' \<in> set (input_lines input)"

definition outcome_ok :: "(nb_state \<Rightarrow> bool) \<Rightarrow> bool \<Rightarrow> nb_outcome \<Rightarrow> bool" where
  "outcome_ok P interruptible r \<longleftrightarrow> (case r of Ended e s \<Rightarrow> P s | Interrupted e \<Rightarrow> interruptible)"

lemma outcome_ok_simps [simp]:
  "outcome_ok P b (Ended e s) \<longleftrightarrow> P s"
  "outcome_ok P b (Interrupted err) \<longleftrightarrow> b"
  by (simp_all add: outcome_ok_def)

lemma orDie_ok: "P s \<Longrightarrow> (\<And>x. r = Inr x \<Longrightarrow> outcome_ok P b (f x)) \<Longrightarrow> outcome_ok P b (orDie r s f)"
  by (cases r) (simp_all add: orDie_def)

lemma changing_ok: "b \<Longrightarrow> (\<And>x. r = Inr x \<Longrightarrow> outcome_ok P b (f x)) \<Longrightarrow> outcome_ok P b (changing r f)"
  by (cases r) (simp_all add: changing_def)

lemma unless_simps [simp]:
  "unless a s s"
  "unless True s s'"
  "unless a s (put_out out s') \<longleftrightarrow> unless a s s'"
  "unless a s (s'\<lparr>nb_input := i\<rparr>) \<longleftrightarrow> unless a s s'"
  "unless a s (s'\<lparr>nb_err := e\<rparr>) \<longleftrightarrow> unless a s s'"
  "nb_input (put_out out s') = nb_input s'"
  by (simp_all add: unless_def same_files_def put_out_def)

lemma allowed_ok: "a \<Longrightarrow> outcome_ok (unless a s) a r"
  by (cases r) simp_all

lemma withConsent_ok:
  assumes "P s" "\<And>out rest. P (put_out out (s\<lparr>nb_input := rest\<rparr>))"
    and "\<And>out rest. agreed (nb_input s) \<Longrightarrow> outcome_ok P b (f (put_out out (s\<lparr>nb_input := rest\<rparr>)))"
  shows "outcome_ok P b (withConsent env question s f)"
  unfolding withConsent_def
proof (rule orDie_ok [where P = P, OF assms(1)])
  fix x assume "ensureUserConsent (os_memory (env_os env)) (env_stdin_tty env) question (nb_input s) = Inr x"
  then show "outcome_ok P b (case x of (consent, rest, out) \<Rightarrow>
      let s = put_out out (s\<lparr>nb_input := rest\<rparr>) in if consent then f s else Ended Exit_failure s)"
    using assms(2,3) consent_line by (cases x) (auto simp: Let_def agreed_def split: if_splits)
qed

lemma backupChanges_ok: "outcome_ok (unless (agreed (nb_input s)) s) (agreed (nb_input s)) (backupChanges env md tree repo s)"
  unfolding backupChanges_def
  by (auto simp: Let_def allowed_ok intro!: orDie_ok withConsent_ok split: prod.split)

lemma runIntegrityCheck_ok: "outcome_ok (unless a s) a (runIntegrityCheck env md repo s)"
  unfolding runIntegrityCheck_def
  by (auto simp: Let_def intro!: orDie_ok split: prod.split)

text \<open>Around the lock, only the lockfile changes.\<close>

definition nb_ok :: "nb_env \<Rightarrow> string \<Rightarrow> nb_state \<Rightarrow> bool \<Rightarrow> nb_outcome \<Rightarrow> bool" where
  "nb_ok env repo s a r \<longleftrightarrow> outcome_ok (\<lambda>s'. only_lockfile env repo s s' \<or> a) a r"

lemma only_lockfile_refl [simp]: "only_lockfile env repo s s"
  by (simp add: only_lockfile_def lockfile_left_def)

lemma nb_ok_same [simp]: "nb_ok env repo s a (Ended e s)"
  by (simp add: nb_ok_def)

lemma nb_ok_orDie: "(\<And>x. r = Inr x \<Longrightarrow> nb_ok env repo s a (f x)) \<Longrightarrow> nb_ok env repo s a (orDie r s f)"
  unfolding nb_ok_def by (intro orDie_ok) simp_all

lemma with_lock_ok:
  assumes "\<And>s1. nb_input s1 = nb_input s \<Longrightarrow> outcome_ok (unless a s1) a (f s1)"
  shows "nb_ok env repo s a (with_lock env lock_hint (strip_slashes repo) s f)"
proof -
  let ?path = "append_path (strip_slashes repo) ''lockfile''"
  let ?s = "s\<lparr>nb_disk := openLockfile (fst (env_lock env)) ?path (nb_disk s)\<rparr>"
  have left: "only_lockfile env repo s (?s\<lparr>nb_disk := releaseLock lock ?path (nb_disk ?s)\<rparr>)"
    if "repoLock lock_hint (fst (env_lock env)) (snd (env_lock env)) ?path = Inr lock" for lock
    using that by (auto simp: only_lockfile_def lockfile_left_def openLockfile_def releaseLock_def cleanupLockfile_def
        repoLock_def split: if_splits)
  have died: "only_lockfile env repo s (?s\<lparr>nb_disk := releaseLock (Attached False) ?path (nb_disk ?s)\<rparr>)"
    if "repoLock lock_hint (fst (env_lock env)) (snd (env_lock env)) ?path = Inl e" for e
    using that by (auto simp: only_lockfile_def lockfile_left_def openLockfile_def releaseLock_def cleanupLockfile_def
        repoLock_def split: if_splits)
  have same: "only_lockfile env repo s (s'\<lparr>nb_disk := releaseLock lock ?path (nb_disk s')\<rparr>)"
    if "repoLock lock_hint (fst (env_lock env)) (snd (env_lock env)) ?path = Inr lock" "same_files ?s s'" for lock s'
    using left [OF that(1)] that(2) by (simp add: only_lockfile_def same_files_def)
  have ok: "outcome_ok (unless a ?s) a (f ?s)" by (rule assms) simp
  show ?thesis
  proof (cases "repoLock lock_hint (fst (env_lock env)) (snd (env_lock env)) ?path")
    case (Inl e)
    then show ?thesis using died [OF Inl] by (simp add: with_lock_def nb_ok_def at_exit_def Let_def)
  next
    case (Inr lock)
    then show ?thesis using same [OF Inr] ok
      by (cases "f ?s") (auto simp: with_lock_def nb_ok_def at_exit_def Let_def unless_def)
  qed
qed

lemma metadataLoadFromRepo_ok:
  assumes "\<And>md s1. nb_input s1 = nb_input s \<Longrightarrow> outcome_ok (unless a s1) a (f md s1)"
  shows "nb_ok env repo s a (metadataLoadFromRepo env repo lock_hint s f)"
  unfolding metadataLoadFromRepo_def
  by (auto simp: Let_def assms intro!: nb_ok_orDie with_lock_ok orDie_ok)

lemma backup_command_ok: "nb_ok env repo s (agreed (nb_input s)) (backup_command env repo s)"
proof -
  have "outcome_ok (unless (agreed (nb_input s)) s1) (agreed (nb_input s)) (backupChanges env md tree repo s1)"
    if "nb_input s1 = nb_input s" for md tree s1
    using backupChanges_ok [of s1] that by simp
  then show ?thesis unfolding backup_command_def
    by (auto simp: Let_def intro!: nb_ok_orDie with_lock_ok orDie_ok)
qed

lemma restore_command_ok: "nb_ok env repo s (agreed (nb_input s)) (restore_command env repo i path s)"
  unfolding restore_command_def
  by (auto simp: Let_def intro!: metadataLoadFromRepo_ok orDie_ok withConsent_ok changing_ok split: prod.split)


text \<open>A repository with a file that nothing refers to, and its listing after the backup of a file of 30 bytes.\<close>

definition example_listing :: "fs_entry list" where
  "example_listing =
     (let file = \<lparr>st_type = Regular_file, st_mode = 0, st_uid = 0, st_gid = 0, st_mtime = 0, st_size = 3, st_blksize = 8\<rparr>;
          dir = file\<lparr>st_type := Directory_file\<rparr>
      in [File_entry ''left'' file, File_entry ''metadata'' file,
          Dir_entry ''7'' dir [Dir_entry ''87'' dir [File_entry (''8'' @ concat (replicate 18 ''78'') @ ''x1ex0'') file]]])"

definition left_disk :: disk where
  "left_disk = finish_disk\<lparr>files := [''repo/left'' \<mapsto> \<lparr>file_data = ''abc'', synced = True\<rparr>]\<rparr>"

definition main_env_example :: nb_env where
  "main_env_example = \<lparr>env_os = finish_os, env_regcomp = (\<lambda>_. None), env_host = Little_endian,
     env_stdin_tty = False, env_stdout_tty = False, env_stderr_tty = False, env_lock = (Open_ok, Lockf_ok), env_now = 9,
     env_clock = (\<lambda>_. 0), env_cwd = None, env_fuel = 9, env_siphash = (\<lambda>_ _. 0), env_rands = ([], []), env_garbage = [],
     env_buffer = ([], []), env_process = \<lparr>pr_now = 50, pr_uid = 0, pr_gid = 0, pr_file_mode = 420, pr_dir_mode = 493,
     pr_link_mode = 511, pr_keeps_set_id = True\<rparr>, env_listing = (\<lambda>_. example_listing), env_removable = (\<lambda>_. True)\<rparr>"

definition main_state_example :: nb_state where
  "main_state_example = \<lparr>nb_disk = left_disk, nb_files = [], nb_input = ''maybe'' @ [LF] @ ''no'' @ [LF],
     nb_out = [], nb_err = []\<rparr>"


end
