(* ===== verification/Backup_Covers.thy ===== *)
theory Backup_Covers
  imports Backup_Initiate Backup_Finish
begin

text \<open>
  Between the two halves of a backup: \<open>initiateBackup()\<close> marks every node whose newest contents are not in the
  repository, so that \<open>finishBackup()\<close> will store them. What is in the repository is a predicate \<open>S\<close>
  on file states that depends on the hash, the size and the slot only and holds for empty files.
\<close>

section \<open>States that are stored and states that will be\<close>

definition stored_pred :: "(file_info \<Rightarrow> bool) \<Rightarrow> bool" where
  "stored_pred S \<longleftrightarrow> (\<forall>info. file_size info = 0 \<longrightarrow> S info) \<and>
     (\<forall>info info'. S info \<longrightarrow> file_hash info' = file_hash info \<longrightarrow> file_size info' = file_size info \<longrightarrow>
        slot info' = slot info \<longrightarrow> S info')"

definition state_stored :: "(file_info \<Rightarrow> bool) \<Rightarrow> path_state \<Rightarrow> bool" where
  "state_stored S st \<longleftrightarrow>
     (case st of
        PST_regular_file _ _ info \<Rightarrow> S info
      | PST_symlink _ _ target \<Rightarrow> NUL \<notin> set target \<and> length target < SIZE_MAX
      | _ \<Rightarrow> True)"

lemma state_stored_simps [simp]:
  "state_stored S (PST_regular_file uid gid info) = S info"
  "state_stored S (PST_directory uid gid dir) = True"
  "state_stored S PST_non_existing = True"
  by (simp_all add: state_stored_def)

abbreviation points_stored :: "(file_info \<Rightarrow> bool) \<Rightarrow> path_history list \<Rightarrow> bool" where
  "points_stored S hist \<equiv> list_all (\<lambda>p. state_stored S (state p)) hist"

text \<open>The points of a node before its new file is stored.\<close>

definition old_points :: "path_node \<Rightarrow> path_history list" where
  "old_points n = (if new_file n = None then node_history n else tl (node_history n))"

definition head_covered :: "(file_info \<Rightarrow> bool) \<Rightarrow> path_node \<Rightarrow> bool" where
  "head_covered S n \<longleftrightarrow> node_history n \<noteq> [] \<and> (live (node_hint n) \<longrightarrow> points_stored S (old_points n))"

definition quiet :: "hint \<Rightarrow> bool" where
  "quiet h \<longleftrightarrow> backupHintNoPol h = BH_none"

text \<open>Nodes that the backup has not come to: nothing is new in them.\<close>

fun idle :: "(file_info \<Rightarrow> bool) \<Rightarrow> path_node list \<Rightarrow> bool" where
  "idle S [] \<longleftrightarrow> True"
| "idle S (PathNode path h pol hist subs # nodes) \<longleftrightarrow>
     hist \<noteq> [] \<and> (live h \<longrightarrow> quiet h \<and> points_stored S hist) \<and> idle S subs \<and> idle S nodes"

fun covered :: "(file_info \<Rightarrow> bool) \<Rightarrow> path_node list \<Rightarrow> bool" where
  "covered S [] \<longleftrightarrow> True"
| "covered S (PathNode path h pol hist subs # nodes) \<longleftrightarrow>
     head_covered S (PathNode path h pol hist subs) \<and> (h = BH_none \<longrightarrow> idle S subs) \<and> covered S subs \<and> covered S nodes"

lemma idle_append [simp]: "idle S (xs @ ys) \<longleftrightarrow> idle S xs \<and> idle S ys"
  by (induction S xs rule: idle.induct) auto

lemma covered_append [simp]: "covered S (xs @ ys) \<longleftrightarrow> covered S xs \<and> covered S ys"
  by (induction S xs rule: covered.induct) auto

lemma covered_Cons: "covered S (n # ns) \<longleftrightarrow> head_covered S n \<and> (node_hint n = BH_none \<longrightarrow> idle S (node_subnodes n)) \<and>
    covered S (node_subnodes n) \<and> covered S ns"
  by (cases n) simp

lemma idle_Cons: "idle S (n # ns) \<longleftrightarrow> node_history n \<noteq> [] \<and>
    (live (node_hint n) \<longrightarrow> quiet (node_hint n) \<and> points_stored S (node_history n)) \<and> idle S (node_subnodes n) \<and> idle S ns"
  by (cases n) simp

lemma points_old: "points_stored S (node_history n) \<Longrightarrow> points_stored S (old_points n)"
  by (cases "node_history n") (auto simp: old_points_def)

lemma quiet_none [simp]: "quiet BH_none"
  by (simp add: quiet_def backupHintNoPol_def BH_none_def)

lemma quiet_live: "quiet h \<Longrightarrow> live h"
  by (simp add: quiet_def live_def BH_defs)

lemma quiet_policy [simp]: "quiet (backupHintSet h BH_policy_changed) = quiet h" "quiet (backupHintSet h BH_loses_history) = quiet h"
  by (simp_all add: quiet_def)

lemma live_policy [simp]: "live (backupHintSet h BH_policy_changed) = live h" "live (backupHintSet h BH_loses_history) = live h"
  by (simp_all add: live_def)

lemma live_wiped [simp]: "\<not> live (backupHintSet h BH_not_part_of_repository)"
  by (simp add: live_def)

lemma not_none [simp]: "backupHintSet h BH_not_part_of_repository \<noteq> BH_none" "backupHintSet h BH_unchanged \<noteq> BH_none"
    "backupHintSet h BH_removed \<noteq> BH_none"
  using live_wiped [of h] quiet_live [OF quiet_none] by (metis, simp_all add: backupHintSet_def BH_defs or_eq_0_iff)

lemma no_needs: "quiet h \<Longrightarrow> \<not> needs_adding h info"
proof
  assume "quiet h" "needs_adding h info"
  then have "hint_has h BH_content_changed" by (auto simp: quiet_def needs_adding_def BH_defs)
  then have "h AND BH_content_changed \<noteq> 0" by (simp add: hint_has_def)
  moreover have "h AND BH_content_changed = (h AND 0x1FF) AND BH_content_changed"
    by (simp add: BH_defs and.assoc)
  ultimately show False using \<open>quiet h\<close> by (simp add: quiet_def backupHintNoPol_def BH_none_def)
qed

lemma quiet_old: "quiet (node_hint n) \<Longrightarrow> old_points n = node_history n"
  by (auto simp: old_points_def new_file_def no_needs split: list.split path_state.split)

lemma idle_covered: "idle S ns \<Longrightarrow> covered S ns"
  by (induction S ns rule: covered.induct) (auto simp: head_covered_def intro: points_old)

lemma wiped_head: "node_history n \<noteq> [] \<Longrightarrow> \<not> live (node_hint n) \<Longrightarrow> head_covered S n"
  by (simp add: head_covered_def)

section \<open>Nodes that leave\<close>

lemma prepare_head: "head_covered S n \<Longrightarrow> prepareNodeForWiping md n = (md', n') \<Longrightarrow>
    head_covered S n' \<and> node_subnodes n' = node_subnodes n \<and> (node_hint n' = BH_none \<longrightarrow> node_hint n = BH_none)"
  by (auto simp: prepareNodeForWiping_def head_covered_def split: if_splits)

lemma covered_wipe:
  "covered S [n] \<Longrightarrow> covered S [snd (prepareNodeForWipingRecursively md n)]"
  "covered S ns \<Longrightarrow> covered S (snd (wipeNodes md ns))"
proof (induction md n and md ns rule: prepareNodeForWipingRecursively_wipeNodes.induct)
  case (1 md path h pol hist subs)
  obtain md1 n1 where P: "prepareNodeForWiping md (PathNode path h pol hist subs) = (md1, n1)" by fastforce
  obtain md2 subs2 where W: "wipeNodes md1 subs = (md2, subs2)" by fastforce
  have "live (node_hint n1) = False" "node_history n1 = hist"
    using P by (auto simp: prepareNodeForWiping_def live_def split: if_splits)
  moreover have "covered S subs2" using 1 P W by simp
  moreover have "node_hint n1 \<noteq> BH_none" using calculation(1) quiet_live [OF quiet_none] by auto
  ultimately show ?case using 1 P W by (cases n1) (simp add: covered_Cons head_covered_def)
next
  case (3 md n ns)
  obtain md1 n1 md2 ns2 where W: "prepareNodeForWipingRecursively md n = (md1, n1)" "wipeNodes md1 ns = (md2, ns2)"
    by fastforce
  with 3 have "covered S [n1]" "covered S ns2" by (simp_all add: covered_Cons)
  with W show ?case by (simp add: covered_Cons)
qed simp

lemma idle_wipe:
  "idle S [n] \<Longrightarrow> idle S [snd (prepareNodeForWipingRecursively md n)]"
  "idle S ns \<Longrightarrow> idle S (snd (wipeNodes md ns))"
proof (induction md n and md ns rule: prepareNodeForWipingRecursively_wipeNodes.induct)
  case (1 md path h pol hist subs)
  obtain md1 n1 where P: "prepareNodeForWiping md (PathNode path h pol hist subs) = (md1, n1)" by fastforce
  obtain md2 subs2 where W: "wipeNodes md1 subs = (md2, subs2)" by fastforce
  have "live (node_hint n1) = False" "node_history n1 = hist"
    using P by (auto simp: prepareNodeForWiping_def live_def split: if_splits)
  moreover have "idle S subs2" using 1 P W by simp
  ultimately show ?case using 1 P W by (cases n1) simp
next
  case (3 md n ns)
  obtain md1 n1 md2 ns2 where W: "prepareNodeForWipingRecursively md n = (md1, n1)" "wipeNodes md1 ns = (md2, ns2)"
    by fastforce
  with 3 have "idle S [n1]" "idle S ns2" by (simp_all add: idle_Cons)
  with W show ?case by (simp add: idle_Cons)
qed simp

lemma covered_mark:
  "idle S [n] \<Longrightarrow> markAsRemovedRecursively md n ext = Inr (md', n') \<Longrightarrow> covered S [n']"
  "idle S ns \<Longrightarrow> markNodesAsRemoved md ns ext = Inr (md', ns') \<Longrightarrow> covered S ns'"
proof (induction md n ext and md ns ext arbitrary: md' n' and md' ns' rule: markAsRemovedRecursively_markNodesAsRemoved.induct)
  case (1 md path h pol hist subs ext)
  show ?case
  proof (cases "live h")
    case False
    then have "n' = PathNode path h pol hist subs" using 1(5) by (simp add: live_def)
    with 1(4) idle_covered [of S "[n']"] show ?thesis by simp
  next
    case True
    then have alive: "backupHintNoPol h \<noteq> BH_not_part_of_repository" by (simp add: live_def)
    from True 1(4) obtain point older where hist: "hist = point # older" "points_stored S hist" "idle S subs"
      by (cases hist) auto
    have old: "points_stored S (old_points (PathNode path h' pol hist' subs'))"
      if "points_stored S hist'" for h' hist' subs'
      using points_old [of S "PathNode path h' pol hist' subs'"] that by simp
    show ?thesis
      using 1(5) hist alive 1(1-3) [OF alive hist(1)] old
      by (auto simp: bindE_eq_Inr head_covered_def split: if_splits)
  qed
next
  case (3 md n ns ext)
  from 3(4) obtain md1 n1 ns1 where "markAsRemovedRecursively md n ext = Inr (md1, n1)"
    "markNodesAsRemoved md1 ns ext = Inr (md', ns1)" "ns' = n1 # ns1"
    by (auto simp: bindE_eq_Inr)
  moreover have "idle S [n]" "idle S ns" using 3(3) by (simp_all add: idle_Cons)
  ultimately have "covered S [n1]" "covered S ns1" "ns' = n1 # ns1" using 3(1,2) by auto
  then show ?case by (simp add: covered_Cons)
qed simp

text \<open>A change of policy leaves a node idle, and its subnodes too.\<close>

lemma idle_lose:
  assumes "loseHistory md n = Inr (md', n')" "idle S [n]"
  shows "idle S [n'] \<and> (quiet (node_hint n) \<longrightarrow> quiet (node_hint n'))"
proof (cases n)
  case (PathNode path h pol hist subs)
  have W: "wipeNodes md subs = (md', ns) \<Longrightarrow> idle S ns" for md md' ns
    using idle_wipe(2) [of S subs md] assms(2) PathNode by simp
  obtain point older where hist: "hist = point # older" using assms(2) PathNode by (cases hist) auto
  show ?thesis using assms PathNode hist
    by (cases older) (auto simp: loseHistory_def Let_def split: if_splits prod.splits dest: W)
qed

lemma idle_policy:
  assumes "handlePolicyChanges md n policy = Inr (md', n')" "idle S [n]"
  shows "idle S [n'] \<and> (quiet (node_hint n) \<longrightarrow> quiet (node_hint n'))"
proof (cases "node_policy n = policy")
  case False
  define n1 where "n1 = with_hint (backupHintSet (node_hint n) BH_policy_changed) n"
  have n1: "idle S [n1]" "quiet (node_hint n1) = quiet (node_hint n)"
    using assms(2) by (cases n; simp add: n1_def)+
  from assms(1) False obtain md2 n2 where
    L: "(if node_policy n1 = BPOL_track then loseHistory md n1 else Inr (md, n1)) = Inr (md2, n2)" and
    N: "(case n2 of PathNode path h _ hist subs \<Rightarrow> Inr (md2, PathNode path h policy hist subs)) =
      (Inr (md', n') :: (metadata \<times> path_node) result)"
    by (auto simp: handlePolicyChanges_def bindE_eq_Inr Let_def n1_def [symmetric])
  from L n1 idle_lose [of md n1 md2 n2 S] have "idle S [n2] \<and> (quiet (node_hint n) \<longrightarrow> quiet (node_hint n2))"
    by (auto split: if_splits)
  with N show ?thesis by (cases n2) auto
qed (use assms in \<open>auto simp: handlePolicyChanges_def\<close>)

lemma covered_removed:
  assumes "handleRemovedPath md n policy = Inr (md', n')" "idle S [n]"
  shows "covered S [n']"
proof -
  from assms(1) obtain md1 n1 where P: "handlePolicyChanges md n policy = Inr (md1, n1)"
    and C: "(md', n') = prepareNodeForWipingRecursively md1 n1 \<or> (md', n') = prepareNodeForWiping md1 n1 \<or>
      markAsRemovedRecursively md1 n1 True = Inr (md', n')"
    by (auto simp: handleRemovedPath_def bindE_eq_Inr split: if_splits list.splits)
  have idle: "idle S [n1]" using idle_policy [OF P assms(2)] by blast
  from C consider "n' = snd (prepareNodeForWipingRecursively md1 n1)" | "n' = snd (prepareNodeForWiping md1 n1)"
    | "markAsRemovedRecursively md1 n1 True = Inr (md', n')" by (metis snd_conv)
  then show ?thesis
  proof cases
    case 1
    then show ?thesis using covered_wipe(1) [OF idle_covered [OF idle]] by simp
  next
    case 2
    then have "node_history n' = node_history n1" "node_subnodes n' = node_subnodes n1" "\<not> live (node_hint n')"
      by (auto simp: prepareNodeForWiping_def live_def)
    moreover from this(3) have "node_hint n' \<noteq> BH_none" using quiet_live [OF quiet_none] by auto
    ultimately show ?thesis using idle idle_covered [OF idle] by (simp add: covered_Cons idle_Cons wiped_head)
  qed (rule covered_mark(1) [OF idle])
qed

lemma covered_idle: "covered S [n] \<Longrightarrow> node_hint n = BH_none \<Longrightarrow> idle S [n]"
  using quiet_old [of n] quiet_live [OF quiet_none] by (auto simp: covered_Cons idle_Cons head_covered_def)

lemma covered_not_found:
  "handleNotFoundSubnodes sys sns ig md m pol ns = Inr (md', ns') \<Longrightarrow> covered S ns \<Longrightarrow> covered S ns'"
proof (induction sys sns ig md m pol ns arbitrary: md' ns' rule: handleNotFoundSubnodes.induct)
  case (2 sys sns ig md m pol n ns)
  from "2.prems"(1) obtain md1 n1 ns1 where R: "handleNotFoundNode sys sns ig md m pol n = Inr (md1, n1)"
    "handleNotFoundSubnodes sys sns ig md1 m pol ns = Inr (md', ns1)" "ns' = n1 # ns1"
    by (auto simp: bindE_eq_Inr)
  have C: "covered S [n]" "covered S ns" using "2.prems"(2) by (simp_all add: covered_Cons)
  have "covered S [n1]"
  proof (cases "node_hint n = BH_none")
    case True
    then have idle: "idle S [n]" by (rule covered_idle [OF C(1)])
    from R(1) True consider policy where "handleRemovedPath md n policy = Inr (md1, n1)"
      | "n1 = snd (prepareNodeForWipingRecursively md n)"
      by (auto simp: handleNotFoundNode_def split: option.splits if_splits)
    then show ?thesis
      using covered_removed idle covered_wipe(1) [OF C(1), of md] by cases auto
  qed (use R(1) C in \<open>simp add: handleNotFoundNode_def\<close>)
  moreover have "covered S ns1" using "2.IH" R(1,2) C(2) by auto
  ultimately show ?case using R(3) by (simp add: covered_Cons)
qed simp

section \<open>Nodes that are found\<close>

text \<open>A state that is new in a node is stored or will be.\<close>

definition state_covered :: "(file_info \<Rightarrow> bool) \<Rightarrow> hint \<Rightarrow> path_state \<Rightarrow> bool" where
  "state_covered S h st \<longleftrightarrow> state_stored S st \<or> (\<exists>uid gid info. st = PST_regular_file uid gid info \<and> needs_adding h info)"

lemma head_covered_new:
  assumes "state_covered S h (state point)" "points_stored S older"
  shows "head_covered S (PathNode path h pol (point # older) subs)"
  using assms by (auto simp: head_covered_def state_covered_def old_points_def new_file_def split: path_state.splits)

lemma stored_empty: "stored_pred S \<Longrightarrow> file_size info = 0 \<Longrightarrow> S info"
  by (simp add: stored_pred_def)

lemma stored_same:
  "stored_pred S \<Longrightarrow> S info \<Longrightarrow> file_hash info' = file_hash info \<Longrightarrow> file_size info' = file_size info \<Longrightarrow>
     slot info' = slot info \<Longrightarrow> S info'"
  unfolding stored_pred_def by blast

lemma target_stored:
  assumes "sSymlinkReadTarget sys a path = Inr target"
  shows "state_stored S (PST_symlink uid gid target)"
proof -
  from assms obtain stats :: file_stat and n where A: "sUint64Add (st_size stats) 1 = Inr n"
    and B: "(case os_readlink sys path n of None \<Rightarrow> Inl (Die path)
      | Some bytes \<Rightarrow> if length bytes \<noteq> unat (st_size stats) then Inl (Symlink_changed path)
          else Inr (view (str (bytes @ [NUL])))) = Inr target"
    by (auto simp: sSymlinkReadTarget_def bindE_eq_Inr split: if_splits)
  from B obtain bytes where R: "length bytes = unat (st_size stats)" "target = view (str (bytes @ [NUL]))"
    by (auto split: option.splits if_splits)
  have "target = takeWhile (\<lambda>c. c \<noteq> NUL) (bytes @ [NUL])"
    unfolding R(2) view_def str_def strlen_def string_view.simps by (rule takeWhile_eq_take [symmetric])
  then have "NUL \<notin> set target" "length target \<le> length bytes"
    using set_takeWhileD [of NUL "\<lambda>c. c \<noteq> NUL" "bytes @ [NUL]"] length_takeWhile_le [of "\<lambda>c. c \<noteq> NUL" bytes]
    by (auto simp: takeWhile_tail)
  then show ?thesis using R(1) A by (simp add: state_stored_def sUint64Add_Inr)
qed

lemma set_state_covered:
  assumes S: "stored_pred S" and "setPathHistoryState sys st result = Inr st'" "st_type (sr_stats result) \<noteq> Other_file"
    and "st_type (sr_stats result) = Regular_file \<Longrightarrow>
      backupHintNoPol h \<in> {BH_added, BH_symlink_to_regular, BH_directory_to_regular}"
  shows "state_covered S h st'"
proof (cases "st_type (sr_stats result)")
  case Regular_file
  with assms(2) obtain uid gid info where st: "st' = PST_regular_file uid gid info"
    by (auto simp: setPathHistoryState_def Let_def)
  show ?thesis
  proof (cases "file_size info = 0")
    case True
    then show ?thesis using stored_empty [OF S] by (simp add: state_covered_def st)
  next
    case False
    then have "needs_adding h info" using assms(4) [OF Regular_file] by (auto simp: needs_adding_def word_gt_0)
    then show ?thesis by (auto simp: state_covered_def st)
  qed
next
  case Symlink_file
  with assms(2) show ?thesis
    by (auto simp: setPathHistoryState_def Let_def bindE_eq_Inr state_covered_def split: if_splits intro: target_stored)
next
  case Directory_file
  with assms(2) show ?thesis by (auto simp: setPathHistoryState_def Let_def state_covered_def)
qed (use assms(3) in simp)

lemma content_flag [simp]:
  "hint_has (backupHintSet h BH_content_changed) BH_content_changed"
  "hint_has (backupHintSet (backupHintSet h BH_content_changed) BH_fresh_hash) BH_content_changed"
proof -
  show "hint_has (backupHintSet h BH_content_changed) BH_content_changed" by (simp add: hint_has_set_flag)
  have "((v AND NOT 0xF) OR 0x100) AND 0x80 = v AND (0x80 :: hint)" for v
    by (simp add: bit.conj_disj_distrib2 and.assoc)
  then have "hint_has (backupHintSet v BH_fresh_hash) BH_content_changed = hint_has v BH_content_changed" for v
    by (simp add: hint_has_def backupHintSet_flag) (simp add: BH_defs)
  then show "hint_has (backupHintSet (backupHintSet h BH_content_changed) BH_fresh_hash) BH_content_changed"
    by (simp add: hint_has_set_flag)
qed

lemma regular_changes_covered:
  assumes S: "stored_pred S" and info: "S info"
    and run: "applyRegularChanges sys path stats (h, info) = Inr (h', info')"
  shows "S info' \<or> needs_adding h' info'"
proof -
  define h2 where "h2 = set_if (modification_time info \<noteq> st_mtime stats) BH_timestamp_changed
    (set_if (permission_bits info \<noteq> st_mode stats) BH_permissions_changed h)"
  define info2 where "info2 = info\<lparr>permission_bits := st_mode stats, modification_time := st_mtime stats\<rparr>"
  have same: "S info2" by (rule stored_same [OF S info]) (simp_all add: info2_def)
  consider "file_size info \<noteq> st_size stats" "h' = backupHintSet h2 BH_content_changed" "info' = info2\<lparr>file_size := st_size stats\<rparr>"
    | "file_size info > 0" "checkFileContentChanges sys path stats (h2, info2) = Inr (h', info')"
    | "info' = info2"
    using run by (auto simp: applyRegularChanges_def Let_def h2_def info2_def split: if_splits)
  then show ?thesis
  proof cases
    case 1
    then show ?thesis using stored_empty [OF S, of info'] by (auto simp: needs_adding_def word_gt_0)
  next
    case 2
    then have "0 < file_size info2" by (simp add: info2_def)
    with 2(2) same show ?thesis
      by (auto simp: checkFileContentChanges_def bindE_eq_Inr Let_def needs_adding_def split: if_splits)
  qed (use same in simp)
qed

lemma node_changes_covered:
  assumes S: "stored_pred S" and st: "state_stored S st" and h: "quiet h"
    and t: "st_type (sr_stats result) \<noteq> Other_file"
    and run: "handleNodeChanges sys path result (h, st) = Inr (h', st')"
  shows "state_covered S h' st'"
proof -
  let ?stats = "sr_stats result"
  define h1 where "h1 = handleFiletypeChanges st (st_type ?stats) h"
  consider "backupHintNoPol h1 = BH_none" "applyNodeChanges sys path ?stats (h1, st) = Inr (h', st')"
    | "backupHintNoPol h1 \<noteq> BH_none" "setPathHistoryState sys st result = Inr st'" "h' = h1"
    | "backupHintNoPol h1 \<noteq> BH_none" "st' = st"
    using run by (auto simp: handleNodeChanges_def Let_def bindE_eq_Inr h1_def [symmetric] split: if_splits)
  then show ?thesis
  proof cases
    case 1
    show ?thesis
    proof (cases st)
      case (PST_regular_file uid gid info)
      with 1 obtain h2 info' uid' gid' where R: "applyRegularChanges sys path ?stats (h2, info) = Inr (h', info')"
          "st' = PST_regular_file uid' gid' info'"
        by (auto simp: applyNodeChanges_def bindE_eq_Inr Let_def)
      have old: "S info" using st PST_regular_file by simp
      have "S info' \<or> needs_adding h' info'" by (rule regular_changes_covered [OF S old R(1)])
      with R(2) show ?thesis by (auto simp: state_covered_def)
    next
      case (PST_symlink uid gid target)
      with 1 show ?thesis
        by (auto simp: applyNodeChanges_def applySymlinkChanges_def bindE_eq_Inr Let_def state_covered_def
            split: if_splits intro: target_stored)
    qed (use 1 in \<open>auto simp: applyNodeChanges_def Let_def state_covered_def split: prod.splits\<close>)
  next
    case 2
    have "backupHintNoPol h1 \<in> {BH_added, BH_symlink_to_regular, BH_directory_to_regular}"
      if "st_type ?stats = Regular_file"
      using 2(1) h that by (auto simp: h1_def handleFiletypeChanges_def quiet_def split: path_state.splits)
    then show ?thesis using set_state_covered [OF S 2(2) t] 2(3) by blast
  next
    case 3
    then show ?thesis using st by (simp add: state_covered_def)
  qed
qed

lemma covered_found:
  assumes S: "stored_pred S" and run: "handleFoundNode sys md n result = Inr (md', n')"
    and idle: "idle S [n]" and quiet: "quiet (node_hint n)" and t: "st_type (sr_stats result) \<noteq> Other_file"
  shows "head_covered S n' \<and> idle S (node_subnodes n')"
proof -
  from run obtain md1 n1 where P: "handlePolicyChanges md n (sr_policy result) = Inr (md1, n1)"
    and F: "(case node_history n1 of [] \<Rightarrow> Inl Null_pointer | point # older \<Rightarrow>
        found_step sys result md1 (node_path n1) (node_hint n1) (node_policy n1) point older (node_subnodes n1)) = Inr (md', n')"
    by (auto simp: handleFoundNode_policy_first bindE_eq_Inr)
  from idle_policy [OF P idle] quiet have n1: "idle S [n1]" "quiet (node_hint n1)" by auto
  then obtain point older where hist: "node_history n1 = point # older" "state_stored S (state point)" "points_stored S older"
      "idle S (node_subnodes n1)"
    using quiet_live by (cases "node_history n1") (auto simp: idle_Cons)
  from F hist(1) have step: "found_step sys result md1 (node_path n1) (node_hint n1) (node_policy n1) point older (node_subnodes n1) =
      Inr (md', n')" by simp
  have new: "state_covered S h' st'" if "handleNodeChanges sys path result (node_hint n1, state point) = Inr (h', st')" for path h' st'
    by (rule node_changes_covered [OF S hist(2) n1(2) t that])
  have added: "state_covered S (backupHintSet h BH_added) st'" if "setPathHistoryState sys st result = Inr st'" for h st st'
    by (rule set_state_covered [OF S that t]) simp
  show ?thesis
  proof (cases "sr_policy result \<noteq> BPOL_track")
    case True
    with step obtain h' st' where C: "handleNodeChanges sys (node_path n1) result (node_hint n1, state point) = Inr (h', st')"
      "\<exists>r. n' = PathNode (node_path n1) h' (node_policy n1) (\<lparr>point_backup = r, state = st'\<rparr> # older) (node_subnodes n1)"
      by (cases point) (fastforce simp: found_step_def bindE_eq_Inr Let_def reassignPointToCurrent_def split: if_splits)
    with new [OF C(1)] hist(3,4) show ?thesis by (auto intro: head_covered_new)
  next
    case track: False
    show ?thesis
    proof (cases "state point = PST_non_existing")
      case True
      with step track obtain st' where A: "setPathHistoryState sys PST_non_existing result = Inr st'"
        "n' = PathNode (node_path n1) (backupHintSet (node_hint n1) BH_added) (node_policy n1)
           (\<lparr>point_backup = Current, state = st'\<rparr> # point # older) (node_subnodes n1)"
        by (auto simp: found_step_def bindE_eq_Inr buildPathHistoryPoint_def)
      with added [OF A(1)] hist(2-4) show ?thesis by (auto intro: head_covered_new)
    next
      case False
      with step track obtain h' st' where C: "handleNodeChanges sys (node_path n1) result (node_hint n1, state point) = Inr (h', st')"
        "n' = PathNode (node_path n1) h' (node_policy n1) (\<lparr>point_backup = Current, state = st'\<rparr> # point # older) (node_subnodes n1) \<or>
         n' = PathNode (node_path n1) h' (node_policy n1) (point # older) (node_subnodes n1)"
        by (auto simp: found_step_def bindE_eq_Inr split: if_splits)
      have old: "state_covered S h' (state point)" using hist(2) by (simp add: state_covered_def)
      from C(2) new [OF C(1)] old hist(2-4) show ?thesis by (auto intro: head_covered_new)
    qed
  qed
qed

text \<open>A node that was found as a directory is one in its newest state, unless its policy is \<open>none\<close>.\<close>

definition no_file_hint :: "hint \<Rightarrow> bool" where
  "no_file_hint h \<longleftrightarrow> backupHintNoPol h \<noteq> BH_directory_to_regular \<and> backupHintNoPol h \<noteq> BH_directory_to_symlink"

lemma base_distinct:
  "BH_regular_to_directory \<noteq> BH_none" "BH_symlink_to_directory \<noteq> BH_none"
  "BH_none \<noteq> BH_directory_to_regular" "BH_none \<noteq> BH_directory_to_symlink"
  "BH_added \<noteq> BH_directory_to_regular" "BH_added \<noteq> BH_directory_to_symlink"
  "BH_regular_to_directory \<noteq> BH_directory_to_regular" "BH_regular_to_directory \<noteq> BH_directory_to_symlink"
  "BH_symlink_to_directory \<noteq> BH_directory_to_regular" "BH_symlink_to_directory \<noteq> BH_directory_to_symlink"
  by (simp_all add: BH_defs)

lemma quiet_types [simp]:
  "\<not> quiet (backupHintSet h BH_regular_to_directory)" "\<not> quiet (backupHintSet h BH_symlink_to_directory)"
  by (simp_all add: quiet_def base_distinct)

lemma no_file_hint_flag: "change_flag f \<Longrightarrow> no_file_hint (backupHintSet h f)"
  using base_set_flag [of f h] by (auto simp: no_file_hint_def BH_directory_to_regular_def BH_directory_to_symlink_def)

lemma no_file_hint_simps [simp]:
  "quiet h \<Longrightarrow> no_file_hint h" "no_file_hint (backupHintSet h BH_added)"
  "no_file_hint (backupHintSet h BH_regular_to_directory)" "no_file_hint (backupHintSet h BH_symlink_to_directory)"
  by (simp_all add: no_file_hint_def quiet_def base_distinct)

lemma no_file_hint_set_if: "change_flag f \<Longrightarrow> no_file_hint h \<Longrightarrow> no_file_hint (set_if b f h)"
  by (simp add: set_if_def no_file_hint_flag)

lemma node_changes_directory:
  assumes run: "handleNodeChanges sys path result (h, st) = Inr (h', st')" and h: "quiet h"
    and dir: "st_type (sr_stats result) = Directory_file"
  shows "no_file_hint h' \<and> (sr_policy result = BPOL_track \<longrightarrow> st \<noteq> PST_non_existing \<longrightarrow>
    \<not> is_regular_state st' \<and> (quiet h' \<longrightarrow> \<not> is_regular_state st))"
proof (cases st)
  case (PST_directory uid gid info)
  with run h dir show ?thesis
    by (auto simp: handleNodeChanges_def handleFiletypeChanges_def quiet_def applyNodeChanges_def applyDirectoryChanges_def
        is_regular_state_def Let_def intro!: no_file_hint_set_if simp flip: quiet_def)
next
  case (PST_regular_file uid gid info)
  with run h dir show ?thesis
    by (auto simp: handleNodeChanges_def handleFiletypeChanges_def setPathHistoryState_def is_regular_state_def Let_def
        base_distinct quiet_def split: if_splits simp flip: quiet_def)
next
  case (PST_symlink uid gid target)
  with run h dir show ?thesis
    by (auto simp: handleNodeChanges_def handleFiletypeChanges_def setPathHistoryState_def is_regular_state_def Let_def
        base_distinct quiet_def split: if_splits simp flip: quiet_def)
next
  case PST_non_existing
  with run h dir show ?thesis
    by (auto simp: handleNodeChanges_def handleFiletypeChanges_def applyNodeChanges_def quiet_def Let_def)
qed

lemma found_directory:
  assumes run: "handleFoundNode sys md n result = Inr (md', n')" and quiet: "quiet (node_hint n)" "idle S [n]"
    and dir: "st_type (sr_stats result) = Directory_file"
  shows "no_file_hint (node_hint n') \<and> (sr_policy result = BPOL_track \<longrightarrow> \<not> is_regular_state (state (hd (node_history n'))))"
proof -
  from run obtain md1 n1 where P: "handlePolicyChanges md n (sr_policy result) = Inr (md1, n1)"
    and F: "(case node_history n1 of [] \<Rightarrow> Inl Null_pointer | point # older \<Rightarrow>
        found_step sys result md1 (node_path n1) (node_hint n1) (node_policy n1) point older (node_subnodes n1)) = Inr (md', n')"
    by (auto simp: handleFoundNode_policy_first bindE_eq_Inr)
  have h: "quiet (node_hint n1)" using idle_policy [OF P quiet(2)] quiet(1) by blast
  from F obtain point older where hist: "node_history n1 = point # older"
    and step: "found_step sys result md1 (node_path n1) (node_hint n1) (node_policy n1) point older (node_subnodes n1) =
      Inr (md', n')" by (auto split: list.splits)
  show ?thesis
  proof (cases "sr_policy result = BPOL_track \<and> state point = PST_non_existing")
    case True
    with step dir show ?thesis
      by (auto simp: found_step_def bindE_eq_Inr buildPathHistoryPoint_def setPathHistoryState_def is_regular_state_def Let_def)
  next
    case False
    with step obtain h' st' where C: "handleNodeChanges sys (node_path n1) result (node_hint n1, state point) = Inr (h', st')"
      by (auto simp: found_step_def bindE_eq_Inr split: if_splits)
    have "node_hint n' = h' \<and> (sr_policy result = BPOL_track \<longrightarrow>
        state (hd (node_history n')) = st' \<or> quiet h' \<and> state (hd (node_history n')) = state point)"
      using step C False by (auto simp: found_step_def bindE_eq_Inr Let_def quiet_def split: if_splits)
    with node_changes_directory [OF C h dir] False show ?thesis by auto
  qed
qed

section \<open>The recursion\<close>

lemma head_covered_subnodes [simp]: "head_covered S (with_subnodes subs n) = head_covered S n"
proof (cases n)
  case (PathNode path h pol hist subs')
  then show ?thesis by (simp add: head_covered_def old_points_def new_file_subs [of path h pol hist subs' subs])
qed

lemma take_covered:
  assumes S: "stored_pred S" and take: "takeNode sys result md nl = Inr (md', before, node, after)"
    and "ready K seen nl" "sr_path result \<notin> seen" "covered S nl" and t: "st_type (sr_stats result) \<noteq> Other_file"
  shows "covered S before \<and> covered S after \<and> head_covered S node \<and> idle S (node_subnodes node) \<and>
    (st_type (sr_stats result) = Directory_file \<longrightarrow> no_file_hint (node_hint node) \<and>
      (sr_policy result = BPOL_track \<longrightarrow> \<not> is_regular_state (state (hd (node_history node)))))"
proof (cases "sr_path result \<in> set (path_table md)")
  case False
  with take obtain st where st: "setPathHistoryState sys PST_non_existing result = Inr st" and
    R: "before = []" "after = nl"
      "node = PathNode (sr_path result) BH_added (sr_policy result) [\<lparr>point_backup = Current, state = st\<rparr>] []"
    by (auto simp: takeNode_def bindE_eq_Inr buildPathHistoryPoint_def)
  have base: "backupHintNoPol BH_added = BH_added" by (simp add: backupHintNoPol_def BH_added_def)
  have "head_covered S node" unfolding R(3)
    by (rule head_covered_new) (use set_state_covered [OF S st t] base in auto)
  moreover have "st_type (sr_stats result) = Directory_file \<longrightarrow> no_file_hint BH_added \<and> \<not> is_regular_state st"
    using st by (auto simp: setPathHistoryState_def Let_def is_regular_state_def no_file_hint_def base base_distinct)
  ultimately show ?thesis using R assms(5) by simp
next
  case True
  with take obtain old where drop: "dropWhile (\<lambda>n. node_path n \<noteq> sr_path result) nl = old # after"
    and F: "handleFoundNode sys md old result = Inr (md', node)"
    and before: "before = takeWhile (\<lambda>n. node_path n \<noteq> sr_path result) nl"
    by (auto simp: takeNode_def bindE_eq_Inr split: list.splits)
  have nl: "nl = before @ old # after" using takeWhile_dropWhile_id [of _ nl] before drop by metis
  have "node_path old = sr_path result"
    using hd_dropWhile [of "\<lambda>n. node_path n \<noteq> sr_path result" nl] drop by simp
  with assms(3,4) nl have "fresh_node K old" by simp
  then have none: "node_hint old = BH_none" by (cases old) simp
  have cov: "covered S before" "covered S [old]" "covered S after"
    using assms(5) by (simp_all add: nl covered_Cons)
  note idle = covered_idle [OF cov(2) none]
  show ?thesis
    using cov covered_found [OF S F idle _ t] found_directory [OF F _ idle] none by simp
qed

lemma finish_covered:
  assumes run: "finishNode sys sns ig result md node = Inr (md', node')"
    and node: "head_covered S node" "covered S (node_subnodes node)"
    and dir: "if st_type (sr_stats result) = Directory_file then no_file_hint (node_hint node) \<and>
        (sr_policy result = BPOL_track \<longrightarrow> \<not> is_regular_state (state (hd (node_history node))))
      else idle S (node_subnodes node)"
  shows "covered S [node']"
proof -
  from run obtain md1 subs where O: "handleOldSubnodes sys sns ig result md node = Inr (md1, subs)"
    by (auto simp: finishNode_def bindE_eq_Inr)
  have subs: "covered S subs"
  proof (cases "st_type (sr_stats result) = Directory_file")
    case True
    with O dir show ?thesis
      by (auto simp: handleOldSubnodes_def no_file_hint_def split: if_splits intro: covered_not_found [OF _ node(2)])
  next
    case False
    with dir have idle: "idle S (node_subnodes node)" by simp
    from O consider ext where "markNodesAsRemoved md (node_subnodes node) ext = Inr (md1, subs)"
      | "subs = snd (wipeNodes md (node_subnodes node))"
      | "handleNotFoundSubnodes sys sns ig md (sr_node result) (sr_policy result) (node_subnodes node) = Inr (md1, subs)"
      by (auto simp: handleOldSubnodes_def split: if_splits)
    then show ?thesis
      using covered_mark(2) [OF idle] covered_wipe(2) [OF node(2), of md] covered_not_found [OF _ node(2)] by cases auto
  qed
  define n1 where "n1 = with_subnodes subs node"
  obtain md2 n2 where P: "(if sr_policy result = BPOL_none \<and> \<not> list_ex is_part_of_repository subs
      then prepareNodeForWiping md1 n1 else (md1, n1)) = (md2, n2)" by fastforce
  have n2: "head_covered S n2" "node_subnodes n2 = subs"
    using P node(1) prepare_head [of S n1 md1 md2 n2] by (auto simp: n1_def split: if_splits)
  have node': "node' = (if node_hint n2 = BH_none then with_hint (backupHintSet (node_hint n2) BH_unchanged) n2 else n2)"
    using run O P [unfolded n1_def] by (auto simp: finishNode_def Let_def)
  have "head_covered S (with_hint h n2)" if "node_hint n2 = BH_none" for h
  proof -
    have "points_stored S (node_history n2)" "node_history n2 \<noteq> []"
      using n2(1) that quiet_old [of n2] quiet_live [OF quiet_none] by (auto simp: head_covered_def)
    then show ?thesis using points_old [of S "with_hint h n2"] by (simp add: head_covered_def)
  qed
  then show ?thesis using n2 subs by (simp add: node' covered_Cons)
qed

definition keeps_covered :: "(file_info \<Rightarrow> bool) \<Rightarrow>
    metadata \<Rightarrow> path_node list \<Rightarrow> search_event list \<Rightarrow> metadata \<Rightarrow> path_node list \<Rightarrow> bool" where
  "keeps_covered S md ns evs md' ns' \<longleftrightarrow> keeps_exact md ns evs md' ns' \<and>
     (\<forall>K seen U. stored_pred S \<longrightarrow> ok_events K seen evs \<longrightarrow> ready K seen ns \<longrightarrow> exact md (nodes_usage ns + U) \<longrightarrow>
        covered S ns \<longrightarrow> covered S ns')"

lemma keeps_covered_found:
  assumes take: "takeNode sys result md nl = Inr (md1, before, node, after)"
    and dir: "if st_type (sr_stats result) = Directory_file then keeps_covered S md1 (node_subnodes node) evs md2 subs
      else md2 = md1 \<and> subs = node_subnodes node \<and> evs = []"
    and fin: "finishNode sys sns ig result md2 (with_subnodes subs node) = Inr (md', node')"
    and t: "st_type (sr_stats result) \<noteq> Other_file"
  shows "keeps_covered S md nl (Found result # evs) md' (before @ node' # after)"
  unfolding keeps_covered_def
proof (intro conjI allI impI)
  have "if st_type (sr_stats result) = Directory_file then keeps_exact md1 (node_subnodes node) evs md2 subs
      else md2 = md1 \<and> subs = node_subnodes node \<and> evs = []"
    using dir by (auto simp: keeps_covered_def split: if_splits)
  from keeps_exact_found [OF take this fin]
  show "keeps_exact md nl (Found result # evs) md' (before @ node' # after)" .
next
  fix K seen U
  assume S: "stored_pred S" and ok: "ok_events K seen (Found result # evs)" and nl: "ready K seen nl"
    and E: "exact md (nodes_usage nl + U)" and cov: "covered S nl"
  from ok [unfolded found_path_ok] have new: "sr_path result \<notin> seen"
    and track: "st_type (sr_stats result) = Directory_file \<and> sr_path result \<in> K \<longrightarrow> sr_policy result = BPOL_track"
    and rest: "ok_events K (insert (sr_path result) seen) evs" by blast+
  note T = take_node_exact [OF take nl new track E]
  note C = take_covered [OF S take nl new cov t]
  let ?U = "head_usage (node_hint node) (node_history node) + nodes_usage before + nodes_usage after + U"
  have E1: "exact md1 (nodes_usage (node_subnodes node) + ?U)" using T(1) by (simp add: node_usage_parts ac_simps)
  have "covered S subs"
  proof (cases "st_type (sr_stats result) = Directory_file")
    case True
    with T(4) have "ready K (insert (sr_path result) seen) (node_subnodes node)"
      by (simp add: ready_def fresh_nodes_all)
    moreover have "covered S (node_subnodes node)" using C idle_covered by blast
    ultimately show ?thesis using dir True S rest E1 unfolding keeps_covered_def by auto
  qed (use dir C idle_covered in auto)
  moreover have "if st_type (sr_stats result) = Directory_file then no_file_hint (node_hint (with_subnodes subs node)) \<and>
        (sr_policy result = BPOL_track \<longrightarrow> \<not> is_regular_state (state (hd (node_history (with_subnodes subs node)))))
      else idle S (node_subnodes (with_subnodes subs node))"
    using C dir by auto
  ultimately have "covered S [node']" using finish_covered [OF fin] C by simp
  with C show "covered S (before @ node' # after)" by (simp add: covered_Cons)
qed

lemma keeps_covered_skip: "keeps_covered S md ns evs md ns"
  by (simp add: keeps_covered_def keeps_exact_skip)

lemma keeps_covered_trans:
  assumes "keeps_covered S md ns evs md1 ns1" "keeps_covered S md1 ns1 evs1 md2 ns2"
  shows "keeps_covered S md ns (evs @ evs1) md2 ns2"
  unfolding keeps_covered_def
proof (intro conjI allI impI)
  show "keeps_exact md ns (evs @ evs1) md2 ns2"
    using keeps_exact_trans assms unfolding keeps_covered_def by blast
next
  fix K seen U
  assume A: "stored_pred S" "ok_events K seen (evs @ evs1)" "ready K seen ns" "exact md (nodes_usage ns + U)" "covered S ns"
  have E: "keeps_exact md ns evs md1 ns1" using assms(1) by (simp add: keeps_covered_def)
  from A(2) have ok: "ok_events K seen evs" "ok_events K (seen \<union> set (found_paths evs)) evs1"
    by (simp_all add: ok_events_append)
  from E [unfolded keeps_exact_def, rule_format, OF ok(1) A(3,4)]
  have R: "ready K (seen \<union> set (found_paths evs)) ns1" "exact md1 (nodes_usage ns1 + U)" by blast+
  from assms(1) A ok(1) have "covered S ns1" unfolding keeps_covered_def by blast
  with assms(2) A(1) ok(2) R show "covered S ns2" unfolding keeps_covered_def by blast
qed

interpretation contents: event_relation sys "keeps_covered S"
proof
  show "keeps_covered S md ns evs md ns" for md ns evs by (rule keeps_covered_skip)
  show "keeps_covered S md ns evs md1 ns1 \<Longrightarrow> keeps_covered S md1 ns1 evs1 md2 ns2 \<Longrightarrow>
      keeps_covered S md ns (evs @ evs1) md2 ns2" for md ns evs md1 ns1 evs1 md2 ns2
    by (rule keeps_covered_trans)
qed (rule keeps_covered_found; assumption)

lemma idle_stored:
  "fresh_nodes K ns \<Longrightarrow> list_all (\<lambda>n. node_history n \<noteq> [] \<and> points_stored S (node_history n)) (flatten ns) \<Longrightarrow> idle S ns"
  by (induction S ns rule: idle.induct) auto

lemma covered_flatten:
  "covered S ns \<Longrightarrow> list_all (\<lambda>n. node_history n \<noteq> [] \<and> (is_part_of_repository n \<longrightarrow> points_stored S (old_points n))) (flatten ns)"
  by (induction S ns rule: covered.induct) (auto simp: head_covered_def live_def is_part_of_repository_def)

text \<open>
  C3: nothing gets lost between the two halves of a backup. If the contents of all states in the
  metadata are stored before, then after \<open>initiateBackup()\<close> the contents of every state of a
  node in the repository are stored, or it is the newest state of a node that is marked so that \<open>finishBackup()\<close>
  will store it. This holds for every notion \<open>S\<close> of being stored that depends on hash, size and slot and
  includes empty files. It needs what the exact counters need: the search reports no path twice, and a tracked path with
  leftover subnodes is not found as a directory under another policy.
\<close>

theorem initiateBackup_covers:
  assumes "stored_pred S" and "searchNew sys tree = Inr it" and "runSearch n sys it = Inr (evs, it')"
    and "distinct (found_paths evs)" and "fresh_nodes K (paths md)"
    and "\<And>result. Found result \<in> set evs \<Longrightarrow> st_type (sr_stats result) = Directory_file \<Longrightarrow>
      sr_path result \<in> K \<Longrightarrow> sr_policy result = BPOL_track"
    and "exact md (nodes_usage (paths md) + U)"
    and "list_all (\<lambda>n. node_history n \<noteq> [] \<and> points_stored S (node_history n)) (flatten (paths md))"
    and "initiateBackup fuel sys md tree = Inr (md', marks)"
  shows "list_all (\<lambda>n. node_history n \<noteq> [] \<and> (is_part_of_repository n \<longrightarrow> points_stored S (old_points n)))
    (flatten (paths md'))"
proof -
  from assms(2,9) obtain md1 nodes it1 md2 nodes' where
      I: "initiateUntil fuel End_of_search sys md (paths md) it = Inr (md1, nodes, it1)"
    and N: "handleNotFoundSubnodes sys (it_nodes it1) (it_ignore it1) md1 (Some 0) (sn_policy (it_nodes it1 ! 0)) nodes =
      Inr (md2, nodes')"
    and md': "md' = md2\<lparr>paths := nodes'\<rparr>"
    by (auto simp: initiateBackup_def bindE_eq_Inr)
  from contents.recursion(2) [OF I, of S] obtain evs1 where E: "emits sys it (evs1 @ [End_of_search]) it1"
      "keeps_covered S md (paths md) (evs1 @ [End_of_search]) md1 nodes" "End_of_search \<notin> set evs1"
    by auto
  from emits_all [OF E(1) refl E(3) assms(3)] have evs: "evs = evs1 @ [End_of_search]" .
  have "ok_events K {} evs" using assms(4,6) by (auto simp: ok_events_def)
  moreover have "ready K {} (paths md)" using assms(5) by (simp add: ready_def fresh_nodes_all)
  moreover have "covered S (paths md)" using idle_stored [OF assms(5,8)] by (rule idle_covered)
  ultimately have "covered S nodes"
    using E(2) assms(1,7) unfolding keeps_covered_def evs by blast
  from covered_flatten [OF covered_not_found [OF N this]] show ?thesis by (simp add: md')
qed

theorem initiateBackup_covers_witness:
  "\<exists>fuel md' marks. initiateBackup fuel example_os example_old example_tree = Inr (md', marks) \<and>
     map node_hint (paths md') = [BH_unchanged] \<and>
     list_all (\<lambda>n. node_history n \<noteq> [] \<and>
       (is_part_of_repository n \<longrightarrow> points_stored (\<lambda>info. file_size info = 0) (old_points n))) (flatten (paths md'))"
proof -
  obtain it n evs it' where S: "searchNew example_os example_tree = Inr it"
      "runSearch n example_os it = Inr (evs, it')" and evs: "found_paths evs = [''/a'', ''/a/f'']"
    using example_search by (elim exE conjE)
  obtain fuel md' marks where I: "initiateBackup fuel example_os example_old example_tree = Inr (md', marks)"
      and R: "map node_hint (paths md') = [BH_unchanged]"
    using example_initiate by (elim exE conjE)
  have P: "stored_pred (\<lambda>info. file_size info = 0)" by (simp add: stored_pred_def)
  have D: "distinct (found_paths evs)" by (simp add: evs)
  have F: "fresh_nodes {} (paths example_old)" by (simp add: example_old_def)
  have "list_all (\<lambda>n. node_history n \<noteq> [] \<and> points_stored (\<lambda>info. file_size info = 0) (node_history n))
      (flatten (paths example_old))"
    by (simp add: example_old_def old_point_def example_file_def)
  from initiateBackup_covers [OF P S D F _ example_old_exact this I] I R show ?thesis
    by (intro exI [of _ fuel] exI [of _ md'] exI [of _ marks]) simp
qed

end
