(* ===== verification/Written_States.thy ===== *)
theory Written_States
  imports Metadata_Roundtrip
begin

text \<open>
  What the metadata file does not hold of a file state: \<open>writeFileInfo()\<close> leaves out the slot of a small
  file and the bytes of the hash buffer behind its contents. After a file has shrunk, these hold what
  they held before. Cleaning a state removes them; it changes nothing of what is written.
\<close>

definition clean_info :: "file_info \<Rightarrow> file_info" where
  "clean_info info =
     (if unat (file_size info) > FILE_HASH_SIZE then info
      else info\<lparr>file_hash := take (unat (file_size info)) (file_hash info), slot := 0\<rparr>)"

fun clean_state :: "path_state \<Rightarrow> path_state" where
  "clean_state (PST_regular_file uid gid info) = PST_regular_file uid gid (clean_info info)"
| "clean_state st = st"

definition clean_point :: "path_history \<Rightarrow> path_history" where
  "clean_point p = \<lparr>point_backup = point_backup p, state = clean_state (state p)\<rparr>"

fun clean_nodes :: "path_node list \<Rightarrow> path_node list" where
  "clean_nodes [] = []"
| "clean_nodes (PathNode path h pol hist subs # nodes) =
     PathNode path h pol (map clean_point hist) (clean_nodes subs) # clean_nodes nodes"

definition clean_node :: "path_node \<Rightarrow> path_node" where
  "clean_node n = hd (clean_nodes [n])"

lemma clean_node_PathNode [simp]:
  "clean_node (PathNode path h pol hist subs) = PathNode path h pol (map clean_point hist) (clean_nodes subs)"
  by (simp add: clean_node_def)

lemma clean_node_simps [simp]:
  "node_path (clean_node n) = node_path n" "node_hint (clean_node n) = node_hint n"
  "node_policy (clean_node n) = node_policy n" "node_history (clean_node n) = map clean_point (node_history n)"
  by (cases n; simp)+

definition clean_metadata :: "metadata \<Rightarrow> metadata" where
  "clean_metadata md = md\<lparr>paths := clean_nodes (paths md)\<rparr>"

lemma clean_point_simps [simp]: "point_backup (clean_point p) = point_backup p" "state (clean_point p) = clean_state (state p)"
  by (simp_all add: clean_point_def)

lemma clean_info_simps [simp]:
  "permission_bits (clean_info info) = permission_bits info" "modification_time (clean_info info) = modification_time info"
  "file_size (clean_info info) = file_size info"
  by (simp_all add: clean_info_def)

lemma clean_nodes_map: "clean_nodes nodes = map clean_node nodes"
  by (induction nodes rule: clean_nodes.induct) simp_all

lemma part_same: "is_part_of_repository (PathNode p h pol hist subs) \<longleftrightarrow> is_part_of_repository (PathNode p h pol hist' subs')"
  by (simp add: is_part_of_repository_def)

lemma written_points_clean: "written_points (clean_nodes nodes) = map clean_point (written_points nodes)"
proof (induction nodes rule: clean_nodes.induct)
  case (2 path h pol hist subs nodes)
  then show ?case using part_same [of path h pol "map clean_point hist" "clean_nodes subs" hist subs] by simp
qed simp

lemma nodes_ok_clean: "nodes_ok (\<lambda>_. True) parent (clean_nodes nodes) = nodes_ok (\<lambda>_. True) parent nodes"
proof (induction nodes arbitrary: parent rule: clean_nodes.induct)
  case (2 path h pol hist subs nodes)
  then show ?case using part_same [of path h pol "map clean_point hist" "clean_nodes subs" hist subs]
    by (simp add: list_all_iff)
qed simp

section \<open>Nothing of it is written\<close>

lemma write_clean_info: "writeFileInfo E (clean_info info) = writeFileInfo E info"
  by (simp add: writeFileInfo_def clean_info_def)

lemma write_clean_state: "writePathState E (clean_state st) = writePathState E st"
  by (cases st) (simp_all add: writePathState_def write_clean_info path_state_type_def)

lemma backup_of_clean [simp]: "backup_of (clean_metadata md) r = backup_of md r"
  by (cases r) (simp_all add: backup_of_def clean_metadata_def)

lemma write_clean_point: "writePoint E (clean_metadata md) (clean_point p) = writePoint E md p"
  by (simp add: writePoint_def write_clean_state)

lemma writePoint_clean_metadata: "writePoint E (clean_metadata md) = writePoint E md"
  by (simp add: writePoint_def fun_eq_iff)

lemma foldE_map: "foldE g (map f xs) = foldE (\<lambda>x. g (f x)) xs"
proof (induction xs)
  case (Cons x xs)
  show ?case by (rule ext) (simp add: Cons.IH)
qed (simp add: fun_eq_iff)

lemma countElements_map [simp]: "countElements (map f xs) = countElements xs"
  by (simp add: countElements_def foldE_map)

lemma writeEach_map: "writeEach w (map f xs) = writeEach (w \<circ> f) xs"
  by (simp add: writeEach_def foldE_map)

lemma write_clean_history:
  "writePathHistoryList E (clean_metadata md) (map clean_point hist) = writePathHistoryList E md hist"
  by (simp add: writePathHistoryList_def writeEach_map comp_def write_clean_point)

lemma write_clean_nodes:
  "writePathList E (clean_metadata md) (clean_nodes nodes) = writePathList E md nodes"
  "writeNodes E (clean_metadata md) (clean_nodes nodes) = writeNodes E md nodes"
proof (induction E md nodes and E md nodes rule: writePathList_writeNodes.induct)
  case (1 E md nodes)
  have "is_part_of_repository (clean_node n) = is_part_of_repository n" for n
    by (simp add: is_part_of_repository_def)
  then have "filter is_part_of_repository (clean_nodes nodes) = map clean_node (filter is_part_of_repository nodes)"
    by (simp add: clean_nodes_map filter_map comp_def)
  then show ?case using 1 by (simp cong: bindE_cong)
next
  case (3 E md path h pol hist subs nodes)
  then show ?case
    using part_same [of path h pol "map clean_point hist" "clean_nodes subs" hist subs]
    by (simp add: write_clean_history)
qed simp

lemma write_clean:
  assumes "metadataWrite E md = Inr (bytes, md')"
  shows "metadataWrite E (clean_metadata md) = Inr (bytes, clean_metadata md')"
proof -
  obtain history n where ids: "updateIds (backup_history md) (if ref_count (current_backup md) > 0 then 1 else 0) = Inr (history, n)"
    using assms by (auto simp: metadataWrite_def bindE_eq_Inr)
  define md2 where "md2 = md\<lparr>backup_history := history\<rparr>"
  have clean: "(clean_metadata md)\<lparr>backup_history := history\<rparr> = clean_metadata md2"
    by (simp add: clean_metadata_def md2_def)
  have fields: "current_backup (clean_metadata md) = current_backup md" "backup_history (clean_metadata md) = backup_history md"
    "current_backup (clean_metadata md2) = current_backup md2" "backup_history (clean_metadata md2) = backup_history md2"
    "config_history (clean_metadata md2) = config_history md2" "total_path_count (clean_metadata md2) = total_path_count md2"
    "paths (clean_metadata md2) = clean_nodes (paths md2)" by (simp_all add: clean_metadata_def)
  have config: "writePathHistoryList E (clean_metadata md2) (config_history md2) = writePathHistoryList E md2 (config_history md2)"
    by (simp add: writePathHistoryList_def writePoint_clean_metadata)
  have "metadataWrite E (clean_metadata md) = bindE (metadataWrite E md) (\<lambda>(bytes, md'). Inr (bytes, clean_metadata md'))"
    unfolding metadataWrite_def fields(1,2) ids bindE_simps prod.case Let_def clean md2_def [symmetric] fields config
      write_clean_nodes(1) bindE_assoc ..
  with assms show ?thesis by simp
qed

end
