(* ===== verification/Run_Example.thy ===== *)
theory Run_Example
  imports Main_Program "HOL-Library.Code_Target_Nat"
begin

text \<open>
  The second half of a backup of one new file of 30 bytes, evaluated: the backup is finished, the metadata
  written and the garbage collected, which removes the file that nothing refers to. Numbers are computed in binary.
\<close>

definition run_metadata :: metadata where
  "run_metadata = finish_metadata\<lparr>current_backup := \<lparr>backup_id = 0, completion_time = 0, ref_count = 1\<rparr>, total_path_count := 1\<rparr>"

definition run_ended :: "nb_outcome \<Rightarrow> bool" where
  "run_ended r \<longleftrightarrow> (case r of
     Ended e s \<Rightarrow> (case files (nb_disk s) ''repo/metadata'' of Some f \<Rightarrow> length (file_data f) = 124 | None \<Rightarrow> False) \<and>
       files (nb_disk s) ''repo/left'' = None
   | Interrupted e \<Rightarrow> False)"

lemma run_example: "run_ended (finishAll main_env_example run_metadata ''repo'' main_state_example)"
  by code_simp

lemma run_example_ended:
  obtains e s' f where "finishAll main_env_example run_metadata ''repo'' main_state_example = Ended e s'"
    "files (nb_disk s') (append_path ''repo'' ''metadata'') = Some f" "3 * length (file_data f) \<le> SIZE_MAX"
    "files (nb_disk s') ''repo/left'' = None"
  using run_example that
  by (auto simp: run_ended_def append_path_def SIZE_MAX_def split: nb_outcome.splits option.splits)

end
