(* ===== verification/Backup_Run.thy ===== *)
theory Backup_Run
  imports Backup_Covers Written_States Run_Example Restore_Snapshot Metadata_Load
begin

text \<open>
  A whole run of the program: what a backup leaves in the repository, and what a later run that loads
  it finds there and restores. The theory composes the results on the single parts.
\<close>

section \<open>Stored states\<close>

text \<open>The contents of a file state are where they belong, with the right hash.\<close>

definition info_stored :: "os \<Rightarrow> string \<Rightarrow> disk \<Rightarrow> file_info \<Rightarrow> bool" where
  "info_stored sys repo d info \<longleftrightarrow>
     (case stored_data repo d info of None \<Rightarrow> False | Some bytes \<Rightarrow> holds_content sys repo d info bytes)"

definition contents_in :: "os \<Rightarrow> string \<Rightarrow> disk \<Rightarrow> file_info \<Rightarrow> bool" where
  "contents_in sys repo d info \<longleftrightarrow> info_stored sys repo d (clean_info info)"

definition point_stored :: "os \<Rightarrow> string \<Rightarrow> disk \<Rightarrow> path_history \<Rightarrow> bool" where
  "point_stored sys repo d point \<longleftrightarrow> path_state_ok (state point) \<and>
     (case state point of PST_regular_file _ _ info \<Rightarrow> info_stored sys repo d info | _ \<Rightarrow> True)"

definition node_stored :: "os \<Rightarrow> string \<Rightarrow> disk \<Rightarrow> path_node \<Rightarrow> bool" where
  "node_stored sys repo d n \<longleftrightarrow> node_history n \<noteq> [] \<and> list_all (point_stored sys repo d) (node_history n)"

lemma holds_stored_data: "holds_content sys repo d info bytes \<Longrightarrow> stored_data repo d info = Some bytes"
  by (auto simp: holds_content_def stored_data_def split: if_splits)

lemma info_stored_iff: "info_stored sys repo d info \<longleftrightarrow> (\<exists>bytes. holds_content sys repo d info bytes)"
  by (auto simp: info_stored_def holds_stored_data split: option.splits)

lemma holds_clean: "holds_content sys repo d info bytes \<Longrightarrow> holds_content sys repo d (clean_info info) bytes"
  by (auto simp: holds_content_def clean_info_def split: if_splits)

lemma contents_in_pred: "stored_pred (contents_in sys repo d)"
  unfolding stored_pred_def
proof (intro conjI allI impI)
  fix info :: file_info assume "file_size info = 0"
  then have "holds_content sys repo d (clean_info info) []" by (simp add: holds_content_def clean_info_def)
  then show "contents_in sys repo d info" unfolding contents_in_def info_stored_iff by blast
next
  fix info info' :: file_info
  assume A: "contents_in sys repo d info" "file_hash info' = file_hash info" "file_size info' = file_size info" "slot info' = slot info"
  then have "full_path repo info' = full_path repo info" by (simp add: full_path_def stored_path_def)
  moreover from A(1) obtain bytes where "holds_content sys repo d (clean_info info) bytes"
    unfolding contents_in_def info_stored_iff by blast
  ultimately have "holds_content sys repo d (clean_info info') bytes"
    using A(2-4) by (auto simp: holds_content_def clean_info_def split: if_splits)
  then show "contents_in sys repo d info'" unfolding contents_in_def info_stored_iff by blast
qed

lemma contents_in_untouched:
  assumes "contents_in sys repo d info" "untouched tmp d d'" "repository_ok repo tmp d" "hash_of_bytes sys"
  shows "contents_in sys repo d' info"
  using assms holds_untouched [OF _ assms(2-4)] by (auto simp: contents_in_def info_stored_iff)

lemma points_mono:
  assumes "points_stored S hist" "\<And>info. S info \<Longrightarrow> S' info"
  shows "points_stored S' hist"
  using assms by (auto simp: list_all_iff state_stored_def split: path_state.splits)

lemma clean_stored:
  assumes "state_stored (contents_in sys repo d) (state p)" "hash_of_bytes sys"
  shows "point_stored sys repo d (clean_point p)"
proof (cases "state p")
  case (PST_regular_file uid gid info)
  with assms(1) obtain bytes where H: "holds_content sys repo d (clean_info info) bytes"
    by (auto simp: contents_in_def info_stored_iff)
  have len: "length (os_blake2b sys [bytes]) = FILE_HASH_SIZE" using assms(2) by (simp add: hash_of_bytes_def)
  have "file_info_ok (clean_info info)"
  proof (cases "unat (file_size info) > FILE_HASH_SIZE")
    case True
    then have "clean_info info = info" by (simp add: clean_info_def)
    with H True len show ?thesis by (simp add: file_info_ok_def holds_content_def)
  next
    case False
    with H have "length (file_hash (clean_info info)) = unat (file_size info)" by (simp add: holds_content_def)
    moreover have "slot (clean_info info) = 0" using False by (simp add: clean_info_def)
    ultimately show ?thesis using False by (simp add: file_info_ok_def)
  qed
  with H PST_regular_file show ?thesis by (auto simp: point_stored_def path_state_ok_def info_stored_iff)
qed (use assms(1) in \<open>auto simp: point_stored_def path_state_ok_def state_stored_def\<close>)

text \<open>
  What the second half of a backup starts from: exact reference counts, contents that are stored unless
  they are new, and new files that do not change while they are stored.
\<close>

definition backup_ready :: "os \<Rightarrow> string \<Rightarrow> disk \<Rightarrow> metadata \<Rightarrow> bool" where
  "backup_ready sys repo d md \<longleftrightarrow>
     backup_id (current_backup md) = 0 \<and> refs_exact md \<and> nodes_ok (\<lambda>_. True) [] (paths md) \<and>
     list_all (\<lambda>p. path_state_ok (state p)) (config_history md) \<and> list_all (stable_node sys) (flatten (paths md)) \<and>
     list_all (\<lambda>n. node_history n \<noteq> [] \<and> (is_part_of_repository n \<longrightarrow> points_stored (contents_in sys repo d) (old_points n)))
       (flatten (paths md))"

section \<open>What finishing keeps\<close>

text \<open>Finishing a backup, and leaving out what is not written, keeps everything but the contents of file states.\<close>

definition hist_alike :: "path_history list \<Rightarrow> path_history list \<Rightarrow> bool" where
  "hist_alike hist hist' \<longleftrightarrow>
     list_all2 (\<lambda>p p'. point_backup p' = point_backup p \<and> is_dir_state (state p') = is_dir_state (state p)) hist hist'"

fun alike :: "path_node list \<Rightarrow> path_node list \<Rightarrow> bool" where
  "alike [] nodes' \<longleftrightarrow> nodes' = []"
| "alike (PathNode path h pol hist subs # nodes) nodes' \<longleftrightarrow>
     (case nodes' of
        [] \<Rightarrow> False
      | PathNode path' h' pol' hist' subs' # rest \<Rightarrow>
          path' = path \<and> h' = h \<and> pol' = pol \<and> hist_alike hist hist' \<and> alike subs subs' \<and> alike nodes rest)"

lemma hist_alike_refl: "hist_alike hist hist"
  by (simp add: hist_alike_def list_all2_refl)

lemma hist_alike_clean: "hist_alike hist hist' \<Longrightarrow> hist_alike hist (map clean_point hist')"
proof -
  have "is_dir_state (clean_state st) = is_dir_state st" for st by (cases st) (simp_all add: is_dir_state_def)
  then show "hist_alike hist hist' \<Longrightarrow> hist_alike hist (map clean_point hist')"
    by (simp add: hist_alike_def list_all2_map2)
qed

lemma storeNewFile_alike:
  assumes "storeNewFile sys buf repo tmp path h hist d = Inr (hist', d')"
  shows "hist_alike hist hist'"
proof -
  obtain point older where hist: "hist = point # older" using assms by (cases hist) (auto simp: storeNewFile_def)
  show ?thesis
  proof (cases "state point")
    case (PST_regular_file uid gid info)
    with assms have "hist' = hist \<or> (\<exists>info'. hist' = point\<lparr>state := PST_regular_file uid gid info'\<rparr> # older)"
      by (auto simp: storeNewFile_def hist bindE_eq_Inr split: if_splits)
    with PST_regular_file show ?thesis
      by (auto simp: hist hist_alike_def is_dir_state_def list_all2_refl)
  qed (use assms in \<open>simp_all add: storeNewFile_def hist hist_alike_refl\<close>)
qed

lemma alike_cases:
  assumes "alike (PathNode path h pol hist subs # nodes) nodes'"
  obtains hist' subs' rest where "nodes' = PathNode path h pol hist' subs' # rest" "hist_alike hist hist'"
    "alike subs subs'" "alike nodes rest"
  using assms by (auto split: list.splits path_node.splits)

lemma alike_clean: "alike nodes nodes' \<Longrightarrow> alike nodes (clean_nodes nodes')"
proof (induction nodes nodes' rule: alike.induct)
  case (2 path h pol hist subs nodes nodes')
  from "2.prems" show ?case by (rule alike_cases) (use "2.IH" hist_alike_clean in auto)
qed simp

lemma finishRecursively_alike:
  "finishBackupRecursively sys buf repo tmp nodes d = Inr (nodes', d') \<Longrightarrow> alike nodes nodes'"
proof (induction nodes arbitrary: d nodes' d' rule: flatten.induct)
  case (2 path h pol hist subs nodes)
  from "2.prems" obtain hist1 d1 subs1 d2 rest d3 where
    "storeNewFile sys buf repo tmp path h hist d = Inr (hist1, d1)"
    "finishBackupRecursively sys buf repo tmp subs d1 = Inr (subs1, d2)"
    "finishBackupRecursively sys buf repo tmp nodes d2 = Inr (rest, d3)"
    "nodes' = PathNode path h pol hist1 subs1 # rest"
    by (auto simp: bindE_eq_Inr)
  then show ?case using "2.IH" storeNewFile_alike by simp
qed simp

lemma alike_length: "alike nodes nodes' \<Longrightarrow> length (flatten nodes') = length (flatten nodes)"
proof (induction nodes nodes' rule: alike.induct)
  case (2 path h pol hist subs nodes nodes')
  from "2.prems" show ?case by (rule alike_cases) (use "2.IH" in auto)
qed simp

lemma alike_pairs:
  assumes "alike subs subs'" "list_all2 Q (PathNode path h pol hist subs # flatten subs @ flatten nodes)
    (PathNode path h pol hist' subs' # flatten subs' @ flatten rest)"
  shows "Q (PathNode path h pol hist subs) (PathNode path h pol hist' subs')"
    "list_all2 Q (flatten subs) (flatten subs')" "list_all2 Q (flatten nodes) (flatten rest)"
  using assms alike_length [OF assms(1)] by (auto simp: list_all2_append)

lemma hist_alike_backups: "hist_alike hist hist' \<Longrightarrow> map point_backup hist' = map point_backup hist"
  unfolding hist_alike_def by (induction rule: list_all2_induct) simp_all

lemma alike_written: "alike nodes nodes' \<Longrightarrow> map point_backup (written_points nodes') = map point_backup (written_points nodes)"
proof (induction nodes nodes' rule: alike.induct)
  case (2 path h pol hist subs nodes nodes')
  from "2.prems" obtain hist' subs' rest where n: "nodes' = PathNode path h pol hist' subs' # rest" "hist_alike hist hist'"
      "alike subs subs'" "alike nodes rest" by (rule alike_cases)
  then show ?case using "2.IH" hist_alike_backups part_same [of path h pol hist' subs' hist subs] by auto
qed simp

lemma alike_nodes_ok: "alike nodes nodes' \<Longrightarrow> nodes_ok (\<lambda>_. True) parent nodes \<Longrightarrow> nodes_ok (\<lambda>_. True) parent nodes'"
proof (induction nodes nodes' arbitrary: parent rule: alike.induct)
  case (2 path h pol hist subs nodes nodes')
  from "2.prems"(1) obtain hist' subs' rest where n: "nodes' = PathNode path h pol hist' subs' # rest" "hist_alike hist hist'"
      "alike subs subs'" "alike nodes rest" by (rule alike_cases)
  then show ?case
    using "2.IH" "2.prems"(2) part_same [of path h pol hist' subs' hist subs] by (auto simp: list_all_iff)
qed simp

lemma alike_placed: "alike nodes nodes' \<Longrightarrow> placed at nodes \<Longrightarrow> placed at nodes' \<and> map last_name nodes' = map last_name nodes"
proof (induction nodes nodes' arbitrary: at rule: alike.induct)
  case (2 path h pol hist subs nodes nodes')
  from "2.prems"(1) obtain hist' subs' rest where n: "nodes' = PathNode path h pol hist' subs' # rest" "hist_alike hist hist'"
      "alike subs subs'" "alike nodes rest" by (rule alike_cases)
  have "placed at nodes" "placed (at @ [snd (split_path path)]) subs" using "2.prems"(2) by (auto simp: Let_def)
  then have "placed at rest" "map last_name rest = map last_name nodes" "placed (at @ [snd (split_path path)]) subs'"
    using "2.IH" n by auto
  moreover from this(2) have "last_name ` set rest = last_name ` set nodes" by (metis list.set_map)
  moreover have "last_name (PathNode path h pol hist' subs') = last_name (PathNode path h pol hist subs)"
    by (simp add: last_name_def)
  ultimately show ?case using "2.prems"(2) n(1) by (simp add: Let_def)
qed simp

lemma kept_alike:
  "alike nodes nodes' \<Longrightarrow> list_all2 Q (flatten nodes) (flatten nodes') \<Longrightarrow> n \<in> set (kept_nodes nodes) \<Longrightarrow>
   \<exists>n' \<in> set (kept_nodes nodes'). Q n n'"
proof (induction nodes nodes' rule: alike.induct)
  case (2 path h pol hist subs nodes nodes')
  from "2.prems"(1) obtain hist' subs' rest where n: "nodes' = PathNode path h pol hist' subs' # rest" "hist_alike hist hist'"
      "alike subs subs'" "alike nodes rest" by (rule alike_cases)
  note Q = alike_pairs [OF n(3) "2.prems"(2) [unfolded n(1) flatten.simps]]
  note IH = "2.IH"(1) [OF n(1) refl n(3) Q(2)] "2.IH"(2) [OF n(1) refl n(4) Q(3)]
  show ?case using "2.prems"(3) IH Q(1) n(1) by (auto split: if_splits)
qed simp

section \<open>Everything is stored after finishing\<close>

lemma finished_stored:
  assumes "finished sys repo d' n n'" "node_history n \<noteq> []" "hash_of_bytes sys"
    and "points_stored (contents_in sys repo d') (old_points n)"
  shows "points_stored (contents_in sys repo d') (node_history n')"
proof (cases "new_file n")
  case None
  then show ?thesis using assms by (simp add: finished_def old_points_def)
next
  case (Some info)
  with assms(1) obtain uid gid info' bytes where F:
    "node_history n' = (hd (node_history n))\<lparr>state := PST_regular_file uid gid info'\<rparr> # tl (node_history n)"
    "holds_content sys repo d' info' bytes"
    unfolding finished_def Some option.case by blast
  have "contents_in sys repo d' info'"
    unfolding contents_in_def info_stored_iff using holds_clean [OF F(2)] by blast
  then show ?thesis using F(1) assms(4) Some by (simp add: old_points_def)
qed

lemma finished_nonempty: "finished sys repo d n n' \<Longrightarrow> node_history n \<noteq> [] \<Longrightarrow> node_history n' \<noteq> []"
  unfolding finished_def by (cases "new_file n") auto

lemma list_all2_right: "list_all2 P xs ys \<Longrightarrow> y \<in> set ys \<Longrightarrow> \<exists>x \<in> set xs. P x y"
  by (induction rule: list_all2_induct) auto

lemma flatten_clean: "flatten (clean_nodes nodes) = map clean_node (flatten nodes)"
  by (induction nodes rule: clean_nodes.induct) simp_all

text \<open>A node and what is loaded of it: finished, and then cleaned.\<close>

definition finished_clean :: "os \<Rightarrow> string \<Rightarrow> disk \<Rightarrow> path_node \<Rightarrow> path_node \<Rightarrow> bool" where
  "finished_clean sys repo d n n' \<longleftrightarrow> (\<exists>n1. finished sys repo d n n1 \<and> n' = clean_node n1)"

lemma finishBackup_all_stored:
  assumes hash: "hash_of_bytes sys" and ok: "repository_ok repo tmp d" and ready: "backup_ready sys repo d md"
    and run: "finishBackup sys buf repo tmp now md d = Inr (md1, d1)"
  shows "repository_ok repo tmp d1" "alike (paths md) (paths md1)"
    and "list_all2 (finished sys repo d1) (flatten (paths md)) (flatten (paths md1))"
    and "list_all (\<lambda>n. node_history n \<noteq> [] \<and> (is_part_of_repository n \<longrightarrow> points_stored (contents_in sys repo d1) (node_history n)))
      (flatten (paths md1))"
    and "md1 = md\<lparr>paths := paths md1, current_backup := (current_backup md)\<lparr>completion_time := now\<rparr>\<rparr>"
proof -
  have ready: "list_all (stable_node sys) (flatten (paths md))" "list_all (\<lambda>n. node_history n \<noteq> []) (flatten (paths md))"
    "list_all (\<lambda>n. is_part_of_repository n \<longrightarrow> points_stored (contents_in sys repo d) (old_points n)) (flatten (paths md))"
    using ready unfolding backup_ready_def list_all_iff by blast+
  note R = finishRecursively_ok [OF hash ok ready(1,2), of buf]
  from run obtain nodes where nodes: "finishBackupRecursively sys buf repo tmp (paths md) d = Inr (nodes, d1)"
      "md1 = md\<lparr>paths := nodes, current_backup := (current_backup md)\<lparr>completion_time := now\<rparr>\<rparr>"
    by (auto simp: finishBackup_def bindE_eq_Inr)
  have new: "paths md1 = nodes" using nodes(2) by simp
  have keep: "untouched tmp d d1" using R unfolding nodes(1) by simp
  show "repository_ok repo tmp d1" "alike (paths md) (paths md1)"
    and fin: "list_all2 (finished sys repo d1) (flatten (paths md)) (flatten (paths md1))"
    using R finishRecursively_alike [OF nodes(1)] unfolding nodes(1) new by simp_all
  show "md1 = md\<lparr>paths := paths md1, current_backup := (current_backup md)\<lparr>completion_time := now\<rparr>\<rparr>"
    unfolding new by (rule nodes(2))
  show "list_all (\<lambda>n. node_history n \<noteq> [] \<and> (is_part_of_repository n \<longrightarrow> points_stored (contents_in sys repo d1) (node_history n)))
      (flatten (paths md1))"
    unfolding list_all_iff [of _ "flatten (paths md1)"]
  proof
    fix n' assume "n' \<in> set (flatten (paths md1))"
    then obtain n where n: "n \<in> set (flatten (paths md))" "finished sys repo d1 n n'"
      using list_all2_right [OF fin] by blast
    then have ne: "node_history n \<noteq> []" using ready(2) by (simp add: list_all_iff)
    have "points_stored (contents_in sys repo d1) (node_history n')" if "is_part_of_repository n'"
    proof -
      have "is_part_of_repository n" using n(2) that by (simp add: is_part_of_repository_def finished_def)
      then have "points_stored (contents_in sys repo d) (old_points n)" using ready(3) n(1) by (simp add: list_all_iff)
      then have "points_stored (contents_in sys repo d1) (old_points n)"
        by (rule points_mono) (rule contents_in_untouched [OF _ keep ok hash])
      then show ?thesis by (rule finished_stored [OF n(2) ne hash])
    qed
    with finished_nonempty [OF n(2) ne]
    show "node_history n' \<noteq> [] \<and> (is_part_of_repository n' \<longrightarrow> points_stored (contents_in sys repo d1) (node_history n'))" by blast
  qed
qed

section \<open>Writing and loading the metadata\<close>

lemma storeMetadata_stored:
  assumes "storeMetadata env md repo tmp mpath d = Inr (md', d')" and "tmp \<noteq> mpath"
  obtains bytes where "metadataWrite (env_host env) md = Inr (bytes, md')"
    "files d' = (files d)(tmp := None, mpath \<mapsto> \<lparr>file_data = bytes, synced = True\<rparr>)" "dirs d' = dirs d"
proof -
  from assms(1) obtain bytes where w: "metadataWrite (env_host env) md = Inr (bytes, md')"
    by (auto simp: storeMetadata_def repoWriterOpenRaw_def createRepoWriter_def bindE_eq_Inr Let_def)
  show thesis
    using that [OF w] assms
    by (auto simp: storeMetadata_def w repoWriterOpenRaw_def createRepoWriter_def repoWriterWrite_def
        repoWriterClose_def Let_def fun_eq_iff)
qed

lemma metadataWrite_paths: "metadataWrite E md = Inr (bytes, md') \<Longrightarrow> paths md' = paths md"
  by (auto simp: metadataWrite_def bindE_eq_Inr Let_def)

lemma finishAll_Ended:
  assumes "finishAll env md repo s = Ended e s'" and "strip_slashes repo = repo"
  obtains md1 d1 md2 d2 left stats where
    "finishBackup (env_os env) (env_buffer env) repo (append_path repo ''tmp-file'') (env_now env) md (nb_disk s) = Inr (md1, d1)"
    "storeMetadata env md1 repo (append_path repo ''tmp-file'') (append_path repo ''metadata'') d1 = Inr (md2, d2)"
    "collectGarbageProgress (os_memory (env_os env)) (env_removable env) (env_siphash env) (env_buffer env)
       (fst (env_rands env)) md2 repo (env_listing env d2) = Inr (left, stats)"
    "nb_disk s' = removeFromDisk repo (env_listing env d2) left d2"
  using assms
  by (auto simp: finishAll_def runGC_def changing_def put_out_def Let_def split: sum.splits prod.splits if_splits)

lemma flatten_append: "flatten (xs @ ys) = flatten xs @ flatten ys"
  by (induction xs rule: flatten.induct) simp_all

lemma loaded_from:
  "n' \<in> set (flatten (loaded_nodes f nodes)) \<Longrightarrow>
   \<exists>n \<in> set (kept_nodes nodes). node_path n' = node_path n \<and> node_history n' = map f (node_history n)"
proof (induction nodes rule: written_points.induct)
  case (2 p h pol hist subs ns)
  then show ?case by (auto simp: flatten_append is_part_of_repository_def split: if_splits)
qed simp

lemma kept_loaded:
  "n \<in> set (kept_nodes nodes) \<Longrightarrow>
   \<exists>n' \<in> set (flatten (loaded_nodes f nodes)). node_path n' = node_path n \<and> node_history n' = map f (node_history n)"
proof (induction nodes rule: written_points.induct)
  case (2 p h pol hist subs ns)
  then show ?case by (auto simp: flatten_append is_part_of_repository_def split: if_splits)
qed simp

lemma kept_flatten: "n \<in> set (kept_nodes nodes) \<Longrightarrow> n \<in> set (flatten nodes) \<and> is_part_of_repository n"
  by (induction nodes rule: kept_nodes.induct) (auto simp: is_part_of_repository_def split: if_splits)

lemma written_kept: "set (written_points nodes) = (\<Union>n \<in> set (kept_nodes nodes). set (node_history n))"
  by (induction nodes rule: written_points.induct) (auto simp: is_part_of_repository_def)

definition kept_stored :: "os \<Rightarrow> string \<Rightarrow> disk \<Rightarrow> path_node list \<Rightarrow> bool" where
  "kept_stored sys repo d nodes \<longleftrightarrow> list_all (node_stored sys repo d) (kept_nodes nodes)"

lemma node_stored_loaded:
  assumes "kept_stored sys repo d nodes"
  shows "list_all (node_stored sys repo d) (flatten (loaded_nodes (relocate md) nodes))"
  unfolding list_all_iff
proof
  have same: "point_stored sys repo d (relocate md p) = point_stored sys repo d p" for p
    by (simp add: point_stored_def relocate_def)
  fix n' assume "n' \<in> set (flatten (loaded_nodes (relocate md) nodes))"
  then obtain n where "n \<in> set (kept_nodes nodes)" "node_history n' = map (relocate md) (node_history n)"
    using loaded_from by blast
  then show "node_stored sys repo d n'"
    using assms by (auto simp: kept_stored_def node_stored_def list_all_iff same)
qed

lemma holds_metadata:
  assumes "holds_content sys repo d1 info bytes" "hash_of_bytes sys" "repository_ok repo tmp d1"
    and "files d' = (files d1)(tmp := None, append_path repo ''metadata'' \<mapsto> f)"
  shows "holds_content sys repo d' info bytes"
proof -
  have "files d' (full_path repo info) = files d1 (full_path repo info)" if "length (file_hash info) = FILE_HASH_SIZE"
  proof -
    have "stored_path info \<noteq> ''metadata''" using stored_path_props [OF that that] by blast
    then have "full_path repo info \<noteq> append_path repo ''metadata''" by (simp add: full_path_def append_path_def)
    moreover have "full_path repo info \<noteq> tmp" using assms(3) that by (simp add: repository_ok_def)
    ultimately show ?thesis by (simp add: assms(4))
  qed
  then show ?thesis using assms(1,2) by (simp add: holds_content_def hash_of_bytes_def split: if_splits)
qed

lemma kept_clean: "kept_nodes (clean_nodes nodes) = map clean_node (kept_nodes nodes)"
  by (induction nodes rule: clean_nodes.induct) simp_all

lemma clean_kept_stored:
  assumes "list_all (\<lambda>n. node_history n \<noteq> [] \<and> (is_part_of_repository n \<longrightarrow> points_stored (contents_in sys repo d) (node_history n)))
      (flatten nodes)" "hash_of_bytes sys"
  shows "kept_stored sys repo d (clean_nodes nodes)"
  unfolding kept_stored_def kept_clean list_all_iff [of _ "map _ _"]
proof
  fix n' assume "n' \<in> set (map clean_node (kept_nodes nodes))"
  then obtain n where n: "n \<in> set (kept_nodes nodes)" "n' = clean_node n" by auto
  then have "node_history n \<noteq> []" "points_stored (contents_in sys repo d) (node_history n)"
    using kept_flatten [OF n(1)] assms(1) by (auto simp: list_all_iff [of _ "flatten nodes"])
  then show "node_stored sys repo d n'"
    using clean_stored [OF _ assms(2)] by (auto simp: n(2) node_stored_def list_all_iff)
qed

lemma finished_metadata_ok:
  assumes ready: "backup_ready sys repo d md" and alike: "alike (paths md) (paths md1)"
    and md1: "md1 = md\<lparr>paths := paths md1, current_backup := (current_backup md)\<lparr>completion_time := now\<rparr>\<rparr>"
    and stored: "kept_stored sys repo d1 (clean_nodes (paths md1))"
  shows "metadata_ok (clean_metadata md1)"
proof -
  define nodes where "nodes = clean_nodes (paths md1)"
  have clean: "clean_metadata md1 = md\<lparr>paths := nodes, current_backup := (current_backup md)\<lparr>completion_time := now\<rparr>\<rparr>"
    unfolding clean_metadata_def nodes_def by (subst md1) simp
  have alike: "alike (paths md) nodes" unfolding nodes_def by (rule alike_clean [OF alike])
  have R: "backup_id (current_backup md) = 0" "refs_exact md" "nodes_ok (\<lambda>_. True) [] (paths md)"
      "list_all (\<lambda>p. path_state_ok (state p)) (config_history md)"
    using ready by (simp_all add: backup_ready_def)
  have points: "map point_backup (all_points (clean_metadata md1)) = map point_backup (all_points md)"
    using alike_written [OF alike] by (simp add: all_points_def clean)
  have refs: "all_refs (clean_metadata md1) = all_refs md" by (simp add: all_refs_def clean)
  have "ref_count (backup_of (clean_metadata md1) r) = ref_count (backup_of md r)" for r
    unfolding clean by (cases r) (simp_all add: backup_of_def)
  then have "refs_exact (clean_metadata md1)" using R(2) by (simp add: refs_exact_def points refs)
  moreover have "path_state_ok (state p)" if "p \<in> set (written_points nodes)" for p
  proof -
    from that obtain n where "n \<in> set (kept_nodes nodes)" "p \<in> set (node_history n)"
      unfolding written_kept by blast
    then show ?thesis using stored unfolding nodes_def kept_stored_def
      by (auto simp: list_all_iff node_stored_def point_stored_def)
  qed
  ultimately show ?thesis
    using R alike_nodes_ok [OF alike R(3)]
    by (simp add: metadata_ok_def all_points_def list_all_iff) (auto simp: clean)
qed

section \<open>What the garbage collector leaves\<close>

text \<open>The files that the nodes in the repository need are the same on both disks.\<close>

definition keeps_data :: "string \<Rightarrow> disk \<Rightarrow> disk \<Rightarrow> path_node list \<Rightarrow> bool" where
  "keeps_data repo d d' nodes \<longleftrightarrow>
     (\<forall>n \<in> set (kept_nodes nodes). \<forall>p \<in> set (node_history n). \<forall>info. stored_info p = Some info \<longrightarrow>
        files d' (full_path repo info) = files d (full_path repo info))"

lemma stored_info_clean: "stored_info (clean_point p) = stored_info p"
  by (cases "state p") (simp_all add: stored_info_def clean_info_def)

lemma hashes_ok_clean: "hashes_ok (map clean_point hist) \<longleftrightarrow> hashes_ok hist"
  by (induction hist) (simp_all add: stored_info_clean)

lemma keeps_data_clean: "keeps_data repo d d' (clean_nodes nodes) \<longleftrightarrow> keeps_data repo d d' nodes"
  by (simp add: keeps_data_def kept_clean stored_info_clean)

lemma keeps_data_same:
  assumes "keeps_data repo d d' nodes" "n \<in> set (kept_nodes nodes)" "p \<in> set (node_history n)"
    and "state p = PST_regular_file uid gid info"
  shows "stored_data repo d' info = stored_data repo d info" "info_stored sys repo d' info = info_stored sys repo d info"
proof -
  have same: "files d' (full_path repo info) = files d (full_path repo info)" if "unat (file_size info) > FILE_HASH_SIZE"
    using assms that by (auto simp: keeps_data_def stored_info_def)
  then show D: "stored_data repo d' info = stored_data repo d info" by (simp add: stored_data_def)
  have "holds_content sys repo d' info bytes = holds_content sys repo d info bytes" for bytes
    using same by (cases "unat (file_size info) = length bytes") (simp_all add: holds_content_def)
  then show "info_stored sys repo d' info = info_stored sys repo d info" by (simp add: info_stored_def D split: option.split)
qed

lemma collected_keeps:
  assumes gc: "collectGarbageProgress avail removable siphash buf rands md repo entries = Inr (left, stats)"
    and stored: "kept_stored sys repo d (clean_nodes (paths md))"
  shows "files (removeFromDisk repo entries left d) (append_path repo ''metadata'') = files d (append_path repo ''metadata'')"
    and "keeps_data repo d (removeFromDisk repo entries left d) (paths md)"
proof -
  have ok: "list_all (\<lambda>n. hashes_ok (node_history n)) (kept_nodes (paths md))"
  proof -
    have "hashes_ok (node_history n)" if "n \<in> set (kept_nodes (paths md))" for n
    proof -
      have "node_stored sys repo d (clean_node n)" using stored that by (simp add: kept_stored_def kept_clean list_all_iff)
      then have "list_all (\<lambda>p. path_state_ok (state p)) (map clean_point (node_history n))"
        by (auto simp: node_stored_def point_stored_def list_all_iff)
      from path_state_ok_hashes [OF this] show ?thesis by (simp add: hashes_ok_clean)
    qed
    then show ?thesis by (simp add: list_all_iff)
  qed
  note keep = collectGarbage_keeps [OF gc ok]
  show "files (removeFromDisk repo entries left d) (append_path repo ''metadata'') = files d (append_path repo ''metadata'')"
    by (rule keep) (simp add: preserved_def)
  show "keeps_data repo d (removeFromDisk repo entries left d) (paths md)"
    unfolding keeps_data_def
  proof (intro ballI allI impI)
    fix n p info assume n: "n \<in> set (kept_nodes (paths md))" "p \<in> set (node_history n)" "stored_info p = Some info"
    then have "info \<in> set (stored_infos (node_history n))"
      by (auto simp: stored_infos_def List.map_filter_def intro!: image_eqI [of _ _ p])
    then have "stored_path info \<in> preserved md" using n(1) by (auto simp: preserved_def files_of_def)
    from keep [OF this, of d] show "files (removeFromDisk repo entries left d) (full_path repo info) = files d (full_path repo info)"
      by (simp add: full_path_def append_path_def)
  qed
qed

lemma keeps_stored: "keeps_data repo d d' nodes \<Longrightarrow> kept_stored sys repo d nodes \<Longrightarrow> kept_stored sys repo d' nodes"
  using keeps_data_same(2)
  by (fastforce simp: kept_stored_def node_stored_def point_stored_def list_all_iff split: path_state.splits)

text \<open>The repository that a finished backup leaves; the disk before the garbage is collected is named, too.\<close>

lemma finishAll_stored:
  assumes run: "finishAll env md repo s = Ended e s'" and dir: "strip_slashes repo = repo"
    and hash: "hash_of_bytes (env_os env)" and ok: "repository_ok repo (append_path repo ''tmp-file'') (nb_disk s)"
    and ready: "backup_ready (env_os env) repo (nb_disk s) md" and hosts: "supported (env_host env) \<and> supported E'"
  obtains mdc bytes d2 where
    "files (nb_disk s') (append_path repo ''metadata'') = Some \<lparr>file_data = bytes, synced = True\<rparr>"
    "3 * length bytes \<le> SIZE_MAX \<longrightarrow> metadataLoad E' mpath bytes = Inr (normalise mdc)"
    "alike (paths md) (paths mdc)" "kept_stored (env_os env) repo (nb_disk s') (paths mdc)"
    "list_all2 (finished_clean (env_os env) repo d2) (flatten (paths md)) (flatten (paths mdc))"
    "keeps_data repo d2 (nb_disk s') (paths mdc)"
proof -
  let ?sys = "env_os env" and ?tmp = "append_path repo ''tmp-file''" and ?mpath = "append_path repo ''metadata''"
  obtain md1 d1 md2 d2 left stats where
    fin: "finishBackup ?sys (env_buffer env) repo ?tmp (env_now env) md (nb_disk s) = Inr (md1, d1)" and
    store: "storeMetadata env md1 repo ?tmp ?mpath d1 = Inr (md2, d2)" and
    gc: "collectGarbageProgress (os_memory ?sys) (env_removable env) (env_siphash env) (env_buffer env)
       (fst (env_rands env)) md2 repo (env_listing env d2) = Inr (left, stats)" and
    disk: "nb_disk s' = removeFromDisk repo (env_listing env d2) left d2"
    by (rule finishAll_Ended [OF run dir])
  note F = finishBackup_all_stored [OF hash ok ready fin]
  note kept = clean_kept_stored [OF F(4) hash]
  note good = finished_metadata_ok [OF ready F(2,5) kept]
  have "?tmp \<noteq> ?mpath" by (simp add: append_path_def)
  from storeMetadata_stored [OF store this] obtain bytes where
    w: "metadataWrite (env_host env) md1 = Inr (bytes, md2)"
      "files d2 = (files d1)(?tmp := None, ?mpath \<mapsto> \<lparr>file_data = bytes, synced = True\<rparr>)" by blast
  note holds = holds_metadata [OF _ hash F(1) w(2)]
  have info: "info_stored ?sys repo d2 info" if "info_stored ?sys repo d1 info" for info
    using that holds unfolding info_stored_iff by blast
  have node: "node_stored ?sys repo d2 n" if "node_stored ?sys repo d1 n" for n
    using that info by (auto simp: node_stored_def point_stored_def list_all_iff split: path_state.splits)
  have finished: "finished ?sys repo d2 n n'" if "finished ?sys repo d1 n n'" for n n'
    using that holds unfolding finished_def by (fastforce split: option.splits)
  have paths: "paths (clean_metadata md1) = clean_nodes (paths md1)" by (simp add: clean_metadata_def)
  have stored: "kept_stored ?sys repo d2 (clean_nodes (paths md1))"
    using kept node unfolding kept_stored_def by (auto simp: list_all_iff)
  note collected = collected_keeps [OF gc, unfolded metadataWrite_paths [OF w(1)], OF stored, folded disk]
  have keeps: "keeps_data repo d2 (nb_disk s') (clean_nodes (paths md1))"
    using collected(2) by (simp add: keeps_data_clean)
  show thesis
  proof (rule that)
    show "files (nb_disk s') ?mpath = Some \<lparr>file_data = bytes, synced = True\<rparr>" using collected(1) by (simp add: w(2))
    show "3 * length bytes \<le> SIZE_MAX \<longrightarrow> metadataLoad E' mpath bytes = Inr (normalise (clean_metadata md1))"
      using metadataLoad_written [OF hosts good write_clean [OF w(1)]] by blast
    show "alike (paths md) (paths (clean_metadata md1))" unfolding paths by (rule alike_clean [OF F(2)])
    show "kept_stored ?sys repo (nb_disk s') (paths (clean_metadata md1))"
      unfolding paths by (rule keeps_stored [OF keeps stored])
    show "list_all2 (finished_clean ?sys repo d2) (flatten (paths md)) (flatten (paths (clean_metadata md1)))"
      unfolding paths flatten_clean list_all2_map2
      by (rule list_all2_mono [OF F(3)]) (use finished in \<open>auto simp: finished_clean_def\<close>)
    show "keeps_data repo d2 (nb_disk s') (paths (clean_metadata md1))" unfolding paths by (rule keeps)
  qed
qed

section \<open>Restoring what was loaded\<close>

text \<open>The nodes in the repository with the names on the way to them, through directories only.\<close>

fun shown :: "string list \<Rightarrow> path_node list \<Rightarrow> (string list \<times> path_node) list" where
  "shown at [] = []"
| "shown at (PathNode path h pol hist subs # nodes) =
     (if is_part_of_repository (PathNode path h pol hist subs) then
        (at @ [snd (split_path path)], PathNode path h pol hist subs) #
        (if is_dir_state (state (hd hist)) then shown (at @ [snd (split_path path)]) subs else [])
      else []) @ shown at nodes"

lemma hist_alike_dir: "hist_alike hist hist' \<Longrightarrow> is_dir_state (state (hd hist')) = is_dir_state (state (hd hist))"
  by (cases hist; cases hist') (auto simp: hist_alike_def)

lemma shown_alike:
  "alike nodes nodes' \<Longrightarrow> list_all2 Q (flatten nodes) (flatten nodes') \<Longrightarrow> (p, n) \<in> set (shown at nodes) \<Longrightarrow>
   \<exists>n'. (p, n') \<in> set (shown at nodes') \<and> Q n n'"
proof (induction nodes nodes' arbitrary: at rule: alike.induct)
  case (2 path h pol hist subs nodes nodes')
  from "2.prems"(1) obtain hist' subs' rest where n: "nodes' = PathNode path h pol hist' subs' # rest" "hist_alike hist hist'"
      "alike subs subs'" "alike nodes rest" by (rule alike_cases)
  note Q = alike_pairs [OF n(3) "2.prems"(2) [unfolded n(1) flatten.simps]]
  note part = part_same [of path h pol hist' subs' hist subs]
  note IH = "2.IH"(1) [OF n(1) refl n(3) Q(2)] "2.IH"(2) [OF n(1) refl n(4) Q(3)]
  show ?case using "2.prems"(3) IH Q(1) part hist_alike_dir [OF n(2)] n(1)
    by (auto split: if_splits)
qed simp

lemma shown_flatten: "(p, n) \<in> set (shown at nodes) \<Longrightarrow> n \<in> set (flatten nodes)"
  by (induction at nodes rule: shown.induct) (auto split: if_splits)

lemma shown_kept: "(p, n) \<in> set (shown at nodes) \<Longrightarrow> n \<in> set (kept_nodes nodes)"
  by (induction at nodes rule: shown.induct) (auto simp: is_part_of_repository_def split: if_splits)

lemma shown_path: "placed at nodes \<Longrightarrow> (p, n) \<in> set (shown at nodes) \<Longrightarrow> node_path n = join_path p"
  by (induction at nodes rule: shown.induct) (auto simp: Let_def split: if_splits)

lemma loaded_names: "last_name ` set (loaded_nodes f nodes) \<subseteq> last_name ` set nodes"
  by (induction nodes rule: written_points.induct) (auto simp: last_name_def)

lemma placed_append:
  "placed at (xs @ ys) \<longleftrightarrow> placed at xs \<and> placed at ys \<and> last_name ` set xs \<inter> last_name ` set ys = {}"
  by (induction at xs rule: placed.induct) (auto simp: Let_def last_name_def)

lemma placed_loaded: "placed at nodes \<Longrightarrow> placed at (loaded_nodes f nodes)"
proof (induction at nodes rule: placed.induct)
  case (2 at path h pol hist subs nodes)
  have "snd (split_path path) \<notin> last_name ` set (loaded_nodes f nodes)"
    using "2.prems" loaded_names [of f nodes] by (auto simp: Let_def)
  then show ?case using 2 by (auto simp: placed_append Let_def last_name_def)
qed simp

lemma nothing_left_names:
  assumes "map last_name nodes' = map last_name nodes" "nothing_left fs at nodes"
  shows "nothing_left fs at nodes'"
proof -
  have "last_name ` set nodes' = last_name ` set nodes" by (metis assms(1) list.set_map)
  moreover have "nothing_left fs at ns \<longleftrightarrow> (\<forall>name \<in> last_name ` set ns. \<forall>r. map_of fs (at @ name # r) = None)" for ns
    by (simp add: nothing_left_def)
  ultimately show ?thesis using assms(2) by metis
qed

lemma nothing_left_loaded: "nothing_left fs at nodes \<Longrightarrow> nothing_left fs at (loaded_nodes f nodes)"
  using loaded_names [of f nodes] by (fastforce simp: nothing_left_def)

text \<open>The newest backup of loaded metadata has the newest state of every node.\<close>

lemma state_then_0:
  assumes "node_history n \<noteq> []"
  shows "state_then md 0 n = (if state (hd (node_history n)) = PST_non_existing then None else Some (state (hd (node_history n))))"
  using assms by (cases "node_history n") (simp_all add: state_then_def searchExistingPathState_def searchPathState_def)

lemma snapshot_append: "snapshot md i pr data at (xs @ ys) = snapshot md i pr data at xs ++ snapshot md i pr data at ys"
  by (induction xs rule: flatten.induct) simp_all

lemma snapshot_shown:
  assumes "\<And>q. state (f q) = state q"
  shows "placed at nodes \<Longrightarrow> list_all (\<lambda>n. node_history n \<noteq> []) (flatten nodes) \<Longrightarrow> (p, n) \<in> set (shown at nodes) \<Longrightarrow>
    state (hd (node_history n)) = PST_regular_file uid gid info \<Longrightarrow>
    snapshot md 0 pr data at (loaded_nodes f nodes) p = inode_of pr data (PST_regular_file uid gid info)"
proof (induction at nodes rule: shown.induct)
  case (2 at path h pol hist subs nodes)
  let ?name = "snd (split_path path)" and ?n = "PathNode path h pol hist subs"
  let ?loaded = "PathNode path BH_none pol (map f hist) (loaded_nodes f subs)"
  have below: "\<exists>m \<in> set ns. \<exists>r. q = dir @ last_name m # r" if "snapshot md 0 pr data dir ns q \<noteq> None" for dir ns q
    by (rule snapshot_below [OF that])
  have name: "?name \<notin> last_name ` set (loaded_nodes f nodes)"
    using "2.prems"(1) loaded_names [of f nodes] by (auto simp: Let_def)
  have self: "state_then md 0 ?loaded = (if state (hd hist) = PST_non_existing then None else Some (state (hd hist)))"
    using "2.prems"(2) assms by (subst state_then_0) (auto simp: hd_map)
  have reg: "inode_of pr data (PST_regular_file uid gid info) \<noteq> None" by (simp add: inode_of_def)
  have loaded: "loaded_nodes f (?n # nodes) = loaded_nodes f nodes @ (if is_part_of_repository ?n then [?loaded] else [])"
    by simp
  consider "is_part_of_repository ?n" "p = at @ [?name]" "n = ?n"
    | "is_part_of_repository ?n" "is_dir_state (state (hd hist))" "(p, n) \<in> set (shown (at @ [?name]) subs)"
    | "(p, n) \<in> set (shown at nodes)"
    using "2.prems"(3) by (auto split: if_splits)
  then show ?case
  proof cases
    case 1
    then have "snapshot md 0 pr data at [?loaded] p = inode_of pr data (PST_regular_file uid gid info)"
      using self "2.prems"(4) by (simp add: Let_def is_dir_state_def inode_of_def)
    then show ?thesis using 1(1) reg unfolding loaded snapshot_append map_add_def by (auto split: option.splits)
  next
    case 2
    have "placed (at @ [?name]) subs" "list_all (\<lambda>n. node_history n \<noteq> []) (flatten subs)"
      using "2.prems"(1,2) by (auto simp: Let_def)
    from "2.IH"(1) [OF 2(1,2) this 2(3) "2.prems"(4)]
    have sub: "snapshot md 0 pr data (at @ [?name]) (loaded_nodes f subs) p = inode_of pr data (PST_regular_file uid gid info)" .
    then have "p \<noteq> at @ [?name]" using below [where dir = "at @ [?name]" and ns = "loaded_nodes f subs" and q = p] reg by auto
    then have "snapshot md 0 pr data at [?loaded] p = inode_of pr data (PST_regular_file uid gid info)"
      using self 2(2) sub by (auto simp: Let_def is_dir_state_def)
    then show ?thesis using 2(1) reg unfolding loaded snapshot_append map_add_def by (auto split: option.splits)
  next
    case 3
    have "placed at nodes" "list_all (\<lambda>n. node_history n \<noteq> []) (flatten nodes)"
      using "2.prems"(1,2) by (auto simp: Let_def)
    from "2.IH"(2) [OF this 3 "2.prems"(4)]
    have rest: "snapshot md 0 pr data at (loaded_nodes f nodes) p = inode_of pr data (PST_regular_file uid gid info)" .
    with reg below [where dir = at and ns = "loaded_nodes f nodes" and q = p] obtain m r where m: "m \<in> set (loaded_nodes f nodes)" "p = at @ last_name m # r"
      by auto
    have "snapshot md 0 pr data at [?loaded] p = None"
    proof (rule ccontr)
      assume "snapshot md 0 pr data at [?loaded] p \<noteq> None"
      then obtain r' where "p = at @ ?name # r'" using below [where dir = at and ns = "[?loaded]" and q = p] by (auto simp: last_name_def)
      then have "last_name m = ?name" using m(2) by simp
      then show False using m(1) name by (metis imageI)
    qed
    then show ?thesis using rest unfolding loaded snapshot_append map_add_def by auto
  qed
qed simp

lemma point_state_stored:
  assumes "node_stored sys repo d n" "state_then md 0 n = Some (PST_regular_file uid gid info)" "hash_of_bytes sys"
  shows "stored_data repo d info = Some (the (stored_data repo d info)) \<and>
    length (the (stored_data repo d info)) = unat (file_size info) \<and>
    (unat (file_size info) > FILE_HASH_SIZE \<longrightarrow> length (file_hash info) = FILE_HASH_SIZE)"
proof -
  have "node_history n \<noteq> []" using assms(1) by (simp add: node_stored_def)
  then have "state (hd (node_history n)) = PST_regular_file uid gid info" "hd (node_history n) \<in> set (node_history n)"
    using assms(2) by (auto simp: state_then_0 split: if_splits)
  moreover from this(2) have "point_stored sys repo d (hd (node_history n))"
    using assms(1) unfolding node_stored_def list_all_iff by blast
  ultimately have "info_stored sys repo d info" by (simp add: point_stored_def)
  then obtain bytes where "holds_content sys repo d info bytes" unfolding info_stored_iff by blast
  moreover from this have "stored_data repo d info = Some bytes" by (rule holds_stored_data)
  ultimately show ?thesis using assms(3)
    by (simp add: holds_content_def hash_of_bytes_def split: if_splits)
qed

lemma finished_content:
  assumes "finished_clean sys repo d n n'" "new_file n = Some info" "node_history n \<noteq> []"
  shows "\<exists>uid gid info'. state (hd (node_history n')) = PST_regular_file uid gid info' \<and>
    stored_data repo d info' = os_content sys (node_path n) \<and> node_path n' = node_path n \<and>
    permission_bits info' = permission_bits info \<and> modification_time info' = modification_time info"
proof -
  from assms(1) obtain n1 where n1: "finished sys repo d n n1" "n' = clean_node n1" unfolding finished_clean_def by blast
  from n1(1) obtain uid gid info' bytes hash s where F:
    "node_history n1 = (hd (node_history n))\<lparr>state := PST_regular_file uid gid info'\<rparr> # tl (node_history n)"
    "info' = info\<lparr>file_hash := hash, slot := s\<rparr>" "os_content sys (node_path n) = Some bytes"
    "holds_content sys repo d info' bytes" "node_path n1 = node_path n"
    unfolding finished_def assms(2) option.case by blast
  have "stored_data repo d (clean_info info') = os_content sys (node_path n)"
    using holds_stored_data [OF holds_clean [OF F(4)]] F(3) by simp
  with F(1,2,5) n1(2) show ?thesis by simp
qed

lemma collected_content:
  assumes "finished_clean sys repo d n n'" "new_file n = Some info" "node_history n \<noteq> []"
    and "keeps_data repo d d' nodes" "n' \<in> set (kept_nodes nodes)" "node_history n' \<noteq> []"
  shows "\<exists>uid gid info'. state (hd (node_history n')) = PST_regular_file uid gid info' \<and>
    stored_data repo d' info' = os_content sys (node_path n) \<and> node_path n' = node_path n \<and>
    permission_bits info' = permission_bits info \<and> modification_time info' = modification_time info"
proof -
  from finished_content [OF assms(1-3)] obtain uid gid info' where st:
    "state (hd (node_history n')) = PST_regular_file uid gid info'" "stored_data repo d info' = os_content sys (node_path n)"
    "node_path n' = node_path n" "permission_bits info' = permission_bits info" "modification_time info' = modification_time info"
    by blast
  have "stored_data repo d' info' = stored_data repo d info'"
    using assms(6) by (intro keeps_data_same(1) [OF assms(4,5) _ st(1)]) simp
  with st show ?thesis by auto
qed

section \<open>A run of the example\<close>

lemma run_start:
  "strip_slashes ''repo'' = ''repo''" "hash_of_bytes (env_os main_env_example)"
  "repository_ok ''repo'' (append_path ''repo'' ''tmp-file'') (nb_disk main_state_example)"
  "backup_ready (env_os main_env_example) ''repo'' (nb_disk main_state_example) run_metadata"
  "supported (env_host main_env_example) \<and> supported Big_endian"
  "paths run_metadata = [PathNode ''/f'' BH_added BPOL_copy [\<lparr>point_backup = Current, state = PST_regular_file 0 0 finish_info\<rparr>] []]"
  "new_file (PathNode ''/f'' BH_added BPOL_copy [\<lparr>point_backup = Current, state = PST_regular_file 0 0 finish_info\<rparr>] []) = Some finish_info"
  "os_content (env_os main_env_example) ''/f'' = Some (replicate 30 (CHR ''x''))"
proof -
  let ?n = "PathNode ''/f'' BH_added BPOL_copy [\<lparr>point_backup = Current, state = PST_regular_file 0 0 finish_info\<rparr>] []"
  show "strip_slashes ''repo'' = ''repo''" by (simp add: strip_slashes_def)
  have env: "env_os main_env_example = finish_os" "nb_disk main_state_example = left_disk" "env_host main_env_example = Little_endian"
    by (simp_all add: main_env_example_def main_state_example_def)
  show "hash_of_bytes (env_os main_env_example)" using finish_example(1) by (simp add: env)
  have "full_path ''repo'' info \<noteq> ''repo/tmp-file''" "full_path ''repo'' info \<noteq> ''repo''"
    "full_path ''repo'' info \<noteq> ''repo/left''" if "length (file_hash info) = FILE_HASH_SIZE" for info :: file_info
    using long_path [OF that, of "''repo''"] by auto
  then show "repository_ok ''repo'' (append_path ''repo'' ''tmp-file'') (nb_disk main_state_example)"
    by (auto simp: repository_ok_def env left_disk_def finish_disk_def append_path_def)
  show "supported (env_host main_env_example) \<and> supported Big_endian" by (simp add: env supported_def)
  show paths: "paths run_metadata = [?n]" by (simp add: run_metadata_def finish_metadata_def)
  show new: "new_file ?n = Some finish_info"
    by (simp add: new_file_def needs_adding_def finish_info_def backupHintNoPol_def BH_defs)
  show "os_content (env_os main_env_example) ''/f'' = Some (replicate 30 (CHR ''x''))" by (simp add: env finish_os_def)
  have part: "is_part_of_repository ?n" by (simp add: is_part_of_repository_def backupHintNoPol_def BH_defs)
  have "stable_node finish_os ?n" using finish_example(3,4) by (auto simp: stable_node_def new)
  moreover have "refs_exact run_metadata"
    by (simp add: refs_exact_def all_refs_def all_points_def paths part)
      (simp add: run_metadata_def finish_metadata_def metadataNew_def backup_of_def)
  moreover have "nodes_ok (\<lambda>_. True) [] (paths run_metadata)"
  proof -
    have "split_path ''/f'' = ([], ''f'')" "policy_of_byte 1 = BPOL_copy" by code_simp+
    then show ?thesis
      by (simp add: paths part path_ok_def policy_ok_def append_path_def name_ok_def is_dot_element_def)
  qed
  ultimately show "backup_ready (env_os main_env_example) ''repo'' (nb_disk main_state_example) run_metadata"
    by (simp add: backup_ready_def env paths old_points_def new)
      (simp add: run_metadata_def finish_metadata_def metadataNew_def)
qed

section \<open>Properties of a run\<close>

text \<open>
  C2: What a backup leaves: once the program has finished a backup, written the metadata and discarded
  what nothing refers to, whatever the listing of the repository says, the metadata file in the
  repository is synchronised, it loads on every supported host, every state of every node in it has
  its contents in the repository with the right hash, and each file that was new has the
  contents the user's file had.
\<close>

theorem backup_run_stores:
  assumes "finishAll env md repo s = Ended e s'" and "strip_slashes repo = repo"
    and "hash_of_bytes (env_os env)" and "repository_ok repo (append_path repo ''tmp-file'') (nb_disk s)"
    and "backup_ready (env_os env) repo (nb_disk s) md" and "supported (env_host env) \<and> supported E'"
  shows "\<exists>bytes. files (nb_disk s') (append_path repo ''metadata'') = Some \<lparr>file_data = bytes, synced = True\<rparr> \<and>
    (3 * length bytes \<le> SIZE_MAX \<longrightarrow> (\<exists>md'. metadataLoad E' mpath bytes = Inr md' \<and>
      list_all (node_stored (env_os env) repo (nb_disk s')) (flatten (paths md')) \<and>
      (\<forall>n \<in> set (kept_nodes (paths md)). new_file n \<noteq> None \<longrightarrow>
        (\<exists>n' \<in> set (flatten (paths md')). node_path n' = node_path n \<and>
          (\<exists>uid gid info. state (hd (node_history n')) = PST_regular_file uid gid info \<and>
             stored_data repo (nb_disk s') info = os_content (env_os env) (node_path n))))))"
proof -
  obtain md1 bytes d2 where M: "files (nb_disk s') (append_path repo ''metadata'') = Some \<lparr>file_data = bytes, synced = True\<rparr>"
    "3 * length bytes \<le> SIZE_MAX \<longrightarrow> metadataLoad E' mpath bytes = Inr (normalise md1)"
    "alike (paths md) (paths md1)" "kept_stored (env_os env) repo (nb_disk s') (paths md1)"
    "list_all2 (finished_clean (env_os env) repo d2) (flatten (paths md)) (flatten (paths md1))"
    "keeps_data repo d2 (nb_disk s') (paths md1)"
    by (rule finishAll_stored [where mpath = mpath, OF assms])
  have loaded: "paths (normalise md1) = loaded_nodes (relocate md1) (paths md1)" by (simp add: normalise_def)
  have new: "\<exists>n' \<in> set (flatten (paths (normalise md1))). node_path n' = node_path n \<and>
      (\<exists>uid gid info. state (hd (node_history n')) = PST_regular_file uid gid info \<and>
         stored_data repo (nb_disk s') info = os_content (env_os env) (node_path n))"
    if n: "n \<in> set (kept_nodes (paths md))" "new_file n \<noteq> None" for n
  proof -
    obtain n1 where n1: "n1 \<in> set (kept_nodes (paths md1))" "finished_clean (env_os env) repo d2 n n1"
      using kept_alike [OF M(3,5) n(1)] by blast
    have "node_history n \<noteq> []"
      using assms(5) kept_flatten [OF n(1)] by (auto simp: backup_ready_def list_all_iff)
    moreover have ne: "node_history n1 \<noteq> []"
      using M(4) n1(1) by (auto simp: kept_stored_def node_stored_def list_all_iff)
    ultimately obtain uid gid info where
      st: "state (hd (node_history n1)) = PST_regular_file uid gid info" "node_path n1 = node_path n"
        "stored_data repo (nb_disk s') info = os_content (env_os env) (node_path n)"
      using collected_content [OF n1(2) _ _ M(6) n1(1)] n(2) by blast
    obtain n' where n': "n' \<in> set (flatten (loaded_nodes (relocate md1) (paths md1)))" "node_path n' = node_path n1"
        "node_history n' = map (relocate md1) (node_history n1)"
      using kept_loaded [OF n1(1)] by blast
    have "state (hd (node_history n')) = PST_regular_file uid gid info"
      using n'(3) st(1) ne by (simp add: hd_map relocate_def)
    with n'(1,2) st(2,3) show ?thesis unfolding loaded by (intro bexI [of _ n']) auto
  qed
  show ?thesis
    using M(1,2) node_stored_loaded [OF M(4)] new by (intro exI [of _ bytes] conjI impI exI [of _ "normalise md1"])
      (auto simp: loaded)
qed

theorem backup_run_stores_witness:
  "\<exists>e s' bytes md' n' info. finishAll main_env_example run_metadata ''repo'' main_state_example = Ended e s' \<and>
     files (nb_disk s') ''repo/metadata'' = Some \<lparr>file_data = bytes, synced = True\<rparr> \<and>
     metadataLoad Big_endian ''metadata'' bytes = Inr md' \<and> n' \<in> set (flatten (paths md')) \<and> node_path n' = ''/f'' \<and>
     (\<exists>uid gid. state (hd (node_history n')) = PST_regular_file uid gid info) \<and>
     stored_data ''repo'' (nb_disk s') info = Some (replicate 30 (CHR ''x'')) \<and>
     files (nb_disk main_state_example) ''repo/left'' \<noteq> None \<and> files (nb_disk s') ''repo/left'' = None"
proof -
  let ?n = "PathNode ''/f'' BH_added BPOL_copy [\<lparr>point_backup = Current, state = PST_regular_file 0 0 finish_info\<rparr>] []"
  obtain e s' f where run: "finishAll main_env_example run_metadata ''repo'' main_state_example = Ended e s'"
    "files (nb_disk s') (append_path ''repo'' ''metadata'') = Some f" "3 * length (file_data f) \<le> SIZE_MAX"
    "files (nb_disk s') ''repo/left'' = None" by (rule run_example_ended)
  have kept: "?n \<in> set (kept_nodes (paths run_metadata))"
    by (simp add: run_start(6) backupHintNoPol_def BH_defs)
  from backup_run_stores [OF run(1) run_start(1-5), of "''metadata''"] obtain bytes md' where
    B: "files (nb_disk s') (append_path ''repo'' ''metadata'') = Some \<lparr>file_data = bytes, synced = True\<rparr>"
      "metadataLoad Big_endian ''metadata'' bytes = Inr md'"
      "\<forall>n \<in> set (kept_nodes (paths run_metadata)). new_file n \<noteq> None \<longrightarrow>
        (\<exists>n' \<in> set (flatten (paths md')). node_path n' = node_path n \<and>
          (\<exists>uid gid info. state (hd (node_history n')) = PST_regular_file uid gid info \<and>
             stored_data ''repo'' (nb_disk s') info = os_content (env_os main_env_example) (node_path n)))"
    using run(2,3) by auto
  from B(3) [rule_format, OF kept] run_start(7,8) obtain n' uid gid info where
    "n' \<in> set (flatten (paths md'))" "node_path n' = ''/f''" "state (hd (node_history n')) = PST_regular_file uid gid info"
    "stored_data ''repo'' (nb_disk s') info = Some (replicate 30 (CHR ''x''))" by auto
  moreover have "files (nb_disk main_state_example) ''repo/left'' \<noteq> None"
    by (simp add: main_state_example_def left_disk_def finish_disk_def)
  ultimately show ?thesis using run(1,4) B(1,2) by (auto simp: append_path_def)
qed

text \<open>
  C1: A backup can be restored: after the program has finished a backup, written the metadata and collected
  the garbage, the metadata can be loaded, and restoring the newest backup of it to a file system in which none of its files is
  left succeeds and recreates exactly the snapshot in the metadata; a file that was new in the backup is back at
  its path with the contents the user's file had, and with its permissions and its time.
\<close>

theorem backup_then_restore:
  assumes "finishAll env md repo s = Ended e s'" and "strip_slashes repo = repo"
    and "hash_of_bytes (env_os env)" and "repository_ok repo (append_path repo ''tmp-file'') (nb_disk s)"
    and "backup_ready (env_os env) repo (nb_disk s) md" and "supported (env_host env) \<and> supported E'"
    and "files (nb_disk s') (append_path repo ''metadata'') = Some f" and "3 * length (file_data f) \<le> SIZE_MAX"
    and "placed [] (paths md)" and "nothing_left fs [] (paths md)" and "map_of fs [] = Some root" and "ino_kind root = Dir_data"
    and "rc = \<lparr>rc_process = pr, rc_buffer = buf, rc_repo = repo, rc_disk = nb_disk s'\<rparr>"
  shows "\<exists>md' fs'. metadataLoad E' mpath (file_data f) = Inr md' \<and>
    bindE (initiateRestore (reading fs sys) md' 0 []) (\<lambda>md. finishRestore rc md 0 fs) = Inr fs' \<and>
    map_of fs' = (map_of fs)([] \<mapsto> if any_restored md' 0 (paths md') then root\<lparr>ino_mtime := pr_now pr\<rparr> else root) ++
      snapshot md' 0 pr (\<lambda>info. the (stored_data repo (nb_disk s') info)) [] (paths md') \<and>
    (\<forall>(p, n) \<in> set (shown [] (paths md)). \<forall>info. new_file n = Some info \<longrightarrow> node_path n = join_path p \<and>
      (\<exists>inode. map_of fs' p = Some inode \<and> ino_kind inode = Reg_data (the (os_content (env_os env) (node_path n))) \<and>
         ino_mode inode = permission_bits info \<and> ino_mtime inode = modification_time info))"
proof -
  let ?sys = "env_os env" and ?d = "nb_disk s'" and ?data = "\<lambda>info. the (stored_data repo (nb_disk s') info)"
  obtain md1 bytes d2 where M: "files (nb_disk s') (append_path repo ''metadata'') = Some \<lparr>file_data = bytes, synced = True\<rparr>"
    "3 * length bytes \<le> SIZE_MAX \<longrightarrow> metadataLoad E' mpath bytes = Inr (normalise md1)"
    "alike (paths md) (paths md1)" "kept_stored ?sys repo ?d (paths md1)"
    "list_all2 (finished_clean ?sys repo d2) (flatten (paths md)) (flatten (paths md1))"
    "keeps_data repo d2 ?d (paths md1)"
    by (rule finishAll_stored [where mpath = mpath, OF assms(1-6)])
  define md' where "md' = normalise md1"
  have loaded: "paths md' = loaded_nodes (relocate md1) (paths md1)" by (simp add: md'_def normalise_def)
  have nonempty: "list_all (\<lambda>n. node_history n \<noteq> []) (flatten (paths md1))"
    unfolding list_all_iff
  proof
    fix n' assume "n' \<in> set (flatten (paths md1))"
    then obtain n where "n \<in> set (flatten (paths md))" "finished_clean ?sys repo d2 n n'"
      using list_all2_right [OF M(5)] by blast
    then show "node_history n' \<noteq> []"
      using assms(5) finished_nonempty by (auto simp: finished_clean_def backup_ready_def list_all_iff)
  qed
  have load: "metadataLoad E' mpath (file_data f) = Inr md'" using M(1,2) assms(7,8) by (simp add: md'_def)
  have stored: "list_all (node_stored ?sys repo ?d) (flatten (paths md'))"
    unfolding loaded by (rule node_stored_loaded [OF M(4)])
  have here: "placed [] (paths md1)" "map last_name (paths md1) = map last_name (paths md)"
    using alike_placed [OF M(3) assms(9)] by auto
  have gone: "nothing_left fs [] (paths md')" unfolding loaded
    by (rule nothing_left_loaded) (use here(2) assms(10) nothing_left_names in blast)
  have "contents_ok md' 0 rc ?data (flatten (paths md'))"
    using stored point_state_stored [OF _ _ assms(3)]
    by (fastforce simp: contents_ok_def data_ok_def assms(13) list_all_iff)
  moreover have "repo_usable (rc_repo rc)" using assms(4) by (simp add: repo_usable_def repository_ok_def assms(13))
  moreover have "list_all (\<lambda>n. node_history n \<noteq> []) (flatten (paths md'))"
    using stored by (auto simp: list_all_iff node_stored_def)
  ultimately obtain fs' where fs':
    "bindE (initiateRestore (reading fs sys) md' 0 []) (\<lambda>md. finishRestore rc md 0 fs) = Inr fs'"
    "map_of fs' = (map_of fs)([] \<mapsto> if any_restored md' 0 (paths md') then root\<lparr>ino_mtime := pr_now pr\<rparr> else root) ++
      snapshot md' 0 pr ?data [] (paths md')"
    using restore_tree [OF _ _ _ _ gone assms(11,12), of rc 0 ?data sys] placed_loaded [OF here(1), of "relocate md1"]
    by (auto simp: loaded [symmetric] assms(13))
  have "node_path n = join_path p \<and> (\<exists>inode. map_of fs' p = Some inode \<and>
      ino_kind inode = Reg_data (the (os_content ?sys (node_path n))) \<and>
      ino_mode inode = permission_bits info \<and> ino_mtime inode = modification_time info)"
    if pn: "(p, n) \<in> set (shown [] (paths md))" and new: "new_file n = Some info" for p n info
  proof -
    obtain n1 where n1: "(p, n1) \<in> set (shown [] (paths md1))" "finished_clean ?sys repo d2 n n1"
      using shown_alike [OF M(3,5) pn] by blast
    have "node_history n \<noteq> []"
      using assms(5) shown_flatten [OF pn] by (auto simp: backup_ready_def list_all_iff)
    moreover have kept: "n1 \<in> set (kept_nodes (paths md1))" by (rule shown_kept [OF n1(1)])
    moreover have "node_history n1 \<noteq> []" using nonempty kept_flatten [OF kept] by (simp add: list_all_iff)
    ultimately obtain uid gid info' where
      st: "state (hd (node_history n1)) = PST_regular_file uid gid info'"
        "stored_data repo ?d info' = os_content ?sys (node_path n)"
        "permission_bits info' = permission_bits info" "modification_time info' = modification_time info"
      using collected_content [OF n1(2) new _ M(6)] by blast
    have "snapshot md' 0 pr ?data [] (paths md') p = inode_of pr ?data (PST_regular_file uid gid info')"
      unfolding loaded
      by (rule snapshot_shown [OF _ here(1) _ n1(1) st(1)])
        (use nonempty in \<open>auto simp: relocate_def\<close>)
    then show ?thesis using st(2-4) shown_path [OF assms(9) pn]
      by (simp add: fs'(2) map_add_def inode_of_def)
  qed
  with load fs' show ?thesis by blast
qed

theorem backup_then_restore_witness:
  "\<exists>e s' f md' fs' inode. finishAll main_env_example run_metadata ''repo'' main_state_example = Ended e s' \<and>
     files (nb_disk s') ''repo/metadata'' = Some f \<and> metadataLoad Big_endian ''metadata'' (file_data f) = Inr md' \<and>
     bindE (initiateRestore (reading [([], root_example)] finish_os) md' 0 [])
       (\<lambda>md. finishRestore (restore_context_example\<lparr>rc_disk := nb_disk s'\<rparr>) md 0 [([], root_example)]) = Inr fs' \<and>
     map_of fs' [''f''] = Some inode \<and> ino_kind inode = Reg_data (replicate 30 (CHR ''x'')) \<and> ino_mtime inode = 7"
proof -
  let ?n = "PathNode ''/f'' BH_added BPOL_copy [\<lparr>point_backup = Current, state = PST_regular_file 0 0 finish_info\<rparr>] []"
  let ?fs = "[([], root_example)]" and ?pr = "rc_process restore_context_example"
  obtain e s' f where run: "finishAll main_env_example run_metadata ''repo'' main_state_example = Ended e s'"
    "files (nb_disk s') (append_path ''repo'' ''metadata'') = Some f" "3 * length (file_data f) \<le> SIZE_MAX"
    by (rule run_example_ended)
  have split: "split_path ''/f'' = ([], ''f'')" by code_simp
  have "placed [] (paths run_metadata)" "nothing_left ?fs [] (paths run_metadata)"
    by (simp_all add: run_start(6) split join_path_def name_ok_def is_dot_element_def nothing_left_def last_name_def)
  note R = backup_then_restore [OF run(1) run_start(1-5) run(2,3) this, of root_example _ ?pr "([], [])" "''metadata''" finish_os]
  let ?rc = "restore_context_example\<lparr>rc_disk := nb_disk s'\<rparr>"
  have "map_of ?fs [] = Some root_example" "ino_kind root_example = Dir_data"
    "?rc = \<lparr>rc_process = ?pr, rc_buffer = ([], []), rc_repo = ''repo'', rc_disk = nb_disk s'\<rparr>"
    by (simp_all add: root_example_def restore_context_example_def)
  from R [OF this] obtain md' fs' where F: "metadataLoad Big_endian ''metadata'' (file_data f) = Inr md'"
    "bindE (initiateRestore (reading ?fs finish_os) md' 0 []) (\<lambda>md. finishRestore ?rc md 0 ?fs) = Inr fs'"
    "\<forall>(p, n) \<in> set (shown [] (paths run_metadata)). \<forall>info. new_file n = Some info \<longrightarrow> node_path n = join_path p \<and>
      (\<exists>inode. map_of fs' p = Some inode \<and> ino_kind inode = Reg_data (the (os_content (env_os main_env_example) (node_path n))) \<and>
         ino_mode inode = permission_bits info \<and> ino_mtime inode = modification_time info)" by auto
  have "([''f''], ?n) \<in> set (shown [] (paths run_metadata))"
    by (simp add: run_start(6) split is_part_of_repository_def backupHintNoPol_def BH_defs)
  with F(3) run_start(7,8) obtain inode where "map_of fs' [''f''] = Some inode"
    "ino_kind inode = Reg_data (replicate 30 (CHR ''x''))" "ino_mtime inode = 7"
    by (fastforce simp: finish_info_def)
  with run(1,2) F(1,2) show ?thesis by (auto simp: append_path_def)
qed

end
