(* ===== verification/Spec2Isabelle.thy ===== *)
theory Spec2Isabelle
  imports String_Table Metadata_Load Repo_Writer Repo_Lock Backup_Policies Backup_Finish Integrity Garbage_Collector Restore_Snapshot Informations_Counts Main_Program Backup_Run
begin

text \<open>
  A verification library for nano-backup, the program \<open>nb\<close> of \<open>src/*.c\<close>.

  \<^bold>\<open>The program.\<close> A repository is a directory with a configuration, a metadata file and the stored files. The
  command \<open>nb REPO\<close> parses the configuration into a tree of search nodes, loads the metadata, walks the file
  system along the tree, marks in the metadata what is new, changed, removed or lost, prints this, asks for
  consent, stores the new files, writes the metadata and collects the garbage. Other commands check the
  integrity of the stored files, collect garbage, and restore paths as they were at an earlier backup.

  \<^bold>\<open>Conventions.\<close> C functions keep their names; helper definitions that stand for a part of a function or a
  loop have names of their own. Integers of the C types are words of their width with the
  wrap-around of C, except for counts and sizes of type \<open>size_t\<close> that only pass through the checked operations: these are
  \<open>nat\<close> with the same overflow tests. A function that can end the program by \<open>die()\<close> returns a
  value of \<open>nb_error + 'a\<close>, combined by \<open>bindE\<close>; reading through \<open>NULL\<close>, an unbounded recursion and similar are
  errors too (\<open>Null_pointer\<close>, \<open>Endless_recursion\<close>), so that their absence is something to prove. Pointers
  into shared data are indices: a \<open>Backup *\<close> is a reference to the current backup or to an
  element of the history, a \<open>SearchNode *\<close> is a position in the list of nodes, and the functions thread the
  metadata, the nodes and the disk explicitly.

  \<^bold>\<open>Theories, in the order of the dependencies.\<close>

    \<^item> \<open>Prelude\<close>: types, errors, \<open>bindE\<close>, \<open>foldE\<close>, \<open>never\<close> (which errors a result cannot be and what it
      satisfies otherwise), and shared lemmas. \<open>Safe_Math\<close>: \<open>safe-math.c\<close>, exact or an error. \<open>Allocator\<close>: \<open>allocate()\<close>.
    \<^item> \<open>Str\<close>: \<open>str.c\<close> on slices of memory; each function is refined to one on plain strings (\<open>view\<close>),
      among them \<open>split_path\<close>, \<open>append_path\<close> and \<open>join_path\<close>, which the other theories use.
    \<^item> \<open>String_Table\<close>: \<open>string-table.c\<close>; the locale \<open>string_map\<close> is the contract of a map with string keys,
      interpreted on the hash table: a map update, with or without a doubling.
    \<^item> \<open>Metadata_Types\<close>: the records of \<open>metadata.h\<close>, the policies, and the hints of \<open>backup-helpers.c\<close> as words with bit operations.
      \<open>Metadata_IO\<close>: the reader and writer of \<open>metadata.c\<close>, byte by byte. \<open>Metadata_Roundtrip\<close>: the locale \<open>codec\<close>
      is the contract of a writer and a reader of one field; it is interpreted for every field and composed to the
      round trip of the whole file. \<open>Written_States\<close>: what of a state is not written. \<open>Metadata_Load\<close>: the byte order of the host is irrelevant, truncation and
      trailing bytes are reported, loaded metadata satisfies the invariant.
    \<^item> \<open>Repo_Paths\<close>, \<open>Repo_Writer\<close>, \<open>Repo_Lock\<close>: \<open>repository.c\<close>. The path of a stored file is built in its buffer
      byte by byte; a writer is the sequence of file-system operations that it performs, so that the states in
      which it may stop or crash are those after a prefix; the lock protocol of several processes is an inductive step
      relation with the clean-up of a holder as its parameter, which tells that the removal of the lockfile makes the race.
    \<^item> \<open>Search_Tree\<close>: \<open>search-tree.c\<close>; parsing by position equals parsing by lines, policies are those of
      the nearest path above, errors name the first wrong line.
    \<^item> \<open>File_System\<close>: the system calls that the program reads from. \<open>Search\<close>: the iterator of \<open>search.c\<close> with its explicit stack, shown
      equal to a recursive traversal and to end. \<open>File_Hash\<close>: \<open>file-hash.c\<close>.
    \<^item> \<open>Backup_Nodes\<close>, \<open>Backup_Initiate\<close>: \<open>backup-helpers.c\<close> and the first half of \<open>backup.c\<close>.
      The locale \<open>event_relation\<close> is the contract of a relation that the recursion over the search keeps; it is
      interpreted for the exact counters (\<open>Backup_Refs\<close> accounts for references as multisets) and, in
      \<open>Backup_Covers\<close>, for the contents: what is not in the repository is marked. \<open>Backup_Safety\<close> has the well-formed histories and
      that the recursion ends, \<open>Backup_Policies\<close> two changes of policy that lose data. \<open>Backup_Finish\<close>: the second
      half of \<open>backup.c\<close>, with the disk as state.
    \<^item> \<open>Stored_Files\<close>, \<open>Integrity\<close>, \<open>Directory_Trees\<close>, \<open>Garbage_Collector\<close>: \<open>integrity.c\<close> and \<open>garbage-collector.c\<close>, with
      \<open>sRemoveRecursivelyIf()\<close>. The locale \<open>file_check\<close> is the contract of a check of one file, interpreted for
      the counting and for the real pass; the locale \<open>removal\<close> is the contract of the callback that decides what is
      removed, interpreted for the collector and for the callback that removes everything. What the collector
      removes from the tree of entries is taken from the disk of the repository (\<open>removeFromDisk\<close>).
    \<^item> \<open>User_Files\<close>, \<open>Restore\<close>, \<open>Restore_Snapshot\<close>: \<open>restore.c\<close> on an explicit file system with
      directories, files and symbolic links, which paths are resolved through; a change of the owner or of the
      contents clears set-ID bits, as \<open>chown()\<close> and \<open>write()\<close> do.
    \<^item> \<open>Output\<close>, \<open>Console\<close>, \<open>Informations\<close>, \<open>Informations_Counts\<close>: \<open>colors.c\<close>, \<open>informations.c\<close> and the
      wrappers for the terminal, character by character, and the counters of the summary.
    \<^item> \<open>Main_Program\<close>: \<open>nb.c\<close>, every command as the composition of the above, under the lock: the lockfile appears
      on the disk of the repository and is removed at the end. \<open>Backup_Run\<close>: what holds of a whole backup, from the
      files of the user through the garbage collection to a later run that loads the metadata and restores. \<open>Run_Example\<close>
      evaluates one run in full, for the witnesses.

  \<^bold>\<open>Lemmas.\<close> Each component has its invariant (\<open>table_ok\<close>, \<open>metadata_ok\<close>, \<open>exact\<close>, \<open>history_ok\<close>, \<open>repository_ok\<close>,
  \<open>writer_ok\<close>) with the lemmas that its operations preserve it, its functional behaviour including the errors that
  can occur, and its termination. The composition in \<open>Backup_Run\<close> rests on \<open>finishRecursively_ok\<close>, \<open>metadataLoad_written\<close> and
  \<open>restore_tree\<close>. It starts from metadata with \<open>backup_ready\<close>: counts that are exact, states that are stored
  unless they are marked as new, as \<open>initiateBackup_covers\<close> and \<open>initiateBackup_counts_exact\<close> provide them, and new files that do not change while they are read.

  \<^bold>\<open>Parameters.\<close> What is not in \<open>src\<close> is an argument: the results of system calls (record \<open>os\<close>, also with the
  availability of memory), \<open>regcomp()\<close> and \<open>regexec()\<close>, SipHash with its random key, BLAKE2 (a function of the blocks; the hypothesis
  \<open>hash_of_bytes\<close> says that it depends on their concatenation only and has 20 bytes), the byte order of the host, the clock, the old contents of
  uninitialised buffers (\<open>garbage\<close>). which paths of a repository can be
  removed (\<open>removable\<close>). The environment of a run collects them in the record \<open>nb_env\<close>.

  \<^bold>\<open>Bounds and fuel.\<close> The recursions of the parser have one level more than there are nodes, and it is proved
  that this is never used up (\<open>searchTreeParse_returns\<close>). The stack of the search can grow to \<open>max_depth = 2 ^ 50\<close>
  directories before its size overflows; paths have fewer than \<open>PATH_MAX = 4096\<close> bytes, so it never does, and every search ends.
  \<open>initiateBackup\<close> has fuel: if \<open>n\<close> calls exhaust the search then \<open>2 * n + 1\<close> is
  enough, and \<open>initiateBackup_safe\<close> proves that such an amount exists. At most \<open>link_limit = 40\<close> symbolic links are followed,
  as Linux does. Printing the search nodes recurs to a depth of their number.

  \<^bold>\<open>Not modelled.\<close> The libraries in \<open>third-party\<close>, the tests, the build and the text of most error messages. \<open>die()\<close> and
  \<open>dieErrno()\<close> are the error values. Wrappers that only turn a failed call of the C library into a message (opening and closing
  streams, \<open>atexit()\<close>, \<open>rename()\<close> and so on) are modelled where they are used, as operations that may fail or as a result in
  the record \<open>os\<close>. The states of the user's files and of the repository while a command changes them are not described
  when it dies in between (\<open>Interrupted\<close>), except for the single files of a repository (\<open>repoWriter_atomic\<close>). Access rights are not
  modelled, beyond the set-ID bits. The contents of a directory are those at the time it is opened. The two views of a repository, the
  files by path (\<open>disk\<close>) and the tree of its entries that the collector walks, are related by the parameter \<open>env_listing\<close>, a
  function of the disk: \<open>backup_run_stores\<close> and \<open>backup_then_restore\<close> hold for every listing, as the collector never removes a
  path that is preserved. What the program reads from a repository comes from \<open>os\<close>, except for the stored files that are restored. After a
  crash, a rename that was made counts as durable: \<open>Op_sync_dir\<close> has no effect on the disk, so the synchronisation of directories is kept
  in the order of the operations but nothing is proved from it. Memory is a parameter of \<open>allocate()\<close>, of the string table and of the strings that are
  built by \<open>str.c\<close>; the small fixed allocations of the other parts never fail. \<open>setPathHistoryState\<close> gives the undefined hash and slot of
  a new state the values \<open>[]\<close> and 0.
\<close>

end
